(* ===== verification/Go_Prelude.thy ===== *)
theory Go_Prelude
  imports Main "HOL-Library.Word" "HOL-Library.Code_Target_Nat"
begin

text \<open>
  Shared vocabulary of the development: the named theorem collections, the
  result type for Go functions that return an error, and the part of Go's
  standard library \<open>strings\<close> and \<open>strconv\<close> the modelled packages call.

  Go strings are byte sequences and are modelled by \<open>string\<close> (a list of 8-bit
  characters). The case mapping and the white space test are those of Go on
  ASCII text; Go's Unicode tables for characters beyond ASCII are not modelled.
  A \<open>time.Time\<close> is an \<open>int\<close> counting nanoseconds from Go's zero time (January 1,
  year 1 UTC), so the zero value is 0 and \<open>IsZero\<close> is \<open>t = 0\<close>; a
  \<open>time.Duration\<close> is an \<open>int\<close> counting nanoseconds.
\<close>

named_theorems go_defs "definitions of Go standard library functions, unfolded together"
named_theorems go_iff "characterisations of the string tests as equations on lists"

type_synonym time = int
type_synonym duration = int

definition second :: duration where "second = 1000000000"
definition millisecond :: duration where "millisecond = 1000000"
definition minute :: duration where "minute = 60 * second"
definition hour :: duration where "hour = 60 * minute"

text \<open>\<open>Time.Sub\<close> saturates at the bounds of \<open>int64\<close>.\<close>

definition time_Sub :: "time \<Rightarrow> time \<Rightarrow> duration" where
  "time_Sub t u = max (- (2 ^ 63)) (min (2 ^ 63 - 1) (t - u))"

lemma time_Sub_ge: "0 \<le> d \<Longrightarrow> d < 2 ^ 63 \<Longrightarrow> d \<le> time_Sub t u \<longleftrightarrow> d \<le> t - u"
  by (simp add: time_Sub_def le_max_iff_disj)

lemma time_Sub_gt: "0 \<le> d \<Longrightarrow> d < 2 ^ 63 - 1 \<Longrightarrow> d < time_Sub t u \<longleftrightarrow> d < t - u"
  by (simp add: time_Sub_def less_max_iff_disj)

lemma units_pos [simp]: "0 < second" "0 < millisecond" "0 < minute" "0 < hour"
  by (simp_all add: second_def millisecond_def minute_def hour_def)

section \<open>Characters\<close>

definition ord :: "char \<Rightarrow> nat" where "ord c = of_char c"

definition in_range :: "char \<Rightarrow> char \<Rightarrow> char \<Rightarrow> bool" where
  "in_range lo hi c \<longleftrightarrow> ord lo \<le> ord c \<and> ord c \<le> ord hi"

definition is_digit :: "char \<Rightarrow> bool" where "is_digit = in_range CHR ''0'' CHR ''9''"
definition is_lower :: "char \<Rightarrow> bool" where "is_lower = in_range CHR ''a'' CHR ''z''"
definition is_upper :: "char \<Rightarrow> bool" where "is_upper = in_range CHR ''A'' CHR ''Z''"

definition is_alnum :: "char \<Rightarrow> bool" where
  "is_alnum c \<longleftrightarrow> is_lower c \<or> is_digit c"

definition is_space :: "char \<Rightarrow> bool" where
  "is_space c \<longleftrightarrow> ord c \<in> {9, 10, 11, 12, 13, 32}"

definition lower :: "char \<Rightarrow> char" where
  "lower c = (if is_upper c then char_of (ord c + 32) else c)"

definition upper :: "char \<Rightarrow> char" where
  "upper c = (if is_lower c then char_of (ord c - 32) else c)"

lemmas char_defs = ord_def in_range_def is_digit_def is_lower_def is_upper_def
  is_alnum_def is_space_def

lemma ord_char_of [simp]: "n < 256 \<Longrightarrow> ord (char_of n) = n"
  by (simp add: ord_def)

lemma char_of_ord [simp]: "char_of (ord c) = c"
  by (simp add: ord_def)

lemma ord_bound: "ord c < 256"
  unfolding ord_def by (metis of_char_mod_256 mod_less_divisor zero_less_numeral)

lemma ord_inject [simp]: "ord c = ord d \<longleftrightarrow> c = d"
  by (metis char_of_ord)

lemma lower_id: "\<not> is_upper c \<Longrightarrow> lower c = c"
  by (simp add: lower_def)

lemma not_upper_lower [simp]: "\<not> is_upper (lower c)"
  by (auto simp: lower_def is_upper_def in_range_def ord_def)

lemma lower_lower [simp]: "lower (lower c) = lower c"
  by (simp add: lower_id)

lemma is_lowerD: "is_lower c \<Longrightarrow> \<not> is_upper c \<and> \<not> is_space c"
  by (auto simp: char_defs)

lemma is_digitD: "is_digit c \<Longrightarrow> \<not> is_upper c \<and> \<not> is_space c \<and> \<not> is_lower c"
  by (auto simp: char_defs)

lemma is_alnumD: "is_alnum c \<Longrightarrow> \<not> is_upper c \<and> \<not> is_space c"
  by (auto simp: is_alnum_def dest: is_lowerD is_digitD)

lemma is_space_lower [simp]: "is_space (lower c) \<longleftrightarrow> is_space c"
  by (auto simp: lower_def char_defs)

section \<open>Package strings\<close>

definition ToLower :: "string \<Rightarrow> string" where [go_defs]: "ToLower s = map lower s"
definition ToUpper :: "string \<Rightarrow> string" where [go_defs]: "ToUpper s = map upper s"

definition trim_with :: "(char \<Rightarrow> bool) \<Rightarrow> string \<Rightarrow> string" where
  "trim_with P s = rev (dropWhile P (rev (dropWhile P s)))"

definition TrimSpace :: "string \<Rightarrow> string" where
  [go_defs]: "TrimSpace s = trim_with is_space s"

definition Trim :: "string \<Rightarrow> string \<Rightarrow> string" where
  [go_defs]: "Trim s cutset = trim_with (\<lambda>c. c \<in> set cutset) s"

definition TrimRight :: "string \<Rightarrow> string \<Rightarrow> string" where
  [go_defs]: "TrimRight s cutset = rev (dropWhile (\<lambda>c. c \<in> set cutset) (rev s))"

definition HasPrefix :: "string \<Rightarrow> string \<Rightarrow> bool" where
  [go_defs]: "HasPrefix s p \<longleftrightarrow> take (length p) s = p"

definition HasSuffix :: "string \<Rightarrow> string \<Rightarrow> bool" where
  [go_defs]: "HasSuffix s t \<longleftrightarrow> drop (length s - length t) s = t"

definition TrimPrefix :: "string \<Rightarrow> string \<Rightarrow> string" where
  "TrimPrefix s p = (if HasPrefix s p then drop (length p) s else s)"

definition TrimSuffix :: "string \<Rightarrow> string \<Rightarrow> string" where
  "TrimSuffix s t = (if HasSuffix s t then take (length s - length t) s else s)"

text \<open>\<open>strings.Split\<close> with a one-byte separator: never empty, \<open>Split "" ","\<close> is \<open>[""]\<close>.\<close>

fun split_acc :: "char \<Rightarrow> string \<Rightarrow> string \<Rightarrow> string list" where
  "split_acc sep cur [] = [rev cur]"
| "split_acc sep cur (c # cs) =
     (if c = sep then rev cur # split_acc sep [] cs else split_acc sep (c # cur) cs)"

definition Split :: "string \<Rightarrow> char \<Rightarrow> string list" where
  "Split s sep = split_acc sep [] s"

fun Join :: "string list \<Rightarrow> string \<Rightarrow> string" where
  "Join [] sep = []"
| "Join [x] sep = x"
| "Join (x # y # ys) sep = x @ sep @ Join (y # ys) sep"

fun Contains :: "string \<Rightarrow> string \<Rightarrow> bool" where
  "Contains [] t \<longleftrightarrow> t = []"
| "Contains (c # cs) t \<longleftrightarrow> HasPrefix (c # cs) t \<or> Contains cs t"

text \<open>\<open>strings.Cut\<close> with a one-byte separator: the text before and after its first occurrence.\<close>

fun Cut :: "string \<Rightarrow> char \<Rightarrow> (string \<times> string) option" where
  "Cut [] sep = None"
| "Cut (c # cs) sep =
     (if c = sep then Some ([], cs) else map_option (\<lambda>(a, b). (c # a, b)) (Cut cs sep))"

text \<open>\<open>strings.Fields\<close>: the maximal runs of non-space characters.\<close>

definition Fields :: "string \<Rightarrow> string list" where
  "Fields s = filter (\<lambda>f. f \<noteq> []) (concat (map (\<lambda>l. [l]) (split_acc CHR '' '' []
     (map (\<lambda>c. if is_space c then CHR '' '' else c) s))))"

subsection \<open>Laws of the string tests\<close>

lemma HasPrefix_iff [go_iff]: "HasPrefix s p \<longleftrightarrow> (\<exists>t. s = p @ t)"
  by (metis HasPrefix_def append_eq_conv_conj append_take_drop_id)

lemma HasSuffix_iff [go_iff]: "HasSuffix s t \<longleftrightarrow> (\<exists>u. s = u @ t)"
proof
  assume "HasSuffix s t"
  then have "s = take (length s - length t) s @ t"
    unfolding HasSuffix_def by (metis append_take_drop_id)
  then show "\<exists>u. s = u @ t" ..
qed (auto simp: HasSuffix_def)

lemma HasPrefix_append [simp]: "HasPrefix (p @ t) p"
  by (auto simp: go_iff)

lemma HasPrefix_nil [simp]: "HasPrefix s []"
  by (simp add: HasPrefix_def)

lemma HasPrefix_Cons [simp]: "HasPrefix (c # cs) (d # ds) \<longleftrightarrow> c = d \<and> HasPrefix cs ds"
  by (auto simp: go_iff)

lemma HasPrefix_Nil_Cons [simp]: "\<not> HasPrefix [] (d # ds)"
  by (auto simp: go_iff)

lemma TrimPrefix_append [simp]: "TrimPrefix (p @ t) p = t"
  by (simp add: TrimPrefix_def)

lemma HasSuffix_append [simp]: "HasSuffix (u @ t) t"
  by (auto simp: go_iff)

lemma TrimSuffix_append [simp]: "TrimSuffix (u @ t) t = u"
  by (simp add: TrimSuffix_def)

lemma TrimSuffix_id: "\<not> HasSuffix s t \<Longrightarrow> TrimSuffix s t = s"
  by (simp add: TrimSuffix_def)

lemma HasSuffix_single: "HasSuffix s [c] \<longleftrightarrow> s \<noteq> [] \<and> last s = c"
  by (metis HasSuffix_iff append_butlast_last_id last_snoc snoc_eq_iff_butlast)

lemma ToLower_Nil [simp]: "ToLower [] = []" and
  ToLower_append [simp]: "ToLower (a @ b) = ToLower a @ ToLower b" and
  length_ToLower [simp]: "length (ToLower a) = length a" and
  ToLower_eq_Nil [simp]: "ToLower a = [] \<longleftrightarrow> a = []" and
  ToLower_ToLower [simp]: "ToLower (ToLower a) = ToLower a"
  by (simp_all add: ToLower_def)

lemma ToLower_id: "(\<And>c. c \<in> set s \<Longrightarrow> \<not> is_upper c) \<Longrightarrow> ToLower s = s"
  by (simp add: ToLower_def lower_id map_idI)

lemma trim_with_Nil [simp]: "trim_with P [] = []"
  by (simp add: trim_with_def)

lemma dropWhile_id: "s = [] \<or> \<not> P (hd s) \<Longrightarrow> dropWhile P s = s"
  by (cases s) auto

lemma trim_with_id:
  "s = [] \<or> \<not> P (hd s) \<and> \<not> P (last s) \<Longrightarrow> trim_with P s = s"
  by (auto simp: trim_with_def dropWhile_id hd_rev)

lemma TrimSpace_id:
  "(\<And>c. c \<in> set s \<Longrightarrow> \<not> is_space c) \<Longrightarrow> TrimSpace s = s"
  by (cases "s = []") (auto simp: TrimSpace_def intro!: trim_with_id)

lemma trim_with_ends:
  "trim_with P s = [] \<or> \<not> P (hd (trim_with P s)) \<and> \<not> P (last (trim_with P s))"
proof (cases "trim_with P s = []")
  case False
  let ?d = "dropWhile P s"
  have ne: "dropWhile P (rev ?d) \<noteq> []" using False by (simp add: trim_with_def)
  then have "\<not> P (last (trim_with P s))"
    by (simp add: trim_with_def last_rev hd_dropWhile)
  moreover have "\<not> P (hd (trim_with P s))"
  proof -
    have d: "?d = trim_with P s @ rev (takeWhile P (rev ?d))"
      by (metis rev_append rev_rev_ident takeWhile_dropWhile_id trim_with_def)
    then have "hd ?d = hd (trim_with P s)" using False by (metis hd_append2)
    moreover have "?d \<noteq> []" using d False by (metis append_is_Nil_conv)
    ultimately show ?thesis using hd_dropWhile by metis
  qed
  ultimately show ?thesis by blast
qed simp

lemma TrimSpace_TrimSpace [simp]: "TrimSpace (TrimSpace s) = TrimSpace s"
  unfolding TrimSpace_def by (rule trim_with_id) (use trim_with_ends in blast)

lemma set_trim_with: "set (trim_with P s) \<subseteq> set s"
  by (auto simp: trim_with_def dest!: set_dropWhileD)

lemma set_TrimSpace: "c \<in> set (TrimSpace s) \<Longrightarrow> c \<in> set s"
  using set_trim_with by (auto simp: TrimSpace_def)

subsection \<open>Splitting and joining\<close>

lemma split_acc_ne [simp]: "split_acc sep cur s \<noteq> []"
  by (induction s arbitrary: cur) auto

lemma split_acc_cur:
  "split_acc sep cur s = (rev cur @ hd (split_acc sep [] s)) # tl (split_acc sep [] s)"
proof (induction s arbitrary: cur)
  case (Cons c cs)
  show ?case
  proof (cases "c = sep")
    case False
    then show ?thesis using Cons.IH [of "c # cur"] Cons.IH [of "[c]"] by simp
  qed simp
qed simp

lemma Split_ne [simp]: "Split s sep \<noteq> []"
  by (simp add: Split_def)

lemma Split_Nil [simp]: "Split [] sep = [[]]"
  by (simp add: Split_def)

lemma Split_Cons:
  "Split (c # cs) sep =
     (if c = sep then [] # Split cs sep else (c # hd (Split cs sep)) # tl (Split cs sep))"
  by (simp add: Split_def split_acc_cur [of sep "[c]"])

lemma Split_none: "sep \<notin> set s \<Longrightarrow> Split s sep = [s]"
  by (induction s) (auto simp: Split_Cons)

lemma Split_append_sep:
  "sep \<notin> set a \<Longrightarrow> Split (a @ sep # b) sep = a # Split b sep"
  by (induction a) (auto simp: Split_Cons)

lemma Split_no_sep: "x \<in> set (Split s sep) \<Longrightarrow> sep \<notin> set x"
proof (induction s arbitrary: x)
  case (Cons c cs)
  show ?case
  proof (cases "c = sep")
    case False
    have "hd (Split cs sep) \<in> set (Split cs sep)" by simp
    moreover have "set (tl (Split cs sep)) \<subseteq> set (Split cs sep)" by (simp add: list.set_sel(2) subsetI)
    ultimately show ?thesis using Cons False by (auto simp: Split_Cons)
  qed (use Cons in \<open>auto simp: Split_Cons\<close>)
qed auto

lemma length_Split: "length (Split s sep) = Suc (length (filter (\<lambda>c. c = sep) s))"
  by (induction s) (auto simp: Split_Cons)

lemma Split_Join:
  assumes "xs \<noteq> []" and "\<And>x. x \<in> set xs \<Longrightarrow> sep \<notin> set x"
  shows "Split (Join xs [sep]) sep = xs"
  using assms
proof (induction xs "[sep]" rule: Join.induct)
  case (2 x)
  then show ?case by (simp add: Split_none)
next
  case (3 x y ys)
  then show ?case by (simp add: Split_append_sep)
qed simp

lemma Join_Split [simp]: "Join (Split s sep) [sep] = s"
proof (induction s)
  case (Cons c cs)
  obtain x xs where sp: "Split cs sep = x # xs" using Split_ne [of cs sep] by (cases "Split cs sep") auto
  with Cons show ?case by (cases xs) (auto simp: Split_Cons)
qed simp

lemma set_Join: "set (Join xs sep) \<subseteq> (\<Union>x\<in>set xs. set x) \<union> set sep"
  by (induction xs sep rule: Join.induct) auto

lemma Split_append: "Split (a @ sep # b) sep = Split a sep @ Split b sep"
proof (induction a)
  case (Cons c cs)
  then show ?case using Split_ne [of cs sep] by (auto simp: Split_Cons hd_append tl_append split: list.splits)
qed (simp add: Split_Cons)

lemma Join_append:
  "xs \<noteq> [] \<Longrightarrow> ys \<noteq> [] \<Longrightarrow> Join (xs @ ys) sep = Join xs sep @ sep @ Join ys sep"
proof (induction xs sep rule: Join.induct)
  case (2 x sep)
  then show ?case by (cases ys) auto
qed auto

lemma Cut_None: "Cut s sep = None \<longleftrightarrow> sep \<notin> set s"
  by (induction s) auto

lemma Cut_append: "sep \<notin> set a \<Longrightarrow> Cut (a @ sep # b) sep = Some (a, b)"
  by (induction a) auto

lemma Cut_SomeD: "Cut s sep = Some (a, b) \<Longrightarrow> s = a @ sep # b \<and> sep \<notin> set a"
  by (induction s arbitrary: a) (auto split: if_splits)

section \<open>Decimal numbers\<close>

definition digit_char :: "nat \<Rightarrow> char" where "digit_char d = char_of (48 + d)"

definition digit_val :: "char \<Rightarrow> nat" where "digit_val c = ord c - 48"

fun dec :: "nat \<Rightarrow> string" where
  "dec n = (if n < 10 then [digit_char n] else dec (n div 10) @ [digit_char (n mod 10)])"

declare dec.simps [simp del]

definition dec_val :: "string \<Rightarrow> nat" where
  "dec_val s = foldl (\<lambda>v c. v * 10 + digit_val c) 0 s"

lemma digit_char_props [simp]:
  "d < 10 \<Longrightarrow> is_digit (digit_char d)" "d < 10 \<Longrightarrow> digit_val (digit_char d) = d"
  by (auto simp: digit_char_def digit_val_def is_digit_def in_range_def) (auto simp: ord_def)

lemma dec_ne [simp]: "dec n \<noteq> []"
  by (subst dec.simps) simp

lemma dec_val_snoc: "dec_val (s @ [c]) = dec_val s * 10 + digit_val c"
  by (simp add: dec_val_def)

lemma dec_val_dec [simp]: "dec_val (dec n) = n"
proof (induction n rule: dec.induct)
  case (1 n)
  show ?case
  proof (cases "n < 10")
    case True
    then show ?thesis by (simp add: dec.simps [of n] dec_val_def)
  next
    case False
    with 1 have "dec_val (dec (n div 10)) = n div 10" by simp
    then show ?thesis using False by (simp add: dec.simps [of n] dec_val_snoc)
  qed
qed

lemma dec_digits: "c \<in> set (dec n) \<Longrightarrow> is_digit c"
proof (induction n rule: dec.induct)
  case (1 n)
  then show ?case by (cases "n < 10") (auto simp: dec.simps [of n])
qed

lemma dec_inj: "dec m = dec n \<Longrightarrow> m = n"
  by (metis dec_val_dec)

definition Itoa :: "int \<Rightarrow> string" where
  "Itoa n = (if n < 0 then ''-'' @ dec (nat (- n)) else dec (nat n))"

lemma dec_hd: "hd (dec n) = CHR ''0'' \<longleftrightarrow> n = 0"
proof (induction n rule: dec.induct)
  case (1 n)
  show ?case
  proof (cases "n < 10")
    case True
    then have "(digit_char n = CHR ''0'') = (ord (digit_char n) = ord CHR ''0'')"
      by (simp only: ord_inject)
    also have "\<dots> = (n = 0)" using True by (simp add: digit_char_def) (simp add: ord_def)
    finally show ?thesis using True by (simp add: dec.simps [of n])
  next
    case False
    with 1 show ?thesis by (simp add: dec.simps [of n])
  qed
qed

lemma length_dec_le: "n < 10 ^ Suc k \<Longrightarrow> length (dec n) \<le> Suc k"
proof (induction k arbitrary: n)
  case 0
  then show ?case by (simp add: dec.simps [of n])
next
  case (Suc k)
  show ?case
  proof (cases "n < 10")
    case False
    have "n div 10 < 10 ^ Suc k" using Suc.prems by (simp add: less_mult_imp_div_less)
    then have "length (dec (n div 10)) \<le> Suc k" by (rule Suc.IH)
    then show ?thesis using False by (simp add: dec.simps [of n])
  qed (simp add: dec.simps [of n])
qed

section \<open>Finite scans\<close>

text \<open>
  Several functions of the program scan a list for the best candidate: skip the
  rejected elements, keep the element with the higher score and, on a tie, the
  one with the lower identifier. The locale names the shape of such a loop; the
  loops themselves are translated from the code and interpret it.
\<close>

locale best_scan =
  fixes loop :: "'r list \<Rightarrow> 'r option \<Rightarrow> int \<Rightarrow> 'r option"
    and cand :: "'r \<Rightarrow> bool"
    and score :: "'r \<Rightarrow> int"
    and ident :: "'r \<Rightarrow> int"
  assumes loop_Nil: "loop [] b s = b"
    and loop_Cons: "loop (r # rs) b s =
      (if \<not> cand r then loop rs b s
       else if score r > s \<or> score r = s \<and> (\<exists>x. b = Some x \<and> ident r < ident x)
       then loop rs (Some r) (score r) else loop rs b s)"
    and score_nonneg: "cand r \<Longrightarrow> 0 \<le> score r"
begin

definition better :: "'r \<Rightarrow> 'r \<Rightarrow> bool" where
  "better r x \<longleftrightarrow> score r > score x \<or> score r = score x \<and> ident r < ident x"

lemma better_irrefl [simp]: "\<not> better x x"
  by (simp add: better_def)

lemma better_asym: "better r x \<Longrightarrow> \<not> better x r"
  by (auto simp: better_def)

lemma better_trans: "better r x \<Longrightarrow> better x y \<Longrightarrow> better r y"
  by (auto simp: better_def)

lemma not_better_trans: "\<not> better r x \<Longrightarrow> \<not> better x y \<Longrightarrow> \<not> better r y"
  by (auto simp: better_def)

text \<open>The scan keeps the first of several equally good candidates.\<close>

lemma loop_first:
  assumes "cand y" and "\<And>r. r \<in> set as \<Longrightarrow> cand r \<Longrightarrow> better y r"
    and "\<And>r. r \<in> set bs \<Longrightarrow> cand r \<Longrightarrow> \<not> better r y"
  shows "loop (as @ y # bs) None (-1) = Some y"
proof -
  have tail: "loop bs (Some y) (score y) = Some y" using assms(3)
    by (induction bs) (auto simp: loop_Nil loop_Cons better_def)
  have mid: "loop (zs @ y # bs) (Some x) (score x) = Some y"
    if "cand x" "better y x" "\<And>r. r \<in> set zs \<Longrightarrow> cand r \<Longrightarrow> better y r" for zs x
    using that
  proof (induction zs arbitrary: x)
    case Nil
    then show ?case using assms(1) tail by (auto simp: loop_Cons better_def)
  next
    case (Cons z zs)
    show ?case
    proof (cases "cand z \<and> better z x")
      case True
      then have "loop (zs @ y # bs) (Some z) (score z) = Some y" using Cons by auto
      then show ?thesis using True by (auto simp: loop_Cons better_def)
    next
      case False
      then have "loop (zs @ y # bs) (Some x) (score x) = Some y" using Cons by auto
      then show ?thesis using False by (auto simp: loop_Cons better_def)
    qed
  qed
  show ?thesis using assms(2)
  proof (induction as)
    case Nil
    then show ?case using score_nonneg [OF assms(1)] assms(1) tail by (simp add: loop_Cons)
  next
    case (Cons a as)
    then show ?case using mid [of a as] score_nonneg [of a] by (auto simp: loop_Cons)
  qed
qed

text \<open>The position the scan ends at: before it every candidate is worse, after it none is better.\<close>

definition first_best :: "'r list \<Rightarrow> 'r \<Rightarrow> bool" where
  "first_best rs y \<longleftrightarrow> (\<exists>as bs. rs = as @ y # bs \<and> cand y \<and>
     (\<forall>r\<in>set as. cand r \<longrightarrow> better y r) \<and> (\<forall>r\<in>set bs. cand r \<longrightarrow> \<not> better r y))"

lemma loop_no_cand: "\<forall>r\<in>set rs. \<not> cand r \<Longrightarrow> loop rs b s = b"
  by (induction rs) (auto simp: loop_Nil loop_Cons)

lemma first_best_hd:
  "cand r \<Longrightarrow> \<forall>x\<in>set rs. cand x \<longrightarrow> \<not> better x r \<Longrightarrow> first_best (r # rs) r"
  unfolding first_best_def by (intro exI [of _ "[]"] exI [of _ rs]) simp

lemma ex_first_best: "\<exists>r\<in>set rs. cand r \<Longrightarrow> \<exists>y. first_best rs y"
proof (induction rs)
  case (Cons r rs)
  show ?case
  proof (cases "\<exists>x\<in>set rs. cand x")
    case False
    with Cons.prems show ?thesis using first_best_hd [of r rs] by auto
  next
    case True
    with Cons.IH obtain y as bs where y: "rs = as @ y # bs" "cand y"
      "\<forall>r\<in>set as. cand r \<longrightarrow> better y r" "\<forall>r\<in>set bs. cand r \<longrightarrow> \<not> better r y"
      unfolding first_best_def by blast
    show ?thesis
    proof (cases "cand r \<and> \<not> better y r")
      case True
      have "\<not> better x r" if "x \<in> set rs" "cand x" for x
      proof -
        from that(1) y(1) consider "x \<in> set as" | "x = y" | "x \<in> set bs" by auto
        then show ?thesis
        proof cases
          case 1
          then show ?thesis using y(3) that(2) True better_trans by blast
        next
          case 3
          then show ?thesis using y(4) that(2) True not_better_trans by blast
        qed (use True in simp)
      qed
      then show ?thesis using True first_best_hd by blast
    next
      case False
      with y have "first_best (r # rs) y" unfolding first_best_def
        by (intro exI [of _ "r # as"] exI [of _ bs]) auto
      then show ?thesis ..
    qed
  qed
qed simp

lemma loop_iff: "loop rs None (-1) = Some y \<longleftrightarrow> first_best rs y"
proof
  assume y: "loop rs None (-1) = Some y"
  then have "\<exists>r\<in>set rs. cand r" using loop_no_cand [of rs None "-1"] by fastforce
  then obtain z where z: "first_best rs z" using ex_first_best by blast
  then have "loop rs None (-1) = Some z" unfolding first_best_def using loop_first by blast
  with y z show "first_best rs y" by simp
qed (auto simp: first_best_def intro: loop_first)

lemma loop_None: "loop rs None (-1) = None \<longleftrightarrow> (\<forall>r\<in>set rs. \<not> cand r)"
proof
  assume "loop rs None (-1) = None"
  then have "\<not> first_best rs y" for y using loop_iff [of rs y] by simp
  then show "\<forall>r\<in>set rs. \<not> cand r" using ex_first_best by blast
qed (rule loop_no_cand)

lemma loop_best:
  assumes "loop rs None (-1) = Some y"
  shows "y \<in> set rs \<and> cand y \<and> (\<forall>r\<in>set rs. cand r \<longrightarrow> \<not> better r y)"
proof -
  obtain as bs where "rs = as @ y # bs" "cand y" "\<forall>r\<in>set as. cand r \<longrightarrow> better y r"
    "\<forall>r\<in>set bs. cand r \<longrightarrow> \<not> better r y"
    using assms unfolding loop_iff first_best_def by blast
  then show ?thesis using better_asym better_irrefl [of y] by (simp add: ball_Un)
qed

end

text \<open>The scan itself, for uses where the code keeps one slot per key.\<close>

fun scan :: "('r \<Rightarrow> bool) \<Rightarrow> ('r \<Rightarrow> int) \<Rightarrow> ('r \<Rightarrow> int) \<Rightarrow> 'r list \<Rightarrow> 'r option \<Rightarrow> int \<Rightarrow> 'r option" where
  "scan cand score ident [] b s = b"
| "scan cand score ident (r # rs) b s =
     (if \<not> cand r then scan cand score ident rs b s
      else if score r > s \<or> score r = s \<and> (case b of None \<Rightarrow> False | Some x \<Rightarrow> ident r < ident x)
      then scan cand score ident rs (Some r) (score r) else scan cand score ident rs b s)"

interpretation slot: best_scan "scan cand (\<lambda>_. 0) ident" cand "\<lambda>_. 0" ident for cand ident
  by unfold_locales (auto split: option.splits)

end
