(* ===== verification/Go_Net.thy ===== *)
theory Go_Net
  imports Go_Prelude
begin

text \<open>
  Go's package \<open>net\<close> as far as the program uses it: \<open>net.IP\<close> with \<open>ParseIP\<close>,
  \<open>To4\<close> and \<open>String\<close>, and \<open>net.IPNet\<close> with \<open>ParseCIDR\<close>, \<open>Contains\<close>,
  \<open>Mask.Size\<close> and \<open>String\<close>.

  A \<open>net.IP\<close> is a byte slice, but every operation the program calls reads it
  through \<open>To4\<close>: a 16-byte IPv4-mapped address behaves as the IPv4 address. The
  model has one constructor per family and \<open>ip_of16\<close> performs that collapse.
  The text parser follows \<open>netip.ParseAddr\<close>: no leading zeros in IPv4 fields, at
  most four hexadecimal digits per IPv6 group, one \<open>::\<close> that stands for at
  least one group, an embedded IPv4 tail, and no zone.
\<close>

section \<open>Addresses\<close>

datatype ip = IPv4 "32 word" | IPv6 "128 word"

definition v4_mapped :: "128 word \<Rightarrow> bool" where
  "v4_mapped w \<longleftrightarrow> drop_bit 32 w = 0xffff"

definition ip_of16 :: "128 word \<Rightarrow> ip" where
  "ip_of16 w = (if v4_mapped w then IPv4 (ucast w) else IPv6 w)"

fun To4 :: "ip \<Rightarrow> 32 word option" where
  "To4 (IPv4 w) = Some w"
| "To4 (IPv6 w) = None"

section \<open>Text form of an IPv4 address\<close>

definition parse_octet :: "string \<Rightarrow> nat option" where
  "parse_octet s =
     (if s = [] \<or> \<not> list_all is_digit s \<or> (1 < length s \<and> hd s = CHR ''0'') \<or> 255 < dec_val s
      then None else Some (dec_val s))"

definition v4_of_octets :: "nat \<Rightarrow> nat \<Rightarrow> nat \<Rightarrow> nat \<Rightarrow> 32 word" where
  "v4_of_octets a b c d = of_nat (((a * 256 + b) * 256 + c) * 256 + d)"

definition octets :: "32 word \<Rightarrow> nat list" where
  "octets w = [unat w div 16777216, unat w div 65536 mod 256, unat w div 256 mod 256, unat w mod 256]"

definition parse_v4 :: "string \<Rightarrow> 32 word option" where
  "parse_v4 s = (case map parse_octet (Split s CHR ''.'') of
      [Some a, Some b, Some c, Some d] \<Rightarrow> Some (v4_of_octets a b c d)
    | _ \<Rightarrow> None)"

definition v4_string :: "32 word \<Rightarrow> string" where
  "v4_string w = Join (map dec (octets w)) ''.''"

section \<open>Text form of an IPv6 address\<close>

definition hex_val :: "char \<Rightarrow> nat option" where
  "hex_val c = (if is_digit c then Some (ord c - 48)
     else if in_range CHR ''a'' CHR ''f'' c then Some (ord c - 87)
     else if in_range CHR ''A'' CHR ''F'' c then Some (ord c - 55) else None)"

definition hex_digits :: "string \<Rightarrow> string" where
  "hex_digits s = takeWhile (\<lambda>c. hex_val c \<noteq> None) s"

definition hex_num :: "string \<Rightarrow> nat" where
  "hex_num s = foldl (\<lambda>v c. v * 16 + (case hex_val c of Some d \<Rightarrow> d | None \<Rightarrow> 0)) 0 s"

text \<open>
  The group loop of \<open>netip.parseIPv6\<close>: \<open>n\<close> groups may still be read, \<open>gs\<close> are
  the groups read so far, \<open>el\<close> is the position of the ellipsis. The result is
  the groups, the ellipsis and the text left over.
\<close>

fun v6_groups :: "nat \<Rightarrow> nat list \<Rightarrow> nat option \<Rightarrow> string \<Rightarrow> (nat list \<times> nat option \<times> string) option" where
  "v6_groups 0 gs el s = Some (gs, el, s)"
| "v6_groups (Suc n) gs el s =
     (let h = hex_digits s; t = drop (length h) s in
      if 4 < length h \<or> h = [] then None
      else case t of
        [] \<Rightarrow> Some (gs @ [hex_num h], el, [])
      | c # u \<Rightarrow>
          if c = CHR ''.'' then
            (if (el = None \<and> length gs \<noteq> 6) \<or> 6 < length gs then None
             else case parse_v4 s of
               None \<Rightarrow> None
             | Some w \<Rightarrow> Some (gs @ [unat w div 65536, unat w mod 65536], el, []))
          else if c \<noteq> CHR '':'' \<or> u = [] then None
          else if hd u = CHR '':'' then
            (if el \<noteq> None then None
             else if tl u = [] then Some (gs @ [hex_num h], Some (Suc (length gs)), [])
             else v6_groups n (gs @ [hex_num h]) (Some (Suc (length gs))) (tl u))
          else v6_groups n (gs @ [hex_num h]) el u)"

definition v6_expand :: "nat list \<Rightarrow> nat option \<Rightarrow> nat list option" where
  "v6_expand gs el =
     (if length gs < 8 then
        (case el of None \<Rightarrow> None
         | Some e \<Rightarrow> Some (take e gs @ replicate (8 - length gs) 0 @ drop e gs))
      else if el \<noteq> None then None else Some gs)"

definition v6_of_groups :: "nat list \<Rightarrow> 128 word" where
  "v6_of_groups gs = of_nat (foldl (\<lambda>v g. v * 65536 + g) 0 gs)"

definition parse_v6 :: "string \<Rightarrow> 128 word option" where
  "parse_v6 s =
     (if s = ''::'' then Some 0
      else case (if HasPrefix s ''::'' then v6_groups 8 [] (Some 0) (drop 2 s)
                 else v6_groups 8 [] None s) of
        None \<Rightarrow> None
      | Some (gs, el, rest) \<Rightarrow>
          if rest \<noteq> [] then None else map_option v6_of_groups (v6_expand gs el))"

definition groups :: "128 word \<Rightarrow> nat list" where
  "groups w = map (\<lambda>i. unat w div 65536 ^ (7 - i) mod 65536) [0..<8]"

fun hex :: "nat \<Rightarrow> string" where
  "hex n = (if n < 16 then [if n < 10 then char_of (48 + n) else char_of (87 + n)]
            else hex (n div 16) @ [if n mod 16 < 10 then char_of (48 + n mod 16) else char_of (87 + n mod 16)])"

declare hex.simps [simp del]

text \<open>The leftmost longest run of at least two zero groups, as (start, length).\<close>

definition zero_run :: "nat list \<Rightarrow> nat \<times> nat" where
  "zero_run gs = foldl (\<lambda>(s, l) i. let k = length (takeWhile (\<lambda>g. g = 0) (drop i gs))
       in if 2 \<le> k \<and> l < k then (i, k) else (s, l)) (8, 0) [0..<8]"

definition v6_string :: "128 word \<Rightarrow> string" where
  "v6_string w = (let gs = groups w; (s, l) = zero_run gs in
     if l = 0 then Join (map hex gs) '':''
     else Join (map hex (take s gs)) '':'' @ ''::'' @ Join (map hex (drop (s + l) gs)) '':'')"

section \<open>net.ParseIP and net.IP.String\<close>

fun first_sep :: "string \<Rightarrow> char option" where
  "first_sep [] = None"
| "first_sep (c # cs) = (if c \<in> {CHR ''.'', CHR '':'', CHR ''%''} then Some c else first_sep cs)"

datatype raw_addr = Raw4 "32 word" | Raw16 "128 word"

definition parse_addr :: "string \<Rightarrow> raw_addr option" where
  "parse_addr s =
     (if first_sep s = Some CHR ''.'' then map_option Raw4 (parse_v4 s)
      else if first_sep s = Some CHR '':'' then map_option Raw16 (parse_v6 s)
      else None)"

fun ip_of_raw :: "raw_addr \<Rightarrow> ip" where
  "ip_of_raw (Raw4 w) = IPv4 w"
| "ip_of_raw (Raw16 w) = ip_of16 w"

definition ParseIP :: "string \<Rightarrow> ip option" where
  "ParseIP s = map_option ip_of_raw (parse_addr s)"

fun ip_String :: "ip \<Rightarrow> string" where
  "ip_String (IPv4 w) = v4_string w"
| "ip_String (IPv6 w) = v6_string w"

section \<open>net.IPNet\<close>

text \<open>
  An \<open>IPNet\<close>: the (masked) network address and the mask as its leading ones and
  its width in bits (32 or 128). \<open>eff_ones\<close> is the length of the mask Go uses in
  \<open>Contains\<close> and \<open>String\<close>: a 128-bit mask on an address that collapses to IPv4 is
  cut to its last 32 bits.
\<close>

record ipnet =
  net_ip :: ip
  mask_ones :: nat
  mask_bits :: nat

definition high_bits :: "nat \<Rightarrow> 'a::len word \<Rightarrow> 'a word" where
  "high_bits n w = drop_bit (LENGTH('a) - n) w"

definition mask_word :: "nat \<Rightarrow> 'a::len word \<Rightarrow> 'a word" where
  "mask_word n w = push_bit (LENGTH('a) - n) (drop_bit (LENGTH('a) - n) w)"

definition eff_ones :: "ipnet \<Rightarrow> nat" where
  "eff_ones n = (case net_ip n of
      IPv4 _ \<Rightarrow> (if mask_bits n = 128 then mask_ones n - 96 else mask_ones n)
    | IPv6 _ \<Rightarrow> mask_ones n)"

definition net_Contains :: "ipnet \<Rightarrow> ip \<Rightarrow> bool" where
  "net_Contains n i = (case (net_ip n, i) of
      (IPv4 a, IPv4 b) \<Rightarrow> high_bits (eff_ones n) a = high_bits (eff_ones n) b
    | (IPv6 a, IPv6 b) \<Rightarrow> high_bits (eff_ones n) a = high_bits (eff_ones n) b
    | _ \<Rightarrow> False)"

definition net_String :: "ipnet \<Rightarrow> string" where
  "net_String n = ip_String (net_ip n) @ ''/'' @ dec (eff_ones n)"

text \<open>\<open>dtoi\<close> with the check that the whole text is digits; Go stops at 0xFFFFFF.\<close>

definition parse_bits :: "string \<Rightarrow> nat option" where
  "parse_bits s = (if s = [] \<or> \<not> list_all is_digit s \<or> 16777215 \<le> dec_val s then None
     else Some (dec_val s))"

definition net_ParseCIDR :: "string \<Rightarrow> (ip \<times> ipnet) option" where
  "net_ParseCIDR s = (case Cut s CHR ''/'' of
      None \<Rightarrow> None
    | Some (addr, bits) \<Rightarrow>
        (case (parse_addr addr, parse_bits bits) of
           (Some (Raw4 w), Some n) \<Rightarrow>
             if 32 < n then None
             else Some (IPv4 w, \<lparr>net_ip = IPv4 (mask_word n w), mask_ones = n, mask_bits = 32\<rparr>)
         | (Some (Raw16 w), Some n) \<Rightarrow>
             if 128 < n then None
             else Some (ip_of16 w, \<lparr>net_ip = ip_of16 (mask_word n w), mask_ones = n, mask_bits = 128\<rparr>)
         | _ \<Rightarrow> None))"

section \<open>Laws\<close>

lemma word_of_nat_unat_id: "word_of_nat (unat w) = w"
  by simp

lemma octets_bounds: "o1 \<in> set (octets w) \<Longrightarrow> o1 < 256"
proof -
  have "unat w < 4294967296" using unsigned_less [of w, where ?'a = nat] by simp
  then show "o1 \<in> set (octets w) \<Longrightarrow> o1 < 256" by (auto simp: octets_def less_mult_imp_div_less)
qed

lemma v4_of_octets_octets [simp]:
  "(case octets w of [a, b, c, d] \<Rightarrow> v4_of_octets a b c d) = w"
proof -
  let ?n = "unat w"
  have "?n div 65536 = ?n div 256 div 256" "?n div 16777216 = ?n div 256 div 256 div 256"
    by (simp_all add: div_mult2_eq [symmetric])
  then have "((?n div 16777216 * 256 + ?n div 65536 mod 256) * 256 + ?n div 256 mod 256) * 256 + ?n mod 256 = ?n"
    by (simp only: div_mult_mod_eq)
  then show ?thesis unfolding octets_def v4_of_octets_def list.case
    by (simp only: word_of_nat_unat_id)
qed

lemma parse_octet_dec: "n < 256 \<Longrightarrow> parse_octet (dec n) = Some n"
  using dec_hd [of n] dec.simps [of 0]
  by (auto simp: parse_octet_def list_all_iff dec_digits)

lemma dot_notin_dec [simp]: "CHR ''.'' \<notin> set (dec n)"
  using dec_digits by (fastforce simp: is_digit_def in_range_def ord_def)

lemma parse_v4_v4_string [simp]: "parse_v4 (v4_string w) = Some w"
proof -
  have "Split (v4_string w) CHR ''.'' = map dec (octets w)"
    unfolding v4_string_def by (rule Split_Join) (auto simp: octets_def)
  moreover have "map parse_octet (map dec (octets w)) = map Some (octets w)"
    using octets_bounds [of _ w] by (simp add: parse_octet_dec)
  ultimately have "parse_v4 (v4_string w) = (case octets w of [a, b, c, d] \<Rightarrow> Some (v4_of_octets a b c d))"
    by (simp add: parse_v4_def octets_def)
  then show ?thesis using v4_of_octets_octets [of w] by (simp add: octets_def)
qed

lemma first_sep_skip:
  "(\<And>c. c \<in> set a \<Longrightarrow> is_digit c) \<Longrightarrow> first_sep (a @ CHR ''.'' # b) = Some CHR ''.''"
proof (induction a)
  case (Cons c cs)
  then have "is_digit c" by simp
  then have "c \<notin> {CHR ''.'', CHR '':'', CHR ''%''}" by (auto simp: is_digit_def in_range_def ord_def)
  with Cons show ?case by simp
qed simp

lemma first_sep_v4_string [simp]: "first_sep (v4_string w) = Some CHR ''.''"
proof -
  have "v4_string w = dec (unat w div 16777216) @ CHR ''.'' # Join (map dec (tl (octets w))) ''.''"
    by (simp only: v4_string_def octets_def list.map list.sel Join.simps append_Cons append_Nil)
  moreover have "first_sep (dec n @ CHR ''.'' # b) = Some CHR ''.''" for n b
    using first_sep_skip dec_digits by blast
  ultimately show ?thesis by metis
qed

lemma ParseIP_v4_string [simp]: "ParseIP (v4_string w) = Some (IPv4 w)"
  by (simp add: ParseIP_def parse_addr_def)

lemma v4_string_inj: "v4_string a = v4_string b \<Longrightarrow> a = b"
  by (metis parse_v4_v4_string option.inject)

text \<open>Cutting a longer prefix implies agreement on the shorter one.\<close>

lemma high_bits_mono:
  fixes a b :: "'a::len word"
  assumes "high_bits n a = high_bits n b" and "m \<le> n"
  shows "high_bits m a = high_bits m b"
proof -
  obtain k where k: "LENGTH('a) - m = k + (LENGTH('a) - n)"
    using assms(2) by (metis diff_le_mono2 le_Suc_ex add.commute)
  have "high_bits m c = drop_bit k (high_bits n c)" for c :: "'a word"
    by (simp add: high_bits_def k add.commute)
  then show ?thesis using assms(1) by simp
qed

lemma high_bits_full: "LENGTH('a) \<le> n \<Longrightarrow> high_bits n (w :: 'a::len word) = w"
  by (simp add: high_bits_def)

lemma high_bits_mask_word: "high_bits n (mask_word n w) = high_bits n w"
  by (rule bit_eqI)
    (auto simp: high_bits_def mask_word_def bit_simps dest: bit_imp_le_length)

end
