(* ===== verification/Rules.thy ===== *)
theory Rules
  imports Go_Net
begin

text \<open>
  \<open>core/rules/rules.go\<close>: the rule record, pattern normalisation, validation,
  matching, the specificity score and the two reference scans \<open>MostSpecific\<close>
  (by name) and \<open>MostSpecificIP\<close> (by destination address). The scans are loops
  that interpret the \<open>best_scan\<close> contract of the prelude.
\<close>

section \<open>Data\<close>

type_synonym action = string

definition ActionBlock :: action where "ActionBlock = ''block''"
definition ActionAllow :: action where "ActionAllow = ''allow''"
definition ActionRoute :: action where "ActionRoute = ''route''"

lemmas action_defs = ActionBlock_def ActionAllow_def ActionRoute_def

definition ValidAction :: "action \<Rightarrow> bool" where
  "ValidAction v \<longleftrightarrow> v = ActionBlock \<or> v = ActionAllow \<or> v = ActionRoute"

record rule =
  rl_ID :: int
  rl_Pattern :: string
  rl_Action :: action
  rl_Interface :: string
  rl_Enabled :: bool
  rl_CreatedAt :: time
  rl_UpdatedAt :: time

datatype rules_error = ErrEmptyPattern | ErrInvalidPattern | ErrInvalidAction | ErrNotFound
  | ErrDuplicate | ErrEmptyGroupKey | ErrGroupNotFound | ErrGroupDuplicate | ErrEmptyGroupName

section \<open>Patterns\<close>

definition normalize :: "string \<Rightarrow> string" where
  "normalize s = TrimSuffix (ToLower (TrimSpace s)) ''.''"

definition ParseCIDR :: "string \<Rightarrow> ipnet option" where
  "ParseCIDR pattern =
     (let p = normalize pattern in
      if p = [] then None
      else case ParseIP p of
        Some ip \<Rightarrow> (let bits = (if To4 ip = None then 128 else 32)
                   in Some \<lparr>net_ip = ip, mask_ones = bits, mask_bits = bits\<rparr>)
      | None \<Rightarrow> map_option snd (net_ParseCIDR p))"

definition IsIPRule :: "string \<Rightarrow> bool" where
  "IsIPRule pattern \<longleftrightarrow> ParseCIDR pattern \<noteq> None"

definition Match :: "string \<Rightarrow> string \<Rightarrow> bool" where
  "Match pattern name =
     (let p = normalize pattern; n = normalize name in
      if p = [] \<or> n = [] then False
      else if HasPrefix p ''*.'' then
        (let suffix = drop 2 p in n = suffix \<or> HasSuffix n (''.'' @ suffix))
      else p = n)"

definition MatchKey :: "string \<Rightarrow> string \<Rightarrow> bool" where
  "MatchKey pattern key =
     (case ParseCIDR pattern of
        Some n \<Rightarrow> (case ParseIP (normalize key) of None \<Rightarrow> False | Some ip \<Rightarrow> net_Contains n ip)
      | None \<Rightarrow> Match pattern key)"

definition Specificity :: "string \<Rightarrow> int" where
  "Specificity pattern =
     (let p = normalize pattern in
      if p = [] then 0
      else let exact = (\<not> HasPrefix p ''*.'');
               body = (if \<not> exact then drop 2 p else p);
               literals = length (Split body CHR ''.'');
               score = int literals * 2
           in if exact then score + 1 else score)"

fun valid_label_chars :: "string \<Rightarrow> bool" where
  "valid_label_chars [] = True"
| "valid_label_chars (r # rs) =
     (let isAlnum = is_alnum r in
      if \<not> isAlnum \<and> r \<noteq> CHR ''-'' then False else valid_label_chars rs)"

fun validate_labels :: "string list \<Rightarrow> rules_error option" where
  "validate_labels [] = None"
| "validate_labels (label # ls) =
     (if label = [] then Some ErrInvalidPattern
      else if \<not> valid_label_chars label then Some ErrInvalidPattern
      else validate_labels ls)"

definition Validate :: "string \<Rightarrow> rules_error option" where
  "Validate pattern =
     (let p = normalize pattern in
      if p = [] then Some ErrEmptyPattern
      else if Contains p '' '' then Some ErrInvalidPattern
      else if IsIPRule p then None
      else let body = (if HasPrefix p ''*.'' then drop 2 p else p) in
        if body = [] \<or> Contains body ''*'' then Some ErrInvalidPattern
        else validate_labels (Split body CHR ''.''))"

section \<open>The reference scans\<close>

fun MostSpecific_loop :: "string \<Rightarrow> rule list \<Rightarrow> rule option \<Rightarrow> int \<Rightarrow> rule option" where
  "MostSpecific_loop name [] best bestScore = best"
| "MostSpecific_loop name (r # rs) best bestScore =
     (if \<not> rl_Enabled r then MostSpecific_loop name rs best bestScore
      else if IsIPRule (rl_Pattern r) then MostSpecific_loop name rs best bestScore
      else if \<not> Match (rl_Pattern r) name then MostSpecific_loop name rs best bestScore
      else let score = Specificity (rl_Pattern r) in
        if score > bestScore \<or>
           (score = bestScore \<and> (case best of None \<Rightarrow> False | Some b \<Rightarrow> rl_ID r < rl_ID b))
        then MostSpecific_loop name rs (Some r) score
        else MostSpecific_loop name rs best bestScore)"

definition MostSpecific :: "rule list \<Rightarrow> string \<Rightarrow> rule option" where
  "MostSpecific rs name = MostSpecific_loop name rs None (-1)"

fun MostSpecificIP_loop :: "ip \<Rightarrow> rule list \<Rightarrow> rule option \<Rightarrow> int \<Rightarrow> rule option" where
  "MostSpecificIP_loop ip [] best bestOnes = best"
| "MostSpecificIP_loop ip (r # rs) best bestOnes =
     (if \<not> rl_Enabled r then MostSpecificIP_loop ip rs best bestOnes
      else case ParseCIDR (rl_Pattern r) of
        None \<Rightarrow> MostSpecificIP_loop ip rs best bestOnes
      | Some n \<Rightarrow>
          if \<not> net_Contains n ip then MostSpecificIP_loop ip rs best bestOnes
          else let ones = int (mask_ones n) in
            if ones > bestOnes \<or>
               (ones = bestOnes \<and> (case best of None \<Rightarrow> False | Some b \<Rightarrow> rl_ID r < rl_ID b))
            then MostSpecificIP_loop ip rs (Some r) ones
            else MostSpecificIP_loop ip rs best bestOnes)"

definition MostSpecificIP :: "rule list \<Rightarrow> ip \<Rightarrow> rule option" where
  "MostSpecificIP rs ip = MostSpecificIP_loop ip rs None (-1)"

section \<open>What the scans select\<close>

definition name_cand :: "string \<Rightarrow> rule \<Rightarrow> bool" where
  "name_cand name r \<longleftrightarrow> rl_Enabled r \<and> \<not> IsIPRule (rl_Pattern r) \<and> Match (rl_Pattern r) name"

definition ip_cand :: "ip \<Rightarrow> rule \<Rightarrow> bool" where
  "ip_cand ip r \<longleftrightarrow> rl_Enabled r \<and>
     (case ParseCIDR (rl_Pattern r) of None \<Rightarrow> False | Some n \<Rightarrow> net_Contains n ip)"

definition rule_ones :: "rule \<Rightarrow> int" where
  "rule_ones r = (case ParseCIDR (rl_Pattern r) of None \<Rightarrow> 0 | Some n \<Rightarrow> int (mask_ones n))"

definition rule_score :: "rule \<Rightarrow> int" where
  "rule_score r = Specificity (rl_Pattern r)"

lemma Specificity_nonneg: "0 \<le> Specificity p"
  by (simp add: Specificity_def Let_def)

interpretation by_name: best_scan "MostSpecific_loop name" "name_cand name" rule_score rl_ID for name
  by unfold_locales
    (auto simp: name_cand_def rule_score_def Let_def Specificity_nonneg split: option.splits)

interpretation by_ip: best_scan "MostSpecificIP_loop ip" "ip_cand ip" rule_ones rl_ID for ip
  by unfold_locales
    (auto simp: ip_cand_def rule_ones_def Let_def split: option.splits)

section \<open>Normal forms\<close>

lemma is_upper_normalize: "c \<in> set (normalize s) \<Longrightarrow> \<not> is_upper c"
proof -
  assume "c \<in> set (normalize s)"
  then have "c \<in> set (ToLower (TrimSpace s))"
    by (auto simp: normalize_def TrimSuffix_def split: if_splits dest: in_set_takeD)
  then show ?thesis by (auto simp: ToLower_def)
qed

lemma normalize_stable:
  assumes "\<And>c. c \<in> set s \<Longrightarrow> \<not> is_upper c \<and> \<not> is_space c" and "s \<noteq> [] \<Longrightarrow> last s \<noteq> CHR ''.''"
  shows "normalize s = s"
proof -
  have "ToLower (TrimSpace s) = s" using assms(1) by (simp add: TrimSpace_id ToLower_id)
  moreover have "\<not> HasSuffix s ''.''" using assms(2) by (auto simp: HasSuffix_single)
  ultimately show ?thesis by (simp add: normalize_def TrimSuffix_id)
qed

lemma valid_label_chars_iff:
  "valid_label_chars l \<longleftrightarrow> (\<forall>c\<in>set l. is_alnum c \<or> c = CHR ''-'')"
  by (induction l) auto

lemma validate_labels_None:
  "validate_labels ls = None \<longleftrightarrow> (\<forall>l\<in>set ls. l \<noteq> [] \<and> (\<forall>c\<in>set l. is_alnum c \<or> c = CHR ''-''))"
  by (induction ls) (auto simp: valid_label_chars_iff)

lemma label_chars:
  assumes "\<forall>l\<in>set (Split b CHR ''.''). l \<noteq> [] \<and> (\<forall>c\<in>set l. is_alnum c \<or> c = CHR ''-'')"
    and "c \<in> set b"
  shows "\<not> is_upper c \<and> \<not> is_space c"
proof -
  have "c = CHR ''.'' \<or> (\<exists>l\<in>set (Split b CHR ''.''). c \<in> set l)"
    using set_Join [of "Split b CHR ''.''" "''.''"] assms(2) by auto
  then consider "c = CHR ''.''" | "is_alnum c" | "c = CHR ''-''" using assms(1) by blast
  then show ?thesis by cases (auto simp: is_alnumD, auto simp: char_defs)
qed

lemma label_last:
  assumes "b \<noteq> []" and "\<forall>l\<in>set (Split b CHR ''.''). l \<noteq> []"
  shows "last b \<noteq> CHR ''.''"
proof
  assume "last b = CHR ''.''"
  then have "b = butlast b @ [CHR ''.'']" using assms(1) by (metis append_butlast_last_id)
  then have "Split b CHR ''.'' = Split (butlast b) CHR ''.'' @ [[]]" by (metis Split_append Split_Nil)
  then show False using assms(2) by auto
qed

section \<open>Properties of matching and of the reference scans\<close>

text \<open>A small rule list used by the witnesses.\<close>

definition sample_rule :: "int \<Rightarrow> string \<Rightarrow> action \<Rightarrow> string \<Rightarrow> rule" where
  "sample_rule i p a f = \<lparr>rl_ID = i, rl_Pattern = p, rl_Action = a, rl_Interface = f,
     rl_Enabled = True, rl_CreatedAt = 0, rl_UpdatedAt = 0\<rparr>"

definition sample_rules :: "rule list" where
  "sample_rules = [sample_rule 1 ''*.example.com'' ''block'' [],
                   sample_rule 2 ''api.example.com'' ''route'' ''xrayset:fast'',
                   sample_rule 3 ''10.0.0.0/8'' ''route'' ''utun3'']"

text \<open>
  a wildcard pattern matches by whole labels. For a pattern \<open>"*." + d\<close> and a
  name whose normal form is not empty, \<open>Match\<close> holds exactly when the labels of
  the (normalised) domain \<open>d\<close> are the last labels of the normalised name, so the
  apex and every subdomain match and nothing else does.
\<close>

lemma Match_wildcard_labels:
  assumes "normalize pattern = ''*.'' @ d" and "normalize name \<noteq> []"
  shows "Match pattern name \<longleftrightarrow>
    (\<exists>front. Split (normalize name) CHR ''.'' = front @ Split d CHR ''.'')"
proof -
  let ?n = "normalize name"
  have "(?n = d \<or> HasSuffix ?n (CHR ''.'' # d)) \<longleftrightarrow> (\<exists>front. Split ?n CHR ''.'' = front @ Split d CHR ''.'')"
  proof
    assume "?n = d \<or> HasSuffix ?n (CHR ''.'' # d)"
    then show "\<exists>front. Split ?n CHR ''.'' = front @ Split d CHR ''.''"
      by (auto simp: HasSuffix_iff Split_append)
  next
    assume "\<exists>front. Split ?n CHR ''.'' = front @ Split d CHR ''.''"
    then obtain front where "Split ?n CHR ''.'' = front @ Split d CHR ''.''" ..
    then have "?n = Join (front @ Split d CHR ''.'') ''.''" by (metis Join_Split)
    then show "?n = d \<or> HasSuffix ?n (CHR ''.'' # d)"
      by (cases "front = []") (auto simp: Join_append HasSuffix_iff)
  qed
  then show ?thesis using assms by (simp add: Match_def Let_def)
qed

lemma Match_wildcard_labels_witness:
  "normalize ''*.Example.com'' = ''*.'' @ ''example.com'' \<and> normalize ''a.example.com.'' \<noteq> [] \<and>
   (Match ''*.Example.com'' ''a.example.com.'' \<longleftrightarrow>
     (\<exists>front. Split (normalize ''a.example.com.'') CHR ''.'' = front @ Split ''example.com'' CHR ''.''))"
proof -
  have 1: "normalize ''*.Example.com'' = ''*.'' @ ''example.com''" by code_simp
  have 2: "normalize ''a.example.com.'' \<noteq> []" by code_simp
  show ?thesis using Match_wildcard_labels [OF 1 2] 1 2 by blast
qed

text \<open>
  C8: \<open>MostSpecific\<close> returns a rule of the list that is enabled, is a domain rule
  and matches the name, and no other such rule has a higher specificity, or the
  same specificity and a lower identifier. It returns nothing only when no
  enabled domain rule matches.
\<close>

theorem MostSpecific_best:
  "case MostSpecific rs name of
     None \<Rightarrow> filter (\<lambda>r. rl_Enabled r \<and> \<not> IsIPRule (rl_Pattern r) \<and> Match (rl_Pattern r) name) rs = []
   | Some b \<Rightarrow> b \<in> set rs \<and> rl_Enabled b \<and> \<not> IsIPRule (rl_Pattern b) \<and> Match (rl_Pattern b) name \<and>
       filter (\<lambda>r. rl_Enabled r \<and> \<not> IsIPRule (rl_Pattern r) \<and> Match (rl_Pattern r) name \<and>
         (Specificity (rl_Pattern r) > Specificity (rl_Pattern b) \<or>
          Specificity (rl_Pattern r) = Specificity (rl_Pattern b) \<and> rl_ID r < rl_ID b)) rs = []"
proof (cases "MostSpecific rs name")
  case None
  then show ?thesis using by_name.loop_None [of name rs]
    by (simp add: MostSpecific_def name_cand_def filter_empty_conv)
next
  case (Some b)
  then have "b \<in> set rs \<and> name_cand name b \<and> (\<forall>r\<in>set rs. name_cand name r \<longrightarrow> \<not> by_name.better r b)"
    unfolding MostSpecific_def by (rule by_name.loop_best)
  then show ?thesis
    by (auto simp: Some name_cand_def rule_score_def by_name.better_def filter_empty_conv)
qed

text \<open>
  \<open>MostSpecificIP\<close> is longest-prefix match. It returns an enabled IP/CIDR rule
  whose network contains the address; no other such rule has a longer mask, or
  the same mask length and a lower identifier; it returns nothing only when no
  enabled rule's network contains the address.
\<close>

lemma MostSpecificIP_longest_prefix:
  "case MostSpecificIP rs ip of
     None \<Rightarrow> filter (ip_cand ip) rs = []
   | Some b \<Rightarrow> b \<in> set rs \<and> ip_cand ip b \<and>
       filter (\<lambda>r. ip_cand ip r \<and> (rule_ones r > rule_ones b \<or> rule_ones r = rule_ones b \<and> rl_ID r < rl_ID b)) rs = []"
proof (cases "MostSpecificIP rs ip")
  case None
  then show ?thesis using by_ip.loop_None [of ip rs] by (simp add: MostSpecificIP_def filter_empty_conv)
next
  case (Some b)
  then have "b \<in> set rs \<and> ip_cand ip b \<and> (\<forall>r\<in>set rs. ip_cand ip r \<longrightarrow> \<not> by_ip.better r b)"
    unfolding MostSpecificIP_def by (rule by_ip.loop_best)
  then show ?thesis by (auto simp: Some by_ip.better_def filter_empty_conv)
qed

lemma Validate_domain:
  assumes "Validate pattern = None" and "\<not> IsIPRule (normalize pattern)"
  shows "normalize (normalize pattern) = normalize pattern \<and>
    list_all (\<lambda>l. l \<noteq> [] \<and> list_all (\<lambda>c. is_alnum c \<or> c = CHR ''-'') l)
      (Split (if HasPrefix (normalize pattern) ''*.'' then drop 2 (normalize pattern) else normalize pattern) CHR ''.'')"
proof -
  let ?p = "normalize pattern"
  let ?b = "if HasPrefix ?p ''*.'' then drop 2 ?p else ?p"
  have p: "?p \<noteq> []" "\<not> Contains ?p '' ''" "?b \<noteq> []" and v: "validate_labels (Split ?b CHR ''.'') = None"
    using assms by (auto simp: Validate_def Let_def split: if_splits)
  have ls: "\<forall>l\<in>set (Split ?b CHR ''.''). l \<noteq> [] \<and> (\<forall>c\<in>set l. is_alnum c \<or> c = CHR ''-'')"
    using v by (simp add: validate_labels_None)
  have pb: "?p = (if HasPrefix ?p ''*.'' then ''*.'' else []) @ ?b"
    by (auto simp: HasPrefix_iff)
  have chars: "c \<in> set ?p \<Longrightarrow> \<not> is_upper c \<and> \<not> is_space c" for c
    using label_chars [OF ls] by (subst (asm) pb) (auto simp: char_defs split: if_splits)
  have "last ?b \<noteq> CHR ''.''" using label_last [OF p(3)] ls by blast
  then have "last ?p \<noteq> CHR ''.''" by (subst pb) (use p(3) in simp)
  then have "normalize ?p = ?p" using chars by (intro normalize_stable) auto
  then show ?thesis using ls by (simp add: list_all_iff)
qed

text \<open>
  C10: validation produces storable patterns. A domain pattern that \<open>Validate\<close>
  accepts has a normal form that normalisation leaves unchanged, whose labels
  (after an optional leading \<open>"*."\<close>) are non-empty and consist of lower-case
  letters, digits and dashes.
\<close>

theorem Validate_normal_form:
  assumes "Validate pattern = None" and "\<not> IsIPRule (normalize pattern)"
  shows "normalize (normalize pattern) = normalize pattern \<and>
    list_all (\<lambda>l. l \<noteq> [] \<and> list_all (\<lambda>c. is_alnum c \<or> c = CHR ''-'') l)
      (Split (if HasPrefix (normalize pattern) ''*.'' then drop 2 (normalize pattern) else normalize pattern) CHR ''.'')"
  using Validate_domain [OF assms] by blast

theorem Validate_normal_form_witness:
  "Validate '' *.Example.COM. '' = None \<and> \<not> IsIPRule (normalize '' *.Example.COM. '') \<and>
   normalize (normalize '' *.Example.COM. '') = normalize '' *.Example.COM. ''"
proof -
  have 1: "Validate '' *.Example.COM. '' = None" by code_simp
  have 2: "\<not> IsIPRule (normalize '' *.Example.COM. '')" by code_simp
  show ?thesis using Validate_normal_form [OF 1 2] 1 2 by blast
qed

end
