(* ===== verification/Rule_Index.thy ===== *)
theory Rule_Index
  imports Rules
begin

text \<open>
  \<open>core/rules/index.go\<close>: the compiled rule index and its two lookups. The
  lemmas show that a lookup in the index answers exactly what the reference
  scans of \<open>rules.go\<close> answer.
\<close>

section \<open>The index\<close>

record ipRule =
  ir_net :: ipnet
  ir_ones :: int
  ir_rule :: rule

record index =
  ix_exact :: "string \<rightharpoonup> rule"
  ix_wild :: "string \<rightharpoonup> rule"
  ix_ips :: "ipRule list"

definition put_slot :: "(string \<rightharpoonup> rule) \<Rightarrow> string \<Rightarrow> rule \<Rightarrow> (string \<rightharpoonup> rule)" where
  "put_slot m key r = (case m key of
      None \<Rightarrow> m(key \<mapsto> r)
    | Some cur \<Rightarrow> if rl_ID r < rl_ID cur then m(key \<mapsto> r) else m)"

definition index_rule :: "index \<Rightarrow> rule \<Rightarrow> index" where
  "index_rule ix r =
     (if \<not> rl_Enabled r then ix
      else case ParseCIDR (rl_Pattern r) of
        Some n \<Rightarrow> ix\<lparr>ix_ips := ix_ips ix @ [\<lparr>ir_net = n, ir_ones = int (mask_ones n), ir_rule = r\<rparr>]\<rparr>
      | None \<Rightarrow>
          let p = normalize (rl_Pattern r) in
          if p = [] then ix
          else if HasPrefix p ''*.'' then
            (let key = drop 2 p in
             if key = [] then ix else ix\<lparr>ix_wild := put_slot (ix_wild ix) key r\<rparr>)
          else ix\<lparr>ix_exact := put_slot (ix_exact ix) p r\<rparr>)"

definition NewIndex :: "rule list \<Rightarrow> index" where
  "NewIndex rs = foldl index_rule \<lparr>ix_exact = Map.empty, ix_wild = Map.empty, ix_ips = []\<rparr> rs"

function wild_walk :: "(string \<rightharpoonup> rule) \<Rightarrow> string \<Rightarrow> rule option" where
  "wild_walk wild s =
     (case wild s of
        Some r \<Rightarrow> Some r
      | None \<Rightarrow> (case Cut s CHR ''.'' of None \<Rightarrow> None | Some (_, rest) \<Rightarrow> wild_walk wild rest))"
  by pat_completeness auto
termination
  by (relation "measure (\<lambda>(_, s). length s)") (auto dest: Cut_SomeD)

declare wild_walk.simps [simp del]

definition Index_MostSpecific :: "index \<Rightarrow> string \<Rightarrow> rule option" where
  "Index_MostSpecific ix name =
     (let n = normalize name in
      if n = [] then None
      else case ix_exact ix n of
        Some r \<Rightarrow> Some r
      | None \<Rightarrow> wild_walk (ix_wild ix) n)"

fun Index_IP_loop :: "ip \<Rightarrow> ipRule list \<Rightarrow> rule option \<Rightarrow> int \<Rightarrow> rule option" where
  "Index_IP_loop ip [] best bestOnes = best"
| "Index_IP_loop ip (c # cs) best bestOnes =
     (if \<not> net_Contains (ir_net c) ip then Index_IP_loop ip cs best bestOnes
      else if ir_ones c > bestOnes \<or>
              (ir_ones c = bestOnes \<and>
               (case best of None \<Rightarrow> False | Some b \<Rightarrow> rl_ID (ir_rule c) < rl_ID b))
      then Index_IP_loop ip cs (Some (ir_rule c)) (ir_ones c)
      else Index_IP_loop ip cs best bestOnes)"

definition Index_MostSpecificIP :: "index \<Rightarrow> ip \<Rightarrow> rule option" where
  "Index_MostSpecificIP ix ip = Index_IP_loop ip (ix_ips ix) None (-1)"

section \<open>Parent domains\<close>

text \<open>The names the walk visits: the name itself, then what follows its first dot, and so on.\<close>

function dot_tails :: "string \<Rightarrow> string list" where
  "dot_tails s = s # (case Cut s CHR ''.'' of None \<Rightarrow> [] | Some (_, rest) \<Rightarrow> dot_tails rest)"
  by pat_completeness auto
termination
  by (relation "measure length") (auto dest: Cut_SomeD)

declare dot_tails.simps [simp del]

lemma dot_tails_None: "Cut s CHR ''.'' = None \<Longrightarrow> dot_tails s = [s]" and
  dot_tails_Some: "Cut s CHR ''.'' = Some (a, b) \<Longrightarrow> dot_tails s = s # dot_tails b"
  by (simp_all add: dot_tails.simps [of s])

lemma wild_walk_last: "Cut s CHR ''.'' = None \<Longrightarrow> wild_walk w s = w s" and
  wild_walk_step: "Cut s CHR ''.'' = Some (a, b) \<Longrightarrow>
    wild_walk w s = (case w s of Some r \<Rightarrow> Some r | None \<Rightarrow> wild_walk w b)"
  by (simp_all add: wild_walk.simps [of w s] split: option.splits)

lemmas walk_rules = dot_tails_None dot_tails_Some wild_walk_last wild_walk_step

definition labels :: "string \<Rightarrow> nat" where
  "labels s = length (Split s CHR ''.'')"

lemma dot_tails_iff: "k \<in> set (dot_tails n) \<longleftrightarrow> n = k \<or> HasSuffix n (CHR ''.'' # k)"
proof (induction n rule: dot_tails.induct)
  case (1 s)
  show ?case
  proof (cases "Cut s CHR ''.''")
    case None
    then have "CHR ''.'' \<notin> set s" by (simp add: Cut_None)
    then have "\<not> HasSuffix s (CHR ''.'' # k)" by (auto simp: HasSuffix_iff)
    with None show ?thesis by (auto simp: dot_tails_None)
  next
    case (Some ab)
    obtain a b where ab: "ab = (a, b)" by (cases ab)
    from Some have s: "s = a @ CHR ''.'' # b" "CHR ''.'' \<notin> set a" using ab Cut_SomeD by auto
    have "HasSuffix s (CHR ''.'' # k) \<longleftrightarrow> b = k \<or> HasSuffix b (CHR ''.'' # k)"
    proof
      assume "HasSuffix s (CHR ''.'' # k)"
      then obtain u where "a @ CHR ''.'' # b = u @ CHR ''.'' # k" by (auto simp: HasSuffix_iff s)
      then obtain us where "a @ us = u \<and> CHR ''.'' # b = us @ CHR ''.'' # k \<or>
          a = u @ us \<and> us @ CHR ''.'' # b = CHR ''.'' # k"
        by (auto simp: append_eq_append_conv2)
      then show "b = k \<or> HasSuffix b (CHR ''.'' # k)"
      proof (elim disjE conjE)
        assume u: "CHR ''.'' # b = us @ CHR ''.'' # k"
        show ?thesis by (cases us) (use u in \<open>auto simp: HasSuffix_iff\<close>)
      next
        assume u: "a = u @ us" "us @ CHR ''.'' # b = CHR ''.'' # k"
        show ?thesis by (cases us) (use u s(2) in auto)
      qed
    qed (auto simp: HasSuffix_iff s)
    with Some ab 1 show ?thesis by (auto simp: dot_tails_Some)
  qed
qed

lemma labels_Cut: "Cut s CHR ''.'' = Some (a, b) \<Longrightarrow> labels s = Suc (labels b)"
  using Cut_SomeD [of s "CHR ''.''" a b] by (simp add: labels_def Split_append_sep)

lemma labels_dot_tails:
  "k \<in> set (dot_tails n) \<Longrightarrow> labels k \<le> labels n \<and> (labels k = labels n \<longrightarrow> k = n)"
proof (induction n rule: dot_tails.induct)
  case (1 s)
  show ?case
  proof (cases "Cut s CHR ''.''")
    case (Some ab)
    then obtain a b where ab: "Cut s CHR ''.'' = Some (a, b)" by (cases ab) auto
    then show ?thesis using 1 labels_Cut [OF ab] by (force simp: dot_tails_Some)
  qed (use 1 in \<open>simp add: dot_tails_None\<close>)
qed

text \<open>Two names on the walk with the same number of labels are the same name.\<close>

lemma labels_inj_dot_tails:
  "k \<in> set (dot_tails n) \<Longrightarrow> k' \<in> set (dot_tails n) \<Longrightarrow> labels k = labels k' \<Longrightarrow> k = k'"
proof (induction n rule: dot_tails.induct)
  case (1 s)
  show ?case
  proof (cases "k = s \<or> k' = s")
    case True
    then show ?thesis using labels_dot_tails 1 by metis
  next
    case False
    show ?thesis
    proof (cases "Cut s CHR ''.''")
      case (Some ab)
      then obtain a b where ab: "Cut s CHR ''.'' = Some (a, b)" by (cases ab) auto
      with False 1 show ?thesis by (auto simp: dot_tails_Some)
    qed (use False 1 in \<open>simp add: dot_tails_None\<close>)
  qed
qed

text \<open>The walk returns the entry of the first name on it that has one.\<close>

lemma wild_walk_Some:
  "wild_walk w n = Some r \<Longrightarrow> \<exists>k\<in>set (dot_tails n). w k = Some r \<and>
     (\<forall>k'\<in>set (dot_tails n). labels k < labels k' \<longrightarrow> w k' = None)"
proof (induction w n rule: wild_walk.induct)
  case (1 w s)
  show ?case
  proof (cases "w s")
    case (Some r')
    with "1.prems" have "r' = r" by (simp add: wild_walk.simps [of w s])
    moreover have "s \<in> set (dot_tails s)" by (simp add: dot_tails_iff)
    ultimately show ?thesis using Some labels_dot_tails [of _ s] by (meson not_le)
  next
    case None
    show ?thesis
    proof (cases "Cut s CHR ''.''")
      case (Some ab)
      then obtain a b where ab: "Cut s CHR ''.'' = Some (a, b)" by (cases ab) auto
      with None "1.prems" have "wild_walk w b = Some r" by (simp add: wild_walk_step)
      then obtain k where "k \<in> set (dot_tails b)" "w k = Some r"
        "\<forall>k'\<in>set (dot_tails b). labels k < labels k' \<longrightarrow> w k' = None"
        using "1.IH" None ab by blast
      then show ?thesis using None ab by (auto simp: dot_tails_Some)
    qed (use None 1 in \<open>simp add: wild_walk_last\<close>)
  qed
qed

lemma wild_walk_None: "wild_walk w n = None \<longleftrightarrow> (\<forall>k\<in>set (dot_tails n). w k = None)"
proof (induction w n rule: wild_walk.induct)
  case (1 w s)
  show ?case
  proof (cases "Cut s CHR ''.''")
    case (Some ab)
    then obtain a b where ab: "Cut s CHR ''.'' = Some (a, b)" by (cases ab) auto
    with 1 show ?thesis by (auto simp: walk_rules split: option.splits)
  qed (simp add: walk_rules)
qed

section \<open>The slots of the index\<close>

text \<open>
  A slot of the index holds the rule the scan of the prelude selects with a
  constant score: the lowest identifier among the rules that map to the slot,
  the first one on a tie.
\<close>

definition exact_cand :: "string \<Rightarrow> rule \<Rightarrow> bool" where
  "exact_cand k r \<longleftrightarrow> rl_Enabled r \<and> ParseCIDR (rl_Pattern r) = None \<and>
     normalize (rl_Pattern r) = k \<and> k \<noteq> [] \<and> \<not> HasPrefix k ''*.''"

definition wild_cand :: "string \<Rightarrow> rule \<Rightarrow> bool" where
  "wild_cand k r \<longleftrightarrow> rl_Enabled r \<and> ParseCIDR (rl_Pattern r) = None \<and>
     normalize (rl_Pattern r) = ''*.'' @ k \<and> k \<noteq> []"

abbreviation slot_scan :: "(rule \<Rightarrow> bool) \<Rightarrow> rule list \<Rightarrow> rule option \<Rightarrow> rule option" where
  "slot_scan C rs b \<equiv> scan C (\<lambda>_. 0) rl_ID rs b (if b = None then -1 else 0)"

lemma star_prefix: "HasPrefix p ''*.'' \<longleftrightarrow> p = ''*.'' @ drop 2 p"
  by (auto simp: HasPrefix_iff)

lemma exact_step:
  "ix_exact (index_rule ix r) k = (if exact_cand k r then put_slot (ix_exact ix) k r k else ix_exact ix k)"
  by (auto simp: index_rule_def exact_cand_def put_slot_def Let_def split: option.splits)

lemma wild_step:
  "ix_wild (index_rule ix r) k = (if wild_cand k r then put_slot (ix_wild ix) k r k else ix_wild ix k)"
  using star_prefix [of "normalize (rl_Pattern r)"]
  by (auto simp: index_rule_def wild_cand_def put_slot_def Let_def split: option.splits)

lemma exact_fold: "ix_exact (foldl index_rule ix rs) k = slot_scan (exact_cand k) rs (ix_exact ix k)"
  by (induction rs arbitrary: ix) (auto simp: exact_step put_slot_def split: option.splits)

lemma wild_fold: "ix_wild (foldl index_rule ix rs) k = slot_scan (wild_cand k) rs (ix_wild ix k)"
  by (induction rs arbitrary: ix) (auto simp: wild_step put_slot_def split: option.splits)

lemma exact_NewIndex: "ix_exact (NewIndex rs) k = scan (exact_cand k) (\<lambda>_. 0) rl_ID rs None (-1)"
  by (simp add: NewIndex_def exact_fold)

lemma wild_NewIndex: "ix_wild (NewIndex rs) k = scan (wild_cand k) (\<lambda>_. 0) rl_ID rs None (-1)"
  by (simp add: NewIndex_def wild_fold)

fun ips_of :: "rule list \<Rightarrow> ipRule list" where
  "ips_of [] = []"
| "ips_of (r # rs) = (if \<not> rl_Enabled r then ips_of rs
     else case ParseCIDR (rl_Pattern r) of None \<Rightarrow> ips_of rs
       | Some n \<Rightarrow> \<lparr>ir_net = n, ir_ones = int (mask_ones n), ir_rule = r\<rparr> # ips_of rs)"

lemma ips_fold: "ix_ips (foldl index_rule ix rs) = ix_ips ix @ ips_of rs"
  by (induction rs arbitrary: ix) (auto simp: index_rule_def Let_def split: option.splits)

lemma ips_loop: "Index_IP_loop ip (ips_of rs) b s = MostSpecificIP_loop ip rs b s"
  by (induction rs arbitrary: b s) (auto simp: Let_def split: option.splits)

section \<open>The index answers like the reference scans\<close>

lemma name_cand_slots:
  assumes "normalize (rl_Pattern r) \<noteq> ''*.''" and "normalize name \<noteq> []"
  shows "name_cand name r \<longleftrightarrow> exact_cand (normalize name) r \<or>
           (\<exists>k\<in>set (dot_tails (normalize name)). wild_cand k r)"
proof (cases "HasPrefix (normalize (rl_Pattern r)) ''*.''")
  case True
  then obtain k where k: "normalize (rl_Pattern r) = ''*.'' @ k" by (auto simp: HasPrefix_iff)
  with assms have "k \<noteq> []" by auto
  moreover have "\<not> exact_cand (normalize name) r" using True by (auto simp: exact_cand_def)
  ultimately show ?thesis using k assms
    by (auto simp: name_cand_def IsIPRule_def Match_def Let_def wild_cand_def dot_tails_iff)
next
  case False
  then show ?thesis using assms
    by (auto simp: name_cand_def IsIPRule_def Match_def Let_def exact_cand_def wild_cand_def)
qed

lemma exact_score: "exact_cand k r \<Longrightarrow> rule_score r = 2 * int (labels k) + 1"
  by (auto simp: exact_cand_def rule_score_def Specificity_def labels_def Let_def)

lemma wild_score: "wild_cand k r \<Longrightarrow> rule_score r = 2 * int (labels k)"
  by (auto simp: wild_cand_def rule_score_def Specificity_def labels_def Let_def)

text \<open>A slot whose rules outrank every other candidate decides the name scan.\<close>

lemma best_from_slot:
  assumes y: "scan C (\<lambda>_. 0) rl_ID rs None (-1) = Some y"
    and C: "\<And>r. C r \<Longrightarrow> name_cand name r"
    and rank: "\<And>r. r \<in> set rs \<Longrightarrow> name_cand name r \<Longrightarrow>
          C r \<and> rule_score r = rule_score y \<or> rule_score r < rule_score y"
  shows "MostSpecific rs name = Some y"
proof -
  obtain as bs where d: "rs = as @ y # bs" "C y"
    "\<forall>r\<in>set as. C r \<longrightarrow> rl_ID y < rl_ID r" "\<forall>r\<in>set bs. C r \<longrightarrow> \<not> rl_ID r < rl_ID y"
    using y unfolding slot.loop_iff slot.first_best_def slot.better_def by auto
  have "MostSpecific_loop name (as @ y # bs) None (-1) = Some y"
  proof (rule by_name.loop_first)
    fix r assume "r \<in> set as" "name_cand name r"
    then show "by_name.better y r" using rank [of r] d by (auto simp: by_name.better_def)
  next
    fix r assume "r \<in> set bs" "name_cand name r"
    then show "\<not> by_name.better r y" using rank [of r] d by (auto simp: by_name.better_def)
  qed (rule C [OF d(2)])
  then show ?thesis by (simp add: MostSpecific_def d(1))
qed

lemma Index_MostSpecific_eq:
  assumes H: "\<And>r. r \<in> set rs \<Longrightarrow> normalize (rl_Pattern r) \<noteq> ''*.''"
  shows "Index_MostSpecific (NewIndex rs) name = MostSpecific rs name"
proof (cases "normalize name = []")
  case True
  then have "\<not> name_cand name r" for r by (simp add: name_cand_def Match_def)
  then show ?thesis using True by_name.loop_None [of name rs]
    by (simp add: MostSpecific_def Index_MostSpecific_def)
next
  case ne: False
  let ?n = "normalize name"
  note slots = name_cand_slots [OF H ne]
  show ?thesis
  proof (cases "ix_exact (NewIndex rs) ?n")
    case (Some y)
    have y: "exact_cand ?n y" using Some slot.loop_best by (fastforce simp: exact_NewIndex)
    have "MostSpecific rs name = Some y"
    proof (rule best_from_slot)
      show "scan (exact_cand ?n) (\<lambda>_. 0) rl_ID rs None (-1) = Some y" using Some by (simp add: exact_NewIndex)
      show "exact_cand ?n r \<Longrightarrow> name_cand name r" for r
        using ne by (auto simp: exact_cand_def name_cand_def IsIPRule_def Match_def Let_def)
      show "exact_cand ?n r \<and> rule_score r = rule_score y \<or> rule_score r < rule_score y"
        if "r \<in> set rs" "name_cand name r" for r
        using slots [OF that(1)] that(2) exact_score [OF y] exact_score [of ?n r] wild_score [of _ r]
          labels_dot_tails [of _ ?n] by fastforce
    qed
    then show ?thesis using Some ne by (simp add: Index_MostSpecific_def)
  next
    case None
    then have no_exact: "r \<in> set rs \<Longrightarrow> \<not> exact_cand ?n r" for r
      by (simp add: exact_NewIndex slot.loop_None)
    have look: "Index_MostSpecific (NewIndex rs) name = wild_walk (ix_wild (NewIndex rs)) ?n"
      using None ne by (simp add: Index_MostSpecific_def)
    show ?thesis
    proof (cases "wild_walk (ix_wild (NewIndex rs)) ?n")
      case None
      then have "r \<in> set rs \<Longrightarrow> \<not> name_cand name r" for r
        using slots [of r] no_exact by (simp add: wild_walk_None wild_NewIndex slot.loop_None)
      then show ?thesis using look None by_name.loop_None [of name rs] by (simp add: MostSpecific_def)
    next
      case (Some y)
      then obtain k where k: "k \<in> set (dot_tails ?n)" "ix_wild (NewIndex rs) k = Some y"
        "\<forall>k'\<in>set (dot_tails ?n). labels k < labels k' \<longrightarrow> ix_wild (NewIndex rs) k' = None"
        using wild_walk_Some by blast
      have y: "wild_cand k y" "y \<in> set rs" using k(2) slot.loop_best by (fastforce simp: wild_NewIndex)+
      have "MostSpecific rs name = Some y"
      proof (rule best_from_slot)
        show "scan (wild_cand k) (\<lambda>_. 0) rl_ID rs None (-1) = Some y" using k(2) by (simp add: wild_NewIndex)
        show "wild_cand k r \<Longrightarrow> name_cand name r" for r
          using k(1) ne by (auto simp: wild_cand_def name_cand_def IsIPRule_def Match_def Let_def dot_tails_iff)
        show "wild_cand k r \<and> rule_score r = rule_score y \<or> rule_score r < rule_score y"
          if r: "r \<in> set rs" "name_cand name r" for r
        proof -
          obtain k' where k': "k' \<in> set (dot_tails ?n)" "wild_cand k' r"
            using slots [OF r(1)] r no_exact by blast
          then have "ix_wild (NewIndex rs) k' \<noteq> None" using r(1) by (auto simp: wild_NewIndex slot.loop_None)
          then have "\<not> labels k < labels k'" using k(3) k'(1) by auto
          then have "labels k' < labels k \<or> k' = k" using k'(1) k(1) labels_inj_dot_tails
            by (meson linorder_neqE_nat)
          then show ?thesis using wild_score [OF k'(2)] wild_score [OF y(1)] k'(2) by auto
        qed
      qed
      then show ?thesis using look Some by simp
    qed
  qed
qed

lemma Index_MostSpecificIP_eq: "Index_MostSpecificIP (NewIndex rs) ip = MostSpecificIP rs ip"
  by (simp add: Index_MostSpecificIP_def MostSpecificIP_def NewIndex_def ips_fold ips_loop)

section \<open>Properties\<close>

text \<open>
  C6: the optimised name lookup is equivalent to the reference scan. For every
  rule list in which no pattern normalises to the degenerate \<open>"*."\<close> (which
  \<open>Validate\<close> rejects), looking a name up in the compiled index returns the very
  rule \<open>MostSpecific\<close> finds by scanning the list, for every name.
\<close>

theorem index_name_equiv:
  assumes "\<forall>r\<in>set rs. normalize (rl_Pattern r) \<noteq> ''*.''"
  shows "Index_MostSpecific (NewIndex rs) name = MostSpecific rs name"
  using assms by (intro Index_MostSpecific_eq) blast

theorem index_name_equiv_witness:
  "list_all (\<lambda>r. normalize (rl_Pattern r) \<noteq> ''*.'') sample_rules \<and>
   Index_MostSpecific (NewIndex sample_rules) ''a.example.com'' = MostSpecific sample_rules ''a.example.com'' \<and>
   MostSpecific sample_rules ''a.example.com'' = Some (sample_rule 1 ''*.example.com'' ''block'' [])"
proof -
  have 1: "\<forall>r\<in>set sample_rules. normalize (rl_Pattern r) \<noteq> ''*.''" by code_simp
  have 2: "MostSpecific sample_rules ''a.example.com'' = Some (sample_rule 1 ''*.example.com'' ''block'' [])"
    by code_simp
  show ?thesis using index_name_equiv [OF 1] 1 2 unfolding list_all_iff by blast
qed

text \<open>
  C9: the indexed address lookup is equivalent to the reference longest-prefix
  scan, for every rule list and every address.
\<close>

theorem index_ip_equiv: "Index_MostSpecificIP (NewIndex rs) ip = MostSpecificIP rs ip"
  by (rule Index_MostSpecificIP_eq)

end
