(* ===== verification/Decision.thy ===== *)
theory Decision
  imports Rule_Index
begin

text \<open>
  \<open>core/decision/decision.go\<close>: the engine that turns a queried name or a
  destination address into an outcome. The engine's state is the compiled index;
  \<open>Reload\<close> takes the results of its two collaborators (the rule source's
  \<open>List\<close>, and the interface expander's \<open>Expansions\<close> when one is installed) as
  arguments.
\<close>

datatype outcome = OutcomeAllow | OutcomeBlock | OutcomeRoute

fun Outcome_String :: "outcome \<Rightarrow> string" where
  "Outcome_String OutcomeAllow = ''allow''"
| "Outcome_String OutcomeBlock = ''block''"
| "Outcome_String OutcomeRoute = ''route''"

record decision =
  dc_Outcome :: outcome
  dc_Interface :: string
  dc_RuleID :: int
  dc_Pattern :: string

record engine =
  en_cache :: index

definition New_engine :: engine where
  "New_engine = \<lparr>en_cache = NewIndex []\<rparr>"

definition rewrite_iface :: "(string \<rightharpoonup> string) \<Rightarrow> rule \<Rightarrow> rule" where
  "rewrite_iface rewrite r =
     (case rewrite (rl_Interface r) of Some v \<Rightarrow> r\<lparr>rl_Interface := v\<rparr> | None \<Rightarrow> r)"

text \<open>
  \<open>listed\<close> is the result of \<open>src.List\<close>; \<open>exp\<close> is \<open>None\<close> when no expander is
  installed, and otherwise the result of \<open>exp.Expansions\<close>.
\<close>

definition Reload :: "'e + rule list \<Rightarrow> ('e + (string \<rightharpoonup> string)) option \<Rightarrow> engine \<Rightarrow> 'e option \<times> engine" where
  "Reload listed exp e =
     (case listed of
        Inl err \<Rightarrow> (Some err, e)
      | Inr list \<Rightarrow>
          (case exp of
             None \<Rightarrow> (None, e\<lparr>en_cache := NewIndex list\<rparr>)
           | Some (Inl err) \<Rightarrow> (Some err, e)
           | Some (Inr rewrite) \<Rightarrow>
               (None, e\<lparr>en_cache := NewIndex (map (rewrite_iface rewrite) list)\<rparr>)))"

definition no_match :: decision where
  "no_match = \<lparr>dc_Outcome = OutcomeAllow, dc_Interface = [], dc_RuleID = 0, dc_Pattern = []\<rparr>"

definition decision_of :: "rule option \<Rightarrow> decision" where
  "decision_of found =
     (case found of
        None \<Rightarrow> no_match
      | Some r \<Rightarrow>
          if rl_Action r = ActionBlock then
            \<lparr>dc_Outcome = OutcomeBlock, dc_Interface = [], dc_RuleID = rl_ID r, dc_Pattern = rl_Pattern r\<rparr>
          else if rl_Action r = ActionAllow then
            \<lparr>dc_Outcome = OutcomeAllow, dc_Interface = [], dc_RuleID = rl_ID r, dc_Pattern = rl_Pattern r\<rparr>
          else if rl_Action r = ActionRoute then
            \<lparr>dc_Outcome = OutcomeRoute, dc_Interface = rl_Interface r, dc_RuleID = rl_ID r, dc_Pattern = rl_Pattern r\<rparr>
          else no_match)"

definition Decide :: "engine \<Rightarrow> string \<Rightarrow> decision" where
  "Decide e name = decision_of (Index_MostSpecific (en_cache e) name)"

definition DecideIP :: "engine \<Rightarrow> ip \<Rightarrow> decision" where
  "DecideIP e ip = decision_of (Index_MostSpecificIP (en_cache e) ip)"

section \<open>Facts about validated patterns\<close>

lemma Validate_not_star: "Validate p = None \<Longrightarrow> normalize p \<noteq> ''*.''"
proof
  assume v: "Validate p = None" and p: "normalize p = ''*.''"
  have "normalize ''*.'' = ''*''" by code_simp
  then have "\<not> IsIPRule ''*.''"
    by (simp add: IsIPRule_def ParseCIDR_def ParseIP_def parse_addr_def net_ParseCIDR_def)
  with v p show False by (simp add: Validate_def)
qed

lemma rewrite_iface_fields [simp]:
  "rl_Pattern (rewrite_iface m r) = rl_Pattern r" "rl_ID (rewrite_iface m r) = rl_ID r"
  "rl_Enabled (rewrite_iface m r) = rl_Enabled r" "rl_Action (rewrite_iface m r) = rl_Action r"
  by (simp_all add: rewrite_iface_def split: option.splits)

lemma rewrite_iface_Interface:
  "rl_Interface (rewrite_iface m r) = (case m (rl_Interface r) of Some v \<Rightarrow> v | None \<Rightarrow> rl_Interface r)"
  by (simp add: rewrite_iface_def split: option.splits)

lemma Index_MostSpecific_valid:
  "(\<And>r. r \<in> set rs \<Longrightarrow> Validate (rl_Pattern r) = None) \<Longrightarrow>
     Index_MostSpecific (NewIndex rs) name = MostSpecific rs name"
  by (rule Index_MostSpecific_eq) (blast dest: Validate_not_star)

lemma MostSpecific_loop_map:
  assumes "\<And>r. rl_Pattern (f r) = rl_Pattern r" "\<And>r. rl_ID (f r) = rl_ID r"
    "\<And>r. rl_Enabled (f r) = rl_Enabled r"
  shows "MostSpecific_loop name (map f rs) (map_option f b) s = map_option f (MostSpecific_loop name rs b s)"
proof (induction rs arbitrary: b s)
  case (Cons r rs)
  have "MostSpecific_loop name (map f rs) (Some (f r)) s' = map_option f (MostSpecific_loop name rs (Some r) s')" for s'
    using Cons.IH [of "Some r" s'] by simp
  moreover have "MostSpecific_loop name (map f rs) (map_option f b) s = map_option f (MostSpecific_loop name rs b s)"
    by (rule Cons.IH)
  ultimately show ?case using assms by (cases b) (simp_all add: Let_def)
qed simp

lemma MostSpecific_rewrite:
  "MostSpecific (map (rewrite_iface m) rs) name = map_option (rewrite_iface m) (MostSpecific rs name)"
  using MostSpecific_loop_map [of "rewrite_iface m" name rs None "-1"] by (simp add: MostSpecific_def)

section \<open>Properties\<close>

text \<open>
  C7: what the engine decides after a successful reload. With validated rules and
  any expansion map, \<open>Decide\<close> returns the decision of the most specific matching
  rule of the stored list, with only that rule's interface rewritten by the map:
  expansion never changes which rule wins, and an interface without an entry is
  passed through verbatim.
\<close>

theorem Reload_Decide:
  assumes "\<forall>r\<in>set rs. Validate (rl_Pattern r) = None"
    and "Reload (Inr rs) (Some (Inr m)) e = (err, e')"
  shows "err = None \<and> Decide e' name =
    (case MostSpecific rs name of
       None \<Rightarrow> no_match
     | Some r \<Rightarrow> decision_of (Some (r\<lparr>rl_Interface := case m (rl_Interface r) of Some v \<Rightarrow> v | None \<Rightarrow> rl_Interface r\<rparr>)))"
proof -
  let ?rs = "map (rewrite_iface m) rs"
  have e': "err = None" "e' = e\<lparr>en_cache := NewIndex ?rs\<rparr>" using assms(2) by (auto simp: Reload_def)
  have "Index_MostSpecific (NewIndex ?rs) name = MostSpecific ?rs name"
    by (rule Index_MostSpecific_valid) (use assms(1) in auto)
  then have "Decide e' name = decision_of (map_option (rewrite_iface m) (MostSpecific rs name))"
    by (simp add: Decide_def e' MostSpecific_rewrite)
  then show ?thesis using e'(1)
    by (auto simp: decision_of_def rewrite_iface_def split: option.splits)
qed

theorem Reload_Decide_witness:
  "list_all (\<lambda>r. Validate (rl_Pattern r) = None) sample_rules \<and>
   dc_Interface (Decide (snd (Reload (Inr sample_rules :: string + rule list)
     (Some (Inr [''xrayset:fast'' \<mapsto> ''xray:tokyo''])) New_engine)) ''api.example.com'') = ''xray:tokyo''"
proof -
  let ?R = "Reload (Inr sample_rules :: string + rule list) (Some (Inr [''xrayset:fast'' \<mapsto> ''xray:tokyo''])) New_engine"
  have 1: "\<forall>r\<in>set sample_rules. Validate (rl_Pattern r) = None" by code_simp
  have 2: "MostSpecific sample_rules ''api.example.com'' = Some (sample_rule 2 ''api.example.com'' ''route'' ''xrayset:fast'')"
    by code_simp
  have "Decide (snd ?R) ''api.example.com'' = decision_of (Some (sample_rule 2 ''api.example.com'' ''route'' ''xray:tokyo''))"
    using Reload_Decide [OF 1, of "[''xrayset:fast'' \<mapsto> ''xray:tokyo'']" New_engine "fst ?R" "snd ?R" "''api.example.com''"] 2
    by (simp add: sample_rule_def)
  then show ?thesis using 1 by (simp add: list_all_iff decision_of_def sample_rule_def action_defs)
qed

text \<open>
  A failed reload is harmless. Whenever \<open>Reload\<close> reports an error, from either
  collaborator, the engine keeps deciding exactly as before.
\<close>

lemma Reload_error_keeps_cache:
  "case Reload listed exp e of
     (Some err, e') \<Rightarrow> e' = e \<and> (listed = Inl err \<or> exp = Some (Inl err))
   | (None, e') \<Rightarrow> (\<exists>rs. listed = Inr rs)"
  by (auto simp: Reload_def split: sum.splits option.splits)

end
