(* ===== verification/Fake_IP.thy ===== *)
theory Fake_IP
  imports Go_Net
begin

text \<open>
  \<open>core/dnsproxy/fakeip.go\<close>: the pool of synthetic IPv4 addresses. The code keeps
  two maps, by host and by address, that hold pointers to the same lease object,
  and refreshes a lease through one of them; the model therefore keeps an explicit
  heap of leases and both maps hold references into it. Addresses, the block size
  and the allocation cursor are 32-bit words. The current time is an argument.

  The write-behind queue is part of the state (\<open>fp_pending\<close>: the latest wanted
  store state per host, where an absent lease stands for a delete).
\<close>

section \<open>Data\<close>

definition DefaultFakeIPv4CIDR :: string where "DefaultFakeIPv4CIDR = ''198.18.0.0/15''"
definition DefaultFakeIPLeaseTTL :: duration where "DefaultFakeIPLeaseTTL = 7 * 24 * hour"
definition fakeIPPersistRefreshFraction :: int where "fakeIPPersistRefreshFraction = 4"

record FakeIPLease =
  ls_Host :: string
  ls_IP :: string
  ls_ExpiresAt :: time

record fakeLease =
  fl_ip :: "32 word"
  fl_host :: string
  fl_expiry :: time
  fl_stored :: time

record fakeIPPool =
  fp_base :: "32 word"
  fp_size :: "32 word"
  fp_cursor :: "32 word"
  fp_ttl :: duration
  fp_heap :: "nat \<rightharpoonup> fakeLease"
  fp_next :: nat
  fp_byHost :: "string \<rightharpoonup> nat"
  fp_byIP :: "32 word \<rightharpoonup> nat"
  fp_store :: bool
  fp_pending :: "string \<rightharpoonup> FakeIPLease option"

datatype pool_error = ParseCIDRFailed | NotIPv4 | TooSmall

definition newFakeIPPool :: "string \<Rightarrow> duration \<Rightarrow> bool \<Rightarrow> pool_error + fakeIPPool" where
  "newFakeIPPool cidr ttl store =
     (case net_ParseCIDR cidr of
        None \<Rightarrow> Inl ParseCIDRFailed
      | Some (_, ipnet) \<Rightarrow>
          (case To4 (net_ip ipnet) of
             None \<Rightarrow> Inl NotIPv4
           | Some v4 \<Rightarrow>
               let size = push_bit (mask_bits ipnet - mask_ones ipnet) (1 :: 32 word) in
               if size < 2 then Inl TooSmall
               else Inr \<lparr>fp_base = v4, fp_size = size, fp_cursor = 0,
                 fp_ttl = (if ttl \<le> 0 then DefaultFakeIPLeaseTTL else ttl),
                 fp_heap = Map.empty, fp_next = 0, fp_byHost = Map.empty, fp_byIP = Map.empty,
                 fp_store = store, fp_pending = Map.empty\<rparr>))"

section \<open>Operations\<close>

definition intToIP :: "32 word \<Rightarrow> ip" where "intToIP v = IPv4 v"

definition queue :: "string \<Rightarrow> FakeIPLease option \<Rightarrow> fakeIPPool \<Rightarrow> fakeIPPool" where
  "queue host lease p = p\<lparr>fp_pending := (fp_pending p)(host \<mapsto> lease)\<rparr>"

text \<open>Dereference of the lease an address maps to.\<close>

definition lease_at :: "fakeIPPool \<Rightarrow> 32 word \<Rightarrow> fakeLease option" where
  "lease_at p a = Option.bind (fp_byIP p a) (fp_heap p)"

definition lease_of :: "fakeIPPool \<Rightarrow> string \<Rightarrow> fakeLease option" where
  "lease_of p h = Option.bind (fp_byHost p h) (fp_heap p)"

text \<open>\<open>&fakeLease{...}\<close> stored under its host and its address.\<close>

definition new_lease :: "fakeLease \<Rightarrow> fakeIPPool \<Rightarrow> fakeIPPool" where
  "new_lease l p = p\<lparr>fp_heap := (fp_heap p)(fp_next p \<mapsto> l), fp_next := Suc (fp_next p),
     fp_byHost := (fp_byHost p)(fl_host l \<mapsto> fp_next p),
     fp_byIP := (fp_byIP p)(fl_ip l \<mapsto> fp_next p)\<rparr>"

definition drop_binding :: "string \<Rightarrow> 32 word \<Rightarrow> fakeIPPool \<Rightarrow> fakeIPPool" where
  "drop_binding host addr p =
     p\<lparr>fp_byHost := (fp_byHost p)(host := None), fp_byIP := (fp_byIP p)(addr := None)\<rparr>"

type_synonym alloc_result = "(ip \<times> string \<times> FakeIPLease option) option"

text \<open>The body of the scan on a slot that is free or expired.\<close>

definition claim_slot :: "string \<Rightarrow> time \<Rightarrow> 32 word \<Rightarrow> fakeIPPool \<Rightarrow> alloc_result \<times> fakeIPPool" where
  "claim_slot host now off p =
     (let addr = fp_base p + off;
          (evicted, p1) = (case lease_at p addr of
              Some l \<Rightarrow> (fl_host l, drop_binding (fl_host l) addr p)
            | None \<Rightarrow> ([], p));
          expiry = now + fp_ttl p;
          p2 = new_lease \<lparr>fl_ip = addr, fl_host = host, fl_expiry = expiry, fl_stored = expiry\<rparr> p1
      in (Some (intToIP addr, evicted,
            Some \<lparr>ls_Host = host, ls_IP = ip_String (intToIP addr), ls_ExpiresAt = expiry\<rparr>),
          p2\<lparr>fp_cursor := (off + 1) mod fp_size p\<rparr>))"

text \<open>The slot scan: \<open>k\<close> iterations are left, \<open>i\<close> is the loop variable.\<close>

fun alloc_scan :: "nat \<Rightarrow> 32 word \<Rightarrow> string \<Rightarrow> time \<Rightarrow> fakeIPPool \<Rightarrow> alloc_result \<times> fakeIPPool" where
  "alloc_scan 0 i host now p = (None, p)"
| "alloc_scan (Suc k) i host now p =
     (let off = (fp_cursor p + i) mod fp_size p in
      if off = 0 then alloc_scan k (i + 1) host now p
      else case lease_at p (fp_base p + off) of
        Some l \<Rightarrow> if now < fl_expiry l then alloc_scan k (i + 1) host now p
                  else claim_slot host now off p
      | None \<Rightarrow> claim_slot host now off p)"

definition refresh_lease :: "string \<Rightarrow> time \<Rightarrow> nat \<Rightarrow> fakeLease \<Rightarrow> fakeIPPool \<Rightarrow> alloc_result \<times> fakeIPPool" where
  "refresh_lease host now ref l p =
     (let expiry = now + fp_ttl p;
          due = (fl_stored l = 0 \<or> expiry - fl_stored l > fp_ttl p div fakeIPPersistRefreshFraction);
          l' = l\<lparr>fl_expiry := expiry, fl_stored := (if due then expiry else fl_stored l)\<rparr>;
          persist = (if due then Some \<lparr>ls_Host = host, ls_IP = ip_String (intToIP (fl_ip l)), ls_ExpiresAt = expiry\<rparr>
                     else None)
      in (Some (intToIP (fl_ip l), [], persist), p\<lparr>fp_heap := (fp_heap p)(ref \<mapsto> l')\<rparr>))"

definition allocate :: "string \<Rightarrow> time \<Rightarrow> fakeIPPool \<Rightarrow> alloc_result \<times> fakeIPPool" where
  "allocate host now p =
     (case fp_byHost p host of
        Some ref \<Rightarrow>
          (case fp_heap p ref of
             Some l \<Rightarrow> refresh_lease host now ref l p
           | None \<Rightarrow> (None, p))
      | None \<Rightarrow> alloc_scan (unat (fp_size p)) 0 host now p)"

definition Allocate :: "string \<Rightarrow> time \<Rightarrow> fakeIPPool \<Rightarrow> ip option \<times> fakeIPPool" where
  "Allocate host now p =
     (case allocate host now p of
        (None, p') \<Rightarrow> (None, p')
      | (Some (ip, evicted, persist), p') \<Rightarrow>
          (Some ip,
           if fp_store p' then
             (let p1 = (if evicted \<noteq> [] then queue evicted None p' else p')
              in case persist of Some l \<Rightarrow> queue host (Some l) p1 | None \<Rightarrow> p1)
           else p'))"

definition Release :: "string \<Rightarrow> fakeIPPool \<Rightarrow> fakeIPPool" where
  "Release host p =
     (case fp_byHost p host of
        None \<Rightarrow> p
      | Some ref \<Rightarrow>
          (case fp_heap p ref of
             None \<Rightarrow> p
           | Some l \<Rightarrow>
               (let p' = drop_binding host (fl_ip l) p
                in if fp_store p' then queue host None p' else p')))"

text \<open>One row of the restore loop; the second component is the highest restored offset.\<close>

definition restore_row :: "fakeIPPool \<times> 32 word \<Rightarrow> FakeIPLease \<Rightarrow> fakeIPPool \<times> 32 word" where
  "restore_row pm l =
     (let (p, maxOff) = pm in
      case Option.bind (ParseIP (ls_IP l)) To4 of
        None \<Rightarrow> (p, maxOff)
      | Some v \<Rightarrow>
          if v < fp_base p then (p, maxOff)
          else let off = v - fp_base p in
            if off = 0 \<or> fp_size p \<le> off then (p, maxOff)
            else if fp_byIP p v \<noteq> None then (p, maxOff)
            else (new_lease \<lparr>fl_ip = v, fl_host = ls_Host l, fl_expiry = ls_ExpiresAt l, fl_stored = ls_ExpiresAt l\<rparr> p,
                  if maxOff < off then off else maxOff))"

text \<open>The part of \<open>restore\<close> that runs under the lock.\<close>

definition restore_leases :: "FakeIPLease list \<Rightarrow> fakeIPPool \<Rightarrow> fakeIPPool" where
  "restore_leases leases p =
     (let (p', maxOff) = foldl restore_row (p, 0) leases
      in p'\<lparr>fp_cursor := (maxOff + 1) mod fp_size p'\<rparr>)"

section \<open>The lease store and the write-behind queue\<close>

text \<open>
  The methods of the \<open>FakeIPStore\<close> interface, over a store state \<open>'s\<close>. The
  program's provider is \<open>core/rules/fakeip.go\<close>.
\<close>

record ('s, 'e) FakeIPStore =
  st_List :: "time \<Rightarrow> 's \<Rightarrow> 'e + FakeIPLease list"
  st_Put :: "FakeIPLease \<Rightarrow> 's \<Rightarrow> 'e option \<times> 's"
  st_Delete :: "string \<Rightarrow> 's \<Rightarrow> 'e option \<times> 's"
  st_Sweep :: "time \<Rightarrow> 's \<Rightarrow> 'e option \<times> 's"

definition restore :: "('s, 'e) FakeIPStore \<Rightarrow> time \<Rightarrow> fakeIPPool \<times> 's \<Rightarrow> fakeIPPool \<times> 's" where
  "restore ops now ps =
     (let (p, s) = ps in
      if \<not> fp_store p then (p, s)
      else case st_List ops now s of
        Inl err \<Rightarrow> (p, s)
      | Inr leases \<Rightarrow> (restore_leases leases p, snd (st_Sweep ops now s)))"

text \<open>
  \<open>flush\<close>: the pending map is taken and emptied, then its deletes are applied and
  then its puts. Go iterates over a map in an unspecified order, separately in each
  of the two loops, so the orders \<open>ds\<close> and \<open>qs\<close> are arguments. Store errors are
  logged only.
\<close>

type_synonym batch = "(string \<times> FakeIPLease option) list"

definition flush_deletes :: "('s, 'e) FakeIPStore \<Rightarrow> batch \<Rightarrow> 's \<Rightarrow> 's" where
  "flush_deletes ops ds s = foldl (\<lambda>s (host, l). if l = None then snd (st_Delete ops host s) else s) s ds"

definition flush_puts :: "('s, 'e) FakeIPStore \<Rightarrow> batch \<Rightarrow> 's \<Rightarrow> 's" where
  "flush_puts ops qs s =
     foldl (\<lambda>s (host, l). case l of None \<Rightarrow> s | Some x \<Rightarrow> snd (st_Put ops x s)) s qs"

definition flush :: "('s, 'e) FakeIPStore \<Rightarrow> batch \<Rightarrow> batch \<Rightarrow> fakeIPPool \<times> 's \<Rightarrow> fakeIPPool \<times> 's" where
  "flush ops ds qs ps =
     (let (p, s) = ps in
      if \<not> fp_store p then (p, s)
      else (p\<lparr>fp_pending := Map.empty\<rparr>, flush_puts ops qs (flush_deletes ops ds s)))"

text \<open>An order in which Go may enumerate a map.\<close>

definition enumerates :: "('k \<times> 'v) list \<Rightarrow> ('k \<rightharpoonup> 'v) \<Rightarrow> bool" where
  "enumerates xs m \<longleftrightarrow> distinct (map fst xs) \<and> map_of xs = m"

section \<open>The pool invariant\<close>

definition bindings_ok :: "fakeIPPool \<Rightarrow> bool" where
  "bindings_ok p \<longleftrightarrow>
     (\<forall>h r. fp_byHost p h = Some r \<longrightarrow>
        (\<exists>l. fp_heap p r = Some l \<and> fl_host l = h \<and> fp_byIP p (fl_ip l) = Some r)) \<and>
     (\<forall>a r. fp_byIP p a = Some r \<longrightarrow>
        (\<exists>l. fp_heap p r = Some l \<and> fl_ip l = a \<and> fp_byHost p (fl_host l) = Some r \<and>
           0 < a - fp_base p \<and> a - fp_base p < fp_size p)) \<and>
     (\<forall>r. fp_heap p r \<noteq> None \<longrightarrow> r < fp_next p)"

definition block_ok :: "fakeIPPool \<Rightarrow> bool" where
  "block_ok p \<longleftrightarrow> 2 \<le> unat (fp_size p) \<and> unat (fp_size p) \<le> 2 ^ 31 \<and>
     unat (fp_base p) + unat (fp_size p) \<le> 2 ^ 32 \<and> fp_cursor p < fp_size p"

definition pool_inv :: "fakeIPPool \<Rightarrow> bool" where
  "pool_inv p \<longleftrightarrow> bindings_ok p \<and> block_ok p"

text \<open>What a client can observe: the address bound to a host.\<close>

definition bound :: "fakeIPPool \<Rightarrow> string \<Rightarrow> 32 word option" where
  "bound p h = map_option fl_ip (lease_of p h)"

lemma bindings_okI:
  assumes "\<And>h r. fp_byHost p h = Some r \<Longrightarrow>
        \<exists>l. fp_heap p r = Some l \<and> fl_host l = h \<and> fp_byIP p (fl_ip l) = Some r"
    and "\<And>a r. fp_byIP p a = Some r \<Longrightarrow>
        \<exists>l. fp_heap p r = Some l \<and> fl_ip l = a \<and> fp_byHost p (fl_host l) = Some r \<and>
           0 < a - fp_base p \<and> a - fp_base p < fp_size p"
    and "\<And>r. fp_heap p r \<noteq> None \<Longrightarrow> r < fp_next p"
  shows "bindings_ok p"
  using assms unfolding bindings_ok_def by blast

lemma bindings_okD:
  assumes "bindings_ok p"
  shows host_lease: "fp_byHost p h = Some r \<Longrightarrow>
        \<exists>l. fp_heap p r = Some l \<and> fl_host l = h \<and> fp_byIP p (fl_ip l) = Some r"
    and addr_lease: "fp_byIP p a = Some r \<Longrightarrow>
        \<exists>l. fp_heap p r = Some l \<and> fl_ip l = a \<and> fp_byHost p (fl_host l) = Some r \<and>
           0 < a - fp_base p \<and> a - fp_base p < fp_size p"
    and heap_next: "fp_heap p r \<noteq> None \<Longrightarrow> r < fp_next p"
  using assms unfolding bindings_ok_def by blast+

lemma heap_fresh: "bindings_ok p \<Longrightarrow> fp_heap p (fp_next p) = None"
  using heap_next [of p "fp_next p"] by blast

lemma bound_iff:
  assumes "bindings_ok p"
  shows "bound p h = Some a \<longleftrightarrow> (\<exists>l. lease_at p a = Some l \<and> fl_host l = h \<and> fl_ip l = a)"
proof
  assume "bound p h = Some a"
  then obtain r l where "fp_byHost p h = Some r" "fp_heap p r = Some l" "fl_ip l = a"
    by (auto simp: bound_def lease_of_def bind_eq_Some_conv)
  then show "\<exists>l. lease_at p a = Some l \<and> fl_host l = h \<and> fl_ip l = a"
    using host_lease [OF assms] by (fastforce simp: lease_at_def)
next
  assume "\<exists>l. lease_at p a = Some l \<and> fl_host l = h \<and> fl_ip l = a"
  then obtain r l where "fp_byIP p a = Some r" "fp_heap p r = Some l" "fl_host l = h" "fl_ip l = a"
    by (auto simp: lease_at_def bind_eq_Some_conv)
  then show "bound p h = Some a"
    using addr_lease [OF assms] by (fastforce simp: bound_def lease_of_def)
qed

lemma bound_inj: "bindings_ok p \<Longrightarrow> bound p h = Some a \<Longrightarrow> bound p h' = Some a \<Longrightarrow> h = h'"
  by (auto simp: bound_iff)

lemma bound_range:
  assumes "bindings_ok p" "bound p h = Some a"
  shows "0 < a - fp_base p \<and> a - fp_base p < fp_size p"
proof -
  obtain r where "fp_byIP p a = Some r"
    using assms by (auto simp: bound_iff lease_at_def bind_eq_Some_conv)
  then show ?thesis using addr_lease [OF assms(1)] by blast
qed

lemma bound_None: "bindings_ok p \<Longrightarrow> bound p h = None \<longleftrightarrow> fp_byHost p h = None"
  by (cases "fp_byHost p h") (auto simp: bound_def lease_of_def dest: host_lease)

lemma lease_at_None: "bindings_ok p \<Longrightarrow> lease_at p a = None \<longleftrightarrow> fp_byIP p a = None"
  by (cases "fp_byIP p a") (auto simp: lease_at_def dest: addr_lease)

lemma lease_at_SomeD:
  assumes "bindings_ok p" "lease_at p a = Some l"
  shows "fl_ip l = a" "bound p (fl_host l) = Some a"
proof -
  show ip: "fl_ip l = a" using assms addr_lease [OF assms(1)] by (fastforce simp: lease_at_def bind_eq_Some_conv)
  show "bound p (fl_host l) = Some a" using assms ip by (auto simp: bound_iff)
qed

section \<open>Each update keeps the bindings consistent\<close>

lemma new_lease_ok:
  assumes ok: "bindings_ok p" and h: "fp_byHost p (fl_host l) = None" and a: "fp_byIP p (fl_ip l) = None"
    and rng: "0 < fl_ip l - fp_base p" "fl_ip l - fp_base p < fp_size p"
  shows "bindings_ok (new_lease l p)"
proof (rule bindings_okI)
  fix h' r assume "fp_byHost (new_lease l p) h' = Some r"
  then show "\<exists>l'. fp_heap (new_lease l p) r = Some l' \<and> fl_host l' = h' \<and> fp_byIP (new_lease l p) (fl_ip l') = Some r"
    using host_lease [OF ok, of h' r] heap_next [OF ok, of r] a
    by (fastforce simp: new_lease_def split: if_splits)
next
  fix a' r assume "fp_byIP (new_lease l p) a' = Some r"
  then show "\<exists>l'. fp_heap (new_lease l p) r = Some l' \<and> fl_ip l' = a' \<and>
      fp_byHost (new_lease l p) (fl_host l') = Some r \<and>
      0 < a' - fp_base (new_lease l p) \<and> a' - fp_base (new_lease l p) < fp_size (new_lease l p)"
    using addr_lease [OF ok, of a' r] heap_next [OF ok, of r] h rng
    by (fastforce simp: new_lease_def split: if_splits)
next
  fix r assume "fp_heap (new_lease l p) r \<noteq> None"
  then show "r < fp_next (new_lease l p)"
    using heap_next [OF ok, of r] by (auto simp: new_lease_def split: if_splits)
qed

lemma drop_binding_ok:
  assumes ok: "bindings_ok p" and b: "bound p h = Some a"
  shows "bindings_ok (drop_binding h a p)"
proof -
  obtain r l where r: "fp_byHost p h = Some r" "fp_byIP p a = Some r" "fp_heap p r = Some l" "fl_host l = h" "fl_ip l = a"
    using b host_lease [OF ok] by (fastforce simp: bound_def lease_of_def bind_eq_Some_conv)
  show ?thesis
  proof (rule bindings_okI)
    fix h' r' assume *: "fp_byHost (drop_binding h a p) h' = Some r'"
    then have "fp_byHost p h' = Some r'" "h' \<noteq> h" by (auto simp: drop_binding_def split: if_splits)
    then show "\<exists>l'. fp_heap (drop_binding h a p) r' = Some l' \<and> fl_host l' = h' \<and>
        fp_byIP (drop_binding h a p) (fl_ip l') = Some r'"
      using host_lease [OF ok, of h' r'] r by (fastforce simp: drop_binding_def)
  next
    fix a' r' assume *: "fp_byIP (drop_binding h a p) a' = Some r'"
    then have "fp_byIP p a' = Some r'" "a' \<noteq> a" by (auto simp: drop_binding_def split: if_splits)
    then show "\<exists>l'. fp_heap (drop_binding h a p) r' = Some l' \<and> fl_ip l' = a' \<and>
        fp_byHost (drop_binding h a p) (fl_host l') = Some r' \<and>
        0 < a' - fp_base (drop_binding h a p) \<and> a' - fp_base (drop_binding h a p) < fp_size (drop_binding h a p)"
      using addr_lease [OF ok, of a' r'] r by (fastforce simp: drop_binding_def)
  next
    fix r' assume "fp_heap (drop_binding h a p) r' \<noteq> None"
    then show "r' < fp_next (drop_binding h a p)"
      using heap_next [OF ok, of r'] by (simp add: drop_binding_def)
  qed
qed

lemma refresh_ok:
  assumes ok: "bindings_ok p" and l: "fp_heap p r = Some l" and "fl_host l' = fl_host l" "fl_ip l' = fl_ip l"
  shows "bindings_ok (p\<lparr>fp_heap := (fp_heap p)(r \<mapsto> l')\<rparr>)"
proof (rule bindings_okI, goal_cases)
  case (1 h r')
  then show ?case using host_lease [OF ok, of h r'] assms by fastforce
next
  case (2 a r')
  then show ?case using addr_lease [OF ok, of a r'] assms by fastforce
next
  case (3 r')
  then show ?case using heap_next [OF ok, of r'] assms by (auto split: if_splits)
qed

lemma frame_ok [simp]:
  "bindings_ok (p\<lparr>fp_cursor := c\<rparr>) \<longleftrightarrow> bindings_ok p" "bindings_ok (queue h x p) \<longleftrightarrow> bindings_ok p"
  by (simp_all add: bindings_ok_def queue_def)

section \<open>The observable effect of each update\<close>

lemma lease_of_new [simp]:
  "bindings_ok p \<Longrightarrow> lease_of (new_lease l p) h = (if h = fl_host l then Some l else lease_of p h)"
  using host_lease [of p h] heap_next [of p]
  by (cases "fp_byHost p h") (fastforce simp: lease_of_def new_lease_def)+

lemma lease_of_drop [simp]: "lease_of (drop_binding h a p) h' = (if h' = h then None else lease_of p h')"
  by (simp add: lease_of_def drop_binding_def)

lemma lease_of_frame [simp]:
  "lease_of (p\<lparr>fp_cursor := c\<rparr>) h = lease_of p h" "lease_of (queue h' x p) h = lease_of p h"
  "lease_of (p\<lparr>fp_pending := q\<rparr>) h = lease_of p h"
  by (simp_all add: lease_of_def queue_def)

lemma frame_fields [simp]:
  "fp_base (new_lease l p) = fp_base p" "fp_size (new_lease l p) = fp_size p"
  "fp_cursor (new_lease l p) = fp_cursor p" "fp_store (new_lease l p) = fp_store p"
  "fp_pending (new_lease l p) = fp_pending p" "fp_ttl (new_lease l p) = fp_ttl p"
  "fp_base (drop_binding h a p) = fp_base p" "fp_size (drop_binding h a p) = fp_size p"
  "fp_cursor (drop_binding h a p) = fp_cursor p" "fp_store (drop_binding h a p) = fp_store p"
  "fp_pending (drop_binding h a p) = fp_pending p" "fp_ttl (drop_binding h a p) = fp_ttl p"
  "fp_base (queue h x p) = fp_base p" "fp_size (queue h x p) = fp_size p"
  "fp_cursor (queue h x p) = fp_cursor p" "fp_store (queue h x p) = fp_store p" "fp_ttl (queue h x p) = fp_ttl p"
  "fp_byHost (queue h x p) = fp_byHost p" "fp_byIP (queue h x p) = fp_byIP p" "fp_heap (queue h x p) = fp_heap p"
  by (simp_all add: new_lease_def drop_binding_def queue_def)

lemma bound_lease_of: "bound p h = Some a \<longleftrightarrow> (\<exists>l. lease_of p h = Some l \<and> fl_ip l = a)"
  by (auto simp: bound_def)

lemma lease_of_fields:
  assumes "bindings_ok p" "lease_of p h = Some l"
  shows "fl_host l = h" "bound p h = Some (fl_ip l)" "lease_at p (fl_ip l) = Some l"
  using assms host_lease [OF assms(1), of h]
  by (auto simp: lease_of_def bound_def lease_at_def bind_eq_Some_conv)

section \<open>Claiming a slot and scanning for one\<close>

definition live :: "fakeIPPool \<Rightarrow> time \<Rightarrow> 32 word \<Rightarrow> bool" where
  "live p now off = (case lease_at p (fp_base p + off) of Some l \<Rightarrow> now < fl_expiry l | None \<Rightarrow> False)"

lemma mod_size_less:
  assumes "block_ok p" shows "(w mod fp_size p) < fp_size p"
proof -
  have "0 < unat (fp_size p)" using assms by (simp add: block_ok_def)
  then show ?thesis by (simp add: word_less_nat_alt unat_mod)
qed

lemma claim_slot_spec:
  assumes inv: "pool_inv p" and host: "fp_byHost p host = None"
    and off: "off \<noteq> 0" "off < fp_size p" and dead: "\<not> live p now off"
    and c: "claim_slot host now off p = (res, p')"
  shows "pool_inv p'" (is ?g1)
    and "\<exists>ev. res = Some (IPv4 (fp_base p + off), ev,
           Some \<lparr>ls_Host = host, ls_IP = v4_string (fp_base p + off), ls_ExpiresAt = now + fp_ttl p\<rparr>) \<and>
         (\<forall>h. lease_of p' h =
           (if h = host then Some \<lparr>fl_ip = fp_base p + off, fl_host = host, fl_expiry = now + fp_ttl p, fl_stored = now + fp_ttl p\<rparr>
            else if bound p h = Some (fp_base p + off) then None else lease_of p h)) \<and>
         (\<forall>h. bound p h = Some (fp_base p + off) \<longrightarrow> h = ev) \<and>
         (ev \<noteq> [] \<longrightarrow> bound p ev = Some (fp_base p + off))" (is ?g2)
    and "fp_store p' = fp_store p \<and> fp_pending p' = fp_pending p \<and> fp_base p' = fp_base p \<and>
         fp_size p' = fp_size p \<and> fp_ttl p' = fp_ttl p" (is ?g3)
proof -
  let ?a = "fp_base p + off"
  let ?l = "\<lparr>fl_ip = ?a, fl_host = host, fl_expiry = now + fp_ttl p, fl_stored = now + fp_ttl p\<rparr>"
  have ok: "bindings_ok p" and blk: "block_ok p" using inv by (auto simp: pool_inv_def)
  have rng: "0 < ?a - fp_base p" "?a - fp_base p < fp_size p" using off by (simp_all add: word_gt_0)
  obtain ev p1 where p1: "(case lease_at p ?a of Some l \<Rightarrow> (fl_host l, drop_binding (fl_host l) ?a p) | None \<Rightarrow> ([], p)) = (ev, p1)"
    by (rule prod.exhaust)
  have p1_ok: "bindings_ok p1 \<and> fp_byHost p1 host = None \<and> fp_byIP p1 ?a = None \<and>
    (\<forall>h. lease_of p1 h = (if bound p h = Some ?a then None else lease_of p h)) \<and>
    (\<forall>h. bound p h = Some ?a \<longrightarrow> h = ev) \<and> (ev \<noteq> [] \<longrightarrow> bound p ev = Some ?a)"
  proof (cases "lease_at p ?a")
    case None
    then have "p1 = p" "ev = []" using p1 by auto
    moreover have "bound p h \<noteq> Some ?a" for h using None bound_iff [OF ok, of h ?a] by simp
    ultimately show ?thesis using ok host None lease_at_None [OF ok] by simp
  next
    case (Some l)
    then have *: "p1 = drop_binding (fl_host l) ?a p" "ev = fl_host l" using p1 by auto
    have b: "bound p (fl_host l) = Some ?a" using lease_at_SomeD [OF ok Some] by simp
    have u: "bound p h = Some ?a \<longleftrightarrow> h = fl_host l" for h using bound_inj [OF ok b] b by blast
    have "fp_byHost p1 host = None" "fp_byIP p1 ?a = None" using host by (simp_all add: * drop_binding_def)
    then show ?thesis using drop_binding_ok [OF ok b] by (simp add: * u)
  qed
  have p1_fr: "fp_base p1 = fp_base p" "fp_size p1 = fp_size p" "fp_cursor p1 = fp_cursor p" "fp_ttl p1 = fp_ttl p"
    "fp_store p1 = fp_store p" "fp_pending p1 = fp_pending p"
    using p1 by (cases "lease_at p ?a"; auto)+
  have p': "p' = (new_lease ?l p1)\<lparr>fp_cursor := (off + 1) mod fp_size p\<rparr>" and
    res: "res = Some (intToIP ?a, ev, Some \<lparr>ls_Host = host, ls_IP = ip_String (intToIP ?a), ls_ExpiresAt = now + fp_ttl p\<rparr>)"
    using c p1 by (auto simp: claim_slot_def Let_def split: prod.splits)
  show ?g1 using new_lease_ok [of p1 ?l] p1_ok p1_fr rng blk mod_size_less [OF blk]
    by (simp add: pool_inv_def p' block_ok_def)
  show ?g2 using p1_ok by (auto simp: p' res intToIP_def)
  show ?g3 using p1_fr by (simp add: p')
qed

lemma alloc_scan_cases:
  assumes "block_ok p"
  shows "(alloc_scan k i host now p = (None, p) \<and>
      (\<forall>j<k. (fp_cursor p + (i + of_nat j)) mod fp_size p = 0 \<or> live p now ((fp_cursor p + (i + of_nat j)) mod fp_size p))) \<or>
    (\<exists>off. off \<noteq> 0 \<and> off < fp_size p \<and> \<not> live p now off \<and> alloc_scan k i host now p = claim_slot host now off p)"
proof (induction k arbitrary: i)
  case (Suc k)
  let ?off = "(fp_cursor p + i) mod fp_size p"
  show ?case
  proof (cases "?off = 0 \<or> live p now ?off")
    case True
    then have step: "alloc_scan (Suc k) i host now p = alloc_scan k (i + 1) host now p"
      by (auto simp: live_def Let_def split: option.splits)
    define P where "P = (\<lambda>w :: 32 word. (fp_cursor p + w) mod fp_size p = 0 \<or> live p now ((fp_cursor p + w) mod fp_size p))"
    have "P (i + of_nat j)" if "\<forall>j<k. P (i + 1 + of_nat j)" "j < Suc k" for j
      using that True by (cases j) (auto simp: P_def add.assoc)
    then have all: "\<forall>j<k. P (i + 1 + of_nat j) \<Longrightarrow> \<forall>j<Suc k. P (i + of_nat j)" by blast
    from Suc.IH [of "i + 1"] show ?thesis
    proof
      assume "alloc_scan k (i + 1) host now p = (None, p) \<and>
        (\<forall>j<k. (fp_cursor p + (i + 1 + of_nat j)) mod fp_size p = 0 \<or>
          live p now ((fp_cursor p + (i + 1 + of_nat j)) mod fp_size p))"
      then have "alloc_scan k (i + 1) host now p = (None, p)" "\<forall>j<Suc k. P (i + of_nat j)"
        using all by (simp_all add: P_def)
      then show ?thesis unfolding step P_def by (rule_tac disjI1) (rule conjI)
    next
      assume "\<exists>off. off \<noteq> 0 \<and> off < fp_size p \<and> \<not> live p now off \<and>
        alloc_scan k (i + 1) host now p = claim_slot host now off p"
      then show ?thesis unfolding step by (rule disjI2)
    qed
  next
    case False
    then have "alloc_scan (Suc k) i host now p = claim_slot host now ?off p"
      by (auto simp: live_def Let_def split: option.splits)
    then show ?thesis using False mod_size_less [OF assms] by blast
  qed
qed simp

lemma unat_add_small: "unat (c :: 32 word) + j < 2 ^ 32 \<Longrightarrow> unat (c + of_nat j) = unat c + j"
  by (simp add: unat_word_ariths(1) unat_of_nat)

lemma scan_covers:
  assumes blk: "block_ok p" and off: "off < fp_size p"
  shows "\<exists>j<unat (fp_size p). (fp_cursor p + of_nat j) mod fp_size p = off"
proof -
  define s c where "s = unat (fp_size p)" and "c = unat (fp_cursor p)"
  define j where "j = (unat off + (s - c)) mod s"
  have s: "0 < s" "s \<le> 2147483648" "c < s" "unat off < s"
    using blk off by (auto simp: block_ok_def word_less_nat_alt s_def c_def)
  then have j: "j < s" by (simp add: j_def)
  have sum: "unat (fp_cursor p + of_nat j) = c + j"
    using s j by (simp add: unat_add_small c_def)
  have "(c + j) mod s = (c + (unat off + (s - c))) mod s" by (simp add: j_def mod_add_right_eq)
  also have "\<dots> = (unat off + s) mod s" using s(3) by simp
  also have "\<dots> = unat off" using s(4) by simp
  finally have "unat ((fp_cursor p + of_nat j) mod fp_size p) = unat off" by (simp add: unat_mod sum s_def)
  then show ?thesis using j by (auto simp: word_unat_eq_iff s_def)
qed

lemma alloc_scan_full:
  assumes blk: "block_ok p"
  shows "(alloc_scan (unat (fp_size p)) 0 host now p = (None, p) \<and>
      (\<forall>off. off \<noteq> 0 \<and> off < fp_size p \<longrightarrow> live p now off)) \<or>
    (\<exists>off. off \<noteq> 0 \<and> off < fp_size p \<and> \<not> live p now off \<and>
       alloc_scan (unat (fp_size p)) 0 host now p = claim_slot host now off p)"
  using alloc_scan_cases [OF blk, of "unat (fp_size p)" 0 host now] scan_covers [OF blk]
  by (metis add_0)


section \<open>What Allocate and Release do\<close>

lemma refresh_lease_spec:
  assumes inv: "pool_inv p" and r: "fp_byHost p host = Some ref" "fp_heap p ref = Some l"
  shows "pool_inv (snd (refresh_lease host now ref l p))"
    and "\<forall>h. lease_of (snd (refresh_lease host now ref l p)) h =
          (if h = host then Some (l\<lparr>fl_expiry := now + fp_ttl p,
              fl_stored := (if fl_stored l = 0 \<or> now + fp_ttl p - fl_stored l > fp_ttl p div 4
                            then now + fp_ttl p else fl_stored l)\<rparr>)
           else lease_of p h)"
proof -
  have ok: "bindings_ok p" using inv by (simp add: pool_inv_def)
  show "pool_inv (snd (refresh_lease host now ref l p))"
    using inv refresh_ok [OF ok r(2)]
    by (simp add: pool_inv_def block_ok_def refresh_lease_def Let_def)
  have "fp_byHost p h \<noteq> Some ref" if "h \<noteq> host" for h
    using host_lease [OF ok, of h ref] host_lease [OF ok r(1)] that by auto
  then show "\<forall>h. lease_of (snd (refresh_lease host now ref l p)) h =
          (if h = host then Some (l\<lparr>fl_expiry := now + fp_ttl p,
              fl_stored := (if fl_stored l = 0 \<or> now + fp_ttl p - fl_stored l > fp_ttl p div 4
                            then now + fp_ttl p else fl_stored l)\<rparr>)
           else lease_of p h)"
    using r by (auto simp: refresh_lease_def Let_def lease_of_def fakeIPPersistRefreshFraction_def
        bind_eq_Some_conv split: Option.bind_split)
qed

lemma pool_inv_frame [simp]:
  "pool_inv (queue h x p) \<longleftrightarrow> pool_inv p" "pool_inv (p\<lparr>fp_pending := q\<rparr>) \<longleftrightarrow> pool_inv p"
  by (simp_all add: pool_inv_def block_ok_def bindings_ok_def queue_def)

lemma bound_lease_of_cong: "lease_of p' h = lease_of p h \<Longrightarrow> bound p' h = bound p h"
  by (simp add: bound_def)

text \<open>The state \<open>Allocate\<close> leaves differs from that of \<open>allocate\<close> in the queue only.\<close>

lemma Allocate_frame:
  assumes "allocate host now p = (r, p1)" "Allocate host now p = (ip, p')"
  shows "ip = map_option fst r" "pool_inv p' \<longleftrightarrow> pool_inv p1" "lease_of p' h = lease_of p1 h"
    "fp_base p' = fp_base p1" "fp_size p' = fp_size p1"
  using assms by (auto simp: Allocate_def Let_def split: option.splits if_splits prod.splits)

lemma allocate_cases:
  assumes inv: "pool_inv p"
  obtains (refresh) ref l where "fp_byHost p host = Some ref" "fp_heap p ref = Some l"
      "lease_of p host = Some l" "allocate host now p = refresh_lease host now ref l p"
  | (full) "fp_byHost p host = None" "\<And>off. off \<noteq> 0 \<Longrightarrow> off < fp_size p \<Longrightarrow> live p now off"
      "allocate host now p = (None, p)"
  | (claim) off where "fp_byHost p host = None" "off \<noteq> 0" "off < fp_size p" "\<not> live p now off"
      "allocate host now p = claim_slot host now off p"
proof (cases "fp_byHost p host")
  case (Some ref)
  moreover obtain l where "fp_heap p ref = Some l"
    using Some host_lease [of p host ref] inv by (auto simp: pool_inv_def)
  ultimately show ?thesis by (intro refresh) (auto simp: allocate_def lease_of_def)
next
  case None
  have blk: "block_ok p" using inv by (simp add: pool_inv_def)
  have "allocate host now p = alloc_scan (unat (fp_size p)) 0 host now p" using None by (simp add: allocate_def)
  then show ?thesis using alloc_scan_full [OF blk, of host now] None full claim by metis
qed

lemma allocate_inv:
  assumes inv: "pool_inv p" shows "pool_inv (snd (allocate host now p))"
  using inv
proof (cases rule: allocate_cases [where host = host and now = now])
  case (refresh ref l)
  then show ?thesis using refresh_lease_spec(1) [OF inv, of host ref l now] by simp
next
  case full
  then show ?thesis using inv by simp
next
  case (claim off)
  then show ?thesis using claim_slot_spec(1) [OF inv claim(1-4)] by (metis prod.collapse)
qed

lemma Allocate_inv: "pool_inv p \<Longrightarrow> pool_inv (snd (Allocate host now p))"
  using allocate_inv Allocate_frame(2) by (metis prod.collapse)

lemma Allocate_spec:
  assumes inv: "pool_inv p"
  shows "case Allocate host now p of
      (None, p') \<Rightarrow> p' = p \<and> bound p host = None \<and> (\<forall>off. off \<noteq> 0 \<and> off < fp_size p \<longrightarrow> live p now off)
    | (Some ip, p') \<Rightarrow> \<exists>a. ip = IPv4 a \<and> pool_inv p' \<and> bound p' host = Some a \<and>
        (bound p host \<noteq> None \<longrightarrow> bound p host = Some a) \<and>
        (\<forall>h. h \<noteq> host \<longrightarrow> bound p' h = (if bound p h = Some a then None else bound p h)) \<and>
        (\<forall>h l. h \<noteq> host \<and> lease_of p h = Some l \<and> fl_ip l = a \<longrightarrow> fl_expiry l \<le> now)"
proof -
  have ok: "bindings_ok p" using inv by (simp add: pool_inv_def)
  obtain r p' where A: "Allocate host now p = (r, p')" by (rule prod.exhaust)
  obtain r1 p1 where a: "allocate host now p = (r1, p1)" by (rule prod.exhaust)
  note fr = Allocate_frame [OF a A]
  have inv': "pool_inv p'" using Allocate_inv [OF inv, of host now] A by simp
  from inv show ?thesis
  proof (cases rule: allocate_cases [where host = host and now = now])
    case (refresh ref l)
    have "fst (refresh_lease host now ref l p) = r1" using a unfolding refresh(4) by simp
    then have r: "r = Some (IPv4 (fl_ip l))" using fr(1) by (auto simp: refresh_lease_def Let_def intToIP_def)
    have "snd (refresh_lease host now ref l p) = p1" using a unfolding refresh(4) by simp
    then have b: "bound p h = bound p' h" for h
      using refresh_lease_spec(2) [OF inv refresh(1,2), of now] refresh(3) fr(3) [of h]
      by (auto simp: bound_def)
    have bh: "bound p host = Some (fl_ip l)" using refresh(3) by (simp add: bound_def)
    moreover have "h = host" if "lease_of p h = Some x" "fl_ip x = fl_ip l" for h x
      using bound_inj [OF ok bh, of h] that by (simp add: bound_def)
    moreover have "bound p h \<noteq> Some (fl_ip l)" if "h \<noteq> host" for h
      using bound_inj [OF ok bh, of h] that by blast
    ultimately show ?thesis using b inv' A r by auto
  next
    case full
    then show ?thesis using bound_None [OF ok] by (simp add: Allocate_def)
  next
    case (claim off)
    have c: "claim_slot host now off p = (r1, p1)" using claim(5) a by simp
    let ?a = "fp_base p + off"
    note spec = claim_slot_spec(2) [OF inv claim(1-4) c]
    have r: "r = Some (IPv4 ?a)" using spec fr(1) by auto
    have dead: "fl_expiry l \<le> now" if "lease_of p h = Some l" "fl_ip l = ?a" for h l
      using claim(4) lease_of_fields(3) [OF ok that(1)] that(2) by (simp add: live_def)
    have "bound p' h = (if h = host then Some ?a else if bound p h = Some ?a then None else bound p h)" for h
      using spec fr(3) [of h] by (auto simp: bound_def)
    then show ?thesis using A r inv' dead bound_None [OF ok] claim(1) by auto
  qed
qed

lemma Release_cases:
  assumes inv: "pool_inv p"
  obtains (none) "lease_of p host = None" "Release host p = p"
  | (some) ref l where "fp_byHost p host = Some ref" "lease_of p host = Some l" "bound p host = Some (fl_ip l)"
      "Release host p = (if fp_store p then queue host None (drop_binding host (fl_ip l) p)
         else drop_binding host (fl_ip l) p)"
proof (cases "fp_byHost p host")
  case None
  then show ?thesis by (intro none) (simp_all add: lease_of_def Release_def)
next
  case (Some ref)
  moreover obtain l where "fp_heap p ref = Some l"
    using Some host_lease [of p host ref] inv by (auto simp: pool_inv_def)
  ultimately show ?thesis by (intro some) (auto simp: Release_def Let_def lease_of_def bound_def)
qed

lemma Release_spec:
  assumes inv: "pool_inv p"
  shows "pool_inv (Release host p)" "lease_of (Release host p) h = (if h = host then None else lease_of p h)"
  using inv
proof (atomize (full), cases rule: Release_cases [where host = host])
  case (some ref l)
  have "bindings_ok (drop_binding host (fl_ip l) p)"
    using drop_binding_ok some inv by (simp add: pool_inv_def)
  then show "pool_inv (Release host p) \<and> lease_of (Release host p) h = (if h = host then None else lease_of p h)"
    using some inv by (simp add: pool_inv_def block_ok_def)
qed (use inv in auto)

section \<open>Restoring leases\<close>

definition in_block :: "fakeIPPool \<Rightarrow> 32 word \<Rightarrow> bool" where
  "in_block p a \<longleftrightarrow> fp_base p \<le> a \<and> a \<noteq> fp_base p \<and> a - fp_base p < fp_size p"

lemma block_no_wrap:
  assumes "block_ok p" "a - fp_base p < fp_size p" shows "fp_base p \<le> a"
proof -
  let ?off = "a - fp_base p"
  have lt: "unat ?off < unat (fp_size p)" using assms(2) by (simp add: word_less_nat_alt)
  then have "unat (fp_base p) + unat ?off < 4294967296" using assms(1) by (simp add: block_ok_def)
  then have "unat (fp_base p + ?off) = unat (fp_base p) + unat ?off"
    by (simp only: unat_word_ariths(1) len_bit0 len_num1) simp
  then have "unat a = unat (fp_base p) + unat ?off" by simp
  then show ?thesis by (simp add: word_le_nat_alt)
qed

lemma bound_in_block: "pool_inv p \<Longrightarrow> bound p h = Some a \<Longrightarrow> in_block p a"
  using bound_range [of p h a] block_no_wrap [of p a] by (auto simp: pool_inv_def in_block_def)

definition lease_row :: "FakeIPLease \<Rightarrow> 32 word \<Rightarrow> fakeLease" where
  "lease_row l v = \<lparr>fl_ip = v, fl_host = ls_Host l, fl_expiry = ls_ExpiresAt l, fl_stored = ls_ExpiresAt l\<rparr>"

lemma restore_row_cases:
  obtains (skip) "restore_row (p, m) l = (p, m)"
      "\<And>v. Option.bind (ParseIP (ls_IP l)) To4 = Some v \<Longrightarrow> in_block p v \<Longrightarrow> fp_byIP p v \<noteq> None"
  | (add) v m' where "Option.bind (ParseIP (ls_IP l)) To4 = Some v" "in_block p v" "fp_byIP p v = None"
      "restore_row (p, m) l = (new_lease (lease_row l v) p, m')"
proof (cases "Option.bind (ParseIP (ls_IP l)) To4")
  case None
  then show ?thesis by (intro skip) (auto simp: restore_row_def)
next
  case (Some v)
  then have *: "restore_row (p, m) l =
      (if in_block p v \<and> fp_byIP p v = None
       then (new_lease (lease_row l v) p, if m < v - fp_base p then v - fp_base p else m) else (p, m))"
    by (auto simp: restore_row_def in_block_def Let_def lease_row_def)
  show ?thesis
  proof (cases "in_block p v \<and> fp_byIP p v = None")
    case True
    then show ?thesis using Some by (intro add) (auto simp: *)
  next
    case False
    then show ?thesis using Some by (intro skip) (auto simp: *)
  qed
qed

lemma restore_row_inv:
  assumes inv: "pool_inv p" and h: "fp_byHost p (ls_Host l) = None" and r: "restore_row (p, m) l = (p', m')"
  shows "pool_inv p' \<and> fp_base p' = fp_base p \<and> fp_size p' = fp_size p \<and> fp_store p' = fp_store p \<and> fp_ttl p' = fp_ttl p \<and>
    fp_pending p' = fp_pending p \<and> (\<forall>h. h \<noteq> ls_Host l \<longrightarrow> fp_byHost p' h = fp_byHost p h \<and> lease_of p' h = lease_of p h)"
proof (cases rule: restore_row_cases [of p m l])
  case skip
  then show ?thesis using inv r by simp
next
  case (add v m'')
  have ok: "bindings_ok p" using inv by (simp add: pool_inv_def)
  have p': "p' = new_lease (lease_row l v) p" using add(4) r by simp
  have "bindings_ok p'" unfolding p'
    using add(2,3) h by (intro new_lease_ok [OF ok]) (auto simp: lease_row_def in_block_def word_gt_0)
  moreover have "fp_byHost p' h = fp_byHost p h" if "h \<noteq> ls_Host l" for h
    using that by (simp add: p' new_lease_def lease_row_def)
  ultimately show ?thesis using inv ok by (simp add: p' pool_inv_def block_ok_def lease_row_def)
qed

lemma restore_fold_inv:
  assumes "pool_inv p" "distinct (map ls_Host ls)" "\<forall>l\<in>set ls. fp_byHost p (ls_Host l) = None"
    "foldl restore_row (p, m) ls = (p', m')"
  shows "pool_inv p' \<and> fp_base p' = fp_base p \<and> fp_size p' = fp_size p \<and> fp_store p' = fp_store p \<and> fp_ttl p' = fp_ttl p \<and>
    fp_pending p' = fp_pending p \<and> (\<forall>h. h \<notin> ls_Host ` set ls \<longrightarrow> lease_of p' h = lease_of p h)"
  using assms
proof (induction ls arbitrary: p m)
  case (Cons l ls)
  obtain p1 m1 where r: "restore_row (p, m) l = (p1, m1)" by (rule prod.exhaust)
  note s = restore_row_inv [OF Cons.prems(1) _ r]
  have "fp_byHost p (ls_Host l) = None" using Cons.prems(3) by simp
  note s = s [OF this]
  have "fp_byHost p1 (ls_Host x) = None" if "x \<in> set ls" for x
  proof -
    have "ls_Host x \<noteq> ls_Host l" using that Cons.prems(2) by (auto simp: rev_image_eqI)
    then show ?thesis using s that Cons.prems(3) by simp
  qed
  moreover have "foldl restore_row (p1, m1) ls = (p', m')" using Cons.prems(4) r by simp
  ultimately show ?case using Cons.IH [of p1 m1] Cons.prems(2) s by simp
qed simp

text \<open>
  Rows in the form the pool writes (a dotted quad) with distinct hosts and
  addresses all come back, each to its own host, as far as the block reaches.
\<close>

lemma restore_fold_lookup:
  assumes "pool_inv p" "distinct (map ls_Host ls)" "distinct (map ls_IP ls)"
    "\<forall>l\<in>set ls. fp_byHost p (ls_Host l) = None \<and> (\<exists>a. ls_IP l = v4_string a \<and> fp_byIP p a = None)"
    "foldl restore_row (p, m) ls = (p', m')" "l \<in> set ls" "ls_IP l = v4_string a" "in_block p a"
  shows "lease_of p' (ls_Host l) = Some (lease_row l a)"
  using assms
proof (induction ls arbitrary: p m)
  case (Cons x ls)
  obtain p1 m1 where r: "restore_row (p, m) x = (p1, m1)" by (rule prod.exhaust)
  have f: "foldl restore_row (p1, m1) ls = (p', m')" using Cons.prems(5) r by simp
  have ok: "bindings_ok p" using Cons.prems(1) by (simp add: pool_inv_def)
  obtain b where b: "ls_IP x = v4_string b" "fp_byIP p b = None" using Cons.prems(4) by auto
  have x: "fp_byHost p (ls_Host x) = None" using Cons.prems(4) by simp
  note s = restore_row_inv [OF Cons.prems(1) x r]
  have byIP: "c \<noteq> b \<Longrightarrow> fp_byIP p1 c = fp_byIP p c" for c
    by (cases rule: restore_row_cases [of p m x]) (use r b in \<open>auto simp: new_lease_def lease_row_def\<close>)
  have hosts: "fp_byHost p1 (ls_Host y) = None \<and> (\<exists>a. ls_IP y = v4_string a \<and> fp_byIP p1 a = None)"
    if y: "y \<in> set ls" for y
  proof -
    have "ls_Host y \<noteq> ls_Host x" "ls_IP y \<noteq> ls_IP x" using y Cons.prems(2,3) by (auto simp: rev_image_eqI)
    moreover obtain c where "ls_IP y = v4_string c" "fp_byIP p c = None" "fp_byHost p (ls_Host y) = None"
      using bspec [OF Cons.prems(4), of y] y by auto
    ultimately show ?thesis using s b(1) byIP [of c] by auto
  qed
  show ?case
  proof (cases "l = x")
    case True
    then have a: "b = a" using b Cons.prems(7) v4_string_inj by simp
    have "p1 = new_lease (lease_row x a) p"
      by (cases rule: restore_row_cases [of p m x]) (use r b a Cons.prems(8) in auto)
    then have "lease_of p1 (ls_Host x) = Some (lease_row x a)" using ok by (simp add: lease_row_def)
    moreover have "lease_of p' (ls_Host x) = lease_of p1 (ls_Host x)"
      using restore_fold_inv [OF _ _ _ f] s hosts Cons.prems(2) by auto
    ultimately show ?thesis using True by simp
  next
    case False
    have "in_block p1 a" using Cons.prems(8) s by (simp add: in_block_def)
    then show ?thesis using Cons.IH [OF _ _ _ _ f] Cons.prems hosts s False by auto
  qed
qed simp

section \<open>A new pool\<close>

lemma dvd_push_bit: "k \<le> LENGTH('a) \<Longrightarrow> 2 ^ k dvd unat (push_bit k (w :: 'a::len word))"
  by (subst unsigned_push_bit_eq)
    (simp only: take_bit_eq_mod push_bit_eq_mult, intro dvd_mod le_imp_power_dvd dvd_triv_right)

lemma block_fits:
  assumes "2 ^ k dvd unat (b :: 32 word)" "k < 32"
  shows "unat b + 2 ^ k \<le> 2 ^ 32"
proof -
  obtain q where q: "unat b = 2 ^ k * q" using assms(1) by (auto elim: dvdE)
  have "unat b < 2 ^ 32" using unsigned_less [of b, where ?'a = nat] by simp
  also have "(2 :: nat) ^ 32 = 2 ^ k * 2 ^ (32 - k)" using assms(2) by (simp flip: power_add)
  finally have "q + 1 \<le> 2 ^ (32 - k)" by (simp add: q)
  then have "2 ^ k * (q + 1) \<le> 2 ^ k * 2 ^ (32 - k)" by (rule mult_le_mono2)
  also have "\<dots> = (2 :: nat) ^ 32" using assms(2) by (simp flip: power_add)
  finally show ?thesis by (simp add: q)
qed

lemma net_base_aligned:
  assumes "net_ParseCIDR cidr = Some (i, n)" "To4 (net_ip n) = Some v" "mask_bits n - mask_ones n < 32"
  shows "2 ^ (mask_bits n - mask_ones n) dvd unat v"
proof -
  from assms(1,2) consider
    (v4) w k where "n = \<lparr>net_ip = IPv4 (mask_word k w), mask_ones = k, mask_bits = 32\<rparr>" "k \<le> 32" "v = mask_word k w"
  | (v6) w k where "n = \<lparr>net_ip = ip_of16 (mask_word k w), mask_ones = k, mask_bits = 128\<rparr>" "k \<le> 128"
      "v = ucast (mask_word k w)"
    by (auto simp: net_ParseCIDR_def ip_of16_def split: option.splits prod.splits raw_addr.splits if_splits)
  then show ?thesis
  proof cases
    case v4
    then show ?thesis using dvd_push_bit [of "32 - k" "drop_bit (32 - k) w"] by (simp add: mask_word_def)
  next
    case v6
    then have k: "128 - k < 32" using assms(3) by simp
    have "unat v = unat (mask_word k w) mod 2 ^ 32" by (simp add: v6(3) unsigned_ucast_eq take_bit_eq_mod)
    moreover have "2 ^ (128 - k) dvd unat (mask_word k w)"
      using dvd_push_bit [of "128 - k" "drop_bit (128 - k) w"] by (simp add: mask_word_def)
    moreover have "2 ^ (128 - k) dvd (2 :: nat) ^ 32" using k by (intro le_imp_power_dvd) simp
    ultimately show ?thesis using v6(1) by (simp add: dvd_mod)
  qed
qed

lemma newFakeIPPool_inv:
  assumes "newFakeIPPool cidr ttl store = Inr p"
  shows "pool_inv p" "fp_byHost p = Map.empty" "fp_byIP p = Map.empty" "fp_pending p = Map.empty" "fp_store p = store"
    "0 < fp_ttl p"
proof -
  obtain i n v where n: "net_ParseCIDR cidr = Some (i, n)" "To4 (net_ip n) = Some v"
    and size: "\<not> push_bit (mask_bits n - mask_ones n) (1 :: 32 word) < 2"
    and p: "p = \<lparr>fp_base = v, fp_size = push_bit (mask_bits n - mask_ones n) 1, fp_cursor = 0,
                 fp_ttl = (if ttl \<le> 0 then DefaultFakeIPLeaseTTL else ttl),
                 fp_heap = Map.empty, fp_next = 0, fp_byHost = Map.empty, fp_byIP = Map.empty,
                 fp_store = store, fp_pending = Map.empty\<rparr>"
    using assms by (auto simp: newFakeIPPool_def Let_def split: option.splits prod.splits if_splits)
  let ?k = "mask_bits n - mask_ones n"
  have k: "?k < 32"
  proof (rule ccontr)
    assume "\<not> ?k < 32"
    then have "push_bit ?k (1 :: 32 word) = 0" by (intro bit_eqI) (auto simp: bit_simps)
    then show False using size by (simp del: push_bit_of_1)
  qed
  have sz: "unat (push_bit ?k (1 :: 32 word)) = 2 ^ ?k"
    using k by (subst unsigned_push_bit_eq)
      (simp add: take_bit_eq_mod push_bit_eq_mult power_strict_increasing [of ?k 32 2, simplified])
  moreover have "2 \<le> (2 :: nat) ^ ?k" using size by (simp add: word_less_nat_alt sz [simplified])
  moreover have "(2 :: nat) ^ ?k \<le> 2 ^ 31" using k by (intro power_increasing) simp_all
  moreover note block_fits [OF net_base_aligned [OF n k] k]
  ultimately have "block_ok p" by (simp add: block_ok_def p word_less_nat_alt)
  then show "pool_inv p" by (simp add: pool_inv_def bindings_ok_def p)
  show "fp_byHost p = Map.empty" "fp_byIP p = Map.empty" "fp_pending p = Map.empty" "fp_store p = store" by (simp_all add: p)
  show "0 < fp_ttl p" by (simp add: p DefaultFakeIPLeaseTTL_def hour_def minute_def second_def)
qed

lemma restore_fold_sound:
  assumes "pool_inv p" "distinct (map ls_Host ls)" "\<forall>l\<in>set ls. fp_byHost p (ls_Host l) = None"
    "foldl restore_row (p, m) ls = (p', m')" "lease_of p' h = Some fl"
  shows "lease_of p h = Some fl \<or>
    (\<exists>l\<in>set ls. ls_Host l = h \<and> (\<exists>v. Option.bind (ParseIP (ls_IP l)) To4 = Some v \<and> fl = lease_row l v))"
  using assms
proof (induction ls arbitrary: p m)
  case (Cons x ls)
  obtain p1 m1 where r: "restore_row (p, m) x = (p1, m1)" by (rule prod.exhaust)
  have f: "foldl restore_row (p1, m1) ls = (p', m')" using Cons.prems(4) r by simp
  have ok: "bindings_ok p" using Cons.prems(1) by (simp add: pool_inv_def)
  note s = restore_row_inv [OF Cons.prems(1) _ r]
  have "fp_byHost p (ls_Host x) = None" using Cons.prems(3) by simp
  note s = s [OF this]
  have "fp_byHost p1 (ls_Host y) = None" if "y \<in> set ls" for y
  proof -
    have "ls_Host y \<noteq> ls_Host x" using that Cons.prems(2) by (auto simp: rev_image_eqI)
    then show ?thesis using s that Cons.prems(3) by simp
  qed
  then consider "lease_of p1 h = Some fl" | "\<exists>l\<in>set ls. ls_Host l = h \<and> (\<exists>v. Option.bind (ParseIP (ls_IP l)) To4 = Some v \<and> fl = lease_row l v)"
    using Cons.IH [OF _ _ _ f Cons.prems(5)] s Cons.prems(2) by auto
  then show ?case
  proof cases
    case 1
    then show ?thesis
      by (cases rule: restore_row_cases [of p m x]) (use r ok in \<open>auto simp: lease_row_def split: if_splits\<close>)
  qed auto
qed simp

lemma restore_leases_fields:
  assumes "foldl restore_row (p, 0) ls = (p', m')"
  shows "restore_leases ls p = p'\<lparr>fp_cursor := (m' + 1) mod fp_size p'\<rparr>"
  using assms by (simp add: restore_leases_def)

lemma restore_leases_inv:
  assumes "pool_inv p" "distinct (map ls_Host ls)" "\<forall>l\<in>set ls. fp_byHost p (ls_Host l) = None"
  shows "pool_inv (restore_leases ls p)"
proof -
  obtain p' m' where f: "foldl restore_row (p, 0) ls = (p', m')" by (rule prod.exhaust)
  have "pool_inv p'" using restore_fold_inv [OF assms f] by simp
  then show ?thesis using mod_size_less [of p'] by (simp add: restore_leases_fields [OF f] pool_inv_def block_ok_def)
qed

end
