(* ===== verification/Lease_Store.thy ===== *)
theory Lease_Store
  imports Fake_IP
begin

text \<open>
  The fake-IP lease table and its use by the pool: \<open>core/rules/fakeip.go\<close> (the
  SQL provider) with its adapter \<open>daemon/fakeip_store.go\<close>, the contract
  \<open>FakeIPStore\<close> of \<open>core/dnsproxy/fakeip.go\<close> as the locale \<open>lease_store\<close>, and the
  properties of the pool together with its store: the write-behind flush and the
  restart of the daemon.

  The SQL statements of the provider act on a list of rows; the database is a
  function that says for each call whether it fails, and a failing call leaves the
  rows as they were (every write is one statement or one transaction).
\<close>

section \<open>The provider\<close>

datatype lease_error = HostIPRequired | DbError string

record lease_db =
  db_calls :: nat
  db_rows :: "FakeIPLease list"

type_synonym db_fault = "nat \<Rightarrow> string option"

definition db_write :: "db_fault \<Rightarrow> (FakeIPLease list \<Rightarrow> FakeIPLease list) \<Rightarrow> lease_db \<Rightarrow> lease_error option \<times> lease_db" where
  "db_write db f s =
     (case db (db_calls s) of
        Some e \<Rightarrow> (Some (DbError e), s\<lparr>db_calls := Suc (db_calls s)\<rparr>)
      | None \<Rightarrow> (None, \<lparr>db_calls = Suc (db_calls s), db_rows = f (db_rows s)\<rparr>))"

definition ListFakeIPLeases :: "db_fault \<Rightarrow> time \<Rightarrow> lease_db \<Rightarrow> lease_error + FakeIPLease list" where
  "ListFakeIPLeases db now s =
     (case db (db_calls s) of
        Some e \<Rightarrow> Inl (DbError e)
      | None \<Rightarrow> Inr (filter (\<lambda>r. now < ls_ExpiresAt r) (db_rows s)))"

text \<open>The upsert on the primary key \<open>host\<close>.\<close>

definition upsert_host :: "FakeIPLease \<Rightarrow> FakeIPLease list \<Rightarrow> FakeIPLease list" where
  "upsert_host l rows =
     (if list_ex (\<lambda>r. ls_Host r = ls_Host l) rows
      then map (\<lambda>r. if ls_Host r = ls_Host l then r\<lparr>ls_IP := ls_IP l, ls_ExpiresAt := ls_ExpiresAt l\<rparr> else r) rows
      else rows @ [l])"

definition PutFakeIPLease :: "db_fault \<Rightarrow> FakeIPLease \<Rightarrow> lease_db \<Rightarrow> lease_error option \<times> lease_db" where
  "PutFakeIPLease db l s =
     (if ls_Host l = [] \<or> ls_IP l = [] then (Some HostIPRequired, s)
      else db_write db (\<lambda>rows. upsert_host l (filter (\<lambda>r. \<not> (ls_IP r = ls_IP l \<and> ls_Host r \<noteq> ls_Host l)) rows)) s)"

definition DeleteFakeIPLease :: "db_fault \<Rightarrow> string \<Rightarrow> lease_db \<Rightarrow> lease_error option \<times> lease_db" where
  "DeleteFakeIPLease db host s = db_write db (filter (\<lambda>r. ls_Host r \<noteq> host)) s"

definition DeleteExpiredFakeIPLeases :: "db_fault \<Rightarrow> time \<Rightarrow> lease_db \<Rightarrow> lease_error option \<times> lease_db" where
  "DeleteExpiredFakeIPLeases db now s = db_write db (filter (\<lambda>r. now < ls_ExpiresAt r)) s"

text \<open>The adapter that makes the rules store a \<open>FakeIPStore\<close>.\<close>

definition fakeIPStore :: "db_fault \<Rightarrow> (lease_db, lease_error) FakeIPStore" where
  "fakeIPStore db = \<lparr>st_List = ListFakeIPLeases db, st_Put = PutFakeIPLease db,
     st_Delete = DeleteFakeIPLease db, st_Sweep = DeleteExpiredFakeIPLeases db\<rparr>"

section \<open>The contract\<close>

text \<open>The table as a client sees it: host to address and expiry.\<close>

type_synonym lease_table = "string \<rightharpoonup> string \<times> time"

definition put_row :: "FakeIPLease \<Rightarrow> lease_table \<Rightarrow> lease_table" where
  "put_row l t h =
     (if h = ls_Host l then Some (ls_IP l, ls_ExpiresAt l)
      else case t h of Some (ip, e) \<Rightarrow> if ip = ls_IP l then None else Some (ip, e) | None \<Rightarrow> None)"

definition unexpired :: "time \<Rightarrow> lease_table \<Rightarrow> lease_table" where
  "unexpired now t h = (case t h of Some (ip, e) \<Rightarrow> if now < e then Some (ip, e) else None | None \<Rightarrow> None)"

text \<open>
  What the writer of a batch asks for: puts and deletes of the batch, and no other
  holder of an address that a put of the batch takes.
\<close>

definition flushed :: "(string \<rightharpoonup> FakeIPLease option) \<Rightarrow> lease_table \<Rightarrow> lease_table" where
  "flushed pend t h =
     (case pend h of
        Some (Some l) \<Rightarrow> Some (ls_IP l, ls_ExpiresAt l)
      | Some None \<Rightarrow> None
      | None \<Rightarrow> (case t h of None \<Rightarrow> None
          | Some (ip, e) \<Rightarrow> if \<exists>h' l. pend h' = Some (Some l) \<and> ls_IP l = ip then None else Some (ip, e)))"

definition batch_ok :: "(string \<rightharpoonup> FakeIPLease option) \<Rightarrow> bool" where
  "batch_ok pend \<longleftrightarrow>
     (\<forall>h l. pend h = Some (Some l) \<longrightarrow> ls_Host l = h \<and> h \<noteq> [] \<and> ls_IP l \<noteq> []) \<and>
     (\<forall>h h' l l'. pend h = Some (Some l) \<and> pend h' = Some (Some l') \<and> ls_IP l = ls_IP l' \<longrightarrow> h = h')"

lemma batch_ok_le: "m \<subseteq>\<^sub>m m' \<Longrightarrow> batch_ok m' \<Longrightarrow> batch_ok m"
proof -
  assume le: "m \<subseteq>\<^sub>m m'" and ok: "batch_ok m'"
  have up: "m h = Some x \<Longrightarrow> m' h = Some x" for h x using le by (force simp: map_le_def dom_def)
  show "batch_ok m" using ok unfolding batch_ok_def by (blast dest: up)
qed

lemma ex_put_upd:
  assumes "m k = None"
  shows "(\<exists>h l. (m(k \<mapsto> x)) h = Some (Some l) \<and> P l) \<longleftrightarrow> (\<exists>l. x = Some l \<and> P l) \<or> (\<exists>h l. m h = Some (Some l) \<and> P l)"
  (is "?L \<longleftrightarrow> ?R")
proof
  assume ?L
  then show ?R by (auto split: if_splits)
next
  assume ?R
  then show ?L
  proof
    assume "\<exists>l. x = Some l \<and> P l"
    then show ?L by (intro exI [of _ k]) auto
  next
    assume "\<exists>h l. m h = Some (Some l) \<and> P l"
    then obtain h l where "m h = Some (Some l)" "P l" by blast
    then show ?L using assms by (intro exI [of _ h]) auto
  qed
qed

lemma row_eta [simp]: "\<lparr>ls_Host = ls_Host l, ls_IP = ls_IP l, ls_ExpiresAt = ls_ExpiresAt l\<rparr> = l"
  by simp

locale lease_store =
  fixes ops :: "('s, 'e) FakeIPStore" and tab :: "'s \<Rightarrow> lease_table" and wf :: "'s \<Rightarrow> bool"
  assumes put: "wf s \<Longrightarrow> st_Put ops l s = (err, s') \<Longrightarrow>
        wf s' \<and> tab s' = (if err = None then put_row l (tab s) else tab s)"
    and delete: "wf s \<Longrightarrow> st_Delete ops h s = (err, s') \<Longrightarrow>
        wf s' \<and> tab s' = (if err = None then (tab s)(h := None) else tab s)"
    and sweep: "wf s \<Longrightarrow> st_Sweep ops now s = (err, s') \<Longrightarrow>
        wf s' \<and> tab s' = (if err = None then unexpired now (tab s) else tab s)"
    and list: "wf s \<Longrightarrow> st_List ops now s = Inr ls \<Longrightarrow>
        distinct (map ls_Host ls) \<and> (\<forall>l. l \<in> set ls \<longleftrightarrow> unexpired now (tab s) (ls_Host l) = Some (ls_IP l, ls_ExpiresAt l))"
    and unique: "wf s \<Longrightarrow> tab s h = Some (ip, e) \<Longrightarrow> tab s h' = Some (ip, e') \<Longrightarrow> h = h'"
begin

lemma listed_ips_distinct:
  assumes "wf s" "st_List ops now s = Inr ls"
  shows "distinct (map ls_IP ls)"
proof -
  have "inj_on ls_IP (set ls)"
  proof (rule inj_onI)
    fix x y assume *: "x \<in> set ls" "y \<in> set ls" "ls_IP x = ls_IP y"
    then have "tab s (ls_Host x) = Some (ls_IP x, ls_ExpiresAt x)" "tab s (ls_Host y) = Some (ls_IP y, ls_ExpiresAt y)"
      using list [OF assms] by (auto simp: unexpired_def split: option.splits if_splits)
    then have "ls_Host x = ls_Host y" using unique [OF assms(1)] * by metis
    then show "x = y" using list [OF assms] * by (metis distinct_map inj_onD)
  qed
  then show ?thesis using list [OF assms] by (simp add: distinct_map)
qed

lemma flush_wf: "wf s \<Longrightarrow> wf (flush_puts ops qs (flush_deletes ops ds s))"
proof -
  have "wf s \<Longrightarrow> wf (snd (st_Delete ops h s))" "wf s \<Longrightarrow> wf (snd (st_Put ops l s))" for h l s
    using delete [OF _ prod.collapse [symmetric]] put [OF _ prod.collapse [symmetric]] by blast+
  note step = this
  have "wf s \<Longrightarrow> wf (flush_deletes ops ds s)" for s
    by (induction ds arbitrary: s) (auto simp: flush_deletes_def step)
  moreover have "wf s \<Longrightarrow> wf (flush_puts ops qs s)" for s
    by (induction qs arbitrary: s) (auto simp: flush_puts_def step split: option.split)
  ultimately show "wf s \<Longrightarrow> wf (flush_puts ops qs (flush_deletes ops ds s))" by blast
qed

end

text \<open>A store whose writes do not fail.\<close>

locale reliable_store = lease_store +
  assumes put_ok: "wf s \<Longrightarrow> ls_Host l \<noteq> [] \<Longrightarrow> ls_IP l \<noteq> [] \<Longrightarrow> fst (st_Put ops l s) = None"
    and delete_ok: "wf s \<Longrightarrow> fst (st_Delete ops h s) = None"
begin

lemma deletes_tab:
  assumes "wf s"
  shows "wf (flush_deletes ops ds s) \<and>
    tab (flush_deletes ops ds s) = (\<lambda>h. if (h, None) \<in> set ds then None else tab s h)"
  using assms
proof (induction ds arbitrary: s)
  case (Cons d ds)
  obtain h x where d: "d = (h, x)" by (rule prod.exhaust)
  let ?s1 = "if x = None then snd (st_Delete ops h s) else s"
  have "wf ?s1 \<and> tab ?s1 = (if x = None then (tab s)(h := None) else tab s)"
    using delete [OF Cons.prems prod.collapse [symmetric], of h] delete_ok [OF Cons.prems, of h] Cons.prems by simp
  moreover have "flush_deletes ops (d # ds) s = flush_deletes ops ds ?s1" by (simp add: flush_deletes_def d)
  ultimately show ?case using Cons.IH [of ?s1] by (auto simp: d fun_eq_iff)
qed (simp add: flush_deletes_def)

lemma puts_tab:
  assumes "wf s" "batch_ok (map_of qs)" "distinct (map fst qs)"
  shows "wf (flush_puts ops qs s) \<and> tab (flush_puts ops qs s) h =
    (case map_of qs h of
       Some (Some l) \<Rightarrow> Some (ls_IP l, ls_ExpiresAt l)
     | _ \<Rightarrow> (case tab s h of None \<Rightarrow> None
         | Some (ip, e) \<Rightarrow> if \<exists>h' l. map_of qs h' = Some (Some l) \<and> ls_IP l = ip then None else Some (ip, e)))"
  using assms
proof (induction qs arbitrary: s)
  case (Cons q qs)
  obtain k x where q: "q = (k, x)" by (rule prod.exhaust)
  have k: "map_of qs k = None" using Cons.prems(3) q by (simp add: map_of_eq_None_iff)
  have b: "batch_ok (map_of qs)"
    by (rule batch_ok_le [OF _ Cons.prems(2)]) (use k in \<open>auto simp: q map_le_def\<close>)
  have d: "distinct (map fst qs)" using Cons.prems(3) by simp
  show ?case
  proof (cases x)
    case None
    then have "flush_puts ops (q # qs) s = flush_puts ops qs s" by (simp add: flush_puts_def q)
    moreover have ex: "(\<exists>h' l. map_of (q # qs) h' = Some (Some l) \<and> P l) \<longleftrightarrow> (\<exists>h' l. map_of qs h' = Some (Some l) \<and> P l)" for P
      using ex_put_upd [of "map_of qs", OF k, of x P] by (simp add: q None)
    ultimately show ?thesis using Cons.IH [OF Cons.prems(1) b d] k unfolding ex by (auto simp: q None)
  next
    case (Some l)
    have "map_of (q # qs) k = Some (Some l)" by (simp add: q Some)
    then have l: "ls_Host l = k" "k \<noteq> []" "ls_IP l \<noteq> []"
      using Cons.prems(2) unfolding batch_ok_def by blast+
    have other: "ls_IP l' \<noteq> ls_IP l" if "map_of qs h' = Some (Some l')" for h' l'
    proof
      assume "ls_IP l' = ls_IP l"
      moreover have ne: "h' \<noteq> k" using that k by auto
      moreover have "map_of (q # qs) h' = Some (Some l')" "map_of (q # qs) k = Some (Some l)"
        using that ne by (simp_all add: q Some)
      ultimately show False using Cons.prems(2) unfolding batch_ok_def by blast
    qed
    let ?s1 = "snd (st_Put ops l s)"
    have s1: "wf ?s1" "tab ?s1 = put_row l (tab s)"
      using put [OF Cons.prems(1) prod.collapse [symmetric], of l] put_ok [OF Cons.prems(1), of l] l by auto
    have "flush_puts ops (q # qs) s = flush_puts ops qs ?s1" by (simp add: flush_puts_def q Some)
    moreover note Cons.IH [OF s1(1) b d]
    moreover have ex: "(\<exists>h' l'. map_of (q # qs) h' = Some (Some l') \<and> ls_IP l' = ip) \<longleftrightarrow>
        ls_IP l = ip \<or> (\<exists>h' l'. map_of qs h' = Some (Some l') \<and> ls_IP l' = ip)" for ip
      using ex_put_upd [of "map_of qs", OF k, of x "\<lambda>l. ls_IP l = ip"] by (simp add: q Some)
    ultimately show ?thesis using k other l(1) unfolding ex
      by (cases "h = k") (auto simp: q Some s1(2) put_row_def split: option.splits)
  qed
qed (auto simp: flush_puts_def split: option.splits)

lemma flush_tab:
  assumes "wf s" "batch_ok pend" "enumerates ds pend" "enumerates qs pend"
  shows "tab (flush_puts ops qs (flush_deletes ops ds s)) = flushed pend (tab s)"
proof
  fix h
  have ds: "(h, None) \<in> set ds \<longleftrightarrow> pend h = Some None"
    using assms(3) by (auto simp: enumerates_def)
  have qs: "map_of qs = pend" "distinct (map fst qs)" using assms(4) by (auto simp: enumerates_def)
  have "wf (flush_deletes ops ds s)" "tab (flush_deletes ops ds s) h = (if pend h = Some None then None else tab s h)"
    using deletes_tab [OF assms(1), of ds] ds by auto
  with puts_tab [of "flush_deletes ops ds s" qs h] show "tab (flush_puts ops qs (flush_deletes ops ds s)) h = flushed pend (tab s) h"
    using assms(2) qs by (auto simp: flushed_def split: option.splits)
qed

end

section \<open>The provider meets the contract\<close>

definition table_of :: "lease_db \<Rightarrow> lease_table" where
  "table_of s h = map_option (\<lambda>r. (ls_IP r, ls_ExpiresAt r)) (find (\<lambda>r. ls_Host r = h) (db_rows s))"

text \<open>The primary key on the host and the unique index on the address.\<close>

definition keys_ok :: "lease_db \<Rightarrow> bool" where
  "keys_ok s \<longleftrightarrow> distinct (map ls_Host (db_rows s)) \<and> distinct (map ls_IP (db_rows s))"

lemma distinct_map_eq: "distinct (map f xs) \<Longrightarrow> x \<in> set xs \<Longrightarrow> y \<in> set xs \<Longrightarrow> f x = f y \<Longrightarrow> x = y"
  by (simp add: distinct_map inj_on_def)

lemma find_host_iff:
  assumes "distinct (map ls_Host rows)"
  shows "find (\<lambda>r. ls_Host r = h) rows = Some r \<longleftrightarrow> r \<in> set rows \<and> ls_Host r = h"
proof
  assume "find (\<lambda>r. ls_Host r = h) rows = Some r"
  then show "r \<in> set rows \<and> ls_Host r = h" by (auto simp: find_Some_iff)
next
  assume r: "r \<in> set rows \<and> ls_Host r = h"
  then obtain r' where "find (\<lambda>r. ls_Host r = h) rows = Some r'" "r' \<in> set rows" "ls_Host r' = h"
    by (cases "find (\<lambda>r. ls_Host r = h) rows") (auto simp: find_None_iff find_Some_iff)
  then show "find (\<lambda>r. ls_Host r = h) rows = Some r" using r distinct_map_eq [OF assms] by metis
qed

lemma table_of_iff:
  assumes "keys_ok s"
  shows "table_of s h = Some (ip, e) \<longleftrightarrow> \<lparr>ls_Host = h, ls_IP = ip, ls_ExpiresAt = e\<rparr> \<in> set (db_rows s)"
proof -
  have "table_of s h = Some (ip, e) \<longleftrightarrow> (\<exists>r\<in>set (db_rows s). ls_Host r = h \<and> ls_IP r = ip \<and> ls_ExpiresAt r = e)"
    using assms by (auto simp: table_of_def keys_ok_def find_host_iff)
  also have "\<dots> \<longleftrightarrow> \<lparr>ls_Host = h, ls_IP = ip, ls_ExpiresAt = e\<rparr> \<in> set (db_rows s)"
    by (metis FakeIPLease.surjective FakeIPLease.select_convs(1-3) old.unit.exhaust)
  finally show ?thesis .
qed

lemma table_of_eqI:
  assumes "keys_ok s" "\<And>h ip e. \<lparr>ls_Host = h, ls_IP = ip, ls_ExpiresAt = e\<rparr> \<in> set (db_rows s) \<longleftrightarrow> t h = Some (ip, e)"
  shows "table_of s = t"
proof
  fix h show "table_of s h = t h"
    using table_of_iff [OF assms(1), of h] assms(2) [of h]
    by (cases "table_of s h"; cases "t h") (metis not_None_eq surj_pair option.distinct(1) option.inject)+
qed

lemma keys_ok_filter: "keys_ok s \<Longrightarrow> keys_ok \<lparr>db_calls = n, db_rows = filter P (db_rows s)\<rparr>"
  by (simp add: keys_ok_def distinct_map_filter)

lemma db_write_filter:
  assumes "keys_ok s" "db_write db (filter P) s = (err, s')"
    "\<And>h ip e. t h = Some (ip, e) \<longleftrightarrow> table_of s h = Some (ip, e) \<and> P \<lparr>ls_Host = h, ls_IP = ip, ls_ExpiresAt = e\<rparr>"
  shows "keys_ok s' \<and> table_of s' = (if err = None then t else table_of s)"
proof (cases "db (db_calls s)")
  case None
  then have s': "err = None" "s' = \<lparr>db_calls = Suc (db_calls s), db_rows = filter P (db_rows s)\<rparr>"
    using assms(2) by (auto simp: db_write_def)
  have "keys_ok s'" using keys_ok_filter [OF assms(1)] by (simp add: s')
  moreover have "table_of s' = t"
    using \<open>keys_ok s'\<close> by (rule table_of_eqI) (auto simp: s' assms(3) table_of_iff [OF assms(1)])
  ultimately show ?thesis by (simp add: s')
next
  case (Some e)
  then show ?thesis using assms(1,2) by (auto simp: db_write_def keys_ok_def table_of_def fun_eq_iff)
qed

lemma upsert_rows:
  assumes "keys_ok s" "rows = filter (\<lambda>r. \<not> (ls_IP r = ls_IP l \<and> ls_Host r \<noteq> ls_Host l)) (db_rows s)"
  shows "keys_ok \<lparr>db_calls = n, db_rows = upsert_host l rows\<rparr>"
    and "r \<in> set (upsert_host l rows) \<longleftrightarrow>
      (if ls_Host r = ls_Host l then ls_IP r = ls_IP l \<and> ls_ExpiresAt r = ls_ExpiresAt l
       else r \<in> set (db_rows s) \<and> ls_IP r \<noteq> ls_IP l)"
proof -
  let ?up = "\<lambda>r. if ls_Host r = ls_Host l then r\<lparr>ls_IP := ls_IP l, ls_ExpiresAt := ls_ExpiresAt l\<rparr> else r"
  have rows: "distinct (map ls_Host rows)" "distinct (map ls_IP rows)"
    "\<And>r. r \<in> set rows \<Longrightarrow> ls_IP r = ls_IP l \<Longrightarrow> ls_Host r = ls_Host l"
    using assms by (auto simp: keys_ok_def distinct_map_filter)
  have eq: "r = l \<longleftrightarrow> ls_Host r = ls_Host l \<and> ls_IP r = ls_IP l \<and> ls_ExpiresAt r = ls_ExpiresAt l" for r :: FakeIPLease
    by (auto intro: FakeIPLease.equality)
  have hosts: "map ls_Host (map ?up rows) = map ls_Host rows" by simp
  have ips: "inj_on (ls_IP \<circ> ?up) (set rows)"
  proof (rule inj_onI)
    fix x y assume "x \<in> set rows" "y \<in> set rows" "(ls_IP \<circ> ?up) x = (ls_IP \<circ> ?up) y"
    then show "x = y" using rows(3) [of x] rows(3) [of y] distinct_map_eq [OF rows(1), of x y] distinct_map_eq [OF rows(2), of x y]
      by (auto split: if_splits)
  qed
  have "distinct rows" using rows(1) by (simp add: distinct_map)
  then have "distinct (map ls_IP (map ?up rows))" using ips by (simp add: distinct_map del: map_map add: map_map)
  moreover have "distinct (map ls_Host (map ?up rows))" using rows(1) by (simp only: hosts)
  ultimately show "keys_ok \<lparr>db_calls = n, db_rows = upsert_host l rows\<rparr>"
    using rows by (auto simp: keys_ok_def upsert_host_def list_ex_iff simp del: map_map)
  show "r \<in> set (upsert_host l rows) \<longleftrightarrow>
      (if ls_Host r = ls_Host l then ls_IP r = ls_IP l \<and> ls_ExpiresAt r = ls_ExpiresAt l
       else r \<in> set (db_rows s) \<and> ls_IP r \<noteq> ls_IP l)"
  proof (cases "\<exists>x\<in>set rows. ls_Host x = ls_Host l")
    case True
    have up: "?up x = (if ls_Host x = ls_Host l then l else x)" for x by (simp add: eq)
    have "set (upsert_host l rows) = ?up ` set rows" using True by (simp add: upsert_host_def list_ex_iff)
    also have "\<dots> = {r \<in> set rows. ls_Host r \<noteq> ls_Host l} \<union> {l}" using True unfolding up by auto
    finally have "set (upsert_host l rows) = {r \<in> set rows. ls_Host r \<noteq> ls_Host l} \<union> {l}" .
    then show ?thesis using assms(2) by (auto simp: eq)
  next
    case False
    then have "set (upsert_host l rows) = set rows \<union> {l}" by (auto simp: upsert_host_def list_ex_iff)
    then show ?thesis using assms(2) False by (auto simp: eq)
  qed
qed

lemma put_meets:
  assumes "keys_ok s" "PutFakeIPLease db l s = (err, s')"
  shows "keys_ok s' \<and> table_of s' = (if err = None then put_row l (table_of s) else table_of s)"
proof (cases "ls_Host l = [] \<or> ls_IP l = [] \<or> db (db_calls s) \<noteq> None")
  case True
  then show ?thesis using assms by (auto simp: PutFakeIPLease_def db_write_def keys_ok_def table_of_def fun_eq_iff split: if_splits)
next
  case False
  then have s': "err = None" "s' = \<lparr>db_calls = Suc (db_calls s), db_rows = upsert_host l (filter (\<lambda>r. \<not> (ls_IP r = ls_IP l \<and> ls_Host r \<noteq> ls_Host l)) (db_rows s))\<rparr>"
    using assms(2) by (auto simp: PutFakeIPLease_def db_write_def)
  have k: "keys_ok s'" unfolding s' by (rule upsert_rows(1) [OF assms(1) refl])
  note mem = upsert_rows(2) [OF assms(1) refl, of _ l]
  have "table_of s' = put_row l (table_of s)"
  proof (rule table_of_eqI [OF k])
    fix h ip e
    show "\<lparr>ls_Host = h, ls_IP = ip, ls_ExpiresAt = e\<rparr> \<in> set (db_rows s') \<longleftrightarrow> put_row l (table_of s) h = Some (ip, e)"
      using table_of_iff [OF assms(1), of h ip e] unfolding s' lease_db.select_convs mem
      by (auto simp: put_row_def split: option.splits if_splits)
  qed
  then show ?thesis using k s'(1) by simp
qed

lemma fakeIPStore_sel [simp]:
  "st_List (fakeIPStore db) = ListFakeIPLeases db" "st_Put (fakeIPStore db) = PutFakeIPLease db"
  "st_Delete (fakeIPStore db) = DeleteFakeIPLease db" "st_Sweep (fakeIPStore db) = DeleteExpiredFakeIPLeases db"
  by (simp_all add: fakeIPStore_def)

interpretation sql: lease_store "fakeIPStore db" table_of keys_ok
proof (unfold_locales, goal_cases)
  case (1 s l err s')
  then show ?case using put_meets by simp
next
  case (2 s h err s')
  have "keys_ok s' \<and> table_of s' = (if err = None then (table_of s)(h := None) else table_of s)"
    using 2 by (intro db_write_filter) (auto simp: DeleteFakeIPLease_def)
  then show ?case .
next
  case (3 s now err s')
  then show ?case
    by (intro db_write_filter) (auto simp: DeleteExpiredFakeIPLeases_def unexpired_def split: option.splits if_splits)
next
  case (4 s now ls)
  then have ls: "ls = filter (\<lambda>r. now < ls_ExpiresAt r) (db_rows s)"
    by (auto simp: ListFakeIPLeases_def split: option.splits)
  have "l \<in> set ls \<longleftrightarrow> unexpired now (table_of s) (ls_Host l) = Some (ls_IP l, ls_ExpiresAt l)" for l
    using table_of_iff [OF 4(1), of "ls_Host l" "ls_IP l" "ls_ExpiresAt l", unfolded row_eta]
    by (auto simp: ls unexpired_def split: option.splits if_splits)
  then show ?case using 4(1) by (simp add: ls keys_ok_def distinct_map_filter)
next
  case (5 s h ip e h' e')
  then have "\<lparr>ls_Host = h, ls_IP = ip, ls_ExpiresAt = e\<rparr> = \<lparr>ls_Host = h', ls_IP = ip, ls_ExpiresAt = e'\<rparr>"
    by (intro distinct_map_eq [of ls_IP "db_rows s"]) (simp_all add: table_of_iff, simp add: keys_ok_def)
  then show ?case by simp
qed

interpretation sql_ok: reliable_store "fakeIPStore (\<lambda>_. None)" table_of keys_ok
  by unfold_locales (simp_all add: PutFakeIPLease_def DeleteFakeIPLease_def db_write_def)

section \<open>The pool with its store\<close>

text \<open>
  The states the pair of pool and table can reach: the daemon starts with an empty
  pool and restores it, then allocations, releases and flushes follow in any order.
\<close>

inductive fake_reach :: "('s, 'e) FakeIPStore \<Rightarrow> ('s \<Rightarrow> bool) \<Rightarrow> string \<Rightarrow> duration \<Rightarrow> fakeIPPool \<times> 's \<Rightarrow> bool"
  for ops ok cidr ttl where
  start: "newFakeIPPool cidr ttl st = Inr p \<Longrightarrow> ok s \<Longrightarrow> fake_reach ops ok cidr ttl (restore ops now (p, s))"
| alloc: "fake_reach ops ok cidr ttl (p, s) \<Longrightarrow> host \<noteq> [] \<Longrightarrow> fake_reach ops ok cidr ttl (snd (Allocate host now p), s)"
| release: "fake_reach ops ok cidr ttl (p, s) \<Longrightarrow> fake_reach ops ok cidr ttl (Release host p, s)"
| flush: "fake_reach ops ok cidr ttl (p, s) \<Longrightarrow> enumerates ds (fp_pending p) \<Longrightarrow> enumerates qs (fp_pending p) \<Longrightarrow>
    fake_reach ops ok cidr ttl (flush ops ds qs (p, s))"

definition row_of :: "fakeLease \<Rightarrow> FakeIPLease" where
  "row_of l = \<lparr>ls_Host = fl_host l, ls_IP = v4_string (fl_ip l), ls_ExpiresAt = fl_stored l\<rparr>"

text \<open>The table holds addresses in the form the pool writes.\<close>

definition canon :: "lease_table \<Rightarrow> bool" where
  "canon t \<longleftrightarrow> (\<forall>h ip e. t h = Some (ip, e) \<longrightarrow> (\<exists>a. ip = v4_string a))"

lemma canon_unexpired: "canon t \<Longrightarrow> canon (unexpired now t)"
proof -
  have "unexpired now t h = Some r \<Longrightarrow> t h = Some r" for h r by (auto simp: unexpired_def split: option.splits if_splits)
  then show "canon t \<Longrightarrow> canon (unexpired now t)" unfolding canon_def by blast
qed

definition pending_sound :: "fakeIPPool \<Rightarrow> bool" where
  "pending_sound p \<longleftrightarrow> (\<forall>h l. fp_pending p h = Some (Some l) \<longrightarrow>
     h \<noteq> [] \<and> (\<exists>fl. lease_of p h = Some fl \<and> l = row_of fl))"

definition stored_or_pending :: "lease_table \<Rightarrow> fakeIPPool \<Rightarrow> bool" where
  "stored_or_pending t p \<longleftrightarrow> (\<forall>h fl. lease_of p h = Some fl \<longrightarrow>
     fp_pending p h = Some (Some (row_of fl)) \<or>
     fp_pending p h = None \<and> t h = Some (v4_string (fl_ip fl), fl_stored fl))"

definition drift_ok :: "fakeIPPool \<Rightarrow> bool" where
  "drift_ok p \<longleftrightarrow> 0 < fp_ttl p \<and> (\<forall>h fl. lease_of p h = Some fl \<longrightarrow> fl_expiry fl - fl_stored fl \<le> fp_ttl p div 4)"

definition synced :: "lease_table \<Rightarrow> fakeIPPool \<Rightarrow> bool" where
  "synced t p \<longleftrightarrow> pool_inv p \<and> canon t \<and> drift_ok p \<and> (fp_store p \<longrightarrow> pending_sound p \<and> stored_or_pending t p)"

lemma pending_soundE:
  assumes "pending_sound p" "fp_pending p h = Some (Some l)"
  obtains fl where "lease_of p h = Some fl" "l = row_of fl" "h \<noteq> []"
  using assms unfolding pending_sound_def by blast

lemma stored_or_pendingD:
  "stored_or_pending t p \<Longrightarrow> lease_of p h = Some fl \<Longrightarrow> fp_pending p h = Some (Some (row_of fl)) \<or>
     fp_pending p h = None \<and> t h = Some (v4_string (fl_ip fl), fl_stored fl)"
  unfolding stored_or_pending_def by blast

lemma v4_string_nonempty [simp]: "v4_string a \<noteq> []"
  using first_sep_v4_string [of a] by (metis first_sep.simps(1) option.distinct(1))

lemma pending_batch_ok:
  assumes "pool_inv p" "pending_sound p" shows "batch_ok (fp_pending p)"
proof -
  have ok: "bindings_ok p" using assms(1) by (simp add: pool_inv_def)
  have "h = h'" if p: "fp_pending p h = Some (Some l)" "fp_pending p h' = Some (Some l')" "ls_IP l = ls_IP l'" for h h' l l'
  proof -
    obtain fl fl' where fl: "lease_of p h = Some fl" "l = row_of fl" "lease_of p h' = Some fl'" "l' = row_of fl'"
      using p assms(2) by (meson pending_soundE)
    then have "fl_ip fl = fl_ip fl'" using p(3) v4_string_inj by (simp add: row_of_def)
    then show ?thesis using bound_inj [OF ok] lease_of_fields(2) [OF ok fl(1)] lease_of_fields(2) [OF ok fl(3)] by metis
  qed
  moreover have "ls_Host l = h \<and> h \<noteq> [] \<and> ls_IP l \<noteq> []" if "fp_pending p h = Some (Some l)" for h l
    using assms(2) that by (rule pending_soundE) (simp add: row_of_def lease_of_fields [OF ok])
  ultimately show ?thesis unfolding batch_ok_def by blast
qed

text \<open>Steps that leave the lease of every host alone or replace it by a queued one.\<close>

lemma claim_synced:
  assumes "synced t p" "host \<noteq> []" "fp_byHost p host = None" "off \<noteq> 0" "off < fp_size p" "\<not> live p now off"
    and al: "allocate host now p = claim_slot host now off p"
  shows "synced t (snd (Allocate host now p))"
proof -
  let ?a = "fp_base p + off"
  let ?l = "\<lparr>fl_ip = ?a, fl_host = host, fl_expiry = now + fp_ttl p, fl_stored = now + fp_ttl p\<rparr>"
  have inv: "pool_inv p" using assms(1) by (simp add: synced_def)
  obtain res p1 where c: "claim_slot host now off p = (res, p1)" by (rule prod.exhaust)
  note spec = claim_slot_spec [OF inv assms(3-6) c]
  obtain ev where res: "res = Some (IPv4 ?a, ev, Some (row_of ?l))"
    and ls: "\<And>h. lease_of p1 h = (if h = host then Some ?l else if bound p h = Some ?a then None else lease_of p h)"
    and ev: "\<And>h. bound p h = Some ?a \<Longrightarrow> h = ev" "ev \<noteq> [] \<Longrightarrow> bound p ev = Some ?a"
    using spec(2) by (auto simp: row_of_def)
  let ?p' = "snd (Allocate host now p)"
  have p': "?p' = (if fp_store p1 then queue host (Some (row_of ?l)) (if ev \<noteq> [] then queue ev None p1 else p1) else p1)"
    by (simp add: Allocate_def al c res)
  have ls': "lease_of ?p' h = (if h = host then Some ?l else if bound p h = Some ?a then None else lease_of p h)" for h
    by (simp add: p' ls)
  have ttl: "fp_ttl ?p' = fp_ttl p" "fp_store ?p' = fp_store p" using spec(3) by (simp_all add: p')
  have pend: "fp_pending ?p' h = (if h = host then Some (Some (row_of ?l)) else if ev \<noteq> [] \<and> h = ev then Some None else fp_pending p h)"
    if "fp_store p" for h
    using that spec(3) by (simp add: p' queue_def)
  have "pool_inv ?p'" using spec(1) by (simp add: p')
  moreover have "drift_ok ?p'" using assms(1) by (auto simp: synced_def drift_ok_def ls' ttl split: if_splits)
  moreover have "pending_sound ?p'" if st: "fp_store p"
  proof -
    have "pending_sound p" using assms(1) st by (simp add: synced_def)
    then show ?thesis using ev assms(2) unfolding pending_sound_def pend [OF st] ls' by (metis option.distinct(1) option.inject)
  qed
  moreover have "stored_or_pending t ?p'" if st: "fp_store p"
  proof -
    have "stored_or_pending t p" using assms(1) st by (simp add: synced_def)
    then show ?thesis using ev unfolding stored_or_pending_def pend [OF st] ls' by (metis option.distinct(1) option.inject)
  qed
  ultimately show ?thesis using assms(1) by (simp add: synced_def ttl)
qed

lemma refresh_synced:
  assumes "synced t p" "host \<noteq> []" "fp_byHost p host = Some ref" "fp_heap p ref = Some l"
    and al: "allocate host now p = refresh_lease host now ref l p"
  shows "synced t (snd (Allocate host now p))"
proof -
  have inv: "pool_inv p" using assms(1) by (simp add: synced_def)
  have lp: "lease_of p host = Some l" using assms(3,4) by (simp add: lease_of_def)
  then have hl: "fl_host l = host" using lease_of_fields(1) inv by (auto simp: pool_inv_def)
  let ?due = "fl_stored l = 0 \<or> now + fp_ttl p - fl_stored l > fp_ttl p div 4"
  let ?l' = "l\<lparr>fl_expiry := now + fp_ttl p, fl_stored := (if ?due then now + fp_ttl p else fl_stored l)\<rparr>"
  let ?p1 = "snd (refresh_lease host now ref l p)" and ?p' = "snd (Allocate host now p)"
  note spec = refresh_lease_spec [OF inv assms(3,4), of now]
  have fr: "fp_store ?p1 = fp_store p" "fp_ttl ?p1 = fp_ttl p" "fp_pending ?p1 = fp_pending p"
    by (simp_all add: refresh_lease_def Let_def)
  have p': "?p' = (if fp_store p \<and> ?due then queue host (Some (row_of ?l')) ?p1 else ?p1)"
    using hl by (simp add: Allocate_def al refresh_lease_def Let_def row_of_def intToIP_def fakeIPPersistRefreshFraction_def)
  have ls': "lease_of ?p' h = (if h = host then Some ?l' else lease_of p h)" for h
    using spec(2) by (simp add: p')
  have ttl: "fp_ttl ?p' = fp_ttl p" "fp_store ?p' = fp_store p" using fr by (simp_all add: p')
  have pend: "fp_pending ?p' h = (if h = host \<and> ?due then Some (Some (row_of ?l')) else fp_pending p h)"
    if "fp_store p" for h
    using that fr by (simp add: p' queue_def)
  have row: "\<not> ?due \<Longrightarrow> row_of ?l' = row_of l" by (simp add: row_of_def)
  have "pool_inv ?p'" using spec(1) by (simp add: p')
  moreover have "drift_ok ?p'" using assms(1) by (auto simp: synced_def drift_ok_def ls' ttl)
  moreover have "pending_sound ?p'" if st: "fp_store p"
  proof -
    have ps: "pending_sound p" using assms(1) st by (simp add: synced_def)
    show ?thesis unfolding pending_sound_def
    proof (intro allI impI)
      fix h x assume x: "fp_pending ?p' h = Some (Some x)"
      show "h \<noteq> [] \<and> (\<exists>fl. lease_of ?p' h = Some fl \<and> x = row_of fl)"
      proof (cases "h = host \<and> ?due")
        case True
        then show ?thesis using x assms(2) unfolding pend [OF st] ls' by simp
      next
        case False
        then have "fp_pending p h = Some (Some x)" using x unfolding pend [OF st] by (auto split: if_splits)
        with ps obtain fl where "lease_of p h = Some fl" "x = row_of fl" "h \<noteq> []" by (rule pending_soundE)
        then show ?thesis using False row lp unfolding ls' by auto
      qed
    qed
  qed
  moreover have "stored_or_pending t ?p'" if st: "fp_store p"
  proof -
    have sp: "stored_or_pending t p" using assms(1) st by (simp add: synced_def)
    show ?thesis unfolding stored_or_pending_def
    proof (intro allI impI)
      fix h fl assume "lease_of ?p' h = Some fl"
      then show "fp_pending ?p' h = Some (Some (row_of fl)) \<or>
          fp_pending ?p' h = None \<and> t h = Some (v4_string (fl_ip fl), fl_stored fl)"
        using stored_or_pendingD [OF sp, of h] row lp unfolding pend [OF st] ls' by (cases "h = host"; cases ?due) auto
    qed
  qed
  ultimately show ?thesis using assms(1) by (simp add: synced_def ttl)
qed

lemma alloc_synced:
  assumes s: "synced t p" and h: "host \<noteq> []" shows "synced t (snd (Allocate host now p))"
proof -
  have "pool_inv p" using s by (simp add: synced_def)
  then show ?thesis
  proof (cases rule: allocate_cases [where host = host and now = now])
    case full
    then show ?thesis using s by (simp add: Allocate_def)
  qed (use refresh_synced [OF s h] claim_synced [OF s h] in blast)+
qed

lemma release_synced:
  assumes s: "synced t p" shows "synced t (Release host p)"
proof -
  have inv: "pool_inv p" using s by (simp add: synced_def)
  then show ?thesis
  proof (cases rule: Release_cases [where host = host])
    case none
    then show ?thesis using s by simp
  next
    case (some ref l)
    have fr: "fp_ttl (Release host p) = fp_ttl p" "fp_store (Release host p) = fp_store p"
      "fp_store p \<Longrightarrow> fp_pending (Release host p) = (fp_pending p)(host \<mapsto> None)"
      using some by (simp_all add: queue_def)
    show ?thesis using s Release_spec [OF inv, of host]
      by (auto simp: synced_def drift_ok_def pending_sound_def stored_or_pending_def fr split: if_splits)
  qed
qed

lemma flushed_canon:
  assumes "canon t" "pending_sound p" shows "canon (flushed (fp_pending p) t)"
  unfolding canon_def
proof (intro allI impI)
  fix h ip e assume "flushed (fp_pending p) t h = Some (ip, e)"
  then consider (put) l where "fp_pending p h = Some (Some l)" "ip = ls_IP l" | (old) "t h = Some (ip, e)"
    by (auto simp: flushed_def split: option.splits if_splits)
  then show "\<exists>a. ip = v4_string a"
  proof cases
    case put
    then show ?thesis using pending_soundE [OF assms(2) put(1)] by (metis FakeIPLease.select_convs(2) row_of_def)
  qed (use assms(1) in \<open>auto simp: canon_def\<close>)
qed

lemma flush_synced:
  assumes s: "synced t p" and st: "fp_store p"
  shows "synced (flushed (fp_pending p) t) (p\<lparr>fp_pending := Map.empty\<rparr>)"
proof -
  have inv: "pool_inv p" and ok: "bindings_ok p" and ps: "pending_sound p" and sp: "stored_or_pending t p"
    using s st by (auto simp: synced_def pool_inv_def)
  have "flushed (fp_pending p) t h = Some (v4_string (fl_ip fl), fl_stored fl)" if l: "lease_of p h = Some fl" for h fl
  proof (cases "fp_pending p h")
    case None
    then have t: "t h = Some (v4_string (fl_ip fl), fl_stored fl)"
      using stored_or_pendingD [OF sp l] by auto
    have "ls_IP x \<noteq> v4_string (fl_ip fl)" if x: "fp_pending p h' = Some (Some x)" for h' x
    proof
      assume *: "ls_IP x = v4_string (fl_ip fl)"
      obtain fl' where fl': "lease_of p h' = Some fl'" "x = row_of fl'" using ps x by (rule pending_soundE)
      then have "fl_ip fl' = fl_ip fl" using * by (simp add: row_of_def v4_string_inj)
      then have "h' = h" using bound_inj [OF ok] lease_of_fields(2) [OF ok l] lease_of_fields(2) [OF ok fl'(1)] by metis
      then show False using None x by simp
    qed
    then show ?thesis using None t by (auto simp: flushed_def)
  next
    case (Some x)
    then have "x = Some (row_of fl)" using stored_or_pendingD [OF sp l] by auto
    then show ?thesis using Some by (simp add: flushed_def row_of_def)
  qed
  then show ?thesis using s ps flushed_canon [of t p]
    by (auto simp: synced_def drift_ok_def pending_sound_def stored_or_pending_def)
qed

section \<open>Reachable states\<close>

lemma Allocate_block:
  assumes "pool_inv p"
  shows "fp_base (snd (Allocate host now p)) = fp_base p \<and> fp_size (snd (Allocate host now p)) = fp_size p"
proof -
  obtain r p1 where a: "allocate host now p = (r, p1)" by (rule prod.exhaust)
  have "fp_base p1 = fp_base p \<and> fp_size p1 = fp_size p"
    using assms
  proof (cases rule: allocate_cases [where host = host and now = now])
    case (claim off)
    then show ?thesis using claim_slot_spec(3) [OF assms claim(1-4), of r p1] a by simp
  qed (use a in \<open>auto simp: refresh_lease_def Let_def\<close>)
  then show ?thesis using Allocate_frame(4,5) [OF a prod.collapse [symmetric]] by simp
qed

lemma new_block:
  assumes "newFakeIPPool cidr ttl st = Inr p" "newFakeIPPool cidr ttl' st' = Inr p'"
  shows "fp_base p = fp_base p' \<and> fp_size p = fp_size p'"
  using assms by (auto simp: newFakeIPPool_def Let_def split: option.splits prod.splits if_splits)

lemma fake_reach_mono: "fake_reach ops ok cidr ttl ps \<Longrightarrow> (\<And>s. ok s \<Longrightarrow> ok' s) \<Longrightarrow> fake_reach ops ok' cidr ttl ps"
  by (induction rule: fake_reach.induct) (auto intro: fake_reach.intros)

context lease_store
begin

text \<open>The pool that is running after a restart; \<open>p\<close> is a new, empty pool.\<close>

lemma restore_inv:
  assumes p: "newFakeIPPool cidr ttl st = Inr p" and s: "wf s" and r: "restore ops now (p, s) = (p', s')"
  shows "pool_inv p' \<and> wf s'"
proof (cases "st \<and> (\<exists>ls. st_List ops now s = Inr ls)")
  case True
  then obtain ls where ls: "st_List ops now s = Inr ls" by blast
  have p': "p' = restore_leases ls p" "s' = snd (st_Sweep ops now s)"
    using r True newFakeIPPool_inv(5) [OF p] by (auto simp: restore_def ls)
  have "pool_inv p'" unfolding p'
    using list [OF s ls] newFakeIPPool_inv [OF p] by (intro restore_leases_inv) auto
  moreover have "wf s'" using sweep [OF s prod.collapse [symmetric]] by (simp add: p')
  ultimately show ?thesis by simp
next
  case False
  then have "p' = p" "s' = s"
    using r newFakeIPPool_inv(5) [OF p] by (auto simp: restore_def split: sum.splits if_splits)
  then show ?thesis using s newFakeIPPool_inv(1) [OF p] by simp
qed

lemma reach_inv:
  assumes "fake_reach ops wf cidr ttl ps"
  shows "pool_inv (fst ps) \<and> wf (snd ps)"
  using assms
proof induction
  case (start st p s now)
  then show ?case using restore_inv [OF start] by (metis prod.collapse)
next
  case (alloc p s host now)
  then show ?case using Allocate_inv by simp
next
  case (release p s host)
  then show ?case using Release_spec(1) by simp
next
  case (flush p s ds qs)
  then show ?case using flush_wf by (simp add: flush_def)
qed

lemma reach_block:
  assumes "fake_reach ops wf cidr ttl ps"
  shows "\<exists>st p0. newFakeIPPool cidr ttl st = Inr p0 \<and> fp_base (fst ps) = fp_base p0 \<and> fp_size (fst ps) = fp_size p0"
  using assms
proof induction
  case (start st p s now)
  have "fp_base (fst (restore ops now (p, s))) = fp_base p \<and> fp_size (fst (restore ops now (p, s))) = fp_size p"
  proof (cases "st_List ops now s")
    case (Inr ls)
    obtain p1 m where f: "foldl restore_row (p, 0) ls = (p1, m)" by (rule prod.exhaust)
    show ?thesis using restore_fold_inv [OF _ _ _ f] newFakeIPPool_inv [OF start(1)] list [OF start(2) Inr]
      by (simp add: restore_def Inr restore_leases_fields [OF f])
  qed (simp add: restore_def)
  then show ?case using start(1) by blast
next
  case (alloc p s host now)
  have "pool_inv p" using reach_inv [OF alloc(1)] by simp
  then show ?case using Allocate_block alloc.IH by simp
next
  case (release p s host)
  have "fp_base (Release host p) = fp_base p \<and> fp_size (Release host p) = fp_size p"
    by (simp add: Release_def Let_def split: option.split)
  then show ?case using release.IH by simp
next
  case (flush p s ds qs)
  then show ?case by (simp add: flush_def)
qed

lemma restore_synced:
  assumes p: "newFakeIPPool cidr ttl st = Inr p" and s: "wf s" and c: "canon (tab s)"
    and r: "restore ops now (p, s) = (p', s')"
  shows "synced (tab s') p'"
proof (cases "st \<and> (\<exists>ls. st_List ops now s = Inr ls)")
  case True
  then obtain ls where ls: "st_List ops now s = Inr ls" by blast
  note new = newFakeIPPool_inv [OF p]
  obtain p1 m where f: "foldl restore_row (p, 0) ls = (p1, m)" by (rule prod.exhaust)
  have p': "p' = p1\<lparr>fp_cursor := (m + 1) mod fp_size p1\<rparr>" "s' = snd (st_Sweep ops now s)"
    using r True new(5) by (auto simp: restore_def ls restore_leases_fields [OF f])
  note d = list [OF s ls]
  have fold: "distinct (map ls_Host ls)" "\<forall>l\<in>set ls. fp_byHost p (ls_Host l) = None" using d new(2) by auto
  note fr = restore_fold_inv [OF new(1) fold f]
  have tab: "tab s' = unexpired now (tab s) \<or> tab s' = tab s"
    using sweep [OF s prod.collapse [symmetric], of now] by (auto simp: p' split: if_splits)
  have row: "tab s' h = Some (v4_string (fl_ip fl), fl_stored fl) \<and> fl_expiry fl = fl_stored fl"
    if l: "lease_of p' h = Some fl" for h fl
  proof -
    have "lease_of p1 h = Some fl" "lease_of p h = None" using l new(2) by (simp_all add: p' lease_of_def)
    with restore_fold_sound [OF new(1) fold f] obtain x v where x: "x \<in> set ls" "ls_Host x = h"
      "Option.bind (ParseIP (ls_IP x)) To4 = Some v" "fl = lease_row x v" by force
    have u: "unexpired now (tab s) h = Some (ls_IP x, ls_ExpiresAt x)" using d x by simp
    then have t: "tab s h = Some (ls_IP x, ls_ExpiresAt x)" by (auto simp: unexpired_def split: option.splits if_splits)
    then obtain a where "ls_IP x = v4_string a" using c by (auto simp: canon_def)
    then have "ls_IP x = v4_string v" using x(3) by simp
    then show ?thesis using tab t u x(4) by (auto simp: lease_row_def)
  qed
  have "canon (tab s')" using tab c canon_unexpired by metis
  moreover have "drift_ok p'" using new(6) fr row by (auto simp: drift_ok_def p')
  moreover have "pool_inv p'" using restore_inv [OF p s r] by simp
  moreover have "pending_sound p'" "stored_or_pending (tab s') p'"
    using row fr new(4) by (auto simp: pending_sound_def stored_or_pending_def p')
  ultimately show ?thesis by (simp add: synced_def)
next
  case False
  then have eq: "p' = p" "s' = s"
    using r newFakeIPPool_inv(5) [OF p] by (auto simp: restore_def split: sum.splits if_splits)
  have none: "lease_of p h = None" for h using newFakeIPPool_inv(2) [OF p] by (simp add: lease_of_def)
  show ?thesis using c newFakeIPPool_inv [OF p]
    by (simp add: eq synced_def drift_ok_def pending_sound_def stored_or_pending_def none)
qed

end

context reliable_store
begin

lemma reach_synced:
  assumes "fake_reach ops (\<lambda>s. wf s \<and> canon (tab s)) cidr ttl ps"
  shows "wf (snd ps) \<and> synced (tab (snd ps)) (fst ps)"
  using assms
proof induction
  case (start st p s now)
  obtain p' s' where r: "restore ops now (p, s) = (p', s')" by (rule prod.exhaust)
  show ?case using restore_inv [OF start(1) _ r] restore_synced [OF start(1) _ _ r] start(2) by (simp add: r)
next
  case (alloc p s host now)
  then show ?case using alloc_synced by simp
next
  case (release p s host)
  then show ?case using release_synced by simp
next
  case (flush p s ds qs)
  show ?case
  proof (cases "fp_store p")
    case True
    then have "batch_ok (fp_pending p)" using flush.IH pending_batch_ok by (simp add: synced_def)
    then show ?thesis using True flush flush_wf flush_tab flush_synced by (simp add: flush_def)
  next
    case False
    then show ?thesis using flush.IH by (simp add: flush_def)
  qed
qed

lemma restart_keeps:
  assumes reach: "fake_reach ops (\<lambda>s. wf s \<and> canon (tab s)) cidr ttl (p, s)" and st: "fp_store p"
    and l: "lease_of p h = Some l" and q: "enumerates ds (fp_pending p)" "enumerates qs (fp_pending p)"
    and fl: "flush ops ds qs (p, s) = (p1, s1)"
    and new2: "newFakeIPPool cidr ttl' True = Inr p2"
    and ls: "st_List ops now s1 = Inr ls" and now: "now < fl_stored l"
  shows "bound (fst (restore ops now (p2, s1))) h = Some (fl_ip l)"
proof -
  have "fake_reach ops wf cidr ttl (p, s)" using fake_reach_mono [OF reach] by simp
  then have p2: "newFakeIPPool cidr ttl' True = Inr p2" "fp_base p2 = fp_base p" "fp_size p2 = fp_size p"
  proof -
    obtain st p0 where p0: "newFakeIPPool cidr ttl st = Inr p0" "fp_base p = fp_base p0" "fp_size p = fp_size p0"
      using reach_block [OF \<open>fake_reach ops wf cidr ttl (p, s)\<close>] by auto
    then show "newFakeIPPool cidr ttl' True = Inr p2" "fp_base p2 = fp_base p" "fp_size p2 = fp_size p"
      using new_block [OF p0(1) new2] new2 by simp_all
  qed
  have "fake_reach ops (\<lambda>s. wf s \<and> canon (tab s)) cidr ttl (p1, s1)" using fake_reach.flush [OF reach q] fl by simp
  note sy = reach_synced [OF this, simplified]
  have p1: "p1 = p\<lparr>fp_pending := Map.empty\<rparr>" using fl st by (auto simp: flush_def)
  have "stored_or_pending (tab s1) p1" "pool_inv p1" "canon (tab s1)" using sy st by (simp_all add: synced_def p1)
  then have t: "tab s1 h = Some (v4_string (fl_ip l), fl_stored l)" and inv: "pool_inv p" and c: "canon (tab s1)"
    using l by (auto simp: stored_or_pending_def p1)
  note new = newFakeIPPool_inv [OF p2(1)]
  have wf1: "wf s1" using sy by simp
  note d = list [OF wf1 ls]
  let ?r = "\<lparr>ls_Host = h, ls_IP = v4_string (fl_ip l), ls_ExpiresAt = fl_stored l\<rparr>"
  have r: "?r \<in> set ls" using d t now by (simp add: unexpired_def)
  have rows: "\<forall>x\<in>set ls. fp_byHost p2 (ls_Host x) = None \<and> (\<exists>a. ls_IP x = v4_string a \<and> fp_byIP p2 a = None)"
  proof
    fix x assume "x \<in> set ls"
    then have "tab s1 (ls_Host x) = Some (ls_IP x, ls_ExpiresAt x)" using d by (auto simp: unexpired_def split: option.splits if_splits)
    then show "fp_byHost p2 (ls_Host x) = None \<and> (\<exists>a. ls_IP x = v4_string a \<and> fp_byIP p2 a = None)"
      using c new(2,3) by (auto simp: canon_def)
  qed
  have "bound p h = Some (fl_ip l)" using l by (simp add: bound_def)
  then have "in_block p2 (fl_ip l)" using bound_in_block [OF inv] p2 by (simp add: in_block_def)
  moreover obtain p3 m where f: "foldl restore_row (p2, 0) ls = (p3, m)" by (rule prod.exhaust)
  ultimately have "lease_of p3 h = Some (lease_row ?r (fl_ip l))"
    using restore_fold_lookup [OF new(1) _ listed_ips_distinct [OF wf1 ls] rows f r] d by simp
  moreover have "fst (restore ops now (p2, s1)) = restore_leases ls p2" using new(5) by (simp add: restore_def ls)
  ultimately show ?thesis by (simp add: restore_leases_fields [OF f] bound_def lease_row_def)
qed

end

section \<open>Properties\<close>

text \<open>
  C11: In every state the pool can reach with the SQL lease table behind it, whatever
  database calls fail, an address bound to a host lies inside the configured block
  and is not its network address, and no other host is bound to it.
\<close>

theorem fake_ip_exclusive:
  assumes "fake_reach (fakeIPStore db) keys_ok cidr ttl (p, s)" "bound p h = Some a"
  shows "in_block p a \<and> (\<forall>h'. bound p h' = Some a \<longrightarrow> h' = h)"
proof -
  have "pool_inv p" using sql.reach_inv [OF assms(1)] by simp
  then show ?thesis using bound_in_block [OF _ assms(2)] bound_inj [OF _ assms(2)] by (auto simp: pool_inv_def)
qed

text \<open>A concrete run: an empty table, a /30 block, one allocation.\<close>

definition run_db :: lease_db where "run_db = \<lparr>db_calls = 0, db_rows = []\<rparr>"
definition run_new :: fakeIPPool where "run_new = projr (newFakeIPPool ''198.18.0.0/30'' 40 True)"
definition run_start :: fakeIPPool where "run_start = fst (restore (fakeIPStore (\<lambda>_. None)) 5 (run_new, run_db))"
definition run_pool :: fakeIPPool where "run_pool = snd (Allocate ''a.com'' 10 run_start)"

definition run_db1 :: lease_db where "run_db1 = snd (restore (fakeIPStore (\<lambda>_. None)) 5 (run_new, run_db))"

lemma run_new_ok: "newFakeIPPool ''198.18.0.0/30'' 40 True = Inr run_new"
proof -
  have "\<not> isl (newFakeIPPool ''198.18.0.0/30'' 40 True)" by code_simp
  then show ?thesis by (simp add: run_new_def)
qed

lemma run_reach:
  assumes "ok run_db"
  shows "fake_reach (fakeIPStore (\<lambda>_. None)) ok ''198.18.0.0/30'' 40 (run_pool, run_db1)"
proof -
  have "fake_reach (fakeIPStore (\<lambda>_. None)) ok ''198.18.0.0/30'' 40 (restore (fakeIPStore (\<lambda>_. None)) 5 (run_new, run_db))"
    using run_new_ok assms by (rule fake_reach.start)
  then show ?thesis unfolding run_pool_def run_start_def run_db1_def
    by (intro fake_reach.alloc) simp_all
qed

lemma run_db_ok: "keys_ok run_db" "canon (table_of run_db)"
  by (simp_all add: keys_ok_def canon_def table_of_def run_db_def)

lemma run_bound: "bound run_pool ''a.com'' = Some 3323068417"
  by code_simp

theorem fake_ip_exclusive_witness:
  "in_block run_pool 3323068417 \<and> bound run_pool ''b.com'' \<noteq> Some 3323068417"
  using fake_ip_exclusive [OF run_reach run_bound, OF run_db_ok(1)] by auto

text \<open>
  C12: What \<open>Allocate\<close> does on a consistent pool. It fails only when no slot but the
  network address is free or expired, and then changes nothing. Otherwise it returns
  the address the host is bound to afterwards, which is the one it had before if it
  had one, and the only other binding it can end is an expired one on that address.
\<close>

theorem Allocate_correct:
  assumes inv: "pool_inv p"
  shows "case Allocate host now p of
      (None, p') \<Rightarrow> p' = p \<and> bound p host = None \<and> (\<forall>off. off \<noteq> 0 \<and> off < fp_size p \<longrightarrow> live p now off)
    | (Some ip, p') \<Rightarrow> \<exists>a. ip = IPv4 a \<and> pool_inv p' \<and> bound p' host = Some a \<and>
        (bound p host \<noteq> None \<longrightarrow> bound p host = Some a) \<and>
        (\<forall>h. h \<noteq> host \<longrightarrow> bound p' h = (if bound p h = Some a then None else bound p h)) \<and>
        (\<forall>h l. h \<noteq> host \<and> lease_of p h = Some l \<and> fl_ip l = a \<longrightarrow> fl_expiry l \<le> now)"
  using Allocate_spec [OF inv] .

lemma run_inv: "pool_inv run_pool"
  using sql.reach_inv [OF run_reach, OF run_db_ok(1)] by simp

theorem Allocate_correct_witness:
  "fst (Allocate ''b.com'' 20 run_pool) = Some (IPv4 3323068418) \<and>
   (case Allocate ''b.com'' 20 run_pool of (r, p') \<Rightarrow>
      pool_inv p' \<and> bound p' ''b.com'' = Some 3323068418 \<and> bound p' ''a.com'' = bound run_pool ''a.com'')"
proof -
  obtain p' where A: "Allocate ''b.com'' 20 run_pool = (Some (IPv4 3323068418), p')"
  proof -
    have "fst (Allocate ''b.com'' 20 run_pool) = Some (IPv4 3323068418)" by code_simp
    then show thesis using that by (metis prod.collapse)
  qed
  show ?thesis using Allocate_correct [OF run_inv, of "''b.com''" 20] run_bound by (simp add: A)
qed

text \<open>
  The comment at the write-behind queue, proved: with the SQL table and no failing
  call, flushing the queue of any reachable state gives the same table whatever the
  order in which Go enumerates the pending map in each of the two loops, and that table
  is the pending state of every queued host plus the old rows whose address no queued
  lease takes.
\<close>

lemma flush_order_irrelevant:
  assumes "fake_reach (fakeIPStore (\<lambda>_. None)) (\<lambda>s. keys_ok s \<and> canon (table_of s)) cidr ttl (p, s)" "fp_store p"
    "enumerates ds (fp_pending p)" "enumerates qs (fp_pending p)"
  shows "table_of (snd (flush (fakeIPStore (\<lambda>_. None)) ds qs (p, s))) = flushed (fp_pending p) (table_of s)"
proof -
  have "keys_ok s" "pool_inv p" "pending_sound p"
    using sql_ok.reach_synced [OF assms(1)] assms(2) by (simp_all add: synced_def)
  then show ?thesis using sql_ok.flush_tab [OF _ _ assms(3,4)] pending_batch_ok assms(2) by (simp add: flush_def)
qed

definition run_batch :: batch where
  "run_batch = [(''a.com'', Some \<lparr>ls_Host = ''a.com'', ls_IP = ''198.18.0.1'', ls_ExpiresAt = 50\<rparr>)]"

lemma run_store: "fp_store run_pool"
  by code_simp

lemma run_batch_enum: "enumerates run_batch (fp_pending run_pool)"
proof -
  have new: "fp_pending run_new = Map.empty" "fp_store run_new" using newFakeIPPool_inv [OF run_new_ok] by simp_all
  have start: "fp_pending run_start = Map.empty"
    by (simp add: run_start_def restore_def new ListFakeIPLeases_def run_db_def restore_leases_def)
  obtain p1 where a: "allocate ''a.com'' 10 run_start =
      (Some (IPv4 3323068417, [], Some \<lparr>ls_Host = ''a.com'', ls_IP = ''198.18.0.1'', ls_ExpiresAt = 50\<rparr>), p1)"
  proof -
    have "fst (allocate ''a.com'' 10 run_start) =
      Some (IPv4 3323068417, [], Some \<lparr>ls_Host = ''a.com'', ls_IP = ''198.18.0.1'', ls_ExpiresAt = 50\<rparr>)" by code_simp
    then show thesis using that by (metis prod.collapse)
  qed
  have inv: "pool_inv run_start"
    using sql.restore_inv [OF run_new_ok run_db_ok(1) prod.collapse [symmetric]] by (simp add: run_start_def)
  have "fp_pending p1 = fp_pending run_start"
    using inv
  proof (cases rule: allocate_cases [where host = "''a.com''" and now = 10])
    case (claim off)
    then show ?thesis using claim_slot_spec(3) [OF inv claim(1-4)] a by metis
  qed (use a in \<open>auto simp: refresh_lease_def Let_def\<close>)
  then have "fp_pending run_pool = map_of run_batch"
    using run_store by (auto simp: run_pool_def Allocate_def a start queue_def run_batch_def split: if_splits)
  then show ?thesis by (simp add: enumerates_def run_batch_def)
qed

lemma flush_order_irrelevant_witness:
  "table_of (snd (flush (fakeIPStore (\<lambda>_. None)) run_batch run_batch (run_pool, run_db1))) ''a.com'' = Some (''198.18.0.1'', 50)"
proof -
  have "flushed (map_of run_batch) (table_of run_db1) ''a.com'' = Some (''198.18.0.1'', 50)"
    by (simp add: flushed_def run_batch_def)
  then show ?thesis
    using flush_order_irrelevant [OF run_reach run_store run_batch_enum run_batch_enum] run_db_ok run_batch_enum
    by (simp add: enumerates_def)
qed



end
