(* ===== verification/Proxy_Table.thy ===== *)
theory Proxy_Table
  imports Lease_Store
begin

text \<open>
  \<open>core/proxy/table.go\<close>: the table from an address to the proxies its rule chose. It
  is filled by the DNS layer and read by the tunnel when a connection arrives. The
  code keeps a second index from a rule to the addresses recorded for it; the
  invariant says that the two agree. Keys are address strings; the current time is an
  argument. Go's map iteration order in \<open>SweepExpired\<close> is an argument too.

  The locale \<open>rule_owned\<close> is what the daemon relies on when a rule is deleted or
  changed, here and in the route manager: \<open>RemoveByRule\<close> removes the entries of that
  rule and no other.
\<close>

section \<open>State owned by rules\<close>

locale rule_owned =
  fixes inv :: "'s \<Rightarrow> bool" and get :: "'s \<Rightarrow> 'k \<rightharpoonup> 'v" and owner :: "'v \<Rightarrow> int" and remove :: "int \<Rightarrow> 's \<Rightarrow> 's"
  assumes remove_inv: "inv s \<Longrightarrow> inv (remove r s)"
    and remove_get: "inv s \<Longrightarrow> get (remove r s) k =
        (case get s k of Some v \<Rightarrow> if owner v = r then None else Some v | None \<Rightarrow> None)"
begin

lemma remove_all_inv: "inv s \<Longrightarrow> inv (fold remove rs s)"
  by (induction rs arbitrary: s) (simp_all add: remove_inv)

lemma remove_all_get:
  "inv s \<Longrightarrow> get (fold remove rs s) k =
     (case get s k of Some v \<Rightarrow> if owner v \<in> set rs then None else Some v | None \<Rightarrow> None)"
  by (induction rs arbitrary: s) (auto simp: remove_inv remove_get split: option.split)

lemma remove_idem: "inv s \<Longrightarrow> get (remove r (remove r s)) = get (remove r s)"
  by (rule ext) (simp add: remove_inv remove_get split: option.split)

end

section \<open>Data and operations\<close>

record Entry =
  en_ProxyNames :: "string list"
  en_Hostname :: string
  en_ExpiresAt :: time
  en_RuleID :: int

record Table =
  tb_byIP :: "string \<rightharpoonup> Entry"
  tb_byRule :: "int \<rightharpoonup> string set"
  tb_minTTL :: duration

definition NewTable :: "duration \<Rightarrow> Table" where
  "NewTable minTTL = \<lparr>tb_byIP = Map.empty, tb_byRule = Map.empty,
     tb_minTTL = (if minTTL \<le> 0 then 60 * second else minTTL)\<rparr>"

text \<open>Take an address out of the index of a rule, and drop the rule when that was its last.\<close>

definition detach :: "int \<Rightarrow> string \<Rightarrow> (int \<rightharpoonup> string set) \<Rightarrow> (int \<rightharpoonup> string set)" where
  "detach r key byRule =
     (case byRule r of
        None \<Rightarrow> byRule
      | Some S \<Rightarrow> if S - {key} = {} then byRule(r := None) else byRule(r \<mapsto> S - {key}))"

definition Record :: "time \<Rightarrow> ip option \<Rightarrow> string \<Rightarrow> string list \<Rightarrow> duration \<Rightarrow> int \<Rightarrow> Table \<Rightarrow> Table" where
  "Record now ip hostname proxyNames ttl ruleID t =
     (case ip of
        None \<Rightarrow> t
      | Some ip \<Rightarrow>
          if proxyNames = [] then t
          else
            (let ttl' = (if ttl < tb_minTTL t then tb_minTTL t else ttl);
                 key = ip_String ip;
                 byRule1 = (case tb_byIP t key of
                     Some prev \<Rightarrow> if en_RuleID prev \<noteq> ruleID then detach (en_RuleID prev) key (tb_byRule t) else tb_byRule t
                   | None \<Rightarrow> tb_byRule t);
                 S = (case byRule1 ruleID of None \<Rightarrow> {} | Some S \<Rightarrow> S)
             in t\<lparr>tb_byIP := (tb_byIP t)(key \<mapsto> \<lparr>en_ProxyNames = proxyNames, en_Hostname = hostname,
                    en_ExpiresAt = now + ttl', en_RuleID = ruleID\<rparr>),
                  tb_byRule := byRule1(ruleID \<mapsto> insert key S)\<rparr>))"

definition Touch :: "time \<Rightarrow> ip option \<Rightarrow> duration \<Rightarrow> Table \<Rightarrow> bool \<times> Table" where
  "Touch now ip ttl t =
     (case ip of
        None \<Rightarrow> (False, t)
      | Some ip \<Rightarrow>
          (case tb_byIP t (ip_String ip) of
             None \<Rightarrow> (False, t)
           | Some e \<Rightarrow> (True, t\<lparr>tb_byIP := (tb_byIP t)(ip_String ip \<mapsto> e\<lparr>en_ExpiresAt := now + ttl\<rparr>)\<rparr>)))"

definition Lookup :: "time \<Rightarrow> ip option \<Rightarrow> Table \<Rightarrow> Entry option" where
  "Lookup now ip t =
     (case ip of
        None \<Rightarrow> None
      | Some ip \<Rightarrow>
          (case tb_byIP t (ip_String ip) of
             None \<Rightarrow> None
           | Some e \<Rightarrow> if en_ExpiresAt e < now then None else Some e))"

definition RemoveByRule :: "int \<Rightarrow> Table \<Rightarrow> nat \<times> Table" where
  "RemoveByRule ruleID t =
     (case tb_byRule t ruleID of
        None \<Rightarrow> (0, t)
      | Some S \<Rightarrow> (card S, t\<lparr>tb_byIP := (\<lambda>ip. if ip \<in> S then None else tb_byIP t ip),
                             tb_byRule := (tb_byRule t)(ruleID := None)\<rparr>))"

text \<open>The sweep over the entries of \<open>byIP\<close> in the order \<open>es\<close>.\<close>

fun sweep_loop :: "time \<Rightarrow> (string \<times> Entry) list \<Rightarrow> nat \<Rightarrow> Table \<Rightarrow> nat \<times> Table" where
  "sweep_loop now [] n t = (n, t)"
| "sweep_loop now ((ip, e) # es) n t =
     (if en_ExpiresAt e < now
      then sweep_loop now es (Suc n)
        (t\<lparr>tb_byIP := (tb_byIP t)(ip := None), tb_byRule := detach (en_RuleID e) ip (tb_byRule t)\<rparr>)
      else sweep_loop now es n t)"

definition SweepExpired :: "time \<Rightarrow> (string \<times> Entry) list \<Rightarrow> Table \<Rightarrow> nat \<times> Table" where
  "SweepExpired now es t = sweep_loop now es 0 t"

section \<open>The two indexes agree\<close>

text \<open>\<open>owned_by t r\<close> are the addresses whose entry belongs to the rule.\<close>

definition owned_by :: "Table \<Rightarrow> int \<Rightarrow> string set" where
  "owned_by t r = {ip. \<exists>e. tb_byIP t ip = Some e \<and> en_RuleID e = r}"

definition table_inv :: "Table \<Rightarrow> bool" where
  "table_inv t \<longleftrightarrow> finite (dom (tb_byIP t)) \<and>
     (\<forall>r. tb_byRule t r = (if owned_by t r = {} then None else Some (owned_by t r)))"

lemma detach_owned:
  assumes "byRule = (\<lambda>r. if own r = {} then None else Some (own r))"
  shows "detach r k byRule = (\<lambda>r'. let S = (if r' = r then own r - {k} else own r') in if S = {} then None else Some S)"
  using assms by (auto simp: detach_def fun_eq_iff Let_def)

lemma table_inv_byRule: "table_inv t \<Longrightarrow> tb_byRule t = (\<lambda>r. if owned_by t r = {} then None else Some (owned_by t r))"
  by (auto simp: table_inv_def)

lemma NewTable_inv: "table_inv (NewTable minTTL)"
  by (simp add: table_inv_def NewTable_def owned_by_def)

lemma remove_key_inv:
  assumes "table_inv t" "tb_byIP t k = Some e"
  shows "table_inv (t\<lparr>tb_byIP := (tb_byIP t)(k := None), tb_byRule := detach (en_RuleID e) k (tb_byRule t)\<rparr>)"
proof -
  let ?t = "t\<lparr>tb_byIP := (tb_byIP t)(k := None), tb_byRule := detach (en_RuleID e) k (tb_byRule t)\<rparr>"
  have "owned_by ?t r = (if r = en_RuleID e then owned_by t r - {k} else owned_by t r)" for r
    using assms(2) by (auto simp: owned_by_def)
  then show ?thesis
    using assms(1) detach_owned [OF table_inv_byRule [OF assms(1)]] by (auto simp: table_inv_def Let_def)
qed

lemma Record_inv:
  assumes inv: "table_inv t" shows "table_inv (Record now ip host ns ttl r t)"
proof (cases "ip = None \<or> ns = []")
  case True
  then show ?thesis using inv by (auto simp: Record_def split: option.split)
next
  case False
  then obtain a where ip: "ip = Some a" "ns \<noteq> []" by auto
  let ?k = "ip_String a" and ?t = "Record now ip host ns ttl r t"
  define byRule1 where "byRule1 = (case tb_byIP t ?k of
      Some prev \<Rightarrow> if en_RuleID prev \<noteq> r then detach (en_RuleID prev) ?k (tb_byRule t) else tb_byRule t | None \<Rightarrow> tb_byRule t)"
  have own: "owned_by ?t r' = (if r' = r then insert ?k (owned_by t r') else owned_by t r' - {?k})" for r'
    using ip by (auto simp: owned_by_def Record_def Let_def)
  have b1: "byRule1 r' = (let S = (if r' = r then owned_by t r' else owned_by t r' - {?k}) in if S = {} then None else Some S)" for r'
  proof (cases "tb_byIP t ?k")
    case None
    then have "?k \<notin> owned_by t r'" by (simp add: owned_by_def)
    then show ?thesis using None table_inv_byRule [OF inv] by (simp add: byRule1_def Let_def)
  next
    case (Some prev)
    then have "?k \<in> owned_by t r' \<longleftrightarrow> r' = en_RuleID prev" by (auto simp: owned_by_def)
    then show ?thesis
      using Some table_inv_byRule [OF inv] detach_owned [OF table_inv_byRule [OF inv]]
      by (auto simp: byRule1_def Let_def)
  qed
  have "tb_byRule ?t = byRule1(r \<mapsto> insert ?k (case byRule1 r of None \<Rightarrow> {} | Some S \<Rightarrow> S))"
    using ip by (simp add: Record_def Let_def byRule1_def)
  then have "tb_byRule ?t r' = (if owned_by ?t r' = {} then None else Some (owned_by ?t r'))" for r'
    by (auto simp: own b1 Let_def)
  moreover have "finite (dom (tb_byIP ?t))" using inv ip by (simp add: table_inv_def Record_def Let_def)
  ultimately show ?thesis by (simp add: table_inv_def)
qed

lemma Touch_inv: "table_inv t \<Longrightarrow> table_inv (snd (Touch now ip ttl t))"
proof -
  assume inv: "table_inv t"
  have "owned_by (snd (Touch now ip ttl t)) = owned_by t \<and> tb_byRule (snd (Touch now ip ttl t)) = tb_byRule t \<and>
      dom (tb_byIP (snd (Touch now ip ttl t))) = dom (tb_byIP t)"
    by (auto simp: Touch_def owned_by_def fun_eq_iff split: option.split)
  then show ?thesis using inv by (simp add: table_inv_def)
qed

lemma RemoveByRule_spec:
  assumes inv: "table_inv t"
  shows "table_inv (snd (RemoveByRule r t))"
    and "tb_byIP (snd (RemoveByRule r t)) k =
      (case tb_byIP t k of Some e \<Rightarrow> if en_RuleID e = r then None else Some e | None \<Rightarrow> None)"
    and "fst (RemoveByRule r t) = card (owned_by t r)"
proof -
  let ?t = "snd (RemoveByRule r t)"
  note br = table_inv_byRule [OF inv]
  have get: "tb_byIP ?t k = (case tb_byIP t k of Some e \<Rightarrow> if en_RuleID e = r then None else Some e | None \<Rightarrow> None)" for k
    by (auto simp: RemoveByRule_def br owned_by_def split: option.splits)
  then show "tb_byIP ?t k = (case tb_byIP t k of Some e \<Rightarrow> if en_RuleID e = r then None else Some e | None \<Rightarrow> None)" .
  have "owned_by ?t r' = (if r' = r then {} else owned_by t r')" for r'
    by (auto simp: owned_by_def get split: option.splits if_splits)
  moreover have "tb_byRule ?t r' = (if r' = r then None else tb_byRule t r')" for r'
    by (auto simp: RemoveByRule_def br)
  moreover have "dom (tb_byIP ?t) \<subseteq> dom (tb_byIP t)" by (auto simp: get split: option.splits if_splits)
  ultimately show "table_inv ?t" using inv by (auto simp: table_inv_def br elim: finite_subset)
  show "fst (RemoveByRule r t) = card (owned_by t r)" by (simp add: RemoveByRule_def br)
qed

interpretation proxy_tab: rule_owned table_inv tb_byIP en_RuleID "\<lambda>r t. snd (RemoveByRule r t)"
  by unfold_locales (simp_all add: RemoveByRule_spec)

lemma sweep_loop_spec:
  assumes "table_inv t" "distinct (map fst es)" "\<forall>(ip, e)\<in>set es. tb_byIP t ip = Some e"
  shows "table_inv (snd (sweep_loop now es n t)) \<and>
    fst (sweep_loop now es n t) = n + length (filter (\<lambda>(ip, e). en_ExpiresAt e < now) es) \<and>
    tb_byIP (snd (sweep_loop now es n t)) ip =
      (case map_of es ip of Some e \<Rightarrow> if en_ExpiresAt e < now then None else Some e | None \<Rightarrow> tb_byIP t ip)"
  using assms
proof (induction es arbitrary: n t)
  case (Cons x es)
  obtain k e where x: "x = (k, e)" by (rule prod.exhaust)
  have ke: "tb_byIP t k = Some e" using Cons.prems(3) x by auto
  have k: "k \<notin> fst ` set es" using Cons.prems(2) x by simp
  let ?t = "t\<lparr>tb_byIP := (tb_byIP t)(k := None), tb_byRule := detach (en_RuleID e) k (tb_byRule t)\<rparr>"
  have "\<forall>(ip, e)\<in>set es. tb_byIP ?t ip = Some e" using Cons.prems(3) x k by (force simp: rev_image_eqI)
  moreover have "map_of es k = None" using k by (simp add: map_of_eq_None_iff)
  ultimately show ?case
    using Cons.IH [of ?t "Suc n"] Cons.IH [of t n] Cons.prems remove_key_inv [OF Cons.prems(1) ke] ke
    by (auto simp: x split: option.splits)
qed simp

lemma SweepExpired_spec:
  assumes "table_inv t" "enumerates es (tb_byIP t)"
  shows "table_inv (snd (SweepExpired now es t)) \<and>
    tb_byIP (snd (SweepExpired now es t)) ip =
      (case tb_byIP t ip of Some e \<Rightarrow> if en_ExpiresAt e < now then None else Some e | None \<Rightarrow> None)"
proof -
  have "\<forall>(ip, e)\<in>set es. tb_byIP t ip = Some e" using assms(2) by (auto simp: enumerates_def dest: map_of_is_SomeI)
  then show ?thesis using sweep_loop_spec [OF assms(1), of es now 0 ip] assms(2)
    by (auto simp: SweepExpired_def enumerates_def split: option.splits)
qed

section \<open>Reachable tables\<close>

inductive table_reach :: "Table \<Rightarrow> bool" where
  t_new: "table_reach (NewTable minTTL)"
| t_record: "table_reach t \<Longrightarrow> table_reach (Record now ip host ns ttl r t)"
| t_touch: "table_reach t \<Longrightarrow> table_reach (snd (Touch now ip ttl t))"
| t_remove: "table_reach t \<Longrightarrow> table_reach (snd (RemoveByRule r t))"
| t_sweep: "table_reach t \<Longrightarrow> enumerates es (tb_byIP t) \<Longrightarrow> table_reach (snd (SweepExpired now es t))"

lemma table_reach_inv: "table_reach t \<Longrightarrow> table_inv t"
  by (induction rule: table_reach.induct)
    (auto simp: NewTable_inv Record_inv Touch_inv RemoveByRule_spec SweepExpired_spec)

text \<open>
  In every table that the operations can produce, \<open>RemoveByRule\<close> removes exactly the
  mappings whose current owner is that rule, keeps every other one as it was, and
  returns their number; an address that moved to another rule survives the removal of
  the rule that recorded it first.
\<close>

lemma RemoveByRule_exact:
  assumes "table_reach t"
  shows "tb_byIP (snd (RemoveByRule r t)) k =
      (case tb_byIP t k of Some e \<Rightarrow> if en_RuleID e = r then None else Some e | None \<Rightarrow> None) \<and>
    fst (RemoveByRule r t) = card {ip. \<exists>e. tb_byIP t ip = Some e \<and> en_RuleID e = r}"
  using RemoveByRule_spec(2,3) [OF table_reach_inv [OF assms]] by (simp_all add: owned_by_def)

text \<open>Two rules record the same address; the first rule is then removed.\<close>

definition two_rules :: Table where
  "two_rules = Record 5 (Some (IPv4 16843009)) ''b.com'' [''p''] 30 2
     (Record 1 (Some (IPv4 16843009)) ''a.com'' [''p''] 30 1 (NewTable 60))"

lemma RemoveByRule_exact_witness:
  "map_option en_Hostname (tb_byIP (snd (RemoveByRule 1 two_rules)) ''1.1.1.1'') = Some ''b.com'' \<and>
   tb_byIP (snd (RemoveByRule 2 two_rules)) ''1.1.1.1'' = None"
proof -
  have reach: "table_reach two_rules" unfolding two_rules_def by (intro table_reach.intros)
  have e: "map_option (\<lambda>e. (en_Hostname e, en_RuleID e)) (tb_byIP two_rules ''1.1.1.1'') = Some (''b.com'', 2)" by code_simp
  then obtain e where "tb_byIP two_rules ''1.1.1.1'' = Some e" "en_Hostname e = ''b.com''" "en_RuleID e = 2" by auto
  then show ?thesis using RemoveByRule_exact [OF reach, of 1 "''1.1.1.1''"] RemoveByRule_exact [OF reach, of 2 "''1.1.1.1''"]
    by simp
qed

text \<open>
  A recorded mapping is what \<open>Lookup\<close> returns until \<open>max ttl minTTL\<close> has passed and
  is not returned after that, and \<open>Record\<close> changes the answer for no other address.
\<close>

lemma Record_Lookup:
  assumes "ns \<noteq> []"
  shows "Lookup now' (Some b) (Record now (Some a) host ns ttl r t) =
    (if ip_String b = ip_String a then
       (if now' \<le> now + max ttl (tb_minTTL t)
        then Some \<lparr>en_ProxyNames = ns, en_Hostname = host, en_ExpiresAt = now + max ttl (tb_minTTL t), en_RuleID = r\<rparr>
        else None)
     else Lookup now' (Some b) t)"
  using assms by (auto simp: Lookup_def Record_def Let_def max_def)

lemma Record_Lookup_witness:
  "map_option en_Hostname (Lookup 61 (Some (IPv4 16843009)) (Record 1 (Some (IPv4 16843009)) ''a.com'' [''p''] 30 1 (NewTable 60))) = Some ''a.com''"
proof -
  have "tb_minTTL (NewTable 60) = 60" by code_simp
  then show ?thesis using Record_Lookup [of "[''p'']" 61 "IPv4 16843009" 1 "IPv4 16843009" "''a.com''" 30 1 "NewTable 60"] by simp
qed

text \<open>
  In every reachable table a sweep removes exactly the expired mappings, in
  whatever order Go enumerates the map while deleting from it.
\<close>

lemma SweepExpired_exact:
  assumes "table_reach t" "enumerates es (tb_byIP t)"
  shows "tb_byIP (snd (SweepExpired now es t)) k =
    (case tb_byIP t k of Some e \<Rightarrow> if en_ExpiresAt e < now then None else Some e | None \<Rightarrow> None)"
  using SweepExpired_spec [OF table_reach_inv [OF assms(1)] assms(2)] by simp

lemma two_rules_enum:
  "\<exists>e. enumerates [(''1.1.1.1'', e)] (tb_byIP two_rules) \<and> en_ExpiresAt e = 65"
proof -
  have k: "ip_String (IPv4 16843009) = ''1.1.1.1''" by code_simp
  have "tb_byIP two_rules = map_of [(''1.1.1.1'', \<lparr>en_ProxyNames = [''p''], en_Hostname = ''b.com'', en_ExpiresAt = 65, en_RuleID = 2\<rparr>)]"
    unfolding two_rules_def Record_def NewTable_def option.case k by (simp add: Let_def)
  then show ?thesis by (intro exI [of _ "\<lparr>en_ProxyNames = [''p''], en_Hostname = ''b.com'', en_ExpiresAt = 65, en_RuleID = 2\<rparr>"])
    (simp add: enumerates_def)
qed

lemma SweepExpired_exact_witness:
  "\<exists>es. tb_byIP (snd (SweepExpired 66 es two_rules)) ''1.1.1.1'' = None \<and>
        tb_byIP (snd (SweepExpired 65 es two_rules)) ''1.1.1.1'' \<noteq> None"
proof -
  obtain e where e: "enumerates [(''1.1.1.1'', e)] (tb_byIP two_rules)" "en_ExpiresAt e = 65" using two_rules_enum by blast
  then have t: "tb_byIP two_rules ''1.1.1.1'' = Some e" by (metis enumerates_def map_of_Cons_code(2))
  have reach: "table_reach two_rules" unfolding two_rules_def by (intro table_reach.intros)
  show ?thesis using SweepExpired_exact [OF reach e(1), of 66 "''1.1.1.1''"] SweepExpired_exact [OF reach e(1), of 65 "''1.1.1.1''"] t e(2)
    by (intro exI [of _ "[(''1.1.1.1'', e)]"]) simp
qed

end
