(* ===== verification/Routing.thy ===== *)
theory Routing
  imports Proxy_Table
begin

text \<open>
  \<open>core/routing/routing.go\<close>: the manager of per-host and per-network routes. The
  \<open>Runner\<close> that executes \<open>/sbin/route\<close> is a parameter over a kernel state \<open>'k\<close>: it
  returns the combined output and whether the command failed. The \<open>select\<close> on the
  context during the back-off is the parameter \<open>cancelled\<close>. The order in which Go
  enumerates the map of routes is an argument of the operations that walk over it.

  The parsers of the same file (\<open>netstat\<close> and \<open>scutil\<close> output) are at the end.
\<close>

section \<open>Data\<close>

type_synonym 'k runner = "string \<Rightarrow> string list \<Rightarrow> 'k \<Rightarrow> (string \<times> bool) \<times> 'k"

definition routeAddAttempts :: nat where "routeAddAttempts = 3"

record route_entry =
  rt_host :: string
  rt_iface :: string
  rt_expiresAt :: time
  rt_ruleID :: int
  rt_isNet :: bool
  rt_isV4 :: bool
  rt_static :: bool

record Manager =
  mg_routes :: "string \<rightharpoonup> route_entry"

definition New_manager :: Manager where "New_manager = \<lparr>mg_routes = Map.empty\<rparr>"

datatype route_error =
    InvalidIP string | EmptyInterface | InvalidDest string
  | AddFailed string string string | AddCancelled string string string | DeleteFailed string string

definition looksLikeAlreadyExists :: "string \<Rightarrow> bool" where
  "looksLikeAlreadyExists s \<longleftrightarrow> Contains s ''File exists'' \<or> Contains s ''already in table''"

definition looksLikeNotFound :: "string \<Rightarrow> bool" where
  "looksLikeNotFound s \<longleftrightarrow> Contains s ''not in table'' \<or> Contains s ''No such process''"

text \<open>The part of the command line that names the destination.\<close>

definition dest_args :: "bool \<Rightarrow> bool \<Rightarrow> string \<Rightarrow> string list" where
  "dest_args isV4 isNet dest = (if isV4 then [] else [''-inet6'']) @ [if isNet then ''-net'' else ''-host'', dest]"

definition add_args :: "string list \<Rightarrow> string \<Rightarrow> string list" where
  "add_args d iface = [''-n'', ''add''] @ d @ [''-interface'', iface]"

definition delete_args :: "string list \<Rightarrow> string list" where
  "delete_args d = [''-n'', ''delete''] @ d"

definition route_bin :: string where "route_bin = ''/sbin/route''"

section \<open>Operations\<close>

definition removeOne :: "'k runner \<Rightarrow> string \<Rightarrow> bool \<Rightarrow> bool \<Rightarrow> 'k \<Rightarrow> route_error option \<times> 'k" where
  "removeOne run host isV4 isNet k =
     (case run route_bin (delete_args (dest_args isV4 isNet host)) k of
        ((out, failed), k') \<Rightarrow>
          (if failed \<and> \<not> looksLikeNotFound out then Some (DeleteFailed host out) else None, k'))"

datatype add_outcome = Added | GaveUp string | Interrupted string

text \<open>The retry loop: \<open>n\<close> attempts are left, \<open>attempt\<close> counts from 1.\<close>

fun add_loop :: "'k runner \<Rightarrow> (nat \<Rightarrow> bool) \<Rightarrow> string list \<Rightarrow> nat \<Rightarrow> nat \<Rightarrow> 'k \<Rightarrow> add_outcome \<times> 'k" where
  "add_loop run cancelled args 0 attempt k = (GaveUp [], k)"
| "add_loop run cancelled args (Suc n) attempt k =
     (case run route_bin args k of
        ((out, failed), k') \<Rightarrow>
          if \<not> failed \<or> looksLikeAlreadyExists out then (Added, k')
          else if n = 0 then (GaveUp out, k')
          else if cancelled attempt then (Interrupted out, k')
          else add_loop run cancelled args n (Suc attempt) k')"

type_synonym 'k world = "Manager \<times> 'k"

definition track :: "string \<Rightarrow> route_entry \<Rightarrow> Manager \<Rightarrow> Manager" where
  "track h e m = m\<lparr>mg_routes := (mg_routes m)(h \<mapsto> e)\<rparr>"

definition Install :: "'k runner \<Rightarrow> (nat \<Rightarrow> bool) \<Rightarrow> time \<Rightarrow> string \<Rightarrow> string \<Rightarrow> duration \<Rightarrow> int \<Rightarrow>
    'k world \<Rightarrow> route_error option \<times> 'k world" where
  "Install run cancelled now host iface ttl ruleID w =
     (let (m, k) = w in
      case ParseIP host of
        None \<Rightarrow> (Some (InvalidIP host), w)
      | Some ip \<Rightarrow>
          if iface = [] then (Some EmptyInterface, w)
          else
            (let isV4 = (To4 ip \<noteq> None);
                 k1 = (case mg_routes m host of
                     Some prev \<Rightarrow> if rt_iface prev \<noteq> iface then snd (removeOne run host isV4 (rt_isNet prev) k) else k
                   | None \<Rightarrow> k)
             in case add_loop run cancelled (add_args (dest_args isV4 False host) iface) routeAddAttempts 1 k1 of
                  (Interrupted out, k2) \<Rightarrow> (Some (AddCancelled host iface out), (m, k2))
                | (GaveUp out, k2) \<Rightarrow> (Some (AddFailed host iface out), (m, k2))
                | (Added, k2) \<Rightarrow> (None, (track host \<lparr>rt_host = host, rt_iface = iface, rt_expiresAt = now + ttl,
                    rt_ruleID = ruleID, rt_isNet = False, rt_isV4 = isV4, rt_static = False\<rparr> m, k2))))"

definition parseDest :: "string \<Rightarrow> route_error + (ip \<times> ipnet option)" where
  "parseDest dest =
     (case ParseIP (TrimSpace dest) of
        Some ip \<Rightarrow> Inr (ip, None)
      | None \<Rightarrow>
          (case net_ParseCIDR (TrimSpace dest) of
             Some (i, n) \<Rightarrow> Inr (i, Some n)
           | None \<Rightarrow> Inl (InvalidDest dest)))"

definition static_dest :: "ip \<times> ipnet option \<Rightarrow> string" where
  "static_dest d = (case d of (ip, Some n) \<Rightarrow> net_String n | (ip, None) \<Rightarrow> ip_String ip)"

definition InstallStatic :: "'k runner \<Rightarrow> string \<Rightarrow> string \<Rightarrow> int \<Rightarrow> 'k world \<Rightarrow> route_error option \<times> 'k world" where
  "InstallStatic run dest0 iface ruleID w =
     (let (m, k) = w in
      if iface = [] then (Some EmptyInterface, w)
      else case parseDest dest0 of
        Inl err \<Rightarrow> (Some err, w)
      | Inr (ip, ipnet) \<Rightarrow>
          (let isNet = (ipnet \<noteq> None); isV4 = (To4 ip \<noteq> None); dest = static_dest (ip, ipnet);
               k1 = (case mg_routes m dest of
                   Some prev \<Rightarrow> if rt_iface prev \<noteq> iface then snd (removeOne run dest (rt_isV4 prev) (rt_isNet prev) k) else k
                 | None \<Rightarrow> k)
           in case run route_bin (add_args (dest_args isV4 isNet dest) iface) k1 of
                ((out, failed), k2) \<Rightarrow>
                  if failed \<and> \<not> looksLikeAlreadyExists out then (Some (AddFailed dest iface out), (m, k2))
                  else (None, (track dest \<lparr>rt_host = dest, rt_iface = iface, rt_expiresAt = 0, rt_ruleID = ruleID,
                         rt_isNet = isNet, rt_isV4 = isV4, rt_static = True\<rparr> m, k2))))"

definition Extend :: "time \<Rightarrow> string \<Rightarrow> duration \<Rightarrow> Manager \<Rightarrow> bool \<times> Manager" where
  "Extend now host ttl m =
     (case mg_routes m host of
        None \<Rightarrow> (False, m)
      | Some e \<Rightarrow> (True, track host (e\<lparr>rt_expiresAt := now + ttl\<rparr>) m))"

definition Remove :: "'k runner \<Rightarrow> string \<Rightarrow> 'k world \<Rightarrow> route_error option \<times> 'k world" where
  "Remove run host w =
     (let (m, k) = w in
      case mg_routes m host of
        None \<Rightarrow> (None, w)
      | Some e \<Rightarrow>
          (let m' = m\<lparr>mg_routes := (mg_routes m)(host := None)\<rparr>;
               (err, k') = removeOne run host (rt_isV4 e) (rt_isNet e) k
           in (err, (m', k'))))"

fun remove_hosts :: "'k runner \<Rightarrow> string list \<Rightarrow> route_error option \<Rightarrow> 'k world \<Rightarrow> route_error option \<times> 'k world" where
  "remove_hosts run [] firstErr w = (firstErr, w)"
| "remove_hosts run (h # hs) firstErr w =
     (case Remove run h w of
        (err, w') \<Rightarrow> remove_hosts run hs (if firstErr = None then err else firstErr) w')"

text \<open>\<open>order\<close> is the order in which the map is enumerated.\<close>

type_synonym order = "(string \<times> route_entry) list"

definition RemoveRoutesByRule :: "'k runner \<Rightarrow> order \<Rightarrow> int \<Rightarrow> 'k world \<Rightarrow> route_error option \<times> 'k world" where
  "RemoveRoutesByRule run order ruleID w =
     remove_hosts run [h. (h, e) \<leftarrow> order, rt_ruleID e = ruleID] None w"

definition SweepRoutes :: "'k runner \<Rightarrow> order \<Rightarrow> time \<Rightarrow> 'k world \<Rightarrow> nat \<times> 'k world" where
  "SweepRoutes run order now w =
     (let stale = [h. (h, e) \<leftarrow> order, \<not> rt_static e, rt_expiresAt e < now]
      in (length stale, snd (remove_hosts run stale None w)))"

definition FlushRoutes :: "'k runner \<Rightarrow> order \<Rightarrow> 'k world \<Rightarrow> 'k world" where
  "FlushRoutes run order w = snd (remove_hosts run (map fst order) None w)"

record ActiveRoute =
  ar_Host :: string
  ar_Interface :: string
  ar_ExpiresAt :: time
  ar_RuleID :: int

definition Active :: "order \<Rightarrow> ActiveRoute list" where
  "Active order = map (\<lambda>(h, e). \<lparr>ar_Host = rt_host e, ar_Interface = rt_iface e,
     ar_ExpiresAt = rt_expiresAt e, ar_RuleID = rt_ruleID e\<rparr>) order"

section \<open>What the manager tracks\<close>

lemma remove_tracked:
  "mg_routes (fst (snd (Remove run h w))) = (mg_routes (fst w))(h := None)"
  by (cases w) (auto simp: Remove_def fun_eq_iff split: option.split prod.split)

lemma remove_hosts_tracked:
  "mg_routes (fst (snd (remove_hosts run hs err w))) h = (if h \<in> set hs then None else mg_routes (fst w) h)"
proof (induction hs arbitrary: err w)
  case (Cons x hs)
  obtain e w' where r: "Remove run x w = (e, w')" by (rule prod.exhaust)
  then have "mg_routes (fst w') = (mg_routes (fst w))(x := None)" using remove_tracked [of run x w] by simp
  then show ?case using Cons.IH by (simp add: r)
qed simp

lemma Install_tracked:
  assumes "Install run cancelled now h i ttl r w = (err, w')"
  shows "if err = None then \<exists>e. mg_routes (fst w') = (mg_routes (fst w))(h \<mapsto> e) \<and> rt_iface e = i \<and> rt_ruleID e = r
    else mg_routes (fst w') = mg_routes (fst w)"
  using assms
  by (cases w) (auto simp: Install_def Let_def track_def split: option.splits if_splits prod.splits add_outcome.splits)

lemma enumerates_mem: "enumerates xs m \<Longrightarrow> (k, v) \<in> set xs \<longleftrightarrow> m k = Some v"
  by (auto simp: enumerates_def)

text \<open>One possible enumeration order; the operations above do not depend on which.\<close>

definition an_order :: "'k world \<Rightarrow> order" where
  "an_order w = (SOME order. enumerates order (mg_routes (fst w)))"

lemma map_of_graph: "map_of (map (\<lambda>k. (k, f k)) ks) h = (if h \<in> set ks then Some (f h) else None)"
  by (induction ks) auto

lemma an_order:
  assumes "finite (dom (mg_routes (fst w)))" shows "enumerates (an_order w) (mg_routes (fst w))"
proof -
  obtain ks where ks: "set ks = dom (mg_routes (fst w))" "distinct ks" using finite_distinct_list [OF assms] by blast
  let ?xs = "map (\<lambda>k. (k, the (mg_routes (fst w) k))) ks"
  have "map_of ?xs h = mg_routes (fst w) h" for h
    unfolding map_of_graph ks(1) by (cases "mg_routes (fst w) h") (auto simp del: not_None_eq simp: domIff)
  then have "map_of ?xs = mg_routes (fst w)" ..
  then show ?thesis unfolding an_order_def
    using ks(2) by (intro someI [where P = "\<lambda>order. enumerates order (mg_routes (fst w))" and x = ?xs])
      (simp add: enumerates_def comp_def)
qed

interpretation route_tab: rule_owned "\<lambda>w. finite (dom (mg_routes (fst w)))" "\<lambda>w. mg_routes (fst w)" rt_ruleID
  "\<lambda>r w. snd (RemoveRoutesByRule run (an_order w) r w)" for run :: "'k runner"
proof (unfold_locales, goal_cases)
  case (1 w r)
  have "dom (mg_routes (fst (snd (RemoveRoutesByRule run (an_order w) r w)))) \<subseteq> dom (mg_routes (fst w))"
    by (auto simp: RemoveRoutesByRule_def remove_hosts_tracked split: if_splits)
  then show ?case using 1 by (rule finite_subset)
next
  case (2 w r k)
  then show ?case using enumerates_mem [OF an_order [OF 2], of k]
    by (auto simp: RemoveRoutesByRule_def remove_hosts_tracked split: option.splits)
qed

section \<open>Agreement with the kernel\<close>

text \<open>
  What the manager relies on of the \<open>route\<close> command, over the kernel's table \<open>ktab\<close>
  from destination to interface. A successful \<open>add\<close> enters a route that was not there;
  a failing one changes nothing, and one that reports an existing route found one.
  A successful \<open>delete\<close> removes the route; a failing one changes nothing, and one that
  reports a missing route found none.
\<close>

definition route_cmd :: "'k runner \<Rightarrow> ('k \<Rightarrow> string list \<rightharpoonup> string) \<Rightarrow> bool" where
  "route_cmd run ktab \<longleftrightarrow>
     (\<forall>d iface k out failed k'. run route_bin (add_args d iface) k = ((out, failed), k') \<longrightarrow>
        (if failed then ktab k' = ktab k \<and> (looksLikeAlreadyExists out \<longrightarrow> ktab k d \<noteq> None)
         else ktab k d = None \<and> ktab k' = (ktab k)(d \<mapsto> iface))) \<and>
     (\<forall>d k out failed k'. run route_bin (delete_args d) k = ((out, failed), k') \<longrightarrow>
        (if failed then ktab k' = ktab k \<and> (looksLikeNotFound out \<longrightarrow> ktab k d = None)
         else ktab k' = (ktab k)(d := None)))"

text \<open>The only way in which a \<open>delete\<close> fails is that there is no such route.\<close>

definition delete_reliable :: "'k runner \<Rightarrow> bool" where
  "delete_reliable run \<longleftrightarrow> (\<forall>d k out k'. run route_bin (delete_args d) k = ((out, True), k') \<longrightarrow> looksLikeNotFound out)"

text \<open>
  A destination string whose family and kind can be read off it: not an IPv4 address
  written as a mapped IPv6 literal. The DNS layer passes \<open>net.IP.String\<close>.
\<close>

definition plain_dest :: "string \<Rightarrow> bool \<Rightarrow> bool \<Rightarrow> bool" where
  "plain_dest h isV4 isNet \<longleftrightarrow> (isNet \<longleftrightarrow> CHR ''/'' \<in> set h) \<and> (isV4 \<longleftrightarrow> CHR '':'' \<notin> set h)"

definition entry_dest :: "string \<Rightarrow> route_entry \<Rightarrow> string list" where
  "entry_dest h e = dest_args (rt_isV4 e) (rt_isNet e) h"

definition agree :: "('k \<Rightarrow> string list \<rightharpoonup> string) \<Rightarrow> 'k world \<Rightarrow> bool" where
  "agree ktab w \<longleftrightarrow>
     (\<forall>h e. mg_routes (fst w) h = Some e \<longrightarrow> plain_dest h (rt_isV4 e) (rt_isNet e)) \<and>
     (\<forall>d i. ktab (snd w) d = Some i \<longrightarrow> (\<exists>h e. mg_routes (fst w) h = Some e \<and> d = entry_dest h e \<and> i = rt_iface e))"

lemma dest_args_inj [simp]: "dest_args v n h = dest_args v' n' h' \<longleftrightarrow> v = v' \<and> n = n' \<and> h = h'"
  by (auto simp: dest_args_def split: if_splits)

lemma agreeD:
  assumes "agree ktab w"
  shows agree_plain: "mg_routes (fst w) h = Some e \<Longrightarrow> plain_dest h (rt_isV4 e) (rt_isNet e)"
    and agree_tracked: "ktab (snd w) d = Some i \<Longrightarrow> \<exists>h e. mg_routes (fst w) h = Some e \<and> d = entry_dest h e \<and> i = rt_iface e"
  using assms unfolding agree_def by blast+

lemma plain_dest_unique: "plain_dest h v n \<Longrightarrow> plain_dest h v' n' \<Longrightarrow> v = v' \<and> n = n'"
  by (auto simp: plain_dest_def)

text \<open>What the kernel can hold for one destination.\<close>

lemma agree_at:
  assumes "agree ktab w" "plain_dest h v n" "ktab (snd w) (dest_args v n h) = Some i"
  shows "\<exists>e. mg_routes (fst w) h = Some e \<and> rt_iface e = i"
  using agree_tracked [OF assms(1,3)] by (auto simp: entry_dest_def)

lemma agreeI:
  assumes "\<And>h e. mg_routes (fst w) h = Some e \<Longrightarrow> plain_dest h (rt_isV4 e) (rt_isNet e)"
    and "\<And>h v n i. plain_dest h v n \<Longrightarrow> ktab (snd w) (dest_args v n h) = Some i \<Longrightarrow> \<exists>e. mg_routes (fst w) h = Some e \<and> rt_iface e = i"
    and "\<And>d i. ktab (snd w) d = Some i \<Longrightarrow> \<exists>h v n. d = dest_args v n h \<and> plain_dest h v n"
  shows "agree ktab w"
  unfolding agree_def
proof (intro conjI allI impI)
  fix d i assume i: "ktab (snd w) d = Some i"
  then obtain h v n where d: "d = dest_args v n h" "plain_dest h v n" using assms(3) by blast
  then obtain e where e: "mg_routes (fst w) h = Some e" "i = rt_iface e" using assms(2) [OF d(2)] i by auto
  then have "v = rt_isV4 e \<and> n = rt_isNet e" using plain_dest_unique [OF d(2)] assms(1) by blast
  then show "\<exists>h e. mg_routes (fst w) h = Some e \<and> d = entry_dest h e \<and> i = rt_iface e"
    using d e by (auto simp: entry_dest_def)
qed (use assms(1) in blast)

lemma agree_dests: "agree ktab w \<Longrightarrow> ktab (snd w) d = Some i \<Longrightarrow> \<exists>h v n. d = dest_args v n h \<and> plain_dest h v n"
  using agree_tracked [of ktab w d i] agree_plain [of ktab w] by (auto simp: entry_dest_def)

lemma removeOne_spec:
  assumes "route_cmd run ktab" "delete_reliable run" "removeOne run h v n k = (err, k')"
  shows "ktab k' = (ktab k)(dest_args v n h := None) \<and> err = None"
proof -
  obtain out failed k2 where r: "run route_bin (delete_args (dest_args v n h)) k = ((out, failed), k2)"
    by (metis surj_pair)
  have c: "if failed then ktab k2 = ktab k \<and> (looksLikeNotFound out \<longrightarrow> ktab k (dest_args v n h) = None)
         else ktab k2 = (ktab k)(dest_args v n h := None)"
    using assms(1) r unfolding route_cmd_def by blast
  have rel: "failed \<Longrightarrow> looksLikeNotFound out" using assms(2) r unfolding delete_reliable_def by (cases failed) auto
  have "k' = k2" "err = None" using assms(3) rel by (auto simp: removeOne_def r)
  then show ?thesis using c rel by (cases failed) (auto simp: fun_eq_iff)
qed

lemma agree_remove:
  assumes c: "route_cmd run ktab" "delete_reliable run" and a: "agree ktab w"
  shows "agree ktab (snd (Remove run h w))"
proof (cases "mg_routes (fst w) h")
  case None
  then show ?thesis using a by (cases w) (simp add: Remove_def)
next
  case (Some e)
  obtain m k where w: "w = (m, k)" by (rule prod.exhaust)
  obtain err k' where r: "removeOne run h (rt_isV4 e) (rt_isNet e) k = (err, k')" by (rule prod.exhaust)
  note k' = removeOne_spec [OF c r]
  have R: "snd (Remove run h w) = (m\<lparr>mg_routes := (mg_routes m)(h := None)\<rparr>, k')"
    using Some r by (simp add: Remove_def w)
  have p: "plain_dest h (rt_isV4 e) (rt_isNet e)" using agree_plain [OF a] Some by simp
  show ?thesis unfolding R
  proof (rule agreeI)
    fix h' v n i assume *: "plain_dest h' v n"
      "ktab (snd (m\<lparr>mg_routes := (mg_routes m)(h := None)\<rparr>, k')) (dest_args v n h') = Some i"
    then have ne: "dest_args v n h' \<noteq> dest_args (rt_isV4 e) (rt_isNet e) h" using k' by (metis fun_upd_same option.distinct(1) snd_conv)
    then have "h' \<noteq> h" using plain_dest_unique [OF p, of v n] *(1) by auto
    then show "\<exists>e. mg_routes (fst (m\<lparr>mg_routes := (mg_routes m)(h := None)\<rparr>, k')) h' = Some e \<and> rt_iface e = i"
      using agree_at [OF a *(1), of i] * k' by (auto simp: w split: if_splits)
  next
    fix d i assume "ktab (snd (m\<lparr>mg_routes := (mg_routes m)(h := None)\<rparr>, k')) d = Some i"
    then show "\<exists>h v n. d = dest_args v n h \<and> plain_dest h v n"
      using agree_dests [OF a, of d] k' by (auto simp: w split: if_splits)
  qed (use agree_plain [OF a] in \<open>auto simp: w split: if_splits\<close>)
qed

lemma agree_remove_hosts:
  assumes "route_cmd run ktab" "delete_reliable run"
  shows "agree ktab w \<Longrightarrow> agree ktab (snd (remove_hosts run hs err w))"
proof (induction hs arbitrary: err w)
  case (Cons h hs)
  obtain e w' where r: "Remove run h w = (e, w')" by (rule prod.exhaust)
  then show ?case using Cons.IH agree_remove [OF assms Cons.prems, of h] by simp
qed simp

lemma add_loop_spec:
  assumes "route_cmd run ktab" "add_loop run cancelled (add_args d i) n att k = (Added, k')"
  shows "ktab k d = None \<and> ktab k' = (ktab k)(d \<mapsto> i) \<or> ktab k d \<noteq> None \<and> ktab k' = ktab k"
  using assms(2)
proof (induction n arbitrary: att k)
  case (Suc n)
  obtain out failed k2 where r: "run route_bin (add_args d i) k = ((out, failed), k2)" by (metis surj_pair)
  have c: "if failed then ktab k2 = ktab k \<and> (looksLikeAlreadyExists out \<longrightarrow> ktab k d \<noteq> None)
         else ktab k d = None \<and> ktab k2 = (ktab k)(d \<mapsto> i)"
    using assms(1) r unfolding route_cmd_def by blast
  show ?case
  proof (cases "\<not> failed \<or> looksLikeAlreadyExists out")
    case True
    then show ?thesis using Suc.prems c r by (auto split: if_splits)
  next
    case False
    then have "add_loop run cancelled (add_args d i) n (Suc att) k2 = (Added, k')"
      using Suc.prems r by (simp split: if_splits)
    then show ?thesis using Suc.IH [of "Suc att" k2] c False by (simp split: if_splits) metis
  qed
qed simp

lemma add_loop_fail:
  assumes "route_cmd run ktab" "add_loop run cancelled (add_args d i) n att k = (r, k')" "r \<noteq> Added"
  shows "ktab k' = ktab k"
  using assms(2)
proof (induction n arbitrary: att k)
  case (Suc n)
  obtain out failed k2 where q: "run route_bin (add_args d i) k = ((out, failed), k2)" by (metis surj_pair)
  have "failed \<longrightarrow> ktab k2 = ktab k" using assms(1) q unfolding route_cmd_def by (metis (full_types))
  then show ?case using Suc assms(3) q by (auto split: if_splits)
qed simp

text \<open>
  Both installers first free the destination when it is tracked on another interface
  and then try to add it. Whatever the commands return, the kernel keeps only tracked
  routes.
\<close>

lemma agree_sub:
  assumes a: "agree ktab (m, k)" and sub: "\<And>d i. ktab k' d = Some i \<Longrightarrow> ktab k d = Some i"
  shows "agree ktab (m, k')"
  using a sub unfolding agree_def by (metis fst_conv snd_conv)

lemma agree_track:
  assumes a: "agree ktab (m, k)" and p: "plain_dest h (rt_isV4 e) (rt_isNet e)"
    and k': "ktab k' (dest_args (rt_isV4 e) (rt_isNet e) h) = Some (rt_iface e)"
    and sub: "\<And>d. d \<noteq> dest_args (rt_isV4 e) (rt_isNet e) h \<Longrightarrow> ktab k' d = ktab k d"
  shows "agree ktab (track h e m, k')"
proof (rule agreeI)
  fix h' v' n' i assume *: "plain_dest h' v' n'" "ktab (snd (track h e m, k')) (dest_args v' n' h') = Some i"
  show "\<exists>e'. mg_routes (fst (track h e m, k')) h' = Some e' \<and> rt_iface e' = i"
  proof (cases "h' = h")
    case True
    then show ?thesis using plain_dest_unique [OF p, of v' n'] * k' by (simp add: track_def)
  next
    case False
    then show ?thesis using agree_at [OF a *(1), of i] * sub [of "dest_args v' n' h'"] by (simp add: track_def)
  qed
next
  fix d i assume "ktab (snd (track h e m, k')) d = Some i"
  then show "\<exists>h v n. d = dest_args v n h \<and> plain_dest h v n"
    using agree_dests [OF a, of d] sub [of d] p by (cases "d = dest_args (rt_isV4 e) (rt_isNet e) h") auto
qed (use agree_plain [OF a] p in \<open>auto simp: track_def split: if_splits\<close>)

definition freed :: "'k runner \<Rightarrow> string \<Rightarrow> bool \<Rightarrow> bool \<Rightarrow> string \<Rightarrow> 'k world \<Rightarrow> 'k" where
  "freed run h v n i w = (case mg_routes (fst w) h of
      Some prev \<Rightarrow> if rt_iface prev \<noteq> i then snd (removeOne run h v n (snd w)) else snd w | None \<Rightarrow> snd w)"

lemma freed_spec:
  assumes c: "route_cmd run ktab" "delete_reliable run" and a: "agree ktab w" and p: "plain_dest h v n"
  shows "ktab (freed run h v n i w) (dest_args v n h) = None \<or> ktab (freed run h v n i w) (dest_args v n h) = Some i"
    and "d \<noteq> dest_args v n h \<Longrightarrow> ktab (freed run h v n i w) d = ktab (snd w) d"
    and "ktab (freed run h v n i w) d = Some x \<Longrightarrow> ktab (snd w) d = Some x"
proof -
  have rm: "ktab (snd (removeOne run h v n (snd w))) = (ktab (snd w))(dest_args v n h := None)"
    using removeOne_spec [OF c prod.collapse [symmetric]] by blast
  show "d \<noteq> dest_args v n h \<Longrightarrow> ktab (freed run h v n i w) d = ktab (snd w) d"
    "ktab (freed run h v n i w) d = Some x \<Longrightarrow> ktab (snd w) d = Some x"
    by (auto simp: freed_def rm split: option.splits if_splits)
  show "ktab (freed run h v n i w) (dest_args v n h) = None \<or> ktab (freed run h v n i w) (dest_args v n h) = Some i"
  proof (cases "ktab (snd w) (dest_args v n h)")
    case None
    then show ?thesis by (auto simp: freed_def rm split: option.splits)
  next
    case (Some x)
    then obtain e where "mg_routes (fst w) h = Some e" "rt_iface e = x" using agree_at [OF a p Some] by blast
    then show ?thesis using Some by (auto simp: freed_def rm)
  qed
qed

lemma Install_eq:
  assumes "ParseIP host = Some ip" "i \<noteq> []" "v = (To4 ip \<noteq> None)" "\<And>prev. mg_routes m host = Some prev \<Longrightarrow> rt_isNet prev = False"
  shows "Install run cancelled now host i ttl r (m, k) =
    (case add_loop run cancelled (add_args (dest_args v False host) i) routeAddAttempts 1 (freed run host v False i (m, k)) of
       (Interrupted out, k2) \<Rightarrow> (Some (AddCancelled host i out), (m, k2))
     | (GaveUp out, k2) \<Rightarrow> (Some (AddFailed host i out), (m, k2))
     | (Added, k2) \<Rightarrow> (None, (track host \<lparr>rt_host = host, rt_iface = i, rt_expiresAt = now + ttl,
         rt_ruleID = r, rt_isNet = False, rt_isV4 = v, rt_static = False\<rparr> m, k2)))"
  unfolding Install_def Let_def prod.case assms(1) option.case assms(3) [symmetric]
  using assms(2,4) by (cases "mg_routes m host") (simp_all add: freed_def)

lemma Install_agree:
  assumes c: "route_cmd run ktab" "delete_reliable run" and a: "agree ktab w"
    and p: "\<And>ip. ParseIP host = Some ip \<Longrightarrow> plain_dest host (To4 ip \<noteq> None) False"
    and I: "Install run cancelled now host i ttl r w = (err, w')"
  shows "agree ktab w' \<and> (err = None \<longrightarrow> (\<exists>ip. ParseIP host = Some ip \<and> ktab (snd w') (dest_args (To4 ip \<noteq> None) False host) = Some i))"
proof (cases "ParseIP host = None \<or> i = []")
  case True
  then show ?thesis using I a by (auto simp: Install_def split: option.splits prod.splits)
next
  case False
  then obtain ip where ip: "ParseIP host = Some ip" "i \<noteq> []" by auto
  obtain m k where w: "w = (m, k)" by (rule prod.exhaust)
  let ?v = "To4 ip \<noteq> None"
  let ?d = "dest_args ?v False host" and ?k1 = "freed run host ?v False i w"
  have net: "rt_isNet prev = False" if "mg_routes m host = Some prev" for prev
    using agree_plain [OF a, of host prev] p [OF ip(1)] that by (auto simp: w plain_dest_def)
  note eq = Install_eq [OF ip refl, of m run cancelled now ttl r k, OF net, simplified, folded w]
  note f = freed_spec [OF c a p [OF ip(1)], where i = i]
  obtain res k2 where add: "add_loop run cancelled (add_args ?d i) routeAddAttempts 1 ?k1 = (res, k2)" by (rule prod.exhaust)
  show ?thesis
  proof (cases "res = Added")
    case True
    let ?e = "\<lparr>rt_host = host, rt_iface = i, rt_expiresAt = now + ttl, rt_ruleID = r, rt_isNet = False, rt_isV4 = ?v, rt_static = False\<rparr>"
    have w': "w' = (track host ?e m, k2)" "err = None"
      using I add True eq by simp_all
    have k2: "ktab k2 ?d = Some i" "\<And>d. d \<noteq> ?d \<Longrightarrow> ktab k2 d = ktab k d"
      using add_loop_spec [OF c(1) add [unfolded True]] f(1) f(2) by (auto simp: w)
    have "agree ktab (track host ?e m, k2)"
      by (rule agree_track [OF a [unfolded w]]) (use p [OF ip(1)] k2 in simp_all)
    then show ?thesis using k2(1) w' ip by simp
  next
    case False
    then have w': "w' = (m, k2)" "err \<noteq> None"
      using I add eq by (auto split: add_outcome.splits)
    have "ktab k2 = ktab ?k1" using add_loop_fail [OF c(1) add False] .
    then show ?thesis using agree_sub [OF a [unfolded w], of k2] f(3) w' by (auto simp: w)
  qed
qed

lemma InstallStatic_agree:
  assumes c: "route_cmd run ktab" "delete_reliable run" and a: "agree ktab w"
    and p: "\<And>ip n. parseDest dest0 = Inr (ip, n) \<Longrightarrow> plain_dest (static_dest (ip, n)) (To4 ip \<noteq> None) (n \<noteq> None)"
    and I: "InstallStatic run dest0 i r w = (err, w')"
  shows "agree ktab w'"
proof (cases "i = [] \<or> isl (parseDest dest0)")
  case True
  then show ?thesis using I a by (auto simp: InstallStatic_def isl_def split: sum.splits prod.splits if_splits)
next
  case False
  then obtain ip n where d: "parseDest dest0 = Inr (ip, n)" "i \<noteq> []" by (cases "parseDest dest0") auto
  obtain m k where w: "w = (m, k)" by (rule prod.exhaust)
  let ?v = "To4 ip \<noteq> None" and ?n = "n \<noteq> None" and ?h = "static_dest (ip, n)"
  let ?d = "dest_args ?v ?n ?h" and ?k1 = "freed run ?h ?v ?n i w"
  note pl = p [OF d(1)]
  have "rt_isV4 prev = ?v \<and> rt_isNet prev = ?n" if "mg_routes m ?h = Some prev" for prev
    using agree_plain [OF a, of ?h prev] plain_dest_unique [OF pl] that by (auto simp: w)
  then have k1: "(case mg_routes m ?h of Some prev \<Rightarrow> if rt_iface prev \<noteq> i then snd (removeOne run ?h (rt_isV4 prev) (rt_isNet prev) k) else k | None \<Rightarrow> k) = ?k1"
    by (auto simp: freed_def w split: option.split)
  note f = freed_spec [OF c a pl, where i = i]
  obtain out failed k2 where q: "run route_bin (add_args ?d i) ?k1 = ((out, failed), k2)" by (metis surj_pair)
  have kc: "if failed then ktab k2 = ktab ?k1 \<and> (looksLikeAlreadyExists out \<longrightarrow> ktab ?k1 ?d \<noteq> None)
         else ktab ?k1 ?d = None \<and> ktab k2 = (ktab ?k1)(?d \<mapsto> i)"
    using c(1) q unfolding route_cmd_def by blast
  show ?thesis
  proof (cases "failed \<and> \<not> looksLikeAlreadyExists out")
    case True
    then have "w' = (m, k2)" using I d q k1 by (simp add: InstallStatic_def w Let_def)
    then show ?thesis using agree_sub [OF a [unfolded w], of k2] f(3) kc True by (auto simp: w)
  next
    case False
    let ?e = "\<lparr>rt_host = ?h, rt_iface = i, rt_expiresAt = 0, rt_ruleID = r, rt_isNet = ?n, rt_isV4 = ?v, rt_static = True\<rparr>"
    have w': "w' = (track ?h ?e m, k2)" using I d q k1 False by (auto simp: InstallStatic_def w Let_def)
    have k2: "ktab k2 ?d = Some i" "\<And>d. d \<noteq> ?d \<Longrightarrow> ktab k2 d = ktab k d"
      using kc f(1) f(2) False by (auto simp: w split: if_splits)
    show ?thesis unfolding w' by (rule agree_track [OF a [unfolded w]]) (use pl k2 in simp_all)
  qed
qed

section \<open>Reachable states\<close>

inductive route_reach :: "'k runner \<Rightarrow> 'k \<Rightarrow> 'k world \<Rightarrow> bool" for run k0 where
  start: "route_reach run k0 (New_manager, k0)"
| install: "route_reach run k0 w \<Longrightarrow> (\<And>ip. ParseIP host = Some ip \<Longrightarrow> plain_dest host (To4 ip \<noteq> None) False) \<Longrightarrow>
    route_reach run k0 (snd (Install run cancelled now host i ttl r w))"
| static: "route_reach run k0 w \<Longrightarrow>
    (\<And>ip n. parseDest dest = Inr (ip, n) \<Longrightarrow> plain_dest (static_dest (ip, n)) (To4 ip \<noteq> None) (n \<noteq> None)) \<Longrightarrow>
    route_reach run k0 (snd (InstallStatic run dest i r w))"
| extend: "route_reach run k0 (m, k) \<Longrightarrow> route_reach run k0 (snd (Extend now host ttl m), k)"
| remove: "route_reach run k0 w \<Longrightarrow> route_reach run k0 (snd (Remove run host w))"
| by_rule: "route_reach run k0 w \<Longrightarrow> route_reach run k0 (snd (RemoveRoutesByRule run order r w))"
| sweep: "route_reach run k0 w \<Longrightarrow> route_reach run k0 (snd (SweepRoutes run order now w))"

lemma Extend_agree: "agree ktab (m, k) \<Longrightarrow> agree ktab (snd (Extend now host ttl m), k)"
proof (cases "mg_routes m host")
  case (Some e)
  assume a: "agree ktab (m, k)"
  have p: "plain_dest host (rt_isV4 e) (rt_isNet e)" using agree_plain [OF a] Some by simp
  show ?thesis
  proof (rule agreeI)
    fix h v n i assume "plain_dest h v n" "ktab (snd (snd (Extend now host ttl m), k)) (dest_args v n h) = Some i"
    then show "\<exists>e. mg_routes (fst (snd (Extend now host ttl m), k)) h = Some e \<and> rt_iface e = i"
      using agree_at [OF a, of h v n i] Some by (auto simp: Extend_def track_def)
  next
    fix d i assume "ktab (snd (snd (Extend now host ttl m), k)) d = Some i"
    then show "\<exists>h v n. d = dest_args v n h \<and> plain_dest h v n" using agree_dests [OF a, of d] by auto
  qed (use agree_plain [OF a] p Some in \<open>auto simp: Extend_def track_def split: if_splits\<close>)
qed (simp add: Extend_def)

lemma route_reach_agree:
  assumes "route_reach run k0 w" "route_cmd run ktab" "delete_reliable run" "ktab k0 = Map.empty"
  shows "agree ktab w"
  using assms(1)
proof induction
  case start
  then show ?case by (simp add: agree_def New_manager_def assms(4))
next
  case (install w host cancelled now i ttl r)
  then show ?case using Install_agree [OF assms(2,3) install.IH _ prod.collapse [symmetric], of host] by blast
next
  case (static w dest i r)
  then show ?case using InstallStatic_agree [OF assms(2,3) static.IH _ prod.collapse [symmetric], of dest] by blast
next
  case (extend m k now host ttl)
  then show ?case by (simp add: Extend_agree)
next
  case (remove w host)
  then show ?case by (simp add: agree_remove [OF assms(2,3)])
next
  case (by_rule w order r)
  then show ?case by (simp add: RemoveRoutesByRule_def agree_remove_hosts [OF assms(2,3)])
next
  case (sweep w order now)
  then show ?case by (simp add: SweepRoutes_def Let_def agree_remove_hosts [OF assms(2,3)])
qed

section \<open>A sample kernel\<close>

text \<open>
  A kernel that keeps the routes of the commands it is given; with \<open>stuck\<close> its deletes
  fail and with \<open>full\<close> its adds do.
\<close>

definition table_run :: "bool \<Rightarrow> bool \<Rightarrow> (string list \<rightharpoonup> string) runner" where
  "table_run stuck full name args k =
     (if take 2 args = [''-n'', ''add''] then
        (let d = butlast (butlast (drop 2 args)); i = last args in
         if k d \<noteq> None then ((''route: File exists'', True), k)
         else if full then ((''route: no buffer space'', True), k) else (([], False), k(d \<mapsto> i)))
      else if take 2 args = [''-n'', ''delete''] then
        (let d = drop 2 args in
         if stuck then ((''route: bad address'', True), k)
         else if k d = None then ((''route: not in table'', True), k) else (([], False), k(d := None)))
      else (([], True), k))"

lemma route_cmd_table_run: "route_cmd (table_run stuck full) (\<lambda>k. k)"
proof -
  have "looksLikeAlreadyExists ''route: File exists''" "\<not> looksLikeAlreadyExists ''route: no buffer space''"
    "looksLikeNotFound ''route: not in table''" "\<not> looksLikeNotFound ''route: bad address''"
    by code_simp+
  then show ?thesis
    by (auto simp: route_cmd_def add_args_def delete_args_def table_run_def Let_def butlast_append)
qed

lemma delete_reliable_table_run: "delete_reliable (table_run False full)"
proof -
  have "looksLikeNotFound ''route: not in table''" by code_simp
  then show ?thesis by (auto simp: delete_reliable_def delete_args_def table_run_def Let_def split: if_splits)
qed

definition one_route :: "(string list \<rightharpoonup> string) world" where
  "one_route = snd (Install (table_run False False) (\<lambda>_. False) 10 ''1.2.3.4'' ''utun5'' 30 7 (New_manager, Map.empty))"

definition one_entry :: route_entry where
  "one_entry = \<lparr>rt_host = ''1.2.3.4'', rt_iface = ''utun5'', rt_expiresAt = 40, rt_ruleID = 7,
     rt_isNet = False, rt_isV4 = True, rt_static = False\<rparr>"

lemma parse_1234: "ParseIP ''1.2.3.4'' = Some (IPv4 16909060)"
  by code_simp

lemma one_route_eq: "mg_routes (fst one_route) = [''1.2.3.4'' \<mapsto> one_entry]"
  by (simp add: one_route_def Install_def parse_1234 New_manager_def routeAddAttempts_def numeral_3_eq_3
      table_run_def add_args_def track_def one_entry_def dest_args_def Let_def)

lemma one_route_enum: "enumerates [(''1.2.3.4'', one_entry)] (mg_routes (fst one_route))"
  by (simp add: enumerates_def one_route_eq)

lemma one_route_reach: "route_reach (table_run False False) Map.empty one_route"
  unfolding one_route_def
  by (rule route_reach.install [OF route_reach.start]) (auto simp: parse_1234 plain_dest_def)

section \<open>Properties\<close>



text \<open>
  Removing the routes of a rule, whatever the order of enumeration and whichever
  kernel commands fail, leaves exactly the tracked routes of the other rules.
\<close>

lemma routes_RemoveByRule_exact:
  assumes "enumerates order (mg_routes (fst w))"
  shows "mg_routes (fst (snd (RemoveRoutesByRule run order r w))) h =
    (case mg_routes (fst w) h of Some e \<Rightarrow> if rt_ruleID e = r then None else Some e | None \<Rightarrow> None)"
  using enumerates_mem [OF assms, of h]
  by (auto simp: RemoveRoutesByRule_def remove_hosts_tracked split: option.splits)

lemma routes_RemoveByRule_exact_witness:
  "mg_routes (fst (snd (RemoveRoutesByRule (table_run True True) [(''1.2.3.4'', one_entry)] 7 one_route))) ''1.2.3.4'' = None \<and>
   mg_routes (fst (snd (RemoveRoutesByRule (table_run True True) [(''1.2.3.4'', one_entry)] 8 one_route))) ''1.2.3.4'' = Some one_entry"
  using routes_RemoveByRule_exact [OF one_route_enum, of "table_run True True" 7 "''1.2.3.4''"]
    routes_RemoveByRule_exact [OF one_route_enum, of "table_run True True" 8 "''1.2.3.4''"]
  by (simp add: one_route_eq one_entry_def)

text \<open>
  The sweep removes exactly the tracked routes that are not static and whose
  lifetime has passed; a static route survives every sweep.
\<close>

lemma routes_Sweep_exact:
  assumes "enumerates order (mg_routes (fst w))"
  shows "mg_routes (fst (snd (SweepRoutes run order now w))) h =
    (case mg_routes (fst w) h of
       Some e \<Rightarrow> if \<not> rt_static e \<and> rt_expiresAt e < now then None else Some e | None \<Rightarrow> None)"
  using enumerates_mem [OF assms, of h]
  by (auto simp: SweepRoutes_def Let_def remove_hosts_tracked split: option.splits)

lemma routes_Sweep_exact_witness:
  "mg_routes (fst (snd (SweepRoutes (table_run False False) [(''1.2.3.4'', one_entry)] 41 one_route))) ''1.2.3.4'' = None \<and>
   mg_routes (fst (snd (SweepRoutes (table_run False False) [(''1.2.3.4'', one_entry)] 40 one_route))) ''1.2.3.4'' = Some one_entry"
  using routes_Sweep_exact [OF one_route_enum, of "table_run False False" 41 "''1.2.3.4''"]
    routes_Sweep_exact [OF one_route_enum, of "table_run False False" 40 "''1.2.3.4''"]
  by (simp add: one_route_eq one_entry_def)

text \<open>
  A successful \<open>Install\<close> leaves the kernel with the host on the wanted interface and
  the manager tracking it there, for every reachable state and every number of failed
  attempts before the one that worked.
\<close>

lemma Install_effective:
  assumes "route_cmd run ktab" "delete_reliable run" "ktab k0 = Map.empty" "route_reach run k0 w"
    "ParseIP host = Some ip" "plain_dest host (To4 ip \<noteq> None) False"
    "Install run cancelled now host i ttl r w = (None, w')"
  shows "ktab (snd w') (dest_args (To4 ip \<noteq> None) False host) = Some i \<and>
    map_option rt_iface (mg_routes (fst w') host) = Some i"
proof -
  have a: "agree ktab w" using route_reach_agree [OF assms(4,1,2,3)] .
  have k: "agree ktab w'" "ktab (snd w') (dest_args (To4 ip \<noteq> None) False host) = Some i"
    using Install_agree [OF assms(1,2) a _ assms(7)] assms(5,6) by auto
  then show ?thesis using agree_at [OF k(1) assms(6) k(2)] by auto
qed

lemma Install_effective_witness:
  "snd one_route [''-host'', ''1.2.3.4''] = Some ''utun5''"
proof -
  have "Install (table_run False False) (\<lambda>_. False) 10 ''1.2.3.4'' ''utun5'' 30 7 (New_manager, Map.empty) = (None, one_route)"
    by (simp add: one_route_def Install_def parse_1234 New_manager_def routeAddAttempts_def numeral_3_eq_3
        table_run_def add_args_def Let_def)
  from Install_effective [OF route_cmd_table_run delete_reliable_table_run refl route_reach.start parse_1234 _ this]
  show ?thesis by (simp add: plain_dest_def dest_args_def)
qed

section \<open>What the tracking misses\<close>

text \<open>
  When the delete that frees a destination fails, its error is ignored; the following
  \<open>add\<close> then reports an existing route, which counts as success. The manager ends up
  tracking the new interface while the kernel keeps the old one.
\<close>

lemma one_route_kernel: "snd one_route [''-host'', ''1.2.3.4''] = Some ''utun5''"
  by (simp add: one_route_def Install_def parse_1234 New_manager_def routeAddAttempts_def numeral_3_eq_3
      table_run_def add_args_def dest_args_def Let_def)

lemma install_ignores_failed_delete:
  "\<exists>w'. Install (table_run True False) (\<lambda>_. False) 20 ''1.2.3.4'' ''utun6'' 30 7 one_route = (None, w') \<and>
     map_option rt_iface (mg_routes (fst w') ''1.2.3.4'') = Some ''utun6'' \<and>
     snd w' [''-host'', ''1.2.3.4''] = Some ''utun5''"
proof -
  obtain m k where w: "one_route = (m, k)" by (rule prod.exhaust)
  have m: "mg_routes m ''1.2.3.4'' = Some one_entry" using one_route_eq by (simp add: w)
  have k: "k [''-host'', ''1.2.3.4''] = Some ''utun5''" using one_route_kernel by (simp add: w)
  have e: "looksLikeAlreadyExists ''route: File exists''" by code_simp
  show ?thesis
    by (simp add: w Install_def parse_1234 m one_entry_def removeOne_def routeAddAttempts_def numeral_3_eq_3
        table_run_def add_args_def delete_args_def dest_args_def k e track_def Let_def)
qed

text \<open>
  When the add fails after the old route was deleted, the manager still tracks the old
  route, which the kernel no longer has.
\<close>

lemma failed_install_keeps_tracking:
  "\<exists>err w'. Install (table_run False True) (\<lambda>_. False) 20 ''1.2.3.4'' ''utun6'' 30 7 one_route = (Some err, w') \<and>
     map_option rt_iface (mg_routes (fst w') ''1.2.3.4'') = Some ''utun5'' \<and>
     snd w' [''-host'', ''1.2.3.4''] = None"
proof -
  obtain m k where w: "one_route = (m, k)" by (rule prod.exhaust)
  have m: "mg_routes m ''1.2.3.4'' = Some one_entry" using one_route_eq by (simp add: w)
  have k: "k [''-host'', ''1.2.3.4''] = Some ''utun5''" using one_route_kernel by (simp add: w)
  have e: "\<not> looksLikeAlreadyExists ''route: no buffer space''" by code_simp
  show ?thesis
    by (simp add: w Install_def parse_1234 m one_entry_def removeOne_def routeAddAttempts_def numeral_3_eq_3
        table_run_def add_args_def delete_args_def dest_args_def k e Let_def)
qed

end
