(* ===== verification/Route_Parsers.thy ===== *)
theory Route_Parsers
  imports Routing
begin

text \<open>
  The text parsers of \<open>core/routing/routing.go\<close>: the routing table printed by
  \<open>netstat -rn\<close> and the dictionaries printed by \<open>scutil\<close>, and the merge of the two
  sources of tunnel owners. The commands that produce the text are outside the model.
\<close>

section \<open>Tunnel names and owners\<close>

definition isTunnelName :: "string \<Rightarrow> bool" where
  "isTunnelName name \<longleftrightarrow> HasPrefix name ''utun'' \<or> HasPrefix name ''ipsec'' \<or> HasPrefix name ''ppp'' \<or>
     HasPrefix name ''tun'' \<or> HasPrefix name ''tap''"

definition isAppleSystemProc :: "string \<Rightarrow> bool" where
  "isAppleSystemProc name \<longleftrightarrow> name \<in> {''nesessionmanager'', ''rapportd'', ''identityservicesd'',
     ''configd'', ''neagent'', ''mDNSResponder''}"

text \<open>
  \<open>detectVPNOwners\<close> on the results of its two sources. The code writes an em dash
  between two names that differ.
\<close>

definition owner_sep :: string where "owner_sep = [CHR '' '', CHR 0xE2, CHR 0x80, CHR 0x94, CHR '' '']"

definition detectVPNOwners :: "(string \<rightharpoonup> string) \<Rightarrow> (string \<rightharpoonup> string) \<Rightarrow> (string \<rightharpoonup> string)" where
  "detectVPNOwners lsof scutil iface =
     (case scutil iface of
        None \<Rightarrow> lsof iface
      | Some name \<Rightarrow>
          (case lsof iface of
             Some existing \<Rightarrow> if existing \<noteq> name then Some (name @ owner_sep @ existing) else Some name
           | None \<Rightarrow> Some name))"

section \<open>scutil dictionaries\<close>

record scutil_state =
  sc_blocks :: "string list"
  sc_cur :: string
  sc_depth :: int
  sc_started :: bool

definition scutil_step :: "scutil_state \<Rightarrow> char \<Rightarrow> scutil_state" where
  "scutil_step s ch =
     (let s1 = (if sc_started s then s\<lparr>sc_cur := sc_cur s @ [ch]\<rparr> else s) in
      if ch = CHR ''{'' then
        (let s2 = (if \<not> sc_started s1 then s1\<lparr>sc_started := True, sc_cur := sc_cur s1 @ [ch]\<rparr> else s1)
         in s2\<lparr>sc_depth := sc_depth s2 + 1\<rparr>)
      else if ch = CHR ''}'' then
        (let s2 = s1\<lparr>sc_depth := sc_depth s1 - 1\<rparr> in
         if sc_started s2 \<and> sc_depth s2 = 0
         then s2\<lparr>sc_blocks := sc_blocks s2 @ [sc_cur s2], sc_cur := [], sc_started := False\<rparr> else s2)
      else s1)"

definition splitScutilBlocks :: "string \<Rightarrow> string list" where
  "splitScutilBlocks s = sc_blocks (foldl scutil_step
     \<lparr>sc_blocks = [], sc_cur = [], sc_depth = 0, sc_started = False\<rparr> s)"

text \<open>The inside of a dictionary at depth \<open>n\<close>: its braces match and it does not close the outer one.\<close>

fun inside :: "nat \<Rightarrow> string \<Rightarrow> bool" where
  "inside n [] \<longleftrightarrow> n = 1"
| "inside n (c # cs) \<longleftrightarrow>
     (if c = CHR ''{'' then inside (Suc n) cs
      else if c = CHR ''}'' then 1 < n \<and> inside (n - 1) cs else inside n cs)"

definition no_braces :: "string \<Rightarrow> bool" where
  "no_braces s \<longleftrightarrow> CHR ''{'' \<notin> set s \<and> CHR ''}'' \<notin> set s"

lemma scutil_skip:
  "no_braces s \<Longrightarrow> foldl scutil_step \<lparr>sc_blocks = bs, sc_cur = [], sc_depth = 0, sc_started = False\<rparr> s =
     \<lparr>sc_blocks = bs, sc_cur = [], sc_depth = 0, sc_started = False\<rparr>"
  by (induction s) (auto simp: no_braces_def scutil_step_def)

lemma scutil_step_body:
  "c = CHR ''}'' \<Longrightarrow> 1 < n \<Longrightarrow>
     scutil_step \<lparr>sc_blocks = bs, sc_cur = cur, sc_depth = int n, sc_started = True\<rparr> c =
       \<lparr>sc_blocks = bs, sc_cur = cur @ [c],
         sc_depth = int (if c = CHR ''{'' then Suc n else if c = CHR ''}'' then n - 1 else n), sc_started = True\<rparr>"
  "c \<noteq> CHR ''}'' \<Longrightarrow>
     scutil_step \<lparr>sc_blocks = bs, sc_cur = cur, sc_depth = int n, sc_started = True\<rparr> c =
       \<lparr>sc_blocks = bs, sc_cur = cur @ [c],
         sc_depth = int (if c = CHR ''{'' then Suc n else if c = CHR ''}'' then n - 1 else n), sc_started = True\<rparr>"
  by (auto simp: scutil_step_def)

lemma scutil_body:
  "inside n s \<Longrightarrow> 1 \<le> n \<Longrightarrow>
     foldl scutil_step \<lparr>sc_blocks = bs, sc_cur = cur, sc_depth = int n, sc_started = True\<rparr> s =
       \<lparr>sc_blocks = bs, sc_cur = cur @ s, sc_depth = 1, sc_started = True\<rparr>"
proof (induction s arbitrary: n cur)
  case (Cons c s)
  let ?n = "if c = CHR ''{'' then Suc n else if c = CHR ''}'' then n - 1 else n"
  have "inside ?n s" "1 \<le> ?n" "c = CHR ''}'' \<Longrightarrow> 1 < n" using Cons.prems by (auto split: if_splits)
  then show ?case using Cons.IH [of ?n "cur @ [c]"] scutil_step_body [where c = c and n = n and bs = bs and cur = cur] by (cases "c = CHR ''}''") simp_all
qed simp

definition dict :: "string \<times> string \<Rightarrow> string" where
  "dict pb = fst pb @ ''{'' @ snd pb @ ''}''"

lemma scutil_dict:
  assumes "no_braces pre" "inside 1 body"
  shows "foldl scutil_step \<lparr>sc_blocks = bs, sc_cur = [], sc_depth = 0, sc_started = False\<rparr> (dict (pre, body)) =
    \<lparr>sc_blocks = bs @ [''{'' @ body @ ''}''], sc_cur = [], sc_depth = 0, sc_started = False\<rparr>"
proof -
  have open_b: "scutil_step \<lparr>sc_blocks = bs, sc_cur = [], sc_depth = 0, sc_started = False\<rparr> CHR ''{'' =
      \<lparr>sc_blocks = bs, sc_cur = ''{'', sc_depth = int 1, sc_started = True\<rparr>" by (simp add: scutil_step_def)
  have close_b: "scutil_step \<lparr>sc_blocks = bs, sc_cur = ''{'' @ body, sc_depth = 1, sc_started = True\<rparr> CHR ''}'' =
      \<lparr>sc_blocks = bs @ [''{'' @ body @ ''}''], sc_cur = [], sc_depth = 0, sc_started = False\<rparr>" by (simp add: scutil_step_def)
  show ?thesis
    by (simp only: dict_def fst_conv snd_conv foldl_append foldl.simps scutil_skip [OF assms(1)] open_b
        scutil_body [OF assms(2) le_refl] close_b)
qed

text \<open>
  On text made of well-nested dictionaries separated by text without braces, at
  whatever depth the dictionaries nest, \<open>splitScutilBlocks\<close> returns exactly the
  top-level dictionaries, in order.
\<close>

lemma splitScutilBlocks_exact:
  assumes "\<forall>(pre, body)\<in>set segs. no_braces pre \<and> inside 1 body" "no_braces post"
  shows "splitScutilBlocks (concat (map dict segs) @ post) = map (\<lambda>(pre, body). ''{'' @ body @ ''}'') segs"
proof -
  have "foldl scutil_step \<lparr>sc_blocks = bs, sc_cur = [], sc_depth = 0, sc_started = False\<rparr> (concat (map dict segs)) =
      \<lparr>sc_blocks = bs @ map (\<lambda>(pre, body). ''{'' @ body @ ''}'') segs, sc_cur = [], sc_depth = 0, sc_started = False\<rparr>" for bs
    using assms(1)
  proof (induction segs arbitrary: bs)
    case (Cons x segs)
    obtain pre body where x: "x = (pre, body)" by (rule prod.exhaust)
    then show ?case using Cons.prems Cons.IH [of "bs @ [''{'' @ body @ ''}'']"] scutil_dict [of pre body bs] by simp
  qed simp
  then show ?thesis using scutil_skip [OF assms(2)] by (simp add: splitScutilBlocks_def)
qed

lemma splitScutilBlocks_exact_witness:
  "splitScutilBlocks ''<dictionary> {a : <array> {0 : x}} <dictionary> {b : y}'' = [''{a : <array> {0 : x}}'', ''{b : y}'']"
  using splitScutilBlocks_exact [of "[(''<dictionary> '', ''a : <array> {0 : x}''), ('' <dictionary> '', ''b : y'')]" "[]"]
  by (simp add: dict_def no_braces_def)

section \<open>The netstat table\<close>

record SystemRoute =
  sr_Family :: string
  sr_Destination :: string
  sr_Gateway :: string
  sr_Flags :: string
  sr_Interface :: string

record netstat_state =
  ns_out :: "SystemRoute list"
  ns_family :: string
  ns_header :: bool

definition netstat_line :: "netstat_state \<Rightarrow> string \<Rightarrow> netstat_state" where
  "netstat_line s raw =
     (let line = TrimRight raw [CHR '' '', CHR 0x09, CHR 0x0D] in
      if line = [] then s\<lparr>ns_header := False\<rparr>
      else if HasPrefix line ''Internet6:'' then s\<lparr>ns_family := ''inet6'', ns_header := False\<rparr>
      else if HasPrefix line ''Internet:'' then s\<lparr>ns_family := ''inet'', ns_header := False\<rparr>
      else if HasPrefix line ''Routing tables'' then s
      else if \<not> ns_header s then
        (if HasPrefix (TrimSpace line) ''Destination'' then s\<lparr>ns_header := True\<rparr> else s)
      else case Fields line of
        d # g # f # i # _ \<Rightarrow> s\<lparr>ns_out := ns_out s @ [\<lparr>sr_Family = ns_family s, sr_Destination = d,
            sr_Gateway = g, sr_Flags = f, sr_Interface = i\<rparr>]\<rparr>
      | _ \<Rightarrow> s)"

definition parseNetstat :: "string \<Rightarrow> SystemRoute list" where
  "parseNetstat b = ns_out (foldl netstat_line \<lparr>ns_out = [], ns_family = [], ns_header = False\<rparr> (Split b CHR 0x0A))"

text \<open>The layout \<open>netstat -rn\<close> prints: two sections with a header and one line per route.\<close>

definition route_line :: "SystemRoute \<Rightarrow> string" where
  "route_line r = Join [sr_Destination r, sr_Gateway r, sr_Flags r, sr_Interface r] '' ''"

definition netstat_text :: "SystemRoute list \<Rightarrow> SystemRoute list \<Rightarrow> string" where
  "netstat_text v4 v6 = Join
     ([''Routing tables'', [], ''Internet:'', ''Destination Gateway Flags Netif Expire''] @ map route_line v4 @
      [[], ''Internet6:'', ''Destination Gateway Flags Netif Expire''] @ map route_line v6 @ [[]]) [CHR 0x0A]"

definition word_ok :: "string \<Rightarrow> bool" where
  "word_ok s \<longleftrightarrow> s \<noteq> [] \<and> list_all (\<lambda>c. \<not> is_space c) s"

definition route_ok :: "string \<Rightarrow> SystemRoute \<Rightarrow> bool" where
  "route_ok fam r \<longleftrightarrow> sr_Family r = fam \<and> word_ok (sr_Destination r) \<and> word_ok (sr_Gateway r) \<and>
     word_ok (sr_Flags r) \<and> word_ok (sr_Interface r) \<and> hd (sr_Destination r) \<notin> {CHR ''I'', CHR ''R''}"

lemma concat_singletons: "concat (map (\<lambda>l. [l]) xs) = xs"
  by (induction xs) auto

lemma Fields_Join:
  assumes "xs \<noteq> []" "\<And>x. x \<in> set xs \<Longrightarrow> word_ok x"
  shows "Fields (Join xs '' '') = xs"
proof -
  have sp: "is_space CHR '' ''" by (simp add: is_space_def ord_def)
  have ns: "c \<notin> set x \<or> \<not> is_space c" if "x \<in> set xs" for x c
    using assms(2) [OF that] by (auto simp: word_ok_def list_all_iff)
  have "map (\<lambda>c. if is_space c then CHR '' '' else c) (Join xs '' '') = Join xs '' ''"
  proof (rule map_idI)
    fix c assume "c \<in> set (Join xs '' '')"
    then have "(\<exists>x\<in>set xs. c \<in> set x) \<or> c = CHR '' ''" using set_Join [of xs "'' ''"] by auto
    then show "(if is_space c then CHR '' '' else c) = c" using ns by auto
  qed
  moreover have "Split (Join xs '' '') CHR '' '' = xs"
    using assms(1) by (rule Split_Join) (use ns sp in blast)
  moreover have "filter (\<lambda>f. f \<noteq> []) xs = xs" using assms(2) by (simp add: word_ok_def filter_id_conv)
  ultimately show ?thesis by (simp add: Fields_def concat_singletons Split_def)
qed

lemma TrimRight_id: "s \<noteq> [] \<Longrightarrow> last s \<notin> set cs \<Longrightarrow> TrimRight s cs = s"
  by (simp add: TrimRight_def dropWhile_id hd_rev)

lemma route_line_step:
  assumes "route_ok fam r"
  shows "netstat_line \<lparr>ns_out = out, ns_family = fam, ns_header = True\<rparr> (route_line r) =
    \<lparr>ns_out = out @ [r], ns_family = fam, ns_header = True\<rparr>"
proof -
  obtain d g f i where r: "r = \<lparr>sr_Family = fam, sr_Destination = d, sr_Gateway = g, sr_Flags = f, sr_Interface = i\<rparr>"
    using assms by (cases r) (auto simp: route_ok_def)
  have w: "word_ok d" "word_ok g" "word_ok f" "word_ok i" "hd d \<noteq> CHR ''I''" "hd d \<noteq> CHR ''R''"
    using assms by (auto simp: r route_ok_def)
  let ?l = "Join [d, g, f, i] '' ''"
  have F: "Fields ?l = [d, g, f, i]" using w by (intro Fields_Join) auto
  obtain c ds where d: "d = c # ds" using w(1) by (cases d) (auto simp: word_ok_def)
  then have l: "?l \<noteq> []" "hd ?l = c" by simp_all
  then have pre: "\<not> HasPrefix ?l (x # xs)" if "x \<noteq> c" for x xs using that by (cases ?l) auto
  have "last ?l = last i" using w(4) by (simp add: word_ok_def)
  moreover have "last i \<in> set i" using w(4) by (simp add: word_ok_def)
  ultimately have "\<not> is_space (last ?l)" using w(4) by (auto simp: word_ok_def list_all_iff)
  then have "last ?l \<notin> set [CHR '' '', CHR 0x09, CHR 0x0D]" by (auto simp: is_space_def ord_def)
  then have T: "TrimRight ?l [CHR '' '', CHR 0x09, CHR 0x0D] = ?l" using l by (intro TrimRight_id)
  have "c \<noteq> CHR ''I''" "c \<noteq> CHR ''R''" using w(5,6) d by auto
  then have "\<not> HasPrefix ?l ''Internet6:''" "\<not> HasPrefix ?l ''Internet:''" "\<not> HasPrefix ?l ''Routing tables''"
    using pre [of "CHR ''I''"] pre [of "CHR ''R''"] by blast+
  then show ?thesis using F T l(1) unfolding netstat_line_def route_line_def
    by (simp add: r Let_def del: Join.simps HasPrefix_Cons)
qed

lemma route_lines:
  "list_all (route_ok fam) rs \<Longrightarrow>
     foldl netstat_line \<lparr>ns_out = out, ns_family = fam, ns_header = True\<rparr> (map route_line rs) =
       \<lparr>ns_out = out @ rs, ns_family = fam, ns_header = True\<rparr>"
  by (induction rs arbitrary: out) (simp_all add: route_line_step)

lemma fixed_lines:
  "netstat_line \<lparr>ns_out = out, ns_family = fam, ns_header = h\<rparr> ''Routing tables'' = \<lparr>ns_out = out, ns_family = fam, ns_header = h\<rparr>"
  "netstat_line \<lparr>ns_out = out, ns_family = fam, ns_header = h\<rparr> [] = \<lparr>ns_out = out, ns_family = fam, ns_header = False\<rparr>"
  "netstat_line \<lparr>ns_out = out, ns_family = fam, ns_header = h\<rparr> ''Internet:'' = \<lparr>ns_out = out, ns_family = ''inet'', ns_header = False\<rparr>"
  "netstat_line \<lparr>ns_out = out, ns_family = fam, ns_header = h\<rparr> ''Internet6:'' = \<lparr>ns_out = out, ns_family = ''inet6'', ns_header = False\<rparr>"
  "netstat_line \<lparr>ns_out = out, ns_family = fam, ns_header = False\<rparr> ''Destination Gateway Flags Netif Expire'' =
     \<lparr>ns_out = out, ns_family = fam, ns_header = True\<rparr>"
  by (simp_all add: netstat_line_def TrimRight_def TrimSpace_def trim_with_def is_space_def ord_def)

lemma route_line_no_newline:
  assumes "route_ok fam r" shows "CHR 0x0A \<notin> set (route_line r)"
proof -
  have "is_space CHR 0x0A" by (simp add: is_space_def ord_def)
  then show ?thesis using assms by (auto simp: route_line_def route_ok_def word_ok_def list_all_iff)
qed

text \<open>
  \<open>parseNetstat\<close> reads back every routing table in the layout of \<open>netstat -rn\<close>: the
  rows of both sections, in order, with the family of their section.
\<close>

lemma parseNetstat_text:
  assumes "list_all (route_ok ''inet'') v4" "list_all (route_ok ''inet6'') v6"
  shows "parseNetstat (netstat_text v4 v6) = v4 @ v6"
proof -
  let ?ls = "[''Routing tables'', [], ''Internet:'', ''Destination Gateway Flags Netif Expire''] @ map route_line v4 @
      [[], ''Internet6:'', ''Destination Gateway Flags Netif Expire''] @ map route_line v6 @ [[]]"
  have "CHR 0x0A \<notin> set l" if "l \<in> set ?ls" for l
    using that assms route_line_no_newline by (auto simp: list_all_iff)
  then have "Split (netstat_text v4 v6) CHR 0x0A = ?ls" unfolding netstat_text_def by (intro Split_Join) auto
  then show ?thesis
    using assms by (simp add: parseNetstat_def fixed_lines route_lines)
qed

lemma parseNetstat_text_witness:
  "parseNetstat (netstat_text
     [\<lparr>sr_Family = ''inet'', sr_Destination = ''default'', sr_Gateway = ''10.0.0.1'', sr_Flags = ''UGSc'', sr_Interface = ''en0''\<rparr>]
     []) =
     [\<lparr>sr_Family = ''inet'', sr_Destination = ''default'', sr_Gateway = ''10.0.0.1'', sr_Flags = ''UGSc'', sr_Interface = ''en0''\<rparr>]"
proof -
  have "list_all (route_ok ''inet'') [\<lparr>sr_Family = ''inet'', sr_Destination = ''default'', sr_Gateway = ''10.0.0.1'', sr_Flags = ''UGSc'', sr_Interface = ''en0''\<rparr>]"
    by code_simp
  then show ?thesis using parseNetstat_text [of _ "[]"] by simp
qed

end
