(* ===== verification/Interfaces.thy ===== *)
theory Interfaces
  imports Go_Prelude
begin

text \<open>
  The interface field of a rule and the references to outbounds: names and fields of
  \<open>core/proxy/proxy.go\<close> and \<open>core/xray/xray.go\<close>, dialer references of
  \<open>core/xray/dialer.go\<close> with the bulk edit of \<open>core/xray/dialer_bulk.go\<close>, outbound sets
  of \<open>core/xray/set.go\<close>, and the port allocator of \<open>core/xray/ports.go\<close>.
\<close>

section \<open>Names\<close>

text \<open>\<open>normalizeName\<close> and \<open>ValidName\<close> are the same functions in both packages.\<close>

definition normalizeName :: "string \<Rightarrow> string" where
  "normalizeName s = ToLower (TrimSpace s)"

lemma TrimSpace_ToLower: "TrimSpace (ToLower s) = ToLower (TrimSpace s)"
  by (simp add: TrimSpace_def ToLower_def trim_with_def dropWhile_map rev_map comp_def)

lemma normalizeName_idem [simp]: "normalizeName (normalizeName s) = normalizeName s"
  by (simp add: normalizeName_def TrimSpace_ToLower)

lemma normalizeName_Nil: "normalizeName [] = []"
  by (simp add: normalizeName_def TrimSpace_def)

definition name_char :: "char \<Rightarrow> bool" where
  "name_char c \<longleftrightarrow> is_alnum c \<or> c = CHR ''-'' \<or> c = CHR ''_''"

definition ValidName :: "string \<Rightarrow> bool" where
  "ValidName name = (let n = normalizeName name in n \<noteq> [] \<and> length n \<le> 64 \<and> list_all name_char n)"

text \<open>A name in the form in which it is stored.\<close>

definition stored_name :: "string \<Rightarrow> bool" where
  "stored_name n \<longleftrightarrow> n \<noteq> [] \<and> length n \<le> 64 \<and> list_all name_char n"

lemma name_charD:
  assumes "name_char c" shows "\<not> is_space c" "\<not> is_upper c" "c \<noteq> CHR '',''" "c \<noteq> CHR '':''"
proof -
  show "\<not> is_space c" "\<not> is_upper c" using assms by (auto simp: name_char_def char_defs)
  show "c \<noteq> CHR '',''" "c \<noteq> CHR '':''" using assms by (auto simp: name_char_def char_defs)
qed

lemma stored_name_no_sep: "stored_name n \<Longrightarrow> CHR '','' \<notin> set n \<and> CHR '':'' \<notin> set n"
  by (auto simp: stored_name_def list_all_iff dest: name_charD)

lemma TrimSpace_stored [simp]: "stored_name n \<Longrightarrow> TrimSpace n = n"
  by (rule TrimSpace_id) (auto simp: stored_name_def list_all_iff dest: name_charD)

lemma normalizeName_stored [simp]: "stored_name n \<Longrightarrow> normalizeName n = n"
  unfolding normalizeName_def by (subst ToLower_id) (auto simp: stored_name_def list_all_iff dest: name_charD)

lemma ValidName_stored [simp]: "stored_name n \<Longrightarrow> ValidName n"
  by (simp add: ValidName_def Let_def) (simp add: stored_name_def)

lemma ValidName_normal: "ValidName n \<longleftrightarrow> stored_name (normalizeName n)"
  by (simp add: ValidName_def stored_name_def Let_def)

lemma is_space_comma: "is_space c \<Longrightarrow> c \<noteq> CHR '',''"
  by (auto simp: is_space_def ord_def)

section \<open>Interface fields\<close>

definition proxy_InterfacePrefix :: string where "proxy_InterfacePrefix = ''proxy:''"
definition xray_InterfacePrefix :: string where "xray_InterfacePrefix = ''xray:''"
definition SetPrefix :: string where "SetPrefix = ''xrayset:''"
definition InternalProxyPrefix :: string where "InternalProxyPrefix = ''_xray_''"

definition IsProxyInterface :: "string \<Rightarrow> bool" where "IsProxyInterface s = HasPrefix s proxy_InterfacePrefix"
definition IsXrayInterface :: "string \<Rightarrow> bool" where "IsXrayInterface s = HasPrefix s xray_InterfacePrefix"
definition IsSetInterface :: "string \<Rightarrow> bool" where "IsSetInterface s = HasPrefix s SetPrefix"

definition split_names :: "string \<Rightarrow> string list" where
  "split_names raw = filter (\<lambda>p. p \<noteq> []) (map TrimSpace (Split raw CHR '',''))"

definition proxy_ParseInterface :: "string \<Rightarrow> string list" where
  "proxy_ParseInterface s = (if \<not> IsProxyInterface s then [] else split_names (TrimPrefix s proxy_InterfacePrefix))"

definition xray_ParseInterface :: "string \<Rightarrow> string list" where
  "xray_ParseInterface s = (if \<not> IsXrayInterface s then [] else split_names (TrimPrefix s xray_InterfacePrefix))"

definition InternalProxyName :: "string \<Rightarrow> string" where
  "InternalProxyName name = InternalProxyPrefix @ normalizeName name"

definition IsInternalProxyName :: "string \<Rightarrow> bool" where
  "IsInternalProxyName name = HasPrefix name InternalProxyPrefix"

definition InboundTag :: "string \<Rightarrow> string" where "InboundTag name = ''in-'' @ normalizeName name"
definition OutboundTag :: "string \<Rightarrow> string" where "OutboundTag name = ''out-'' @ normalizeName name"

lemma split_names_Join:
  assumes "xs \<noteq> []" "\<And>x. x \<in> set xs \<Longrightarrow> x \<noteq> [] \<and> TrimSpace x = x \<and> CHR '','' \<notin> set x"
  shows "split_names (Join xs '','') = xs"
proof -
  have "Split (Join xs '','') CHR '','' = xs" using assms by (intro Split_Join) auto
  moreover have "map TrimSpace xs = xs" using assms(2) by (simp add: map_idI)
  moreover have "filter (\<lambda>p. p \<noteq> []) xs = xs" using assms(2) by (simp add: filter_id_conv)
  ultimately show ?thesis by (simp add: split_names_def)
qed

section \<open>Dialer references\<close>

datatype DialerKind = DialerKindXray | DialerKindXraysub | DialerKindProxy

fun kind_string :: "DialerKind \<Rightarrow> string" where
  "kind_string DialerKindXray = ''xray''"
| "kind_string DialerKindXraysub = ''xraysub''"
| "kind_string DialerKindProxy = ''proxy''"

definition kind_of :: "string \<Rightarrow> DialerKind option" where
  "kind_of k = (if k = ''xray'' then Some DialerKindXray else if k = ''xraysub'' then Some DialerKindXraysub
     else if k = ''proxy'' then Some DialerKindProxy else None)"

record DialerRef =
  ref_Kind :: DialerKind
  ref_Name :: string

datatype dialer_error = MissingKind string | UnknownKind string string | InvalidRefName string

fun parse_refs :: "string list \<Rightarrow> dialer_error + DialerRef list" where
  "parse_refs [] = Inr []"
| "parse_refs (p0 # ps) =
     (let p = TrimSpace p0 in
      if p = [] then parse_refs ps
      else case Cut p CHR '':'' of
        None \<Rightarrow> Inl (MissingKind p)
      | Some (kind0, name0) \<Rightarrow>
          (let kind = ToLower (TrimSpace kind0); name = normalizeName name0 in
           case kind_of kind of
             None \<Rightarrow> Inl (UnknownKind kind p)
           | Some k \<Rightarrow>
               if \<not> ValidName name then Inl (InvalidRefName p)
               else case parse_refs ps of
                 Inl e \<Rightarrow> Inl e
               | Inr out \<Rightarrow> Inr (\<lparr>ref_Kind = k, ref_Name = name\<rparr> # out)))"

definition ParseDialer :: "string \<Rightarrow> dialer_error + DialerRef list" where
  "ParseDialer s = (let s = TrimSpace s in if s = [] then Inr [] else parse_refs (Split s CHR '',''))"

definition ref_key :: "DialerRef \<Rightarrow> string" where
  "ref_key r = kind_string (ref_Kind r) @ '':'' @ ref_Name r"

definition FormatDialer :: "DialerRef list \<Rightarrow> string" where
  "FormatDialer refs = Join (map ref_key refs) '',''"

definition RefsByKind :: "DialerRef list \<Rightarrow> string list \<times> string list \<times> string list" where
  "RefsByKind refs =
     (map ref_Name (filter (\<lambda>r. ref_Kind r = DialerKindXray) refs),
      map ref_Name (filter (\<lambda>r. ref_Kind r = DialerKindXraysub) refs),
      map ref_Name (filter (\<lambda>r. ref_Kind r = DialerKindProxy) refs))"

fun dedupe :: "string list \<Rightarrow> DialerRef list \<Rightarrow> DialerRef list" where
  "dedupe seen [] = []"
| "dedupe seen (r # rs) =
     (if ref_key r \<in> set seen then dedupe seen rs else r # dedupe (ref_key r # seen) rs)"

definition dedupeRefs :: "DialerRef list \<Rightarrow> DialerRef list" where
  "dedupeRefs refs = dedupe [] refs"

datatype edit_error = UnknownMode string

definition EditDialer :: "string \<Rightarrow> string \<Rightarrow> DialerRef list \<Rightarrow> edit_error + string" where
  "EditDialer current mode refs =
     (let cur = (case ParseDialer current of Inl _ \<Rightarrow> [] | Inr c \<Rightarrow> c) in
      if mode = ''replace'' then Inr (FormatDialer (dedupeRefs refs))
      else if mode = ''add'' then Inr (FormatDialer (dedupeRefs (cur @ refs)))
      else if mode = ''remove'' then
        Inr (FormatDialer (dedupeRefs (filter (\<lambda>r. ref_key r \<notin> set (map ref_key refs)) cur)))
      else Inl (UnknownMode mode))"

subsection \<open>Laws\<close>

definition valid_ref :: "DialerRef \<Rightarrow> bool" where
  "valid_ref r \<longleftrightarrow> stored_name (ref_Name r)"

lemma kind_of_string [simp]: "kind_of (kind_string k) = Some k"
  by (cases k) (simp_all add: kind_of_def)

lemma kind_string_chars: "list_all name_char (kind_string k)" "kind_string k \<noteq> []"
  by (cases k; simp add: name_char_def is_alnum_def is_lower_def in_range_def ord_def)+

lemma stored_kind: "stored_name (kind_string k)"
  using kind_string_chars [of k] by (cases k) (simp_all add: stored_name_def)

lemma ref_key_inj: "valid_ref r \<Longrightarrow> valid_ref r' \<Longrightarrow> ref_key r = ref_key r' \<longleftrightarrow> r = r'"
proof -
  have "kind_string k @ '':'' @ n = kind_string k' @ '':'' @ n' \<longleftrightarrow> k = k' \<and> n = n'" for k k' n n'
    by (cases k; cases k') auto
  then show "ref_key r = ref_key r' \<longleftrightarrow> r = r'" unfolding ref_key_def by (metis DialerRef.equality old.unit.exhaust)
qed

lemma Cut_ref_key: "valid_ref r \<Longrightarrow> Cut (ref_key r) CHR '':'' = Some (kind_string (ref_Kind r), ref_Name r)"
  using stored_name_no_sep [OF stored_kind] by (simp add: ref_key_def Cut_append)

lemma TrimSpace_ref_key: "valid_ref r \<Longrightarrow> TrimSpace (ref_key r) = ref_key r"
proof (rule TrimSpace_id)
  fix c assume "valid_ref r" "c \<in> set (ref_key r)"
  then have "name_char c \<or> c = CHR '':''"
    using kind_string_chars(1) [of "ref_Kind r"] by (auto simp: ref_key_def valid_ref_def stored_name_def list_all_iff)
  moreover have "\<not> is_space CHR '':''" by (simp add: is_space_def ord_def)
  ultimately show "\<not> is_space c" using name_charD(1) by blast
qed

lemma ref_key_no_comma: "valid_ref r \<Longrightarrow> CHR '','' \<notin> set (ref_key r) \<and> ref_key r \<noteq> []"
  using stored_name_no_sep [OF stored_kind [of "ref_Kind r"]] stored_name_no_sep [of "ref_Name r"]
  by (auto simp: ref_key_def valid_ref_def)

lemma parse_refs_keys: "list_all valid_ref refs \<Longrightarrow> parse_refs (map ref_key refs) = Inr refs"
proof (induction refs)
  case (Cons r refs)
  then have r: "valid_ref r" by simp
  then have "normalizeName (ref_Name r) = ref_Name r" "ValidName (ref_Name r)" by (simp_all add: valid_ref_def)
  moreover have "ToLower (TrimSpace (kind_string (ref_Kind r))) = kind_string (ref_Kind r)"
    using normalizeName_stored [OF stored_kind [of "ref_Kind r"]] by (simp add: normalizeName_def)
  ultimately show ?case using Cons r ref_key_no_comma [OF r] by (simp add: TrimSpace_ref_key Cut_ref_key Let_def)
qed simp

lemma parse_refs_valid: "parse_refs ps = Inr refs \<Longrightarrow> list_all valid_ref refs"
proof (induction ps arbitrary: refs rule: parse_refs.induct)
  case (2 p0 ps)
  have v: "ValidName (normalizeName n) \<Longrightarrow> stored_name (normalizeName n)" for n
    by (simp add: ValidName_normal)
  show ?case using 2 v
    by (auto simp: Let_def valid_ref_def split: if_splits option.splits prod.splits sum.splits)
qed simp

lemma ParseDialer_valid: "ParseDialer s = Inr refs \<Longrightarrow> list_all valid_ref refs"
  by (auto simp: ParseDialer_def Let_def parse_refs_valid split: if_splits)

lemma Join_ends:
  "xs \<noteq> [] \<Longrightarrow> (\<And>x. x \<in> set xs \<Longrightarrow> x \<noteq> []) \<Longrightarrow> hd (Join xs sep) = hd (hd xs) \<and> last (Join xs sep) = last (last xs) \<and> Join xs sep \<noteq> []"
proof (induction xs sep rule: Join.induct)
  case (3 x y ys sep)
  then have "last (Join (y # ys) sep) = last (last (y # ys))" "Join (y # ys) sep \<noteq> []" "x \<noteq> []" by auto
  then show ?case by simp
qed auto

lemma TrimSpace_FormatDialer:
  assumes "list_all valid_ref refs" "refs \<noteq> []"
  shows "TrimSpace (FormatDialer refs) = FormatDialer refs" "FormatDialer refs \<noteq> []"
proof -
  have k: "x \<noteq> [] \<and> (x = [] \<or> \<not> is_space (hd x) \<and> \<not> is_space (last x))" if x: "x \<in> set (map ref_key refs)" for x
  proof -
    obtain r where r: "valid_ref r" "x = ref_key r" using x assms(1) by (auto simp: list_all_iff)
    then have "TrimSpace x = x" "x \<noteq> []" using TrimSpace_ref_key ref_key_no_comma by auto
    then show ?thesis using trim_with_ends [of is_space x] by (simp add: TrimSpace_def)
  qed
  have ne: "map ref_key refs \<noteq> []" using assms(2) by simp
  have j: "hd (FormatDialer refs) = hd (hd (map ref_key refs)) \<and> last (FormatDialer refs) = last (last (map ref_key refs)) \<and> FormatDialer refs \<noteq> []"
    unfolding FormatDialer_def by (rule Join_ends [OF ne]) (use k in blast)
  have "hd (map ref_key refs) \<in> set (map ref_key refs)" "last (map ref_key refs) \<in> set (map ref_key refs)"
    using hd_in_set [OF ne] last_in_set [OF ne] by blast+
  then have "\<not> is_space (hd (hd (map ref_key refs)))" "\<not> is_space (last (last (map ref_key refs)))"
    using k by blast+
  then show "FormatDialer refs \<noteq> []" "TrimSpace (FormatDialer refs) = FormatDialer refs"
    using j unfolding TrimSpace_def by (auto intro!: trim_with_id)
qed

lemma ParseDialer_FormatDialer:
  assumes "list_all valid_ref refs" shows "ParseDialer (FormatDialer refs) = Inr refs"
proof (cases "refs = []")
  case True
  then show ?thesis by (simp add: ParseDialer_def FormatDialer_def TrimSpace_def)
next
  case False
  have "Split (FormatDialer refs) CHR '','' = map ref_key refs"
    unfolding FormatDialer_def using False assms ref_key_no_comma by (intro Split_Join) (auto simp: list_all_iff)
  then show ?thesis using TrimSpace_FormatDialer [OF assms False] parse_refs_keys [OF assms]
    by (simp add: ParseDialer_def Let_def)
qed

lemma dedupe_spec:
  "distinct (map ref_key (dedupe seen rs)) \<and> ref_key ` set (dedupe seen rs) = ref_key ` set rs - set seen \<and>
     set (dedupe seen rs) \<subseteq> set rs"
  by (induction seen rs rule: dedupe.induct) auto

lemma dedupeRefs_set:
  assumes "list_all valid_ref rs"
  shows "set (dedupeRefs rs) = set rs" "list_all valid_ref (dedupeRefs rs)" "distinct (dedupeRefs rs)"
proof -
  have d: "ref_key ` set (dedupeRefs rs) = ref_key ` set rs" "set (dedupeRefs rs) \<subseteq> set rs" "distinct (map ref_key (dedupeRefs rs))"
    using dedupe_spec [of "[]" rs] by (simp_all add: dedupeRefs_def)
  then show v: "list_all valid_ref (dedupeRefs rs)" using assms by (auto simp: list_all_iff)
  show "distinct (dedupeRefs rs)" using d(3) by (simp add: distinct_map)
  have "r \<in> set (dedupeRefs rs)" if r: "r \<in> set rs" for r
  proof -
    have "ref_key r \<in> ref_key ` set (dedupeRefs rs)" using d(1) r by simp
    then obtain r' where "r' \<in> set (dedupeRefs rs)" "ref_key r = ref_key r'" by blast
    then show ?thesis using ref_key_inj [of r r'] assms v r by (auto simp: list_all_iff)
  qed
  then show "set (dedupeRefs rs) = set rs" using d(2) by auto
qed

text \<open>
  Parsing a dialer field gives references with valid stored names, and formatting
  them and parsing again gives the same list: the canonical form is stable.
\<close>

lemma ParseDialer_canonical:
  assumes "ParseDialer s = Inr refs"
  shows "list_all (\<lambda>r. ValidName (ref_Name r)) refs \<and> ParseDialer (FormatDialer refs) = Inr refs"
proof -
  have v: "list_all valid_ref refs" using assms by (rule ParseDialer_valid)
  then have "list_all (\<lambda>r. ValidName (ref_Name r)) refs" by (simp add: list_all_iff valid_ref_def)
  then show ?thesis using ParseDialer_FormatDialer [OF v] by simp
qed

lemma ParseDialer_canonical_witness:
  "ParseDialer (FormatDialer [\<lparr>ref_Kind = DialerKindXray, ref_Name = ''de-1''\<rparr>, \<lparr>ref_Kind = DialerKindProxy, ref_Name = ''p''\<rparr>]) =
     Inr [\<lparr>ref_Kind = DialerKindXray, ref_Name = ''de-1''\<rparr>, \<lparr>ref_Kind = DialerKindProxy, ref_Name = ''p''\<rparr>]"
proof -
  have "ParseDialer '' XRAY: De-1 ,, proxy:p'' =
      Inr [\<lparr>ref_Kind = DialerKindXray, ref_Name = ''de-1''\<rparr>, \<lparr>ref_Kind = DialerKindProxy, ref_Name = ''p''\<rparr>]" by code_simp
  then show ?thesis using ParseDialer_canonical by blast
qed

text \<open>
  A bulk edit of a dialer field produces a field that parses, without duplicates:
  \<open>add\<close> gives the union with the old references, \<open>remove\<close> the difference, \<open>replace\<close> the
  given ones, and every other mode is an error.
\<close>

lemma EditDialer_correct:
  assumes "list_all valid_ref refs" "ParseDialer current = Inr cur"
  shows "\<exists>out. (mode \<in> {''replace'', ''add'', ''remove''} \<longrightarrow>
        (\<exists>field. EditDialer current mode refs = Inr field \<and> ParseDialer field = Inr out \<and> distinct out)) \<and>
      (mode = ''replace'' \<longrightarrow> set out = set refs) \<and>
      (mode = ''add'' \<longrightarrow> set out = set cur \<union> set refs) \<and>
      (mode = ''remove'' \<longrightarrow> set out = set cur - set refs) \<and>
      (mode \<notin> {''replace'', ''add'', ''remove''} \<longrightarrow> EditDialer current mode refs = Inl (UnknownMode mode))"
proof -
  have cur: "list_all valid_ref cur" using assms(2) by (rule ParseDialer_valid)
  define rs where "rs = (if mode = ''replace'' then refs else if mode = ''add'' then cur @ refs
      else filter (\<lambda>r. ref_key r \<notin> set (map ref_key refs)) cur)"
  have v: "list_all valid_ref rs" using assms(1) cur by (auto simp: rs_def list_all_iff)
  have rem: "{r \<in> set cur. ref_key r \<notin> ref_key ` set refs} = set cur - set refs"
  proof -
    have "ref_key r \<in> ref_key ` set refs \<longleftrightarrow> r \<in> set refs" if "r \<in> set cur" for r
      using that assms(1) cur ref_key_inj [of r] by (force simp: list_all_iff)
    then show ?thesis by auto
  qed
  have e: "EditDialer current mode refs = Inr (FormatDialer (dedupeRefs rs))" if "mode \<in> {''replace'', ''add'', ''remove''}"
    using that by (auto simp: EditDialer_def Let_def assms(2) rs_def)
  show ?thesis
    using e ParseDialer_FormatDialer [OF dedupeRefs_set(2) [OF v]] dedupeRefs_set(1,3) [OF v] rem
    by (intro exI [of _ "dedupeRefs rs"]) (auto simp: rs_def EditDialer_def Let_def)
qed

lemma EditDialer_correct_witness:
  "\<exists>field out. EditDialer ''xray:a,proxy:b'' ''remove'' [\<lparr>ref_Kind = DialerKindXray, ref_Name = ''a''\<rparr>] = Inr field \<and>
     ParseDialer field = Inr out \<and> set out = {\<lparr>ref_Kind = DialerKindProxy, ref_Name = ''b''\<rparr>}"
proof -
  have c: "ParseDialer ''xray:a,proxy:b'' = Inr [\<lparr>ref_Kind = DialerKindXray, ref_Name = ''a''\<rparr>, \<lparr>ref_Kind = DialerKindProxy, ref_Name = ''b''\<rparr>]"
    by code_simp
  have v: "list_all valid_ref [\<lparr>ref_Kind = DialerKindXray, ref_Name = ''a''\<rparr>]" by code_simp
  from EditDialer_correct [OF v c, of "''remove''"] show ?thesis by auto
qed

section \<open>Outbound sets\<close>

record XraySet =
  set_ID :: int
  set_Name :: string
  set_Members :: string
  set_Enabled :: bool

definition SetInterface :: "string \<Rightarrow> string" where "SetInterface name = SetPrefix @ normalizeName name"

definition ParseSetName :: "string \<Rightarrow> string" where
  "ParseSetName s = (if \<not> IsSetInterface s then [] else normalizeName (TrimPrefix s SetPrefix))"

datatype set_error = InvalidSetMember dialer_error | SubscriptionMember string | EmptySet

fun set_members :: "DialerRef list \<Rightarrow> DialerRef list \<Rightarrow> set_error + DialerRef list" where
  "set_members seen [] = Inr []"
| "set_members seen (r # rs) =
     (if ref_Kind r = DialerKindXraysub then Inl (SubscriptionMember (ref_Name r))
      else if r \<in> set seen then set_members seen rs
      else case set_members (r # seen) rs of Inl e \<Rightarrow> Inl e | Inr out \<Rightarrow> Inr (r # out))"

definition ParseSetMembers :: "string \<Rightarrow> set_error + DialerRef list" where
  "ParseSetMembers s =
     (case ParseDialer s of
        Inl e \<Rightarrow> Inl (InvalidSetMember e)
      | Inr refs \<Rightarrow>
          (case set_members [] refs of
             Inl e \<Rightarrow> Inl e
           | Inr out \<Rightarrow> if out = [] then Inl EmptySet else Inr out))"

definition FormatSetMembers :: "DialerRef list \<Rightarrow> string" where "FormatSetMembers refs = FormatDialer refs"

definition member_proxy :: "DialerRef \<Rightarrow> string" where
  "member_proxy r = (if ref_Kind r = DialerKindXray then InternalProxyName (ref_Name r) else ref_Name r)"

definition ExpandMembers :: "DialerRef list \<Rightarrow> string" where
  "ExpandMembers refs =
     (if refs = [] then []
      else if list_all (\<lambda>r. ref_Kind r = DialerKindXray) refs
      then xray_InterfacePrefix @ Join (map ref_Name refs) '',''
      else proxy_InterfacePrefix @ Join (map member_proxy refs) '','')"

definition CanonicalizeInterface :: "string \<Rightarrow> string" where
  "CanonicalizeInterface s =
     (if \<not> IsSetInterface s then s
      else let name = ParseSetName s in if name = [] then s else SetInterface name)"

definition ExpandSetInterface :: "string \<Rightarrow> (string \<rightharpoonup> string) \<Rightarrow> string" where
  "ExpandSetInterface stored expansions =
     (let name = ParseSetName stored in
      if name = [] then stored
      else case expansions name of Some v \<Rightarrow> v | None \<Rightarrow> stored)"

lemma set_members_spec:
  "set_members seen rs = Inr out \<Longrightarrow> distinct out \<and> set out = set rs - set seen \<and> (\<forall>r\<in>set rs. ref_Kind r \<noteq> DialerKindXraysub)"
proof (induction seen rs arbitrary: out rule: set_members.induct)
  case (2 seen r rs)
  show ?case
  proof (cases "r \<in> set seen")
    case True
    then have "ref_Kind r \<noteq> DialerKindXraysub" "set_members seen rs = Inr out" using 2(3) by (simp_all split: if_splits)
    then show ?thesis using 2(1) True by auto
  next
    case False
    obtain out' where o: "ref_Kind r \<noteq> DialerKindXraysub" "set_members (r # seen) rs = Inr out'" "out = r # out'"
      using 2(3) False by (auto split: if_splits sum.splits)
    then have "distinct out' \<and> set out' = set rs - set (r # seen) \<and> (\<forall>r\<in>set rs. ref_Kind r \<noteq> DialerKindXraysub)"
      using 2(2) False by blast
    then show ?thesis using o False by auto
  qed
qed simp

lemma ParseSetMembers_valid:
  assumes "ParseSetMembers s = Inr refs"
  shows "refs \<noteq> []" "distinct refs" "list_all valid_ref refs" "\<And>r. r \<in> set refs \<Longrightarrow> ref_Kind r \<noteq> DialerKindXraysub"
proof -
  obtain rs where rs: "ParseDialer s = Inr rs" "set_members [] rs = Inr refs" "refs \<noteq> []"
    using assms by (auto simp: ParseSetMembers_def split: sum.splits if_splits)
  note m = set_members_spec [OF rs(2)]
  show "refs \<noteq> []" "distinct refs" "\<And>r. r \<in> set refs \<Longrightarrow> ref_Kind r \<noteq> DialerKindXraysub" using rs(3) m by auto
  show "list_all valid_ref refs" using ParseDialer_valid [OF rs(1)] m by (auto simp: list_all_iff)
qed

lemma stored_internal: "stored_name n \<Longrightarrow>
  InternalProxyName n \<noteq> [] \<and> TrimSpace (InternalProxyName n) = InternalProxyName n \<and> CHR '','' \<notin> set (InternalProxyName n)"
proof -
  assume n: "stored_name n"
  have "list_all name_char (InternalProxyName n)"
    using n by (simp add: InternalProxyName_def InternalProxyPrefix_def)
      (simp add: stored_name_def name_char_def is_alnum_def is_lower_def in_range_def ord_def)
  then have "\<not> is_space c \<and> c \<noteq> CHR '',''" if "c \<in> set (InternalProxyName n)" for c
    using that name_charD by (auto simp: list_all_iff)
  then show ?thesis using TrimSpace_id [of "InternalProxyName n"] by (auto simp: InternalProxyName_def InternalProxyPrefix_def)
qed

text \<open>
  The expansion of a set is an interface field that the routing layer reads back as
  the members of the set in their order: as entry names when every member is an xray
  entry, and otherwise as proxy names, with each xray entry under its hidden proxy.
\<close>

lemma ExpandMembers_parses:
  assumes "ParseSetMembers s = Inr refs"
  shows "if list_all (\<lambda>r. ref_Kind r = DialerKindXray) refs
    then xray_ParseInterface (ExpandMembers refs) = map ref_Name refs
    else proxy_ParseInterface (ExpandMembers refs) =
      map (\<lambda>r. if ref_Kind r = DialerKindXray then InternalProxyName (ref_Name r) else ref_Name r) refs"
proof -
  note v = ParseSetMembers_valid [OF assms]
  have n: "x \<noteq> [] \<and> TrimSpace x = x \<and> CHR '','' \<notin> set x" if "x \<in> set (map ref_Name refs)" for x
    using that v(3) stored_name_no_sep by (auto simp: list_all_iff valid_ref_def stored_name_def)
  have p: "x \<noteq> [] \<and> TrimSpace x = x \<and> CHR '','' \<notin> set x" if x: "x \<in> set (map member_proxy refs)" for x
  proof -
    obtain r where r: "r \<in> set refs" "x = member_proxy r" using x by auto
    then have "stored_name (ref_Name r)" using v(3) by (auto simp: list_all_iff valid_ref_def)
    then show ?thesis using stored_internal n r by (auto simp: member_proxy_def)
  qed
  have "split_names (Join (map ref_Name refs) '','') = map ref_Name refs"
    "split_names (Join (map member_proxy refs) '','') = map member_proxy refs"
    using v(1) n p by (simp_all only: split_names_Join map_is_Nil_conv not_False_eq_True simp_thms)
  then show ?thesis using v(1)
    by (simp add: ExpandMembers_def xray_ParseInterface_def proxy_ParseInterface_def IsXrayInterface_def IsProxyInterface_def
        member_proxy_def [abs_def])
qed

lemma ExpandMembers_parses_witness:
  "proxy_ParseInterface (ExpandMembers [\<lparr>ref_Kind = DialerKindXray, ref_Name = ''a''\<rparr>, \<lparr>ref_Kind = DialerKindProxy, ref_Name = ''b''\<rparr>]) =
     [''_xray_a'', ''b'']"
proof -
  have c: "ParseSetMembers ''xray:a,proxy:b,xray:a'' =
      Inr [\<lparr>ref_Kind = DialerKindXray, ref_Name = ''a''\<rparr>, \<lparr>ref_Kind = DialerKindProxy, ref_Name = ''b''\<rparr>]" by code_simp
  have "InternalProxyName ''a'' = ''_xray_a''" by code_simp
  then show ?thesis using ExpandMembers_parses [OF c] by simp
qed

text \<open>
  A set reference resolves whatever its letter case and spacing once it is
  canonicalised, a reference without an expansion is returned verbatim (and is then no
  proxy and no xray field), and other fields pass through.
\<close>

lemma ExpandSetInterface_cases:
  "ExpandSetInterface (CanonicalizeInterface s) expansions =
     (if IsSetInterface s \<and> ParseSetName s \<noteq> [] then
        (case expansions (ParseSetName s) of Some v \<Rightarrow> v | None \<Rightarrow> SetInterface (ParseSetName s))
      else s) \<and>
   \<not> IsXrayInterface (SetInterface n) \<and> \<not> IsProxyInterface (SetInterface n)"
proof -
  have "ParseSetName (SetInterface (ParseSetName s)) = ParseSetName s"
    by (simp add: ParseSetName_def SetInterface_def IsSetInterface_def normalizeName_Nil)
  moreover have "\<not> IsXrayInterface (SetInterface n) \<and> \<not> IsProxyInterface (SetInterface n)"
    by (simp add: IsXrayInterface_def IsProxyInterface_def SetInterface_def SetPrefix_def xray_InterfacePrefix_def proxy_InterfacePrefix_def)
  ultimately show ?thesis
    by (auto simp: ExpandSetInterface_def CanonicalizeInterface_def Let_def ParseSetName_def split: option.split)
qed

section \<open>Suggested names\<close>

fun suggest_loop :: "string \<Rightarrow> bool \<Rightarrow> string \<Rightarrow> string" where
  "suggest_loop [] dash b = b"
| "suggest_loop (r # rs) dash b =
     (if name_char r then suggest_loop rs False (b @ [r])
      else if \<not> dash \<and> b \<noteq> [] then suggest_loop rs True (b @ ''-'')
      else suggest_loop rs dash b)"

definition SuggestName :: "string \<Rightarrow> string" where
  "SuggestName raw =
     (let out = Trim (suggest_loop (normalizeName raw) False []) ''-'';
          out = (if 64 < length out then Trim (take 64 out) ''-'' else out)
      in if out = [] then ''node'' else out)"

lemma suggest_loop_chars: "list_all name_char b \<Longrightarrow> list_all name_char (suggest_loop rs dash b)"
  by (induction rs dash b rule: suggest_loop.induct) (auto simp: name_char_def)

lemma Trim_sub: "list_all P s \<Longrightarrow> list_all P (Trim s cs)" "length (Trim s cs) \<le> length s"
proof -
  show "list_all P s \<Longrightarrow> list_all P (Trim s cs)"
    using set_trim_with [of _ s] by (auto simp: Trim_def list_all_iff)
  show "length (Trim s cs) \<le> length s"
    using length_dropWhile_le [of "\<lambda>c. c \<in> set cs" "rev (dropWhile (\<lambda>c. c \<in> set cs) s)"]
      length_dropWhile_le [of "\<lambda>c. c \<in> set cs" s] by (simp add: Trim_def trim_with_def)
qed

text \<open>
  Whatever the text, \<open>SuggestName\<close> returns a valid name, already in its stored form.
\<close>

lemma SuggestName_valid: "ValidName (SuggestName raw) \<and> normalizeName (SuggestName raw) = SuggestName raw"
proof -
  let ?o1 = "Trim (suggest_loop (normalizeName raw) False []) ''-''"
  let ?o2 = "if 64 < length ?o1 then Trim (take 64 ?o1) ''-'' else ?o1"
  have c: "list_all name_char ?o1" using Trim_sub(1) suggest_loop_chars by simp
  then have "list_all name_char (take 64 ?o1)" by (auto simp: list_all_iff dest: in_set_takeD)
  then have "list_all name_char ?o2" using c Trim_sub(1) by simp
  moreover have "length ?o2 \<le> 64" using Trim_sub(2) [of "take 64 ?o1" "''-''"] by simp
  moreover have "stored_name ''node''" by code_simp
  ultimately have "stored_name (SuggestName raw)" by (auto simp: SuggestName_def Let_def stored_name_def)
  then show ?thesis by simp
qed

section \<open>Ports\<close>

definition PortStart :: int where "PortStart = 11800"
definition PortEnd :: int where "PortEnd = 11899"
definition SlotPortStart :: int where "SlotPortStart = 11900"
definition SlotCount :: int where "SlotCount = 32"
definition ApiPort :: int where "ApiPort = 11932"
definition MetricsPort :: int where "MetricsPort = 11933"
definition ProbePort :: int where "ProbePort = 11934"

definition SlotPort :: "int \<Rightarrow> int" where "SlotPort i = SlotPortStart + i"

text \<open>The scan of \<open>nextFreePort\<close> from port \<open>p\<close>; \<open>None\<close> is \<open>ErrNoPortFree\<close>.\<close>

function port_scan :: "int \<Rightarrow> (int \<Rightarrow> bool) \<Rightarrow> int option" where
  "port_scan p used = (if PortEnd < p then None else if \<not> used p then Some p else port_scan (p + 1) used)"
  by auto
termination by (relation "measure (\<lambda>(p, _). nat (PortEnd + 1 - p))") auto

declare port_scan.simps [simp del]

definition nextFreePort :: "(int \<Rightarrow> bool) \<Rightarrow> int option" where
  "nextFreePort used = port_scan PortStart used"

lemma port_scan_spec:
  "case port_scan p used of
     Some q \<Rightarrow> p \<le> q \<and> q \<le> PortEnd \<and> \<not> used q \<and> (\<forall>x. p \<le> x \<and> x < q \<longrightarrow> used x)
   | None \<Rightarrow> \<forall>x. p \<le> x \<and> x \<le> PortEnd \<longrightarrow> used x"
proof (induction p used rule: port_scan.induct)
  case (1 p used)
  show ?case
  proof (cases "PortEnd < p \<or> \<not> used p")
    case True
    then show ?thesis by (subst port_scan.simps) (auto split: option.splits)
  next
    case False
    then have e: "port_scan p used = port_scan (p + 1) used" by (subst port_scan.simps) simp
    have x: "x = p \<or> p + 1 \<le> x" if "p \<le> x" for x :: int using that by linarith
    show ?thesis using 1 False x unfolding e by (fastforce split: option.splits)
  qed
qed

text \<open>
  \<open>nextFreePort\<close> terminates with the lowest unused port of its range, and fails only
  when every port of the range is used; the range is disjoint from the slot ports and
  from the service ports.
\<close>

lemma nextFreePort_lowest:
  "case nextFreePort used of
     Some q \<Rightarrow> PortStart \<le> q \<and> q \<le> PortEnd \<and> \<not> used q \<and> (\<forall>x. PortStart \<le> x \<and> x < q \<longrightarrow> used x) \<and>
       (\<forall>i. 0 \<le> i \<and> i < SlotCount \<longrightarrow> q \<noteq> SlotPort i) \<and> q \<notin> {ApiPort, MetricsPort, ProbePort}
   | None \<Rightarrow> \<forall>x. PortStart \<le> x \<and> x \<le> PortEnd \<longrightarrow> used x"
  using port_scan_spec [of PortStart used]
  by (auto simp: nextFreePort_def SlotPort_def PortEnd_def SlotPortStart_def ApiPort_def MetricsPort_def ProbePort_def split: option.splits)

lemma nextFreePort_lowest_witness: "nextFreePort (\<lambda>p. p = 11800 \<or> p = 11802) = Some 11801"
proof -
  have "port_scan 11801 (\<lambda>p. p = 11800 \<or> p = 11802) = Some 11801" by (subst port_scan.simps) (simp add: PortEnd_def)
  then have "nextFreePort (\<lambda>p. p = 11800 \<or> p = 11802) \<noteq> None"
    unfolding nextFreePort_def PortStart_def by (subst port_scan.simps) (simp add: PortEnd_def)
  then obtain q where q: "nextFreePort (\<lambda>p. p = 11800 \<or> p = 11802) = Some q" by auto
  show ?thesis
  proof (rule ccontr)
    assume "nextFreePort (\<lambda>p. p = 11800 \<or> p = 11802) \<noteq> Some 11801"
    then have "q \<noteq> 11801" using q by simp
    moreover have "11800 \<le> q" "q \<noteq> 11800" "\<forall>x. 11800 \<le> x \<and> x < q \<longrightarrow> x = 11800 \<or> x = 11802"
      using nextFreePort_lowest [of "\<lambda>p. p = 11800 \<or> p = 11802"] q by (auto simp: PortStart_def)
    moreover from this(3) have "\<not> 11801 < q" by (auto dest: spec [of _ 11801])
    ultimately show False by linarith
  qed
qed

end
