(* ===== verification/Dns_Proxy.thy ===== *)
theory Dns_Proxy
  imports Decision Route_Parsers Interfaces
begin

text \<open>
  \<open>core/dnsproxy/dnsproxy.go\<close>: the DNS server. The handler composes the decision
  engine, the fake-IP pool, the route manager and the proxy table, so its state is the
  record of those four, with the responses written and the log entries made. One query
  is handled at one instant \<open>now\<close>.

  Parameters: the upstream forwarder (its reply is an argument), the check that an
  interface is up, the existence test for a proxy, the runner of \<open>/sbin/route\<close>, and the
  functions \<open>SetRcode\<close>, \<open>SetReply\<close> and \<open>Fqdn\<close> of \<open>github.com/miekg/dns\<close>.
\<close>

section \<open>Messages\<close>

record rr_header =
  rh_Name :: string
  rh_Ttl :: "32 word"

datatype rr =
    A rr_header "ip option"
  | AAAA rr_header "ip option"
  | SOA rr_header string string nat "32 word"
  | OtherRR rr_header

record question =
  qu_Name :: string
  qu_Qtype :: nat

record dns_msg =
  msg_Id :: nat
  msg_Rcode :: nat
  msg_Question :: "question list"
  msg_Answer :: "rr list"
  msg_Ns :: "rr list"
  msg_Truncated :: bool

definition RcodeSuccess :: nat where "RcodeSuccess = 0"
definition RcodeServerFailure :: nat where "RcodeServerFailure = 2"
definition RcodeNameError :: nat where "RcodeNameError = 3"
definition TypeA :: nat where "TypeA = 1"

record dnslib =
  lib_SetRcode :: "dns_msg \<Rightarrow> nat \<Rightarrow> dns_msg"
  lib_SetReply :: "dns_msg \<Rightarrow> dns_msg"
  lib_Fqdn :: "string \<Rightarrow> string"

section \<open>Configuration and state\<close>

record dns_config =
  cfg_NegativeTTL :: "32 word"
  cfg_RouteTTLMin :: duration
  cfg_Routes :: bool
  cfg_Interfaces :: "(string \<Rightarrow> bool) option"
  cfg_Proxies :: "(string \<Rightarrow> bool) option"
  cfg_ProxyTun :: string
  cfg_Logs :: bool
  cfg_Unmatched :: bool

record log_entry =
  le_name :: string
  le_action :: string
  le_iface :: string
  le_ruleID :: int
  le_clientIP :: string

record 'k dns_state =
  ds_engine :: engine
  ds_fakeIP :: "fakeIPPool option"
  ds_world :: "'k world"
  ds_table :: Table
  ds_out :: "dns_msg list"
  ds_log :: "log_entry list"
  ds_unmatched :: "string list"

text \<open>Defaults filled in by \<open>New\<close>; the listeners it does not start are outside the model.\<close>

definition New_config :: "dns_config \<Rightarrow> dns_config" where
  "New_config cfg = cfg\<lparr>cfg_NegativeTTL := (if cfg_NegativeTTL cfg = 0 then 60 else cfg_NegativeTTL cfg),
     cfg_RouteTTLMin := (if cfg_RouteTTLMin cfg = 0 then 30 * second else cfg_RouteTTLMin cfg)\<rparr>"

definition New_pool :: "('s, 'e) FakeIPStore \<Rightarrow> bool \<Rightarrow> bool \<Rightarrow> string \<Rightarrow> duration \<Rightarrow> time \<Rightarrow> 's \<Rightarrow>
    pool_error + (fakeIPPool option \<times> 's)" where
  "New_pool ops enable store cidr leaseTTL now s =
     (if \<not> enable then Inr (None, s)
      else
        (let cidr' = (if cidr = [] then DefaultFakeIPv4CIDR else cidr);
             ttl' = (if leaseTTL \<le> 0 then DefaultFakeIPLeaseTTL else leaseTTL)
         in case newFakeIPPool cidr' ttl' store of
              Inl e \<Rightarrow> Inl e
            | Inr pool \<Rightarrow> (case restore ops now (pool, s) of (pool', s') \<Rightarrow> Inr (Some pool', s'))))"

section \<open>Helpers of the handler\<close>

definition write_msg :: "dns_msg \<Rightarrow> 'k dns_state \<Rightarrow> 'k dns_state" where
  "write_msg m st = st\<lparr>ds_out := ds_out st @ [m]\<rparr>"

definition log_action :: "dns_config \<Rightarrow> string \<Rightarrow> string \<Rightarrow> string \<Rightarrow> int \<Rightarrow> string \<Rightarrow> 'k dns_state \<Rightarrow> 'k dns_state" where
  "log_action cfg name action iface ruleID clientIP st =
     (if \<not> cfg_Logs cfg then st
      else st\<lparr>ds_log := ds_log st @ [\<lparr>le_name = name, le_action = action, le_iface = iface,
             le_ruleID = ruleID, le_clientIP = clientIP\<rparr>]\<rparr>)"

definition parentDomain :: "string \<Rightarrow> string" where
  "parentDomain name = (case Cut name CHR ''.'' of Some (_, rest) \<Rightarrow> rest | None \<Rightarrow> name)"

definition negative_soa :: "dnslib \<Rightarrow> dns_config \<Rightarrow> string \<Rightarrow> rr" where
  "negative_soa lib cfg name =
     SOA \<lparr>rh_Name = lib_Fqdn lib (parentDomain name), rh_Ttl = cfg_NegativeTTL cfg\<rparr>
       ''em-wall.invalid.'' ''em-wall.invalid.'' 1 (cfg_NegativeTTL cfg)"

definition writeNX :: "dnslib \<Rightarrow> dns_config \<Rightarrow> dns_msg \<Rightarrow> string \<Rightarrow> 'k dns_state \<Rightarrow> 'k dns_state" where
  "writeNX lib cfg req name st = write_msg ((lib_SetRcode lib req RcodeNameError)\<lparr>msg_Ns := [negative_soa lib cfg name]\<rparr>) st"

definition writeServFail :: "dnslib \<Rightarrow> dns_msg \<Rightarrow> 'k dns_state \<Rightarrow> 'k dns_state" where
  "writeServFail lib req st = write_msg (lib_SetRcode lib req RcodeServerFailure) st"

definition writeEmpty :: "dnslib \<Rightarrow> dns_config \<Rightarrow> dns_msg \<Rightarrow> string \<Rightarrow> 'k dns_state \<Rightarrow> 'k dns_state" where
  "writeEmpty lib cfg req name st = write_msg ((lib_SetReply lib req)\<lparr>msg_Ns := [negative_soa lib cfg name]\<rparr>) st"

definition translateXrayInterface :: "string \<Rightarrow> string" where
  "translateXrayInterface stored =
     (if \<not> IsXrayInterface stored then stored
      else proxy_InterfacePrefix @ Join (map InternalProxyName (xray_ParseInterface stored)) '','')"

text \<open>
  \<open>resolveIface\<close>: the interface to pin to, or the state after the response that refuses
  the query has been written.
\<close>

definition resolveIface :: "dnslib \<Rightarrow> dns_config \<Rightarrow> string \<Rightarrow> string \<Rightarrow> int \<Rightarrow> string \<Rightarrow> dns_msg \<Rightarrow>
    'k dns_state \<Rightarrow> string + 'k dns_state" where
  "resolveIface lib cfg stored qname ruleID clientIP req st =
     (if IsProxyInterface stored then
        (case cfg_Proxies cfg of
           None \<Rightarrow> Inr (log_action cfg qname ''block-proxy-unsupported'' stored ruleID clientIP (writeServFail lib req st))
         | Some hasProxy \<Rightarrow>
             if cfg_ProxyTun cfg = [] then
               Inr (log_action cfg qname ''block-proxy-unsupported'' stored ruleID clientIP (writeServFail lib req st))
             else if find hasProxy (proxy_ParseInterface stored) = None then
               Inr (log_action cfg qname ''block-proxy-missing'' stored ruleID clientIP (writeNX lib cfg req qname st))
             else Inl (cfg_ProxyTun cfg))
      else Inl stored)"

text \<open>The address and the lifetime of an answer record that carries one.\<close>

fun rr_addr :: "rr \<Rightarrow> (ip \<times> 32 word) option" where
  "rr_addr (A h (Some ip)) = Some (ip, rh_Ttl h)"
| "rr_addr (AAAA h (Some ip)) = Some (ip, rh_Ttl h)"
| "rr_addr _ = None"

definition answer_life :: "dns_config \<Rightarrow> 32 word \<Rightarrow> duration" where
  "answer_life cfg ttl = (let life = int (unat ttl) * second in if life < cfg_RouteTTLMin cfg then cfg_RouteTTLMin cfg else life)"

fun install_answers :: "'k runner \<Rightarrow> (nat \<Rightarrow> bool) \<Rightarrow> dns_config \<Rightarrow> time \<Rightarrow> string \<Rightarrow> int \<Rightarrow> rr list \<Rightarrow>
    'k world \<Rightarrow> route_error option \<times> 'k world" where
  "install_answers run cancelled cfg now iface ruleID [] w = (None, w)"
| "install_answers run cancelled cfg now iface ruleID (r # rs) w =
     (case rr_addr r of
        None \<Rightarrow> install_answers run cancelled cfg now iface ruleID rs w
      | Some (ip, ttl) \<Rightarrow>
          (case Install run cancelled now (ip_String ip) iface (answer_life cfg ttl) ruleID w of
             (Some err, w') \<Rightarrow> (Some err, w')
           | (None, w') \<Rightarrow> install_answers run cancelled cfg now iface ruleID rs w'))"

definition installRoutesFor :: "'k runner \<Rightarrow> (nat \<Rightarrow> bool) \<Rightarrow> dns_config \<Rightarrow> time \<Rightarrow> dns_msg \<Rightarrow> string \<Rightarrow> int \<Rightarrow>
    'k dns_state \<Rightarrow> route_error option \<times> 'k dns_state" where
  "installRoutesFor run cancelled cfg now resp iface ruleID st =
     (if \<not> cfg_Routes cfg \<or> iface = [] then (None, st)
      else case install_answers run cancelled cfg now iface ruleID (msg_Answer resp) (ds_world st) of
        (err, w') \<Rightarrow> (err, st\<lparr>ds_world := w'\<rparr>))"

fun record_answers :: "dns_config \<Rightarrow> time \<Rightarrow> string \<Rightarrow> string list \<Rightarrow> int \<Rightarrow> rr list \<Rightarrow> Table \<Rightarrow> Table" where
  "record_answers cfg now hostname names ruleID [] t = t"
| "record_answers cfg now hostname names ruleID (r # rs) t =
     (case rr_addr r of
        None \<Rightarrow> record_answers cfg now hostname names ruleID rs t
      | Some (ip, ttl) \<Rightarrow> record_answers cfg now hostname names ruleID rs
            (Record now (Some ip) hostname names (answer_life cfg ttl) ruleID t))"

definition recordProxyMapping :: "dns_config \<Rightarrow> time \<Rightarrow> dns_msg \<Rightarrow> string \<Rightarrow> string \<Rightarrow> int \<Rightarrow> 'k dns_state \<Rightarrow> 'k dns_state" where
  "recordProxyMapping cfg now resp hostname stored ruleID st =
     (let names = proxy_ParseInterface stored in
      if names = [] then st
      else st\<lparr>ds_table := record_answers cfg now hostname names ruleID (msg_Answer resp) (ds_table st)\<rparr>)"

section \<open>The handler\<close>

definition arrow :: string where "arrow = [CHR '' '', CHR 0xE2, CHR 0x86, CHR 0x92, CHR '' '']"

definition handleFakeIP :: "dnslib \<Rightarrow> 'k runner \<Rightarrow> (nat \<Rightarrow> bool) \<Rightarrow> dns_config \<Rightarrow> time \<Rightarrow> fakeIPPool \<Rightarrow> dns_msg \<Rightarrow> question \<Rightarrow>
    string \<Rightarrow> string \<Rightarrow> string \<Rightarrow> string \<Rightarrow> int \<Rightarrow> string \<Rightarrow> 'k dns_state \<Rightarrow> 'k dns_state" where
  "handleFakeIP lib run cancelled cfg now pool req q name iface effIface logIface ruleID clientIP st =
     (if qu_Qtype q \<noteq> TypeA then
        log_action cfg name ''route'' logIface ruleID clientIP (writeEmpty lib cfg req name st)
      else
        (let ttl = cfg_RouteTTLMin cfg in
         case Allocate name now pool of
           (None, pool') \<Rightarrow>
             log_action cfg name ''block-fakeip-exhausted'' logIface ruleID clientIP
               (writeServFail lib req (st\<lparr>ds_fakeIP := Some pool'\<rparr>))
         | (Some ip, pool') \<Rightarrow>
             (case (if cfg_Routes cfg then Install run cancelled now (ip_String ip) iface ttl ruleID (ds_world st)
                    else (None, ds_world st)) of
                (Some err, w') \<Rightarrow>
                  log_action cfg name ''block-route-failed'' logIface ruleID clientIP
                    (writeServFail lib req (st\<lparr>ds_world := w', ds_fakeIP := Some (Release name pool')\<rparr>))
              | (None, w') \<Rightarrow>
                  (let st1 = st\<lparr>ds_world := w', ds_fakeIP := Some pool'\<rparr>;
                       st2 = (if cfg_Proxies cfg \<noteq> None
                              then st1\<lparr>ds_table := Record now (Some ip) name (proxy_ParseInterface effIface) ttl ruleID (ds_table st1)\<rparr>
                              else st1);
                       resp = (lib_SetReply lib req)\<lparr>msg_Answer :=
                         [A \<lparr>rh_Name = qu_Name q, rh_Ttl = word_of_int (ttl div second)\<rparr> (Some ip)]\<rparr>
                   in log_action cfg name ''route'' logIface ruleID clientIP (write_msg resp st2)))))"

text \<open>\<open>forward\<close> on the reply of the forwarder: an error, or a message (nil is an error).\<close>

datatype 'e forward_error = UpstreamError 'e | NilResponse

definition forward :: "('e + dns_msg option) \<Rightarrow> dns_msg \<Rightarrow> 'e forward_error + dns_msg" where
  "forward up req =
     (case up of
        Inl e \<Rightarrow> Inl (UpstreamError e)
      | Inr None \<Rightarrow> Inl NilResponse
      | Inr (Some resp) \<Rightarrow> Inr (resp\<lparr>msg_Id := msg_Id req\<rparr>))"

definition is_tunnelled :: "string \<Rightarrow> bool" where
  "is_tunnelled i \<longleftrightarrow> IsProxyInterface i \<or> IsXrayInterface i"

definition handle_route :: "dnslib \<Rightarrow> 'k runner \<Rightarrow> (nat \<Rightarrow> bool) \<Rightarrow> dns_config \<Rightarrow> time \<Rightarrow> ('e + dns_msg option) \<Rightarrow> dns_msg \<Rightarrow>
    question \<Rightarrow> string \<Rightarrow> string \<Rightarrow> decision \<Rightarrow> 'k dns_state \<Rightarrow> 'k dns_state" where
  "handle_route lib run cancelled cfg now up req q name clientIP d st =
     (let effIface = translateXrayInterface (dc_Interface d) in
      case resolveIface lib cfg effIface name (dc_RuleID d) clientIP req st of
        Inr st' \<Rightarrow> st'
      | Inl iface \<Rightarrow>
          (let logIface = (if is_tunnelled (dc_Interface d) then dc_Interface d @ arrow @ iface else iface) in
           if (case cfg_Interfaces cfg of Some isUp \<Rightarrow> \<not> isUp iface | None \<Rightarrow> False) then
             log_action cfg name ''block-iface-down'' logIface (dc_RuleID d) clientIP (writeNX lib cfg req name st)
           else if ds_fakeIP st \<noteq> None \<and> is_tunnelled (dc_Interface d) then
             handleFakeIP lib run cancelled cfg now (the (ds_fakeIP st)) req q name iface effIface logIface (dc_RuleID d) clientIP st
           else
             (case forward up req of
                Inl e \<Rightarrow> log_action cfg name ''forward-failed'' logIface (dc_RuleID d) clientIP (writeServFail lib req st)
              | Inr resp \<Rightarrow>
                  (case installRoutesFor run cancelled cfg now resp iface (dc_RuleID d) st of
                     (Some err, st1) \<Rightarrow>
                       log_action cfg name ''block-route-failed'' logIface (dc_RuleID d) clientIP (writeNX lib cfg req name st1)
                   | (None, st1) \<Rightarrow>
                       (let st2 = (if is_tunnelled (dc_Interface d) \<and> cfg_Proxies cfg \<noteq> None
                                   then recordProxyMapping cfg now resp name effIface (dc_RuleID d) st1 else st1)
                        in log_action cfg name ''route'' logIface (dc_RuleID d) clientIP (write_msg resp st2))))))"

definition handle :: "dnslib \<Rightarrow> 'k runner \<Rightarrow> (nat \<Rightarrow> bool) \<Rightarrow> dns_config \<Rightarrow> time \<Rightarrow> ('e + dns_msg option) \<Rightarrow> string \<Rightarrow> dns_msg \<Rightarrow>
    'k dns_state \<Rightarrow> 'k dns_state" where
  "handle lib run cancelled cfg now up clientIP req st =
     (case msg_Question req of
        [] \<Rightarrow> st
      | q # _ \<Rightarrow>
          (let name = TrimSuffix (ToLower (qu_Name q)) ''.'';
               d = Decide (ds_engine st) name
           in case dc_Outcome d of
                OutcomeBlock \<Rightarrow> log_action cfg name ''block'' [] (dc_RuleID d) clientIP (writeNX lib cfg req name st)
              | OutcomeRoute \<Rightarrow> handle_route lib run cancelled cfg now up req q name clientIP d st
              | OutcomeAllow \<Rightarrow>
                  (case forward up req of
                     Inl e \<Rightarrow> writeServFail lib req st
                   | Inr resp \<Rightarrow>
                       (let st1 = write_msg resp st
                        in if cfg_Unmatched cfg \<and> dc_RuleID d = 0 then st1\<lparr>ds_unmatched := ds_unmatched st1 @ [name]\<rparr> else st1))))"

section \<open>What each helper does\<close>

text \<open>The documented behaviour of the library that the handler relies on.\<close>

definition dnslib_ok :: "dnslib \<Rightarrow> bool" where
  "dnslib_ok lib \<longleftrightarrow>
     (\<forall>req rc. msg_Rcode (lib_SetRcode lib req rc) = rc \<and> msg_Answer (lib_SetRcode lib req rc) = [] \<and>
        msg_Id (lib_SetRcode lib req rc) = msg_Id req) \<and>
     (\<forall>req. msg_Rcode (lib_SetReply lib req) = RcodeSuccess \<and> msg_Answer (lib_SetReply lib req) = [] \<and>
        msg_Id (lib_SetReply lib req) = msg_Id req)"

text \<open>The addresses a message gives to the client, and what one call of the handler wrote.\<close>

definition addrs :: "dns_msg \<Rightarrow> ip set" where
  "addrs m = {ip. \<exists>r\<in>set (msg_Answer m). \<exists>ttl. rr_addr r = Some (ip, ttl)}"

definition written :: "'k dns_state \<Rightarrow> 'k dns_state \<Rightarrow> dns_msg list" where
  "written st st' = drop (length (ds_out st)) (ds_out st')"

text \<open>A response that answers the request and gives the client no address.\<close>

definition refusal :: "dns_msg \<Rightarrow> dns_msg \<Rightarrow> bool" where
  "refusal req m \<longleftrightarrow> addrs m = {} \<and> msg_Id m = msg_Id req"

text \<open>A state that differs from \<open>st\<close> only by one more response and by log entries.\<close>

definition replied :: "dns_msg \<Rightarrow> 'k dns_state \<Rightarrow> 'k dns_state \<Rightarrow> bool" where
  "replied m st st' \<longleftrightarrow> ds_out st' = ds_out st @ [m] \<and> ds_world st' = ds_world st \<and> ds_table st' = ds_table st \<and>
     ds_fakeIP st' = ds_fakeIP st \<and> ds_engine st' = ds_engine st"

lemma log_fields [simp]:
  "ds_out (log_action cfg n a i r c st) = ds_out st" "ds_world (log_action cfg n a i r c st) = ds_world st"
  "ds_table (log_action cfg n a i r c st) = ds_table st" "ds_fakeIP (log_action cfg n a i r c st) = ds_fakeIP st"
  "ds_engine (log_action cfg n a i r c st) = ds_engine st"
  by (simp_all add: log_action_def)

lemma write_fields [simp]:
  "ds_out (write_msg m st) = ds_out st @ [m]" "ds_world (write_msg m st) = ds_world st" "ds_table (write_msg m st) = ds_table st"
  "ds_fakeIP (write_msg m st) = ds_fakeIP st" "ds_engine (write_msg m st) = ds_engine st"
  by (simp_all add: write_msg_def)

lemma refusals:
  assumes "dnslib_ok lib"
  shows "\<exists>m. replied m st (writeNX lib cfg req name st) \<and> msg_Rcode m = RcodeNameError \<and> refusal req m"
    and "\<exists>m. replied m st (writeServFail lib req st) \<and> msg_Rcode m = RcodeServerFailure \<and> refusal req m"
    and "\<exists>m. replied m st (writeEmpty lib cfg req name st) \<and> msg_Rcode m = RcodeSuccess \<and> refusal req m"
  using assms by (simp_all add: writeNX_def writeServFail_def writeEmpty_def replied_def refusal_def addrs_def dnslib_ok_def)

lemma replied_log [simp]: "replied m st (log_action cfg n a i r c st') \<longleftrightarrow> replied m st st'"
  by (simp add: replied_def)

lemma resolveIface_cases:
  assumes "dnslib_ok lib"
  shows "case resolveIface lib cfg stored name r c req st of
      Inl i \<Rightarrow> if IsProxyInterface stored
        then i = cfg_ProxyTun cfg \<and> i \<noteq> [] \<and> cfg_Proxies cfg \<noteq> None \<and> proxy_ParseInterface stored \<noteq> [] else i = stored
    | Inr st' \<Rightarrow> \<exists>m. replied m st st' \<and> refusal req m"
proof -
  have "proxy_ParseInterface stored \<noteq> []" if "find f (proxy_ParseInterface stored) = Some x" for f x using that by auto
  moreover have "\<exists>m. replied m st (writeNX lib cfg req name st) \<and> refusal req m"
    "\<exists>m. replied m st (writeServFail lib req st) \<and> refusal req m"
    using refusals(1,2) [OF assms, where st = st] by blast+
  ultimately show ?thesis by (auto simp: resolveIface_def split: option.split)
qed

lemma install_answers_tracked:
  "install_answers run c cfg now i r rs w = (None, w') \<Longrightarrow>
     (\<forall>h e. mg_routes (fst w) h = Some e \<and> rt_iface e = i \<longrightarrow> (\<exists>e'. mg_routes (fst w') h = Some e' \<and> rt_iface e' = i)) \<and>
     (\<forall>x\<in>set rs. \<forall>ip ttl. rr_addr x = Some (ip, ttl) \<longrightarrow> (\<exists>e. mg_routes (fst w') (ip_String ip) = Some e \<and> rt_iface e = i))"
proof (induction rs arbitrary: w)
  case (Cons x rs)
  show ?case
  proof (cases "rr_addr x")
    case None
    then show ?thesis using Cons by auto
  next
    case (Some a)
    obtain ip ttl where a: "a = (ip, ttl)" by (rule prod.exhaust)
    obtain err w1 where I: "Install run c now (ip_String ip) i (answer_life cfg ttl) r w = (err, w1)" by (rule prod.exhaust)
    have err: "err = None" "install_answers run c cfg now i r rs w1 = (None, w')"
      using Cons.prems Some a I by (auto split: option.splits)
    obtain e where e: "mg_routes (fst w1) = (mg_routes (fst w))(ip_String ip \<mapsto> e)" "rt_iface e = i"
      using Install_tracked [OF I] err(1) by auto
    note ih = Cons.IH [OF err(2)]
    have old: "\<exists>e'. mg_routes (fst w') h = Some e' \<and> rt_iface e' = i" if "mg_routes (fst w) h = Some e'' \<and> rt_iface e'' = i" for h e''
    proof (cases "h = ip_String ip")
      case True
      then show ?thesis using ih e by auto
    next
      case False
      then have "mg_routes (fst w1) h = Some e''" using that e by simp
      then show ?thesis using ih that by blast
    qed
    have "\<exists>e'. mg_routes (fst w') (ip_String ip) = Some e' \<and> rt_iface e' = i" using ih e by auto
    then show ?thesis using ih old Some a by auto
  qed
qed simp

definition mapped :: "Table \<Rightarrow> string \<Rightarrow> string list \<Rightarrow> int \<Rightarrow> ip \<Rightarrow> bool" where
  "mapped t host names r ip \<longleftrightarrow> (\<exists>e. tb_byIP t (ip_String ip) = Some e \<and> en_Hostname e = host \<and>
     en_ProxyNames e = names \<and> en_RuleID e = r)"

lemma Record_mapped:
  "names \<noteq> [] \<Longrightarrow> mapped (Record now (Some ip) host names ttl r t) host names r ip"
  "names \<noteq> [] \<Longrightarrow> mapped t host names r ip' \<Longrightarrow> mapped (Record now (Some ip) host names ttl r t) host names r ip'"
  by (auto simp: mapped_def Record_def Let_def)

lemma record_answers_mapped:
  assumes "names \<noteq> []"
  shows "(\<forall>ip. mapped t host names r ip \<longrightarrow> mapped (record_answers cfg now host names r rs t) host names r ip) \<and>
    (\<forall>x\<in>set rs. \<forall>ip ttl. rr_addr x = Some (ip, ttl) \<longrightarrow> mapped (record_answers cfg now host names r rs t) host names r ip)"
proof (induction rs arbitrary: t)
  case (Cons x rs)
  show ?case
  proof (cases "rr_addr x")
    case None
    then show ?thesis using Cons by auto
  next
    case (Some a)
    obtain ip ttl where a: "a = (ip, ttl)" by (rule prod.exhaust)
    let ?t = "Record now (Some ip) host names (answer_life cfg ttl) r t"
    show ?thesis using Cons.IH [of ?t] Record_mapped [OF assms] Some a by auto
  qed
qed simp

section \<open>The routed query\<close>

definition egress :: "dns_config \<Rightarrow> decision \<Rightarrow> string" where
  "egress cfg d = (if is_tunnelled (dc_Interface d) then cfg_ProxyTun cfg else dc_Interface d)"

definition pinned :: "'k dns_state \<Rightarrow> string \<Rightarrow> ip \<Rightarrow> bool" where
  "pinned st i ip \<longleftrightarrow> (\<exists>e. mg_routes (fst (ds_world st)) (ip_String ip) = Some e \<and> rt_iface e = i)"

lemma installRoutesFor_pinned:
  assumes I: "installRoutesFor run c cfg now resp i r st = (None, st1)" and on: "cfg_Routes cfg" "i \<noteq> []"
    and ip: "ip \<in> addrs resp"
  shows "pinned st1 i ip"
proof -
  obtain err w' where w: "install_answers run c cfg now i r (msg_Answer resp) (ds_world st) = (err, w')" by (rule prod.exhaust)
  then have "err = None" "st1 = st\<lparr>ds_world := w'\<rparr>" using I on by (simp_all add: installRoutesFor_def)
  moreover obtain x ttl where "x \<in> set (msg_Answer resp)" "rr_addr x = Some (ip, ttl)" using ip by (auto simp: addrs_def)
  ultimately show ?thesis using install_answers_tracked w by (simp add: pinned_def) blast
qed

lemma IsProxy_translate: "IsProxyInterface (translateXrayInterface s) \<longleftrightarrow> is_tunnelled s"
  by (simp add: translateXrayInterface_def is_tunnelled_def IsProxyInterface_def)

text \<open>The contract of the routed branch: one response, and its addresses are pinned and mapped.\<close>

definition route_ok_reply :: "dns_msg \<Rightarrow> dns_config \<Rightarrow> string \<Rightarrow> decision \<Rightarrow> 'k dns_state \<Rightarrow> 'k dns_state \<Rightarrow> bool" where
  "route_ok_reply req cfg name d st st' \<longleftrightarrow>
     (\<exists>m. ds_out st' = ds_out st @ [m] \<and> msg_Id m = msg_Id req \<and>
        (cfg_Routes cfg \<and> dc_Interface d \<noteq> [] \<longrightarrow> (\<forall>ip\<in>addrs m. pinned st' (egress cfg d) ip)) \<and>
        (is_tunnelled (dc_Interface d) \<longrightarrow> (\<forall>ip\<in>addrs m.
           mapped (ds_table st') name (proxy_ParseInterface (translateXrayInterface (dc_Interface d))) (dc_RuleID d) ip)))"

lemma refused_ok: "\<exists>m. replied m st st' \<and> refusal req m \<Longrightarrow> route_ok_reply req cfg name d st st'"
  by (auto simp: route_ok_reply_def replied_def refusal_def)

lemma route_ok_reply_answers:
  "route_ok_reply req cfg name d st st' \<Longrightarrow> \<exists>m. ds_out st' = ds_out st @ [m] \<and> msg_Id m = msg_Id req"
  by (auto simp: route_ok_reply_def)

lemma route_ok_reply_log [simp]:
  "route_ok_reply req cfg name d st (log_action cfg n a i r c st') \<longleftrightarrow> route_ok_reply req cfg name d st st'"
  by (simp add: route_ok_reply_def pinned_def)

lemma route_ok_reply_start:
  "ds_out st1 = ds_out st \<Longrightarrow> route_ok_reply req cfg name d st st' = route_ok_reply req cfg name d st1 st'"
  by (simp add: route_ok_reply_def)

lemma handleFakeIP_ok:
  assumes lib: "dnslib_ok lib" and px: "cfg_Proxies cfg \<noteq> None" "proxy_ParseInterface eff \<noteq> []"
    and eff: "eff = translateXrayInterface (dc_Interface d)" and i: "i = egress cfg d"
  shows "route_ok_reply req cfg name d st
    (handleFakeIP lib run c cfg now pool req q name i eff li (dc_RuleID d) ci st)"
proof -
  have nx: "\<exists>m. replied m st' (writeServFail lib req st') \<and> refusal req m"
    "\<exists>m. replied m st' (writeEmpty lib cfg req name st') \<and> refusal req m" for st' :: "'a dns_state"
    using refusals(2,3) [OF lib, where st = st'] by blast+
  have sf: "route_ok_reply req cfg name d st (writeServFail lib req st1)" if "ds_out st1 = ds_out st" for st1
    using refused_ok [OF nx(1)] that by (subst route_ok_reply_start [OF that]) blast
  show ?thesis
  proof (cases "qu_Qtype q = TypeA")
    case False
    then show ?thesis using refused_ok [OF nx(2)] by (simp add: handleFakeIP_def)
  next
    case True
    obtain ipo pool' where al: "Allocate name now pool = (ipo, pool')" by (rule prod.exhaust)
    show ?thesis
    proof (cases ipo)
      case None
      then show ?thesis using True al by (simp add: handleFakeIP_def Let_def sf)
    next
      case (Some ip)
      let ?I = "if cfg_Routes cfg then Install run c now (ip_String ip) i (cfg_RouteTTLMin cfg) (dc_RuleID d) (ds_world st) else (None, ds_world st)"
      obtain err w' where I: "?I = (err, w')" by (rule prod.exhaust)
      show ?thesis
      proof (cases err)
        case (Some e)
        then show ?thesis using True al \<open>ipo = Some ip\<close> I by (simp add: handleFakeIP_def Let_def sf)
      next
        case None
        have pin: "\<exists>e. mg_routes (fst w') (ip_String ip) = Some e \<and> rt_iface e = i" if "cfg_Routes cfg"
        proof -
          have "Install run c now (ip_String ip) i (cfg_RouteTTLMin cfg) (dc_RuleID d) (ds_world st) = (None, w')"
            using I that None by simp
          then show ?thesis using Install_tracked by fastforce
        qed
        let ?st2 = "st\<lparr>ds_world := w', ds_fakeIP := Some pool',
          ds_table := Record now (Some ip) name (proxy_ParseInterface eff) (cfg_RouteTTLMin cfg) (dc_RuleID d) (ds_table st)\<rparr>"
        let ?m = "(lib_SetReply lib req)\<lparr>msg_Answer := [A \<lparr>rh_Name = qu_Name q, rh_Ttl = word_of_int (cfg_RouteTTLMin cfg div second)\<rparr> (Some ip)]\<rparr>"
        have "handleFakeIP lib run c cfg now pool req q name i eff li (dc_RuleID d) ci st =
            log_action cfg name ''route'' li (dc_RuleID d) ci (write_msg ?m ?st2)"
          using True al \<open>ipo = Some ip\<close> I None px by (simp add: handleFakeIP_def Let_def)
        moreover have "addrs ?m = {ip}" "msg_Id ?m = msg_Id req" using lib by (simp_all add: addrs_def dnslib_ok_def)
        ultimately show ?thesis using pin i eff Record_mapped(1) [OF px(2)]
          by (simp add: route_ok_reply_def pinned_def)
      qed
    qed
  qed
qed

lemma handle_route_ok:
  assumes lib: "dnslib_ok lib"
  shows "route_ok_reply req cfg name d st (handle_route lib run c cfg now up req q name ci d st)"
proof -
  let ?eff = "translateXrayInterface (dc_Interface d)"
  have nx: "\<exists>m. replied m st' (writeNX lib cfg req name st') \<and> refusal req m"
    "\<exists>m. replied m st' (writeServFail lib req st') \<and> refusal req m" for st' :: "'a dns_state"
    using refusals(1,2) [OF lib, where st = st'] by blast+
  note rc = resolveIface_cases [OF lib, where cfg = cfg and stored = ?eff and name = name and r = "dc_RuleID d"
    and c = ci and req = req and st = st]
  show ?thesis
  proof (cases "resolveIface lib cfg ?eff name (dc_RuleID d) ci req st")
    case (Inr st')
    then show ?thesis using rc refused_ok by (simp add: handle_route_def Let_def)
  next
    case (Inl i)
    have "if is_tunnelled (dc_Interface d)
      then i = cfg_ProxyTun cfg \<and> i \<noteq> [] \<and> cfg_Proxies cfg \<noteq> None \<and> proxy_ParseInterface ?eff \<noteq> [] else i = ?eff"
      using rc Inl by (simp only: IsProxy_translate sum.case)
    moreover have "?eff = dc_Interface d" if "\<not> is_tunnelled (dc_Interface d)"
      using that by (simp add: is_tunnelled_def translateXrayInterface_def)
    ultimately have tun: "is_tunnelled (dc_Interface d) \<Longrightarrow> i = cfg_ProxyTun cfg \<and> i \<noteq> [] \<and> cfg_Proxies cfg \<noteq> None \<and> proxy_ParseInterface ?eff \<noteq> []"
      and lit: "\<not> is_tunnelled (dc_Interface d) \<Longrightarrow> i = dc_Interface d"
      by (auto split: if_splits)
    have i: "i = egress cfg d" "dc_Interface d \<noteq> [] \<Longrightarrow> i \<noteq> []"
      using tun lit by (cases "is_tunnelled (dc_Interface d)"; auto simp: egress_def)+
    show ?thesis
    proof (cases "(case cfg_Interfaces cfg of Some isUp \<Rightarrow> \<not> isUp i | None \<Rightarrow> False)")
      case True
      then show ?thesis using refused_ok [OF nx(1)] by (simp add: handle_route_def Let_def Inl)
    next
      case up: False
      show ?thesis
      proof (cases "ds_fakeIP st \<noteq> None \<and> is_tunnelled (dc_Interface d)")
        case True
        have "route_ok_reply req cfg name d st
            (handleFakeIP lib run c cfg now (the (ds_fakeIP st)) req q name i ?eff li (dc_RuleID d) ci st)" for li
          by (rule handleFakeIP_ok [OF lib]) (use tun True i in auto)
        then show ?thesis using up True by (simp add: handle_route_def Let_def Inl)
      next
        case nf: False
        show ?thesis
        proof (cases "forward up req")
          case (Inl e)
          then show ?thesis using up nf refused_ok [OF nx(2)] \<open>resolveIface _ _ _ _ _ _ _ _ = Inl i\<close>
            by (auto simp: handle_route_def Let_def)
        next
          case (Inr resp)
          obtain err st1 where I: "installRoutesFor run c cfg now resp i (dc_RuleID d) st = (err, st1)" by (rule prod.exhaust)
          have st1: "ds_out st1 = ds_out st" "ds_table st1 = ds_table st"
            using I by (auto simp: installRoutesFor_def split: if_splits prod.splits)
          show ?thesis
          proof (cases err)
            case (Some e)
            have "route_ok_reply req cfg name d st (writeNX lib cfg req name st1)"
              using refused_ok [OF nx(1)] st1 by (subst route_ok_reply_start [OF st1(1)]) blast
            then show ?thesis using up nf \<open>resolveIface _ _ _ _ _ _ _ _ = Inl i\<close> Inr I Some
              by (auto simp: handle_route_def Let_def)
          next
            case None
            have pin: "pinned st1 i ip" if "cfg_Routes cfg" "dc_Interface d \<noteq> []" "ip \<in> addrs resp" for ip
              using installRoutesFor_pinned [OF _ that(1) i(2) that(3)] I None that(2) by simp
            let ?st2 = "if is_tunnelled (dc_Interface d) \<and> cfg_Proxies cfg \<noteq> None
              then recordProxyMapping cfg now resp name ?eff (dc_RuleID d) st1 else st1"
            have st2: "ds_out ?st2 = ds_out st" "ds_world ?st2 = ds_world st1"
              using st1 by (simp_all add: recordProxyMapping_def Let_def)
            have map: "mapped (ds_table ?st2) name (proxy_ParseInterface ?eff) (dc_RuleID d) ip"
              if "is_tunnelled (dc_Interface d)" "ip \<in> addrs resp" for ip
              using tun [OF that(1)] that(2) record_answers_mapped [of "proxy_ParseInterface ?eff"]
              by (fastforce simp: recordProxyMapping_def that(1) addrs_def)
            have "handle_route lib run c cfg now up req q name ci d st =
                log_action cfg name ''route'' (if is_tunnelled (dc_Interface d) then dc_Interface d @ arrow @ i else i) (dc_RuleID d) ci (write_msg resp ?st2)"
              using up nf \<open>resolveIface _ _ _ _ _ _ _ _ = Inl i\<close> Inr I None by (auto simp: handle_route_def Let_def)
            moreover have "msg_Id resp = msg_Id req" using Inr by (auto simp: forward_def split: sum.splits option.splits)
            ultimately show ?thesis using pin map st2 i by (simp add: route_ok_reply_def pinned_def)
          qed
        qed
      qed
    qed
  qed
qed

lemma lower_comma: "lower c = CHR '','' \<Longrightarrow> c = CHR '',''"
proof (rule ccontr)
  assume l: "lower c = CHR '',''" and n: "c \<noteq> CHR '',''"
  then have u: "65 \<le> ord c" "ord c \<le> 90" "char_of (ord c + 32) = CHR '',''"
    by (auto simp: lower_def is_upper_def in_range_def ord_def split: if_splits)
  then have "(ord c + 32) mod 256 = ord CHR '',''" by (metis ord_def of_char_of)
  then show False using u by (simp add: ord_def)
qed

lemma translate_names:
  assumes "IsXrayInterface s"
  shows "proxy_ParseInterface (translateXrayInterface s) = map InternalProxyName (xray_ParseInterface s)"
proof -
  let ?ns = "map InternalProxyName (xray_ParseInterface s)"
  have ok: "x \<noteq> [] \<and> TrimSpace x = x \<and> CHR '','' \<notin> set x" if x: "x \<in> set ?ns" for x
  proof -
    obtain y where y: "x = InternalProxyName (TrimSpace y)" "y \<in> set (Split (TrimPrefix s xray_InterfacePrefix) CHR '','')" "TrimSpace y \<noteq> []"
      using x assms by (auto simp: xray_ParseInterface_def split_names_def)
    have x': "x = ''_xray_'' @ ToLower (TrimSpace y)"
      using y(1) by (simp add: InternalProxyName_def InternalProxyPrefix_def normalizeName_def)
    have "CHR '','' \<notin> set (TrimSpace y)" using Split_no_sep [OF y(2)] set_TrimSpace by blast
    then have c: "CHR '','' \<notin> set (ToLower (TrimSpace y))"
      by (auto simp: ToLower_def) (metis lower_comma)
    have "\<not> is_space (last (TrimSpace y))" using trim_with_ends [of is_space y] y(3) by (simp add: TrimSpace_def)
    then have "\<not> is_space (last x)" using y(3) by (simp add: x' ToLower_def last_map)
    moreover have "\<not> is_space (hd x)" by (simp add: x' is_space_def ord_def)
    ultimately show ?thesis using c x' unfolding TrimSpace_def by (auto intro!: trim_with_id)
  qed
  show ?thesis
  proof (cases "?ns = []")
    case True
    have "TrimPrefix proxy_InterfacePrefix proxy_InterfacePrefix = []" by code_simp
    then show ?thesis using assms True
      by (simp add: translateXrayInterface_def proxy_ParseInterface_def IsProxyInterface_def split_names_def TrimSpace_def)
  next
    case False
    then have "split_names (Join ?ns '','') = ?ns" using ok by (rule split_names_Join)
    then show ?thesis using assms by (simp add: translateXrayInterface_def proxy_ParseInterface_def IsProxyInterface_def)
  qed
qed

section \<open>Properties\<close>

text \<open>A library that satisfies the contract, and a small server state for the witnesses.\<close>

definition sample_lib :: dnslib where
  "sample_lib = \<lparr>lib_SetRcode = (\<lambda>req rc. req\<lparr>msg_Rcode := rc, msg_Answer := [], msg_Ns := []\<rparr>),
     lib_SetReply = (\<lambda>req. req\<lparr>msg_Rcode := RcodeSuccess, msg_Answer := [], msg_Ns := []\<rparr>),
     lib_Fqdn = (\<lambda>s. s @ ''.'')\<rparr>"

lemma dnslib_ok_sample: "dnslib_ok sample_lib"
  by (simp add: dnslib_ok_def sample_lib_def)

definition sample_cfg :: dns_config where
  "sample_cfg = New_config \<lparr>cfg_NegativeTTL = 0, cfg_RouteTTLMin = 0, cfg_Routes = True, cfg_Interfaces = Some (\<lambda>i. i = ''utun9''),
     cfg_Proxies = Some (\<lambda>n. n = ''_xray_tokyo''), cfg_ProxyTun = ''utun9'', cfg_Logs = True, cfg_Unmatched = True\<rparr>"

definition sample_st :: "(string list \<rightharpoonup> string) dns_state" where
  "sample_st = \<lparr>ds_engine = snd (Reload (Inr [sample_rule 1 ''*.example.com'' ''block'' [],
         sample_rule 2 ''api.example.com'' ''route'' ''xray:tokyo''] :: string + rule list) (Some (Inr Map.empty)) New_engine),
     ds_fakeIP = None, ds_world = (New_manager, Map.empty), ds_table = NewTable 0, ds_out = [], ds_log = [], ds_unmatched = []\<rparr>"

definition ask :: "string \<Rightarrow> dns_msg" where
  "ask n = \<lparr>msg_Id = 7, msg_Rcode = 0, msg_Question = [\<lparr>qu_Name = n, qu_Qtype = TypeA\<rparr>], msg_Answer = [], msg_Ns = [],
     msg_Truncated = False\<rparr>"

definition sample_up :: "string + dns_msg option" where
  "sample_up = Inr (Some ((ask ''api.example.com.'')\<lparr>msg_Answer := [A \<lparr>rh_Name = ''api.example.com.'', rh_Ttl = 300\<rparr> (Some (IPv4 16909060))]\<rparr>))"

abbreviation sample_handle :: "string \<Rightarrow> (string list \<rightharpoonup> string) dns_state" where
  "sample_handle n \<equiv> handle sample_lib (table_run False False) (\<lambda>_. False) sample_cfg 10 sample_up ''127.0.0.1'' (ask n) sample_st"



text \<open>
  C4: A blocked name is never resolved: the client gets exactly one response, NXDOMAIN
  without addresses, and neither the routes nor the proxy table nor the fake-IP pool change.
\<close>

theorem handle_block:
  assumes "dnslib_ok lib" "msg_Question req = q # qs"
    "dc_Outcome (Decide (ds_engine st) (TrimSuffix (ToLower (qu_Name q)) ''.'')) = OutcomeBlock"
  shows "\<exists>m. replied m st (handle lib run cancelled cfg now up clientIP req st) \<and> msg_Rcode m = RcodeNameError \<and> refusal req m"
  using refusals(1) [OF assms(1)] assms(2,3) by (simp add: handle_def Let_def)

theorem handle_block_witness:
  "dc_Outcome (Decide (ds_engine sample_st) ''www.example.com'') = OutcomeBlock \<and>
   (\<exists>m. replied m sample_st (sample_handle ''www.example.com.'') \<and> msg_Rcode m = RcodeNameError \<and> refusal (ask ''www.example.com.'') m)"
proof -
  have q: "msg_Question (ask ''www.example.com.'') = \<lparr>qu_Name = ''www.example.com.'', qu_Qtype = TypeA\<rparr> # []" by (simp add: ask_def)
  have "dc_Outcome (Decide (ds_engine sample_st) ''www.example.com'') = OutcomeBlock"
    "TrimSuffix (ToLower ''www.example.com.'') ''.'' = ''www.example.com''" by code_simp+
  then show ?thesis using handle_block [OF dnslib_ok_sample q, where st = sample_st] by simp
qed

text \<open>
  C2: Every query is answered. A request with a question gets exactly one response on every
  path of the handler (blocked, routed, refused, served from the pool, forwarded or
  failed), and the response carries the identifier of the request.
\<close>

theorem handle_answers:
  assumes "dnslib_ok lib" "msg_Question req \<noteq> []"
  shows "\<exists>m. ds_out (handle lib run cancelled cfg now up clientIP req st) = ds_out st @ [m] \<and> msg_Id m = msg_Id req"
proof -
  obtain q qs where q: "msg_Question req = q # qs" using assms(2) by (cases "msg_Question req") auto
  define name where "name = TrimSuffix (ToLower (qu_Name q)) ''.''"
  define d where "d = Decide (ds_engine st) name"
  note h = handle_def q name_def [symmetric] d_def [symmetric] Let_def
  show ?thesis
  proof (cases "dc_Outcome d")
    case OutcomeBlock
    then show ?thesis using refusals(1) [OF assms(1), where st = st] by (force simp: h replied_def refusal_def)
  next
    case OutcomeRoute
    then show ?thesis using route_ok_reply_answers [OF handle_route_ok [OF assms(1)]] by (simp add: h)
  next
    case OutcomeAllow
    have sf: "\<exists>m. ds_out (writeServFail lib req st) = ds_out st @ [m] \<and> msg_Id m = msg_Id req"
      using refusals(2) [OF assms(1), where st = st] by (auto simp: replied_def refusal_def)
    show ?thesis
    proof (cases "forward up req")
      case (Inl e)
      then show ?thesis using OutcomeAllow sf by (simp add: h)
    next
      case (Inr resp)
      then have "msg_Id resp = msg_Id req" by (auto simp: forward_def split: sum.splits option.splits)
      then show ?thesis using OutcomeAllow Inr by (simp add: h)
    qed
  qed
qed

theorem handle_answers_witness:
  "msg_Question (ask ''other.org.'') \<noteq> [] \<and>
   (\<exists>m. ds_out (sample_handle ''other.org.'') = [m] \<and> msg_Id m = 7)"
proof -
  have "ds_out sample_st = []" "msg_Question (ask ''other.org.'') \<noteq> []" "msg_Id (ask ''other.org.'') = 7"
    by (simp_all add: sample_st_def ask_def)
  then show ?thesis using handle_answers [OF dnslib_ok_sample, where st = sample_st and req = "ask ''other.org.''"] by simp
qed

text \<open>
  C3: The fake-IP answer is the binding. On a consistent pool the handler keeps the pool
  consistent, every address in its response is the one the pool binds to the queried name
  afterwards, and an A query that is refused (pool exhausted, route not installed) leaves
  the name without a binding.
\<close>

theorem handleFakeIP_binding:
  assumes "dnslib_ok lib" "pool_inv pool" "ds_fakeIP st = Some pool"
    "st' = handleFakeIP lib run cancelled cfg now pool req q name iface eff logIface ruleID clientIP st"
    "ds_out st' = ds_out st @ [m]" "ds_fakeIP st' = Some pool'"
  shows "pool_inv pool' \<and> (\<forall>ip\<in>addrs m. \<exists>a. ip = IPv4 a \<and> bound pool' name = Some a) \<and>
    (qu_Qtype q = TypeA \<and> addrs m = {} \<longrightarrow> bound pool' name = None)"
proof (cases "qu_Qtype q = TypeA")
  case False
  obtain m' where "replied m' st (writeEmpty lib cfg req name st)" "addrs m' = {}"
    using refusals(3) [OF assms(1), where st = st and cfg = cfg and req = req and name = name] by (auto simp: refusal_def)
  then show ?thesis using assms False by (simp add: handleFakeIP_def replied_def)
next
  case True
  have al: "pool_inv p1 \<and> (case r of None \<Rightarrow> bound p1 name = None | Some ip \<Rightarrow> \<exists>a. ip = IPv4 a \<and> bound p1 name = Some a)"
    if A: "Allocate name now pool = (r, p1)" for r p1
    using Allocate_spec [OF assms(2), of name now] assms(2) unfolding A by (cases r) auto
  obtain r p1 where A: "Allocate name now pool = (r, p1)" by (rule prod.exhaust)
  have sf: "addrs m = {} \<and> pool' = p'" if "st' = log_action cfg n a l i c (writeServFail lib req s)" "ds_out s = ds_out st" "ds_fakeIP s = Some p'" for n a l i c s p'
    using refusals(2) [OF assms(1), where st = s and req = req] that assms(5,6) by (auto simp: replied_def refusal_def)
  note st' = assms(4) [unfolded handleFakeIP_def Let_def A, simplified True, simplified]
  show ?thesis
  proof (cases r)
    case None
    then show ?thesis using sf [OF st' [simplified None, simplified]] al [OF A] by simp
  next
    case (Some ip)
    obtain a where a: "ip = IPv4 a" "bound p1 name = Some a" "pool_inv p1" using al [OF A] Some by auto
    let ?I = "if cfg_Routes cfg then Install run cancelled now (ip_String ip) iface (cfg_RouteTTLMin cfg) ruleID (ds_world st) else (None, ds_world st)"
    obtain err w' where I: "?I = (err, w')" by (rule prod.exhaust)
    show ?thesis
    proof (cases err)
      case (Some e)
      have "addrs m = {} \<and> pool' = Release name p1"
        using sf [of name "''block-route-failed''" logIface ruleID clientIP "st\<lparr>ds_world := w', ds_fakeIP := Some (Release name p1)\<rparr>"]
          st' \<open>r = Some ip\<close> I Some by simp
      then show ?thesis using Release_spec [OF a(3)] by (simp add: bound_def)
    next
      case None
      then have "pool' = p1" "addrs m = {ip}"
        using st' \<open>r = Some ip\<close> I assms(5,6) by (auto simp: addrs_def Let_def split: if_splits)
      then show ?thesis using a by simp
    qed
  qed
qed

definition sample_pool :: fakeIPPool where
  "sample_pool = (case newFakeIPPool ''198.18.0.0/30'' 40 False of Inr p \<Rightarrow> p | Inl _ \<Rightarrow> undefined)"

lemma sample_pool_inv: "pool_inv sample_pool"
proof -
  have "\<not> isl (newFakeIPPool ''198.18.0.0/30'' 40 False)" by code_simp
  then obtain p where p: "newFakeIPPool ''198.18.0.0/30'' 40 False = Inr p" by (cases "newFakeIPPool ''198.18.0.0/30'' 40 False") auto
  then show ?thesis using newFakeIPPool_inv [OF p] by (simp add: sample_pool_def)
qed

definition fake_query :: "(string list \<rightharpoonup> string) dns_state" where
  "fake_query = handleFakeIP sample_lib (table_run False False) (\<lambda>_. False) sample_cfg 10 sample_pool (ask ''a.com.'')
     \<lparr>qu_Name = ''a.com.'', qu_Qtype = TypeA\<rparr> ''a.com'' ''utun9'' ''proxy:_xray_tokyo'' [] 2 [] (sample_st\<lparr>ds_fakeIP := Some sample_pool\<rparr>)"

theorem handleFakeIP_binding_witness:
  "case (ds_out fake_query, ds_fakeIP fake_query) of
     ([m], Some pool') \<Rightarrow> addrs m = {IPv4 3323068417} \<and> pool_inv pool' \<and> bound pool' ''a.com'' = Some 3323068417
   | _ \<Rightarrow> False"
proof -
  let ?s = "sample_st\<lparr>ds_fakeIP := Some sample_pool\<rparr>"
  have "map (\<lambda>m. map rr_addr (msg_Answer m)) (ds_out fake_query) = [[Some (IPv4 3323068417, 30)]]" by code_simp
  then obtain m r where m: "ds_out fake_query = [m]" "msg_Answer m = [r]" "rr_addr r = Some (IPv4 3323068417, 30)" by auto
  then have a: "addrs m = {IPv4 3323068417}" by (simp add: addrs_def)
  have "ds_fakeIP fake_query \<noteq> None" by code_simp
  then obtain pool' where p: "ds_fakeIP fake_query = Some pool'" by auto
  have o: "ds_out fake_query = ds_out ?s @ [m]" using m(1) by (simp add: sample_st_def)
  have "ds_fakeIP ?s = Some sample_pool" by simp
  from handleFakeIP_binding [OF dnslib_ok_sample sample_pool_inv this fake_query_def o p] show ?thesis using m a p by auto
qed

end
