(* ===== verification/Upstream.thy ===== *)
theory Upstream
  imports Dns_Proxy
begin

text \<open>
  The upstream side of \<open>core/dnsproxy/dnsproxy.go\<close>: \<open>MultiUpstream\<close> with its ranking of
  replies, and the operations of the server around the handler (\<open>SetForwarder\<close>, the
  readiness counter of the two listeners, \<open>Shutdown\<close>). The two DNS clients are parameters:
  a client takes a server, a message and the state of the network, and returns a transport
  error or a reply (possibly nil) with the next state of the network, so that asking the
  same server twice may give different replies.
\<close>

section \<open>Definitions\<close>

type_synonym ('w, 'e) client = "string \<Rightarrow> dns_msg \<Rightarrow> 'w \<Rightarrow> ('e + dns_msg option) \<times> 'w"

record MultiUpstream =
  mu_Servers :: "string list"
  mu_Timeout :: duration

definition NewMultiUpstream :: "string list \<Rightarrow> duration \<Rightarrow> MultiUpstream" where
  "NewMultiUpstream servers timeout =
     \<lparr>mu_Servers = servers, mu_Timeout = (if timeout = 0 then 3 * second else timeout)\<rparr>"

datatype upstream_rank = RankNone | RankSoftFail | RankNXDomain | RankNoData | RankPositive

fun rank_nat :: "upstream_rank \<Rightarrow> nat" where
  "rank_nat RankNone = 0"
| "rank_nat RankSoftFail = 1"
| "rank_nat RankNXDomain = 2"
| "rank_nat RankNoData = 3"
| "rank_nat RankPositive = 4"

instantiation upstream_rank :: linorder
begin
definition less_eq_upstream_rank :: "upstream_rank \<Rightarrow> upstream_rank \<Rightarrow> bool" where "less_eq_upstream_rank a b \<longleftrightarrow> rank_nat a \<le> rank_nat b"
definition less_upstream_rank :: "upstream_rank \<Rightarrow> upstream_rank \<Rightarrow> bool" where "less_upstream_rank a b \<longleftrightarrow> rank_nat a < rank_nat b"
instance
proof
  fix x y z :: upstream_rank
  have inj: "rank_nat x = rank_nat y \<Longrightarrow> x = y" by (cases x; cases y) simp_all
  show "x \<le> y \<Longrightarrow> y \<le> x \<Longrightarrow> x = y" unfolding less_eq_upstream_rank_def by (intro inj) linarith
  show "(x < y) = (x \<le> y \<and> \<not> y \<le> x)" unfolding less_eq_upstream_rank_def less_upstream_rank_def by linarith
  show "x \<le> y \<or> y \<le> x" unfolding less_eq_upstream_rank_def by linarith
  show "x \<le> x" unfolding less_eq_upstream_rank_def by (rule order_refl)
  show "x \<le> y \<Longrightarrow> y \<le> z \<Longrightarrow> x \<le> z" unfolding less_eq_upstream_rank_def by (rule order_trans)
qed
end

definition rankResponse :: "dns_msg \<Rightarrow> upstream_rank" where
  "rankResponse resp =
     (if msg_Rcode resp = RcodeSuccess then (if msg_Answer resp \<noteq> [] then RankPositive else RankNoData)
      else if msg_Rcode resp = RcodeNameError then RankNXDomain
      else RankSoftFail)"

definition exchange :: "('w, 'e) client \<Rightarrow> ('w, 'e) client \<Rightarrow> ('w, 'e) client" where
  "exchange udp tcp srv msg w =
     (case udp srv msg w of
        (Inr (Some resp), w') \<Rightarrow> if msg_Truncated resp then tcp srv msg w' else (Inr (Some resp), w')
      | r \<Rightarrow> r)"

text \<open>The variables of \<open>Forward\<close> that the closure \<open>attempt\<close> captures.\<close>

record 'e forward_vars =
  fv_best :: "dns_msg option"
  fv_bestRank :: upstream_rank
  fv_lastErr :: "'e option"

fun attempt :: "('w, 'e) client \<Rightarrow> dns_msg \<Rightarrow> string list \<Rightarrow> 'e forward_vars \<times> 'w \<Rightarrow> bool \<times> 'e forward_vars \<times> 'w" where
  "attempt ex msg [] (v, w) = (False, v, w)"
| "attempt ex msg (srv # srvs) (v, w) =
     (case ex srv msg w of
        (Inl e, w') \<Rightarrow> attempt ex msg srvs (v\<lparr>fv_lastErr := Some e\<rparr>, w')
      | (Inr None, w') \<Rightarrow> attempt ex msg srvs (v, w')
      | (Inr (Some resp), w') \<Rightarrow>
          (let r = rankResponse resp in
           if r > fv_bestRank v then
             (let v' = v\<lparr>fv_best := Some resp, fv_bestRank := r\<rparr>
              in if r = RankPositive then (True, v', w') else attempt ex msg srvs (v', w'))
           else attempt ex msg srvs (v, w')))"

datatype 'e upstream_error = LastError 'e | NoUpstreamAnswered

definition forward_result :: "'e forward_vars \<Rightarrow> 'e upstream_error + dns_msg" where
  "forward_result v =
     (case fv_best v of
        Some resp \<Rightarrow> Inr resp
      | None \<Rightarrow> Inl (case fv_lastErr v of Some e \<Rightarrow> LastError e | None \<Rightarrow> NoUpstreamAnswered))"

definition Forward :: "('w, 'e) client \<Rightarrow> ('w, 'e) client \<Rightarrow> MultiUpstream \<Rightarrow> dns_msg \<Rightarrow> 'w \<Rightarrow>
    ('e upstream_error + dns_msg) \<times> 'w" where
  "Forward udp tcp m msg w =
     (case attempt (exchange udp tcp) msg (mu_Servers m) (\<lparr>fv_best = None, fv_bestRank = RankNone, fv_lastErr = None\<rparr>, w) of
        (True, v, w1) \<Rightarrow> (forward_result v, w1)
      | (False, v, w1) \<Rightarrow>
          if fv_bestRank v \<le> RankSoftFail then
            (case attempt (exchange udp tcp) msg (mu_Servers m) (v, w1) of (_, v', w2) \<Rightarrow> (forward_result v', w2))
          else (forward_result v, w1))"

text \<open>\<open>SetForwarder\<close>, the readiness of the two listeners, and \<open>Shutdown\<close>.\<close>

definition SetForwarder :: "'f option \<Rightarrow> 'f \<Rightarrow> 'f" where
  "SetForwarder f cur = (case f of None \<Rightarrow> cur | Some g \<Rightarrow> g)"

record listeners =
  sv_ready :: "bool option"  \<comment> \<open>the channel: absent, open or closed\<close>
  sv_readyN :: nat

definition Ready :: "listeners \<Rightarrow> listeners" where
  "Ready s = (if sv_ready s = None then s\<lparr>sv_ready := Some False\<rparr> else s)"

definition markListenerReady :: "listeners \<Rightarrow> listeners" where
  "markListenerReady s =
     (let s1 = s\<lparr>sv_readyN := sv_readyN s + 1\<rparr>
      in if sv_readyN s1 = 2 \<and> sv_ready s1 \<noteq> None then s1\<lparr>sv_ready := Some True\<rparr> else s1)"

definition Shutdown :: "('s, 'e) FakeIPStore \<Rightarrow> batch \<Rightarrow> batch \<Rightarrow> fakeIPPool option \<times> 's \<Rightarrow> fakeIPPool option \<times> 's" where
  "Shutdown ops ds qs = (\<lambda>(fakeIP, s).
     case fakeIP of None \<Rightarrow> (None, s) | Some p \<Rightarrow> (case flush ops ds qs (p, s) of (p', s') \<Rightarrow> (Some p', s')))"

section \<open>The replies received\<close>

text \<open>
  The replies in the order in which they arrive, as a specification: one pass asks the
  servers in order and stops after the first positive reply, and a second pass follows
  when nothing better than a soft failure came back.
\<close>

fun pass :: "('w, 'e) client \<Rightarrow> dns_msg \<Rightarrow> string list \<Rightarrow> 'w \<Rightarrow> ('e + dns_msg option) list \<times> 'w" where
  "pass ex msg [] w = ([], w)"
| "pass ex msg (srv # srvs) w =
     (case ex srv msg w of
        (r, w1) \<Rightarrow>
          if (case r of Inr (Some resp) \<Rightarrow> rankResponse resp = RankPositive | _ \<Rightarrow> False) then ([r], w1)
          else (case pass ex msg srvs w1 of (rs, w2) \<Rightarrow> (r # rs, w2)))"

definition responses :: "('e + dns_msg option) list \<Rightarrow> dns_msg list" where
  "responses rs = concat (map (\<lambda>r. case r of Inr (Some m) \<Rightarrow> [m] | _ \<Rightarrow> []) rs)"

definition received :: "('w, 'e) client \<Rightarrow> dns_msg \<Rightarrow> string list \<Rightarrow> 'w \<Rightarrow> ('e + dns_msg option) list" where
  "received ex msg srvs w =
     (case pass ex msg srvs w of
        (rs, w1) \<Rightarrow> if list_all (\<lambda>m. rankResponse m = RankSoftFail) (responses rs)
                    then rs @ fst (pass ex msg srvs w1) else rs)"

definition upstream_replies :: "('w, 'e) client \<Rightarrow> ('w, 'e) client \<Rightarrow> MultiUpstream \<Rightarrow> dns_msg \<Rightarrow> 'w \<Rightarrow> ('e + dns_msg option) list" where
  "upstream_replies udp tcp m msg w = received (exchange udp tcp) msg (mu_Servers m) w"

lemma responses_simps [simp]:
  "responses [] = []" "responses (Inl e # rs) = responses rs" "responses (Inr None # rs) = responses rs"
  "responses (Inr (Some m) # rs) = m # responses rs" "responses (a @ b) = responses a @ responses b"
  by (simp_all add: responses_def)

lemma rank_bounds [simp]: "RankSoftFail \<le> rankResponse m" "rankResponse m \<le> RankPositive" "RankNone < rankResponse m"
    "RankPositive \<le> r \<longleftrightarrow> r = RankPositive" "r \<le> RankSoftFail \<longleftrightarrow> r = RankNone \<or> r = RankSoftFail" "RankNone < RankSoftFail"
  by (cases r; auto simp: rankResponse_def less_eq_upstream_rank_def less_upstream_rank_def)+

text \<open>The best variable holds a reply of maximal rank among those seen.\<close>

definition best_of :: "dns_msg list \<Rightarrow> dns_msg option \<Rightarrow> upstream_rank \<Rightarrow> bool" where
  "best_of ms b r \<longleftrightarrow>
     (case b of None \<Rightarrow> ms = [] \<and> r = RankNone
      | Some m \<Rightarrow> m \<in> set ms \<and> rankResponse m = r \<and> (\<forall>m'\<in>set ms. rankResponse m' \<le> r))"

lemma best_of_snoc:
  assumes "best_of ms b r"
  shows "r < rankResponse m \<Longrightarrow> best_of (ms @ [m]) (Some m) (rankResponse m)"
    and "\<not> r < rankResponse m \<Longrightarrow> best_of (ms @ [m]) b r"
proof -
  show "best_of (ms @ [m]) (Some m) (rankResponse m)" if "r < rankResponse m"
    using assms that by (cases b) (auto simp: best_of_def intro: order_trans less_imp_le)
  show "best_of (ms @ [m]) b r" if "\<not> r < rankResponse m"
    using assms that by (cases b) (auto simp: best_of_def)
qed

lemma attempt_pass:
  assumes "attempt ex msg srvs (v, w) = (pos, v', w')" "pass ex msg srvs w = (rs, w1)"
    "best_of ms (fv_best v) (fv_bestRank v)" "fv_bestRank v \<noteq> RankPositive"
  shows "w' = w1 \<and> best_of (ms @ responses rs) (fv_best v') (fv_bestRank v') \<and>
    (pos \<longleftrightarrow> fv_bestRank v' = RankPositive)"
  using assms
proof (induction srvs arbitrary: v w ms rs w1)
  case (Cons srv srvs)
  obtain r w2 where ex: "ex srv msg w = (r, w2)" by (rule prod.exhaust)
  obtain rs2 w3 where p: "pass ex msg srvs w2 = (rs2, w3)" by (rule prod.exhaust)
  note IH = Cons.IH [OF _ p]
  show ?case
  proof (cases r)
    case (Inl e)
    then show ?thesis using IH [of "v\<lparr>fv_lastErr := Some e\<rparr>" ms] Cons.prems ex p by auto
  next
    case (Inr o')
    show ?thesis
    proof (cases o')
      case None
      then show ?thesis using IH [of v ms] Cons.prems ex p Inr by auto
    next
      case (Some m)
      have pv: "pass ex msg (srv # srvs) w = (if rankResponse m = RankPositive then ([r], w2) else (r # rs2, w3))"
        using ex p Inr Some by simp
      show ?thesis
      proof (cases "fv_bestRank v < rankResponse m")
        case True
        note b = best_of_snoc(1) [OF Cons.prems(3) True]
        show ?thesis
        proof (cases "rankResponse m = RankPositive")
          case pos: True
          then show ?thesis using Cons.prems ex Inr Some True b pv by auto
        next
          case False
          then show ?thesis
            using IH [of "v\<lparr>fv_best := Some m, fv_bestRank := rankResponse m\<rparr>" "ms @ [m]"] Cons.prems ex Inr Some True b pv
            by (auto simp: Let_def)
        qed
      next
        case False
        have np: "rankResponse m \<noteq> RankPositive" using False Cons.prems(4) by (metis not_less rank_bounds(4))
        then show ?thesis
          using IH [of v "ms @ [m]"] best_of_snoc(2) [OF Cons.prems(3) False] Cons.prems ex Inr Some False pv by (auto simp: Let_def)
      qed
    qed
  qed
qed auto

definition errors :: "('e + dns_msg option) list \<Rightarrow> 'e list" where
  "errors rs = concat (map (\<lambda>r. case r of Inl e \<Rightarrow> [e] | Inr _ \<Rightarrow> []) rs)"

lemma errors_simps [simp]:
  "errors [] = []" "errors (Inl e # rs) = e # errors rs" "errors (Inr x # rs) = errors rs" "errors (a @ b) = errors a @ errors b"
  by (simp_all add: errors_def)

definition last_error :: "'e option \<Rightarrow> 'e list \<Rightarrow> 'e option" where
  "last_error e es = (if es = [] then e else Some (last es))"

lemma last_error_simps [simp]:
  "last_error e [] = e" "last_error e (x # es) = last_error (Some x) es" "last_error (last_error e es) fs = last_error e (es @ fs)"
  by (simp_all add: last_error_def)

lemma attempt_err:
  assumes "attempt ex msg srvs (v, w) = (pos, v', w')" "pass ex msg srvs w = (rs, w1)" "fv_bestRank v \<noteq> RankPositive"
  shows "fv_lastErr v' = last_error (fv_lastErr v) (errors rs)"
  using assms
proof (induction srvs arbitrary: v w rs w1)
  case (Cons srv srvs)
  obtain r w2 where ex: "ex srv msg w = (r, w2)" by (rule prod.exhaust)
  obtain rs2 w3 where p: "pass ex msg srvs w2 = (rs2, w3)" by (rule prod.exhaust)
  note IH = Cons.IH [OF _ p]
  have np: "rankResponse m \<noteq> RankPositive" if "\<not> fv_bestRank v < rankResponse m" for m
    using that Cons.prems(3) by (metis not_less rank_bounds(4))
  consider (err) e where "r = Inl e" | (nil) "r = Inr None" | (resp) m where "r = Inr (Some m)"
    by (cases r) auto
  then show ?case
  proof cases
    case err
    then show ?thesis using IH [of "v\<lparr>fv_lastErr := Some e\<rparr>"] Cons.prems ex p by auto
  next
    case nil
    then show ?thesis using IH [of v] Cons.prems ex p by auto
  next
    case resp
    then show ?thesis using IH [of v] IH [of "v\<lparr>fv_best := Some m, fv_bestRank := rankResponse m\<rparr>"] np [of m] Cons.prems ex p
      by (auto simp: Let_def split: if_splits)
  qed
qed auto

lemma best_of_unique_rank:
  assumes "best_of ms b r"
  shows "r \<le> RankSoftFail \<longleftrightarrow> list_all (\<lambda>m. rankResponse m = RankSoftFail) ms"
proof (cases b)
  case None
  then show ?thesis using assms by (auto simp: best_of_def)
next
  case (Some m)
  then have m: "m \<in> set ms" "rankResponse m = r" "\<And>m'. m' \<in> set ms \<Longrightarrow> rankResponse m' \<le> r" using assms by (auto simp: best_of_def)
  have "rankResponse m' = RankSoftFail" if "r \<le> RankSoftFail" "m' \<in> set ms" for m'
    using m(3) [OF that(2)] that(1) rank_bounds(1) [of m'] by (meson order_antisym order_trans)
  moreover have "r \<le> RankSoftFail" if "list_all (\<lambda>m. rankResponse m = RankSoftFail) ms"
    using that m by (auto simp: list_all_iff)
  ultimately show ?thesis by (auto simp: list_all_iff)
qed

section \<open>Properties\<close>

text \<open>
  C5: The upstream ranking. \<open>Forward\<close> returns, of all the replies received in its one or
  two passes, one of maximal rank: an answer beats NODATA, which beats NXDOMAIN, which beats a
  server failure, whatever the order of the servers. It fails only when no server
  replied, and then reports the last transport error, if there was one.
\<close>

theorem Forward_best:
  "case fst (Forward udp tcp m msg w) of
      Inr resp \<Rightarrow> ListMem resp (responses (upstream_replies udp tcp m msg w)) \<and>
        list_all (\<lambda>m'. rankResponse m' \<le> rankResponse resp) (responses (upstream_replies udp tcp m msg w))
    | Inl err \<Rightarrow> responses (upstream_replies udp tcp m msg w) = [] \<and>
        err = (case last_error None (errors (upstream_replies udp tcp m msg w)) of Some e \<Rightarrow> LastError e | None \<Rightarrow> NoUpstreamAnswered)"
proof -
  let ?ex = "exchange udp tcp" and ?S = "mu_Servers m" and ?v0 = "\<lparr>fv_best = None, fv_bestRank = RankNone, fv_lastErr = None\<rparr>"
  obtain pos v w1 where a: "attempt ?ex msg ?S (?v0, w) = (pos, v, w1)" by (metis prod.exhaust)
  obtain rs u1 where p: "pass ?ex msg ?S w = (rs, u1)" by (rule prod.exhaust)
  have "best_of [] (fv_best ?v0) (fv_bestRank ?v0)" by (simp add: best_of_def)
  from attempt_pass [OF a p this] attempt_err [OF a p]
  have 1: "w1 = u1" "best_of (responses rs) (fv_best v) (fv_bestRank v)" "pos \<longleftrightarrow> fv_bestRank v = RankPositive"
    "fv_lastErr v = last_error None (errors rs)" by simp_all
  have goal: ?thesis if "fst (Forward udp tcp m msg w) = forward_result v'" "best_of (responses (upstream_replies udp tcp m msg w)) (fv_best v') (fv_bestRank v')"
    "fv_lastErr v' = last_error None (errors (upstream_replies udp tcp m msg w))" for v'
    using that by (cases "fv_best v'") (auto simp: forward_result_def best_of_def list_all_iff ListMem_iff)
  show ?thesis
  proof (cases "fv_bestRank v \<le> RankSoftFail")
    case True
    obtain pos' v' w2 where a2: "attempt ?ex msg ?S (v, w1) = (pos', v', w2)" by (metis prod.exhaust)
    obtain rs' u2 where p2: "pass ?ex msg ?S w1 = (rs', u2)" by (rule prod.exhaust)
    have np: "fv_bestRank v \<noteq> RankPositive" using True by auto
    have R: "upstream_replies udp tcp m msg w = rs @ rs'"
      using True p p2 best_of_unique_rank [OF 1(2)] 1(1) by (simp add: upstream_replies_def received_def)
    have "fst (Forward udp tcp m msg w) = forward_result v'"
      using a a2 True 1(3) np by (simp add: Forward_def del: rank_bounds)
    then show ?thesis using goal attempt_pass [OF a2 p2 1(2) np] attempt_err [OF a2 p2 np] R 1(4) by simp
  next
    case False
    have "upstream_replies udp tcp m msg w = rs" using False p best_of_unique_rank [OF 1(2)] by (simp add: upstream_replies_def received_def del: rank_bounds)
    moreover have "fst (Forward udp tcp m msg w) = forward_result v"
      using a False by (cases pos) (simp_all add: Forward_def del: rank_bounds)
    ultimately show ?thesis using goal 1 by simp
  qed
qed

end
