(* ===== verification/Dialer_Graph.thy ===== *)
theory Dialer_Graph
  imports Interfaces
begin

text \<open>
  The rest of \<open>core/xray/dialer.go\<close>: the cycle check on the graph of master entries,
  slots and their tags; the reader of balancer winners of \<open>core/xray/observatory.go\<close>; the
  strategies of \<open>core/xray/strategy.go\<close>; the multiplexing rules of \<open>core/xray/mux.go\<close>.

  The recursive closure \<open>dfs\<close> of the code is a function with fuel; its fuel is the number
  of names in the graph, and the correctness theorem shows that this is always enough.
\<close>

section \<open>The depth-first search\<close>

record Config =
  cf_ID :: int
  cf_Name :: string
  cf_Dialer :: string

datatype color = White | Visiting | Done

type_synonym adjacency = "string \<Rightarrow> string list"
type_synonym coloring = "string \<Rightarrow> color"

fun dfs :: "nat \<Rightarrow> adjacency \<Rightarrow> string \<Rightarrow> coloring \<Rightarrow> (bool \<times> coloring) option"
and dfs_each :: "nat \<Rightarrow> adjacency \<Rightarrow> string list \<Rightarrow> coloring \<Rightarrow> (bool \<times> coloring) option" where
  "dfs 0 adj n c = None"
| "dfs (Suc f) adj n c =
     (case dfs_each f adj (adj n) (c(n := Visiting)) of
        None \<Rightarrow> None
      | Some (True, c') \<Rightarrow> Some (True, c')
      | Some (False, c') \<Rightarrow> Some (False, c'(n := Done)))"
| "dfs_each f adj [] c = Some (False, c)"
| "dfs_each f adj (m # ms) c =
     (if c m = Visiting then Some (True, c)
      else if c m = White then
        (case dfs f adj m c of
           None \<Rightarrow> None
         | Some (True, c') \<Rightarrow> Some (True, c')
         | Some (False, c') \<Rightarrow> dfs_each f adj ms c')
      else dfs_each f adj ms c)"

definition put_entry :: "int \<Rightarrow> Config \<Rightarrow> (string \<times> string list) list \<Rightarrow> (string \<times> string list) list" where
  "put_entry selfID cf acc =
     (if cf_ID cf = selfID then acc
      else case ParseDialer (cf_Dialer cf) of
        Inl _ \<Rightarrow> acc
      | Inr refs \<Rightarrow> (normalizeName (cf_Name cf), fst (RefsByKind refs)) # acc)"

text \<open>The adjacency map as an association list, the latest write first.\<close>

definition dialer_edges :: "Config list \<Rightarrow> int \<Rightarrow> string \<Rightarrow> string \<Rightarrow> (string \<times> string list) list" where
  "dialer_edges entries selfID selfName selfDialer =
     (normalizeName selfName,
      fst (RefsByKind (case ParseDialer selfDialer of Inl _ \<Rightarrow> [] | Inr refs \<Rightarrow> refs))) # fold (put_entry selfID) entries []"

definition adj_of :: "(string \<times> string list) list \<Rightarrow> adjacency" where
  "adj_of es n = (case map_of es n of None \<Rightarrow> [] | Some ms \<Rightarrow> ms)"

definition edge_names :: "(string \<times> string list) list \<Rightarrow> string list" where
  "edge_names es = map fst es @ concat (map snd es)"

definition DetectDialerCycle :: "Config list \<Rightarrow> int \<Rightarrow> string \<Rightarrow> string \<Rightarrow> bool option" where
  "DetectDialerCycle entries selfID selfName selfDialer =
     (let es = dialer_edges entries selfID selfName selfDialer in
      map_option fst (dfs (length (edge_names es)) (adj_of es) (normalizeName selfName) (\<lambda>_. White)))"

section \<open>Correctness of the search\<close>

definition edges :: "adjacency \<Rightarrow> (string \<times> string) set" where
  "edges adj = {(x, y). y \<in> set (adj x)}"

lemma edges_iff [simp]: "(x, y) \<in> edges adj \<longleftrightarrow> y \<in> set (adj x)"
  by (simp add: edges_def)

definition finished :: "coloring \<Rightarrow> string set" where "finished c = {x. c x = Done}"
definition visiting :: "coloring \<Rightarrow> string set" where "visiting c = {x. c x = Visiting}"
definition white :: "coloring \<Rightarrow> string set" where "white c = {x. c x = White}"

text \<open>The finished nodes are closed under edges and lie on no cycle.\<close>

definition clean :: "adjacency \<Rightarrow> string set \<Rightarrow> bool" where
  "clean adj D \<longleftrightarrow> (\<forall>x\<in>D. set (adj x) \<subseteq> D \<and> (x, x) \<notin> (edges adj)\<^sup>+)"

lemma clean_reach: "clean adj D \<Longrightarrow> x \<in> D \<Longrightarrow> (x, y) \<in> (edges adj)\<^sup>* \<Longrightarrow> y \<in> D"
proof -
  assume c: "clean adj D" and x: "x \<in> D"
  show "(x, y) \<in> (edges adj)\<^sup>* \<Longrightarrow> y \<in> D"
    by (induction rule: rtrancl_induct) (use c x in \<open>auto simp: clean_def\<close>)
qed

lemma clean_insert:
  assumes c: "clean adj D" and n: "set (adj n) \<subseteq> D" "n \<notin> D"
  shows "clean adj (insert n D)"
proof -
  have "(n, n) \<notin> (edges adj)\<^sup>+"
  proof
    assume "(n, n) \<in> (edges adj)\<^sup>+"
    then obtain m where "m \<in> set (adj n)" "(m, n) \<in> (edges adj)\<^sup>*" by (auto simp: trancl_unfold_left)
    then show False using clean_reach [OF c] n by blast
  qed
  then show ?thesis using c n unfolding clean_def by blast
qed

text \<open>
  The contract of the search at node \<open>n\<close> with the visiting nodes \<open>V\<close> on the path to it:
  a positive answer exhibits a cycle below the visiting nodes, a negative one finishes
  the node and everything below it.
\<close>

definition path_to :: "adjacency \<Rightarrow> string set \<Rightarrow> string \<Rightarrow> bool" where
  "path_to adj V n \<longleftrightarrow> (\<forall>v\<in>V. (v, n) \<in> (edges adj)\<^sup>*)"

definition has_cycle_from :: "adjacency \<Rightarrow> string \<Rightarrow> bool" where
  "has_cycle_from adj n \<longleftrightarrow> (\<exists>x. (n, x) \<in> (edges adj)\<^sup>* \<and> (x, x) \<in> (edges adj)\<^sup>+)"

lemma cycle_via: "(n, m) \<in> (edges adj)\<^sup>* \<Longrightarrow> has_cycle_from adj m \<Longrightarrow> has_cycle_from adj n"
  unfolding has_cycle_from_def by (meson rtrancl_trans)

lemma dfs_sound:
  shows "dfs f adj n c = Some (r, c') \<Longrightarrow> c n = White \<Longrightarrow> path_to adj (visiting c) n \<Longrightarrow> clean adj (finished c) \<Longrightarrow>
      (if r then has_cycle_from adj n
       else visiting c' = visiting c \<and> finished c \<subseteq> finished c' \<and> n \<in> finished c' \<and> clean adj (finished c'))"
    and "dfs_each f adj ms c = Some (r, c') \<Longrightarrow> n \<in> visiting c \<Longrightarrow> set ms \<subseteq> set (adj n) \<Longrightarrow>
      path_to adj (visiting c) n \<Longrightarrow> clean adj (finished c) \<Longrightarrow>
      (if r then has_cycle_from adj n
       else visiting c' = visiting c \<and> finished c \<subseteq> finished c' \<and> set ms \<subseteq> finished c' \<and> clean adj (finished c'))"
proof (induction f adj n c and f adj ms c arbitrary: r c' and r c' n rule: dfs_dfs_each.induct)
  case (2 f adj n c)
  let ?c = "c(n := Visiting)"
  obtain r1 c1 where e: "dfs_each f adj (adj n) ?c = Some (r1, c1)"
    using 2(2) by (auto split: option.splits)
  have v: "visiting ?c = insert n (visiting c)" "finished ?c = finished c" using 2(3) by (auto simp: visiting_def finished_def)
  have p: "path_to adj (visiting ?c) n" using 2(4) by (simp add: v path_to_def)
  have ih: "if r1 then has_cycle_from adj n
       else visiting c1 = visiting ?c \<and> finished ?c \<subseteq> finished c1 \<and> set (adj n) \<subseteq> finished c1 \<and> clean adj (finished c1)"
    using 2(1) [OF e, of n, unfolded v] p [unfolded v] 2(5) unfolding v by simp
  show ?case
  proof (cases r1)
    case True
    then show ?thesis using 2(2) e ih by simp
  next
    case False
    then have res: "r = False" "c' = c1(n := Done)" using 2(2) e by auto
    have n: "n \<in> visiting c1" using ih False v by simp
    then have n': "n \<notin> finished c1" by (simp add: visiting_def finished_def)
    have "finished c' = insert n (finished c1)" "visiting c' = visiting c1 - {n}"
      by (auto simp: res finished_def visiting_def)
    moreover have "n \<notin> visiting c" using 2(3) by (simp add: visiting_def)
    ultimately show ?thesis using ih False res n n' v clean_insert [of adj "finished c1" n] by auto
  qed
next
  case (4 f adj m ms c)
  have edge: "m \<in> set (adj n)" using 4(6) by simp
  then have nm: "(n, m) \<in> (edges adj)\<^sup>*" by (simp add: r_into_rtrancl)
  show ?case
  proof (cases "c m")
    case Visiting
    then have "(m, n) \<in> (edges adj)\<^sup>*" using 4(7) by (simp add: path_to_def visiting_def)
    then have "(n, n) \<in> (edges adj)\<^sup>+" using edge by (auto intro: rtrancl_into_trancl2)
    then have "has_cycle_from adj n" unfolding has_cycle_from_def by blast
    then show ?thesis using 4(4) Visiting by simp
  next
    case White
    obtain r1 c1 where d: "dfs f adj m c = Some (r1, c1)" using 4(4) White by (auto split: option.splits)
    have pm: "path_to adj (visiting c) m" using 4(7) nm unfolding path_to_def by (meson rtrancl_trans)
    have nv: "\<not> c m = Visiting" using White by simp
    note ih = 4(1) [OF nv White d White pm 4(8)]
    show ?thesis
    proof (cases r1)
      case True
      then show ?thesis using 4(4) White d ih cycle_via [OF nm] by simp
    next
      case False
      then have e: "dfs_each f adj ms c1 = Some (r, c')" using 4(4) White d by simp
      have c1: "visiting c1 = visiting c" "finished c \<subseteq> finished c1" "m \<in> finished c1" "clean adj (finished c1)" using ih False by auto
      have "if r then has_cycle_from adj n
         else visiting c' = visiting c1 \<and> finished c1 \<subseteq> finished c' \<and> set ms \<subseteq> finished c' \<and> clean adj (finished c')"
        using 4(2) [OF nv White d, of False c1] e False c1 4(5-7) by simp
      moreover have "finished c \<subseteq> finished c' \<and> m \<in> finished c'" if "finished c1 \<subseteq> finished c'"
        using that c1(2,3) by blast
      ultimately show ?thesis using c1(1) by simp
    qed
  next
    case Done
    then have e: "dfs_each f adj ms c = Some (r, c')" using 4(4) by simp
    have "if r then has_cycle_from adj n
       else visiting c' = visiting c \<and> finished c \<subseteq> finished c' \<and> set ms \<subseteq> finished c' \<and> clean adj (finished c')"
      using 4(3) [OF _ _ e, of n] Done 4(5-8) by simp
    then show ?thesis using Done by (auto simp: finished_def)
  qed
qed simp_all

text \<open>The search runs out of fuel only if it is given less than there are names left to visit.\<close>

lemma dfs_enough:
  assumes fin: "finite U"
  shows "\<forall>x. set (adj x) \<subseteq> U \<Longrightarrow> c n = White \<Longrightarrow> n \<in> U \<Longrightarrow> card (white c \<inter> U) \<le> f \<Longrightarrow> \<exists>r c'. dfs f adj n c = Some (r, c') \<and> white c' \<subseteq> white c"
    and "\<forall>x. set (adj x) \<subseteq> U \<Longrightarrow> set ms \<subseteq> U \<Longrightarrow> card (white c \<inter> U) \<le> f \<Longrightarrow> \<exists>r c'. dfs_each f adj ms c = Some (r, c') \<and> white c' \<subseteq> white c"
proof (induction f adj n c and f adj ms c rule: dfs_dfs_each.induct)
  case (1 adj n c)
  then have "n \<in> white c \<inter> U" by (simp add: white_def)
  then have "0 < card (white c \<inter> U)" using fin by (auto simp: card_gt_0_iff)
  then show ?case using 1(4) by simp
next
  case (2 f adj n c)
  let ?c = "c(n := Visiting)"
  have "white ?c \<inter> U = white c \<inter> U - {n}" by (auto simp: white_def)
  moreover have "n \<in> white c \<inter> U" using 2(3,4) by (simp add: white_def)
  ultimately have "card (white ?c \<inter> U) \<le> f" using 2(5) fin by simp
  then obtain r c' where "dfs_each f adj (adj n) ?c = Some (r, c')" "white c' \<subseteq> white ?c"
    using 2(1) 2(2) by blast
  then show ?case by (cases r) (auto simp: white_def split: if_splits)
next
  case (4 f adj m ms c)
  show ?case
  proof (cases "c m")
    case Visiting
    then show ?thesis by auto
  next
    case White
    then obtain r1 c1 where d: "dfs f adj m c = Some (r1, c1)" "white c1 \<subseteq> white c"
      using 4(1) 4(4-6) by auto
    have "card (white c1 \<inter> U) \<le> f"
      using d(2) 4(6) fin by (meson card_mono finite_Int Int_mono le_trans subset_refl)
    then have "\<not> r1 \<Longrightarrow> \<exists>r c'. dfs_each f adj ms c1 = Some (r, c') \<and> white c' \<subseteq> white c1"
      using 4(2) [OF _ White d(1), of r1 c1] 4(4,5) White by auto
    then show ?thesis using d White by (cases r1) auto
  next
    case Done
    then show ?thesis using 4(3) 4(4-6) by simp
  qed
qed (simp, blast)

section \<open>The cycle check\<close>

lemma adj_of_names: "set (adj_of es x) \<subseteq> set (edge_names es)"
proof (cases "map_of es x")
  case (Some ms)
  then have "(x, ms) \<in> set es" by (rule map_of_SomeD)
  then show ?thesis using Some by (force simp: adj_of_def edge_names_def)
qed (simp add: adj_of_def)

text \<open>
  C15: \<open>DetectDialerCycle\<close> always terminates with the right answer: whether, after the
  entry is replaced by the proposed one, some chain of \<open>xray:\<close> references that starts at
  it runs into a cycle.
\<close>

theorem DetectDialerCycle_correct:
  "DetectDialerCycle entries selfID selfName selfDialer =
     Some (\<exists>x. (normalizeName selfName, x) \<in> (edges (adj_of (dialer_edges entries selfID selfName selfDialer)))\<^sup>* \<and>
       (x, x) \<in> (edges (adj_of (dialer_edges entries selfID selfName selfDialer)))\<^sup>+)"
proof -
  let ?es = "dialer_edges entries selfID selfName selfDialer" and ?n = "normalizeName selfName"
  let ?adj = "adj_of ?es" and ?U = "set (edge_names ?es)"
  have n: "?n \<in> ?U" by (simp add: dialer_edges_def edge_names_def)
  have "card (white (\<lambda>_. White) \<inter> ?U) \<le> length (edge_names ?es)" by (simp add: white_def card_length)
  then obtain r c' where d: "dfs (length (edge_names ?es)) ?adj ?n (\<lambda>_. White) = Some (r, c')"
    using dfs_enough(1) [of ?U ?adj "\<lambda>_. White" ?n] adj_of_names n by blast
  have "if r then has_cycle_from ?adj ?n else ?n \<in> finished c' \<and> clean ?adj (finished c')"
    using dfs_sound(1) [OF d] by (simp add: path_to_def visiting_def finished_def clean_def split: if_splits)
  moreover have "\<not> has_cycle_from ?adj ?n" if "?n \<in> finished c'" "clean ?adj (finished c')"
    using clean_reach [OF that(2,1)] that(2) unfolding has_cycle_from_def clean_def by blast
  ultimately have "r \<longleftrightarrow> has_cycle_from ?adj ?n" by (auto split: if_splits)
  then show ?thesis by (simp add: DetectDialerCycle_def Let_def d has_cycle_from_def)
qed

section \<open>Slots and their tags\<close>

record DialerMember =
  mem_Key :: string
  mem_Outbound :: string

record DialerSlot =
  sl_Master :: string
  sl_Aliases :: "string list"
  sl_Index :: nat
  sl_Members :: "DialerMember list"
  sl_Preferred :: "string list"
  sl_PoolKey :: string
  sl_Strategy :: string
  sl_Auto :: bool
  sl_Pinned :: "string list"
  sl_Expected :: int
  sl_Fallback :: string
  sl_Broken :: "string list"

definition brokenSet :: "DialerSlot \<Rightarrow> string set" where "brokenSet s = set (sl_Broken s)"

definition StrategyAuto :: string where "StrategyAuto = ''auto''"
definition StrategyStable :: string where "StrategyStable = ''stable''"
definition StrategyAgile :: string where "StrategyAgile = ''agile''"
definition StrategyManual :: string where "StrategyManual = ''manual''"

definition Agile :: "DialerSlot \<Rightarrow> bool" where "Agile s \<longleftrightarrow> sl_Strategy s = StrategyAgile"
definition Manual :: "DialerSlot \<Rightarrow> bool" where "Manual s \<longleftrightarrow> sl_Strategy s = StrategyManual"
definition NeverParks :: "DialerSlot \<Rightarrow> bool" where "NeverParks s \<longleftrightarrow> Agile s \<or> Manual s"

definition presentPreferred :: "DialerSlot \<Rightarrow> string list" where
  "presentPreferred s = filter (\<lambda>k. k \<in> mem_Key ` set (sl_Members s)) (sl_Preferred s)"

definition SlotMasters :: "DialerSlot \<Rightarrow> string list" where "SlotMasters s = sl_Master s # sl_Aliases s"

text \<open>\<open>ParseStrategy\<close>; \<open>None\<close> is the error for an unknown strategy.\<close>

definition ParseStrategy :: "string \<Rightarrow> string option" where
  "ParseStrategy s =
     (let v = ToLower (TrimSpace s) in
      if v = [] \<or> v = StrategyAuto then Some StrategyAuto
      else if v = StrategyStable \<or> v = StrategyAgile \<or> v = StrategyManual then Some v
      else None)"

definition EffectiveStrategy :: "string \<Rightarrow> string" where
  "EffectiveStrategy stored = (case ParseStrategy stored of Some v \<Rightarrow> v | None \<Rightarrow> StrategyAuto)"

definition sanitizeTag :: "string \<Rightarrow> string" where
  "sanitizeTag key = map (\<lambda>r. if name_char r then r else CHR ''_'') (ToLower (TrimSpace key))"

definition SlotInboundTag :: "nat \<Rightarrow> string" where "SlotInboundTag i = ''slot'' @ dec i @ ''-in''"
definition SlotBalancerTag :: "nat \<Rightarrow> string" where "SlotBalancerTag i = ''slot'' @ dec i @ ''-bal''"
definition SlotOutboundPrefix :: "nat \<Rightarrow> string" where "SlotOutboundPrefix i = ''slot'' @ dec i @ ''-out-''"
definition SlotMemberTag :: "nat \<Rightarrow> string \<Rightarrow> string" where "SlotMemberTag i key = SlotOutboundPrefix i @ sanitizeTag key"

definition ChainProbeTag :: "nat \<Rightarrow> string \<Rightarrow> string \<Rightarrow> string" where
  "ChainProbeTag slot master key = ''chain'' @ dec slot @ ''.'' @ sanitizeTag master @ ''.'' @ sanitizeTag key"

definition DialerOutboundTag :: "string \<Rightarrow> string" where "DialerOutboundTag master = ''dialer-'' @ normalizeName master"

text \<open>The regular expression \<open>slot\d+-out-(\S+)\<close>: the submatch of its leftmost match.\<close>

definition re_space :: "char \<Rightarrow> bool" where "re_space c \<longleftrightarrow> ord c \<in> {9, 10, 12, 13, 32}"

definition slot_here :: "string \<Rightarrow> string option" where
  "slot_here s =
     (if \<not> HasPrefix s ''slot'' then None
      else let r = drop 4 s; ds = takeWhile is_digit r; r' = dropWhile is_digit r in
        if ds = [] \<or> \<not> HasPrefix r' ''-out-'' then None
        else let m = takeWhile (\<lambda>c. \<not> re_space c) (drop 5 r') in if m = [] then None else Some m)"

fun slotOutRe :: "string \<Rightarrow> string option" where
  "slotOutRe [] = None"
| "slotOutRe (c # cs) = (case slot_here (c # cs) of Some m \<Rightarrow> Some m | None \<Rightarrow> slotOutRe cs)"

definition SlotMemberKey :: "string \<Rightarrow> string option" where
  "SlotMemberKey tag = (case slotOutRe tag of None \<Rightarrow> None | Some m \<Rightarrow> if HasPrefix tag ''slot'' then Some m else None)"

lemma sanitize_chars: "c \<in> set (sanitizeTag key) \<Longrightarrow> name_char c"
  by (auto simp: sanitizeTag_def name_char_def)

lemma sanitize_no_space: "c \<in> set (sanitizeTag key) \<Longrightarrow> \<not> re_space c"
  using name_charD(1) [OF sanitize_chars] by (auto simp: is_space_def re_space_def)

lemma slot_here_member:
  assumes "k \<noteq> []" "\<And>c. c \<in> set k \<Longrightarrow> \<not> re_space c"
  shows "slot_here (''slot'' @ dec i @ ''-out-'' @ k) = Some k"
proof -
  have nd: "\<not> is_digit CHR ''-''" by (simp add: is_digit_def in_range_def ord_def)
  have "takeWhile is_digit (dec i @ ''-out-'' @ k) = dec i" "dropWhile is_digit (dec i @ ''-out-'' @ k) = ''-out-'' @ k"
    using dec_digits nd by (simp_all add: takeWhile_append2 dropWhile_append2)
  moreover have "dec i \<noteq> []" by (subst dec.simps) simp
  moreover have "takeWhile (\<lambda>c. \<not> re_space c) k = k" using assms(2) by (simp add: takeWhile_eq_all_conv)
  ultimately show ?thesis using assms(1) by (simp add: slot_here_def Let_def del: takeWhile_eq_all_conv)
qed

text \<open>
  The key of a slot member can be read back from its outbound tag, for every slot
  index and every key that is not blank; a probe chain's tag is never taken for a slot
  tag.
\<close>

lemma SlotMemberKey_tag:
  assumes "TrimSpace key \<noteq> []"
  shows "SlotMemberKey (SlotMemberTag i key) = Some (sanitizeTag key) \<and>
    SlotMemberKey (ChainProbeTag j master key') = None"
proof -
  have "sanitizeTag key \<noteq> []" using assms by (simp add: sanitizeTag_def)
  then have "slot_here (SlotMemberTag i key) = Some (sanitizeTag key)"
    using slot_here_member [of "sanitizeTag key" i] sanitize_no_space by (simp add: SlotMemberTag_def SlotOutboundPrefix_def)
  then have "slotOutRe (SlotMemberTag i key) = Some (sanitizeTag key)"
    by (cases "SlotMemberTag i key") (auto simp: slot_here_def)
  then show ?thesis
    by (auto simp: SlotMemberKey_def SlotMemberTag_def SlotOutboundPrefix_def ChainProbeTag_def split: option.split)
qed

lemma SlotMemberKey_tag_witness: "SlotMemberKey (SlotMemberTag 12 ''xray-DE 1'') = Some ''xray-de_1''"
proof -
  have "TrimSpace ''xray-DE 1'' \<noteq> []" by code_simp
  moreover have "sanitizeTag ''xray-DE 1'' = ''xray-de_1''" by code_simp
  ultimately show ?thesis using SlotMemberKey_tag [of "''xray-DE 1''" 12] by simp
qed

section \<open>Balancer winners\<close>

record winners_state =
  wn_out :: "string list"
  wn_in :: bool

definition winners_line :: "winners_state \<Rightarrow> string \<Rightarrow> winners_state" where
  "winners_line s ln =
     (if Contains ln ''Selects:'' then s\<lparr>wn_in := True\<rparr>
      else
        (let s1 = (if HasPrefix (TrimSpace ln) ''- '' then s\<lparr>wn_in := False\<rparr> else s) in
         if \<not> wn_in s1 then s1
         else case slotOutRe ln of
           None \<Rightarrow> s1
         | Some fp \<Rightarrow> if fp \<in> set (wn_out s1) then s1 else s1\<lparr>wn_out := wn_out s1 @ [fp]\<rparr>))"

definition ParseBalancerWinners :: "string \<Rightarrow> string list" where
  "ParseBalancerWinners biText = wn_out (foldl winners_line \<lparr>wn_out = [], wn_in = False\<rparr> (Split biText CHR 0x0A))"

lemma winners_distinct: "distinct (wn_out s) \<Longrightarrow> distinct (wn_out (foldl winners_line s ls))"
  by (induction ls arbitrary: s) (auto simp: winners_line_def Let_def split: option.split)

lemma ParseBalancerWinners_distinct: "distinct (ParseBalancerWinners t)"
  by (simp add: ParseBalancerWinners_def winners_distinct)

section \<open>Multiplexing\<close>

text \<open>A decoded JSON value; an object keeps its members in order, \<open>JDec m e\<close> is the number m times 10 to the power e.\<close>

datatype json = JNull | JBool bool | JNum int | JDec int int | JStr string | JArr "json list" | JObj "(string \<times> json) list"

text \<open>Go's \<open>v, _ := x["k"].(T)\<close>: the zero value when the key is missing or has another type.\<close>

definition obj_get :: "json \<Rightarrow> string \<Rightarrow> json" where
  "obj_get j k = (case j of JObj ms \<Rightarrow> (case map_of ms k of Some v \<Rightarrow> v | None \<Rightarrow> JNull) | _ \<Rightarrow> JNull)"

definition has_key :: "json \<Rightarrow> string \<Rightarrow> bool" where
  "has_key j k = (case j of JObj ms \<Rightarrow> map_of ms k \<noteq> None | _ \<Rightarrow> False)"

definition as_string :: "json \<Rightarrow> string" where "as_string j = (case j of JStr s \<Rightarrow> s | _ \<Rightarrow> [])"
definition as_array :: "json \<Rightarrow> json list" where "as_array j = (case j of JArr xs \<Rightarrow> xs | _ \<Rightarrow> [])"

definition has_flow :: "json \<Rightarrow> bool" where
  "has_flow j = (TrimSpace (as_string (obj_get j ''flow'')) \<noteq> [])"

definition hasXTLSFlow :: "json \<Rightarrow> bool" where
  "hasXTLSFlow ob =
     (let st = obj_get ob ''settings'' in
      list_ex (\<lambda>srv. list_ex has_flow (as_array (obj_get srv ''users''))) (as_array (obj_get st ''vnext'')) \<or> has_flow st)"

datatype mux_reason = OwnMux | XTLSFlow | ProtocolUnsupported | TransportMuxes string

definition muxSupport :: "json \<Rightarrow> mux_reason option" where
  "muxSupport ob =
     (if has_key ob ''mux'' then Some OwnMux
      else
        (let proto = ToLower (as_string (obj_get ob ''protocol''));
             network = as_string (obj_get (obj_get ob ''streamSettings'') ''network'');
             net = (if ToLower network \<in> {''grpc'', ''xhttp'', ''splithttp'', ''h2'', ''http'', ''quic''}
                    then Some (TransportMuxes network) else None)
         in if proto = ''vmess'' \<or> proto = ''trojan'' then net
            else if proto = ''vless'' then (if hasXTLSFlow ob then Some XTLSFlow else net)
            else Some ProtocolUnsupported))"

definition muxSettings :: json where
  "muxSettings = JObj [(''enabled'', JBool True), (''concurrency'', JNum 8), (''xudpConcurrency'', JNum 16),
     (''xudpProxyUDP443'', JStr ''skip'')]"

definition applyMux :: "json \<Rightarrow> json" where
  "applyMux ob = (case (muxSupport ob, ob) of (None, JObj ms) \<Rightarrow> JObj ((''mux'', muxSettings) # ms) | _ \<Rightarrow> ob)"

text \<open>
  \<open>applyMux\<close> changes nothing but the \<open>mux\<close> member, never replaces one the user wrote,
  never touches a VLESS outbound with an XTLS flow, and is idempotent.
\<close>

lemma applyMux_safe:
  "(k \<noteq> ''mux'' \<longrightarrow> obj_get (applyMux ob) k = obj_get ob k) \<and>
   (has_key ob ''mux'' \<longrightarrow> applyMux ob = ob) \<and>
   (ToLower (as_string (obj_get ob ''protocol'')) = ''vless'' \<and> hasXTLSFlow ob \<longrightarrow> applyMux ob = ob) \<and>
   applyMux (applyMux ob) = applyMux ob"
proof -
  have own: "has_key x ''mux'' \<Longrightarrow> applyMux x = x" for x
    by (auto simp: applyMux_def muxSupport_def split: json.split)
  have "applyMux ob = ob \<or> has_key (applyMux ob) ''mux''"
    by (auto simp: applyMux_def has_key_def split: json.split option.split)
  then have idem: "applyMux (applyMux ob) = applyMux ob" using own by metis
  have "obj_get (applyMux ob) k = obj_get ob k" if "k \<noteq> ''mux''"
    using that by (auto simp: applyMux_def obj_get_def split: json.split option.split)
  moreover have "applyMux ob = ob" if "ToLower (as_string (obj_get ob ''protocol'')) = ''vless'' \<and> hasXTLSFlow ob"
    using that by (auto simp: applyMux_def muxSupport_def Let_def split: json.split option.split)
  ultimately show ?thesis using idem own by blast
qed

lemma applyMux_safe_witness:
  "obj_get (applyMux (JObj [(''protocol'', JStr ''vmess'')])) ''protocol'' = JStr ''vmess'' \<and>
   obj_get (applyMux (JObj [(''protocol'', JStr ''vmess'')])) ''mux'' = muxSettings"
proof -
  have "obj_get (applyMux (JObj [(''protocol'', JStr ''vmess'')])) ''mux'' = muxSettings" by code_simp
  moreover have "obj_get (JObj [(''protocol'', JStr ''vmess'')]) ''protocol'' = JStr ''vmess''" by code_simp
  ultimately show ?thesis using applyMux_safe [of "''protocol''" "JObj [(''protocol'', JStr ''vmess'')]"] by simp
qed

end
