(* ===== verification/Selection.thy ===== *)
theory Selection
  imports Go_Prelude "HOL-Library.AList" "HOL-Library.Multiset"
begin

text \<open>
  The memories that steer which member of a binding carries a connection:
  \<open>daemon/proxysticky.go\<close>, \<open>daemon/siteavoid.go\<close>, \<open>daemon/uplink_witness.go\<close>,
  \<open>daemon/exitkeys.go\<close>, the map of \<open>daemon/routekeys.go\<close>, \<open>daemon/logsample.go\<close>,
  \<open>daemon/dialgate.go\<close>, and \<open>diverseOrder\<close> and \<open>appendFailed\<close> of \<open>daemon/proxytun.go\<close>.
  A nil receiver is \<open>None\<close>; \<open>now\<close> is the clock of the call. The sweeping loops delete
  entries independently of each other and are written as one restriction of the map.
\<close>

section \<open>Sticky bindings\<close>

definition stickyTTL :: duration where "stickyTTL = 10 * minute"
definition stickySweepInterval :: duration where "stickySweepInterval = minute"
definition stickyMoveAfter :: duration where "stickyMoveAfter = 15 * second"
definition stickyMoveMisses :: nat where "stickyMoveMisses = 2"
definition stickyMissReset :: duration where "stickyMissReset = 60 * second"

record stickyEntry =
  se_name :: string
  se_at :: time
  se_misses :: nat
  se_missFirst :: time
  se_missLast :: time

record stickyBindings =
  sb_entries :: "string \<rightharpoonup> stickyEntry"
  sb_lastSweep :: time

definition newStickyBindings :: stickyBindings where
  "newStickyBindings = \<lparr>sb_entries = Map.empty, sb_lastSweep = 0\<rparr>"

definition sticky_Get :: "time \<Rightarrow> string \<Rightarrow> stickyBindings option \<Rightarrow> string" where
  "sticky_Get now key so =
     (case so of
        None \<Rightarrow> []
      | Some s \<Rightarrow>
          if key = [] then []
          else case sb_entries s key of
            None \<Rightarrow> []
          | Some e \<Rightarrow> if stickyTTL < time_Sub now (se_at e) then [] else se_name e)"

definition sticky_sweep :: "time \<Rightarrow> stickyBindings \<Rightarrow> stickyBindings" where
  "sticky_sweep now s =
     (if stickySweepInterval \<le> time_Sub now (sb_lastSweep s) then
        s\<lparr>sb_lastSweep := now,
          sb_entries := (\<lambda>k. case sb_entries s k of
             None \<Rightarrow> None | Some e \<Rightarrow> if stickyTTL < time_Sub now (se_at e) then None else Some e)\<rparr>
      else s)"

definition sticky_Set :: "time \<Rightarrow> string \<Rightarrow> string \<Rightarrow> stickyBindings option \<Rightarrow> stickyBindings option" where
  "sticky_Set now key name so =
     (case so of
        None \<Rightarrow> None
      | Some s \<Rightarrow>
          if key = [] \<or> name = [] then Some s
          else Some (sticky_sweep now (s\<lparr>sb_entries := (sb_entries s)(key \<mapsto>
            \<lparr>se_name = name, se_at = now, se_misses = 0, se_missFirst = 0, se_missLast = 0\<rparr>)\<rparr>)))"

definition sticky_miss_entry :: "time \<Rightarrow> stickyEntry \<Rightarrow> stickyEntry" where
  "sticky_miss_entry now e =
     (let e1 = (if 0 < se_misses e \<and> stickyMissReset < time_Sub now (se_missLast e) then e\<lparr>se_misses := 0\<rparr> else e);
          e2 = (if se_misses e1 = 0 then e1\<lparr>se_missFirst := now\<rparr> else e1)
      in e2\<lparr>se_misses := se_misses e2 + 1, se_missLast := now\<rparr>)"

definition sticky_Miss :: "time \<Rightarrow> string \<Rightarrow> string \<Rightarrow> stickyBindings option \<Rightarrow> bool \<times> stickyBindings option" where
  "sticky_Miss now key name so =
     (case so of
        None \<Rightarrow> (False, None)
      | Some s \<Rightarrow>
          if key = [] then (False, Some s)
          else case sb_entries s key of
            None \<Rightarrow> (False, Some s)
          | Some e \<Rightarrow>
              if se_name e \<noteq> name \<or> stickyTTL < time_Sub now (se_at e) then (False, Some s)
              else
                (let e' = sticky_miss_entry now e
                 in (stickyMoveMisses \<le> se_misses e' \<and> stickyMoveAfter \<le> time_Sub now (se_missFirst e'),
                     Some (s\<lparr>sb_entries := (sb_entries s)(key \<mapsto> e')\<rparr>))))"

definition sticky_Drop :: "string \<Rightarrow> string \<Rightarrow> stickyBindings option \<Rightarrow> stickyBindings option" where
  "sticky_Drop key name so =
     (case so of
        None \<Rightarrow> None
      | Some s \<Rightarrow>
          if key = [] then Some s
          else case sb_entries s key of
            Some e \<Rightarrow> if se_name e = name then Some (s\<lparr>sb_entries := (sb_entries s)(key := None)\<rparr>) else Some s
          | None \<Rightarrow> Some s)"

section \<open>Per-site avoidance\<close>

definition siteAvoidStrikes :: nat where "siteAvoidStrikes = 2"
definition siteAvoidWindow :: duration where "siteAvoidWindow = 10 * minute"
definition siteAvoidFor :: duration where "siteAvoidFor = 15 * minute"
definition siteAvoidSweepInterval :: duration where "siteAvoidSweepInterval = minute"

record avoidRecord =
  av_strikes :: nat
  av_firstAt :: time
  av_avoidUntil :: time

record siteAvoid =
  sa_recs :: "string \<rightharpoonup> avoidRecord"
  sa_lastSweep :: time

definition newSiteAvoid :: siteAvoid where "newSiteAvoid = \<lparr>sa_recs = Map.empty, sa_lastSweep = 0\<rparr>"

definition avoid_id :: "string \<Rightarrow> string \<Rightarrow> string" where "avoid_id site k = site @ ''|'' @ k"

definition timeOr :: "avoidRecord option \<Rightarrow> time" where
  "timeOr r = (case r of None \<Rightarrow> 0 | Some r \<Rightarrow> av_avoidUntil r)"

definition avoid_sweepLocked :: "time \<Rightarrow> siteAvoid \<Rightarrow> siteAvoid" where
  "avoid_sweepLocked now a =
     (if time_Sub now (sa_lastSweep a) < siteAvoidSweepInterval then a
      else a\<lparr>sa_lastSweep := now,
        sa_recs := (\<lambda>i. case sa_recs a i of
           None \<Rightarrow> None
         | Some r \<Rightarrow> if siteAvoidWindow < time_Sub now (av_firstAt r) \<and> \<not> now < av_avoidUntil r then None else Some r)\<rparr>)"

text \<open>The body of the loop of \<open>strike\<close> on the record of one key: the new record, and whether it just became avoided.\<close>

definition strike_record :: "time \<Rightarrow> avoidRecord option \<Rightarrow> avoidRecord \<times> bool" where
  "strike_record now ro =
     (let r = (case ro of
           Some r \<Rightarrow> if siteAvoidWindow < time_Sub now (av_firstAt r)
                     then \<lparr>av_strikes = 0, av_firstAt = now, av_avoidUntil = timeOr ro\<rparr> else r
         | None \<Rightarrow> \<lparr>av_strikes = 0, av_firstAt = now, av_avoidUntil = timeOr ro\<rparr>);
          r1 = r\<lparr>av_strikes := av_strikes r + 1\<rparr>
      in if siteAvoidStrikes \<le> av_strikes r1
         then (\<lparr>av_strikes = 0, av_firstAt = now, av_avoidUntil = now + siteAvoidFor\<rparr>, \<not> now < av_avoidUntil r1)
         else (r1, False))"

fun strike_keys :: "time \<Rightarrow> string \<Rightarrow> nat \<Rightarrow> string list \<Rightarrow> (string \<rightharpoonup> avoidRecord) \<Rightarrow> bool \<Rightarrow> bool \<times> (string \<rightharpoonup> avoidRecord)" where
  "strike_keys now site i [] recs became = (became, recs)"
| "strike_keys now site i (k # ks) recs became =
     (if k = [] then strike_keys now site (i + 1) ks recs became
      else case strike_record now (recs (avoid_id site k)) of
        (r, b) \<Rightarrow> strike_keys now site (i + 1) ks (recs(avoid_id site k \<mapsto> r)) (became \<or> i = 0 \<and> b))"

definition avoid_strike :: "time \<Rightarrow> string \<Rightarrow> string list \<Rightarrow> siteAvoid option \<Rightarrow> bool \<times> siteAvoid option" where
  "avoid_strike now site keys ao =
     (case ao of
        None \<Rightarrow> (False, None)
      | Some a \<Rightarrow>
          if site = [] then (False, Some a)
          else
            (let a1 = avoid_sweepLocked now a
             in case strike_keys now site 0 keys (sa_recs a1) False of (became, recs) \<Rightarrow> (became, Some (a1\<lparr>sa_recs := recs\<rparr>))))"

definition avoid_clear :: "string \<Rightarrow> string list \<Rightarrow> siteAvoid option \<Rightarrow> siteAvoid option" where
  "avoid_clear site keys ao =
     (case ao of
        None \<Rightarrow> None
      | Some a \<Rightarrow>
          if site = [] then Some a
          else Some (a\<lparr>sa_recs := fold (\<lambda>k recs. if k \<noteq> [] then recs(avoid_id site k := None) else recs) keys (sa_recs a)\<rparr>))"

definition avoidedLocked :: "siteAvoid \<Rightarrow> string \<Rightarrow> time \<Rightarrow> string list \<Rightarrow> bool" where
  "avoidedLocked a site now keys \<longleftrightarrow>
     list_ex (\<lambda>k. k \<noteq> [] \<and> (case sa_recs a (avoid_id site k) of Some r \<Rightarrow> now < av_avoidUntil r | None \<Rightarrow> False)) keys"

text \<open>With an empty map no name is avoided, so the early return on it is the case \<open>avoided = []\<close>.\<close>

definition demote :: "time \<Rightarrow> string \<Rightarrow> string list \<Rightarrow> (string \<Rightarrow> string list) \<Rightarrow> siteAvoid option \<Rightarrow> string list" where
  "demote now site ranked keysOf ao =
     (case ao of
        None \<Rightarrow> ranked
      | Some a \<Rightarrow>
          if site = [] \<or> length ranked < 2 then ranked
          else
            (let avoided = filter (\<lambda>n. avoidedLocked a site now (keysOf n)) ranked;
                 ok = filter (\<lambda>n. \<not> avoidedLocked a site now (keysOf n)) ranked
             in if avoided = [] \<or> ok = [] then ranked else ok @ avoided))"

definition avoid_reset :: "siteAvoid option \<Rightarrow> siteAvoid option" where
  "avoid_reset ao = map_option (\<lambda>a. a\<lparr>sa_recs := Map.empty\<rparr>) ao"

section \<open>Uplink witness\<close>

definition uplinkWitnessWindow :: duration where "uplinkWitnessWindow = 10 * second"
definition refusalProofWindow :: duration where "refusalProofWindow = 60 * second"

type_synonym uplinkWitness = "(string \<times> time) list"

definition newUplinkWitness :: uplinkWitness where "newUplinkWitness = []"

definition saw :: "time \<Rightarrow> string \<Rightarrow> uplinkWitness option \<Rightarrow> uplinkWitness option" where
  "saw now name wo = map_option (AList.update name now) wo"

definition otherAlive :: "time \<Rightarrow> string \<Rightarrow> uplinkWitness option \<Rightarrow> bool" where
  "otherAlive now name wo =
     (case wo of None \<Rightarrow> True | Some w \<Rightarrow> list_ex (\<lambda>(n, t). n \<noteq> name \<and> now - uplinkWitnessWindow < t) w)"

definition anyProven :: "time \<Rightarrow> string list \<Rightarrow> uplinkWitness option \<Rightarrow> bool" where
  "anyProven now names wo =
     (case wo of
        None \<Rightarrow> True
      | Some w \<Rightarrow> list_ex (\<lambda>n. case map_of w n of Some t \<Rightarrow> now - refusalProofWindow < t | None \<Rightarrow> False) names)"

section \<open>Exit and route keys\<close>

text \<open>The outer option is a nil receiver, the inner one a map not yet published.\<close>

type_synonym exitKeys = "(string \<rightharpoonup> string) option option"

definition exit_lookup :: "exitKeys \<Rightarrow> string \<Rightarrow> string" where
  "exit_lookup e name =
     (case e of
        Some (Some m) \<Rightarrow> (case m name of Some ip \<Rightarrow> if ip \<noteq> [] then ''exit:'' @ ip else [] | None \<Rightarrow> [])
      | _ \<Rightarrow> [])"

definition exit_snapshot :: "exitKeys \<Rightarrow> (string \<rightharpoonup> string)" where
  "exit_snapshot e = (case e of Some (Some m) \<Rightarrow> m | _ \<Rightarrow> Map.empty)"

definition exit_set :: "(string \<rightharpoonup> string) \<Rightarrow> exitKeys \<Rightarrow> exitKeys" where
  "exit_set m e = map_option (\<lambda>_. Some m) e"

text \<open>
  \<open>probeExitKeys\<close>: \<open>probe\<close> is the address measured through a member, if the whole
  measurement succeeds, and \<open>cancelled i\<close> says whether the context ends in the pause before
  the \<open>i\<close>-th member. A cancelled pass publishes nothing.
\<close>

fun probe_loop :: "(string \<Rightarrow> string option) \<Rightarrow> (nat \<Rightarrow> bool) \<Rightarrow> (string \<rightharpoonup> string) \<Rightarrow> nat \<Rightarrow> string list \<Rightarrow>
    (string \<rightharpoonup> string) \<times> nat \<Rightarrow> ((string \<rightharpoonup> string) \<times> nat) option" where
  "probe_loop probe cancelled old i [] acc = Some acc"
| "probe_loop probe cancelled old i (n # ns) (next_keys, changed) =
     (if 0 < i \<and> cancelled i then None
      else
        (let known = (case old n of Some ip \<Rightarrow> ip | None \<Rightarrow> []);
             ip = (case probe n of Some got \<Rightarrow> if got \<noteq> [] then got else known | None \<Rightarrow> known)
         in probe_loop probe cancelled old (i + 1) ns
              (if ip \<noteq> [] then (next_keys(n \<mapsto> ip), if known \<noteq> ip then changed + 1 else changed) else (next_keys, changed))))"

definition probeExitKeys :: "(string \<Rightarrow> string option) \<Rightarrow> (nat \<Rightarrow> bool) \<Rightarrow> string list \<Rightarrow> exitKeys \<Rightarrow> exitKeys" where
  "probeExitKeys probe cancelled names keys =
     (case probe_loop probe cancelled (exit_snapshot keys) 0 names (Map.empty, 0) of
        None \<Rightarrow> keys
      | Some (next_keys, _) \<Rightarrow> exit_set next_keys keys)"

type_synonym routeKeys = "(string \<rightharpoonup> string) option option"

definition route_set :: "(string \<rightharpoonup> string) \<Rightarrow> routeKeys \<Rightarrow> routeKeys" where
  "route_set m r = map_option (\<lambda>_. Some m) r"

definition route_lookup :: "routeKeys \<Rightarrow> string \<Rightarrow> string option" where
  "route_lookup r name = (case r of Some (Some m) \<Rightarrow> m name | _ \<Rightarrow> None)"

section \<open>Log sampling\<close>

definition logSampleInterval :: duration where "logSampleInterval = 30 * second"
definition logSampleEntryTTL :: duration where "logSampleEntryTTL = 10 * minute"

record logSampleEntry =
  lg_last :: time
  lg_suppressed :: nat

record logSampler =
  ls_entries :: "string \<rightharpoonup> logSampleEntry"
  ls_lastSweep :: time

definition newLogSampler :: logSampler where "newLogSampler = \<lparr>ls_entries = Map.empty, ls_lastSweep = 0\<rparr>"

definition sample_sweepLocked :: "time \<Rightarrow> logSampler \<Rightarrow> logSampler" where
  "sample_sweepLocked now s =
     (if time_Sub now (ls_lastSweep s) < logSampleInterval then s
      else s\<lparr>ls_lastSweep := now,
        ls_entries := (\<lambda>k. case ls_entries s k of
           None \<Rightarrow> None | Some e \<Rightarrow> if logSampleEntryTTL < time_Sub now (lg_last e) then None else Some e)\<rparr>)"

definition sample_allow :: "time \<Rightarrow> string \<Rightarrow> logSampler option \<Rightarrow> (bool \<times> nat) \<times> logSampler option" where
  "sample_allow now key so =
     (case so of
        None \<Rightarrow> ((True, 0), None)
      | Some s \<Rightarrow>
          (case ls_entries s key of
             None \<Rightarrow> ((True, 0), Some (sample_sweepLocked now
                 (s\<lparr>ls_entries := (ls_entries s)(key \<mapsto> \<lparr>lg_last = now, lg_suppressed = 0\<rparr>)\<rparr>)))
           | Some e \<Rightarrow>
               if time_Sub now (lg_last e) < logSampleInterval then
                 ((False, 0), Some (s\<lparr>ls_entries := (ls_entries s)(key \<mapsto> e\<lparr>lg_suppressed := lg_suppressed e + 1\<rparr>)\<rparr>))
               else ((True, lg_suppressed e), Some (s\<lparr>ls_entries := (ls_entries s)(key \<mapsto> \<lparr>lg_last = now, lg_suppressed = 0\<rparr>)\<rparr>))))"

section \<open>The dial gate\<close>

definition proxyMaxConcurrentDials :: nat where "proxyMaxConcurrentDials = 256"

text \<open>
  The channel holds \<open>dg_used\<close> values of its capacity. Every call of \<open>acquire\<close> returns a
  release function with a flag of its own; the functions handed out are the list
  \<open>dg_released\<close> of their flags (a failed \<open>acquire\<close> returns one that does nothing).
\<close>

record dialGate =
  dg_cap :: nat
  dg_used :: nat
  dg_released :: "bool list"

definition newDialGate :: "nat \<Rightarrow> dialGate" where
  "newDialGate n = \<lparr>dg_cap = n, dg_used = 0, dg_released = []\<rparr>"

definition gate_acquired :: "dialGate \<Rightarrow> dialGate" where
  "gate_acquired g = g\<lparr>dg_used := dg_used g + 1, dg_released := dg_released g @ [False]\<rparr>"

definition gate_refused :: "dialGate \<Rightarrow> dialGate" where
  "gate_refused g = g\<lparr>dg_released := dg_released g @ [True]\<rparr>"

text \<open>A release; \<open>None\<close> when the receive from the channel would block.\<close>

definition gate_release :: "nat \<Rightarrow> dialGate \<Rightarrow> dialGate option" where
  "gate_release i g =
     (if dg_released g ! i then Some g
      else if dg_used g = 0 then None
      else Some (g\<lparr>dg_used := dg_used g - 1, dg_released := (dg_released g)[i := True]\<rparr>))"

text \<open>The select of \<open>acquire\<close>: the send when there is room, the context or the timer at any time.\<close>

inductive gate_step :: "dialGate \<Rightarrow> dialGate \<Rightarrow> bool" where
  send: "dg_used g < dg_cap g \<Longrightarrow> gate_step g (gate_acquired g)"
| giveup: "gate_step g (gate_refused g)"
| release: "i < length (dg_released g) \<Longrightarrow> gate_release i g = Some g' \<Longrightarrow> gate_step g g'"

section \<open>Launch order of a race\<close>

text \<open>
  \<open>diverseOrder\<close>: the members not yet used are kept in rank order with their keys; a pass
  starts afresh when no member is left whose keys are all unseen.
\<close>

definition fresh :: "string set \<Rightarrow> string list \<Rightarrow> bool" where
  "fresh seen ks \<longleftrightarrow> list_all (\<lambda>k. k \<notin> seen) ks"

fun pick :: "string set \<Rightarrow> (string \<times> string list) list \<Rightarrow> ((string \<times> string list) \<times> (string \<times> string list) list) option" where
  "pick seen [] = None"
| "pick seen (m # ms) =
     (if fresh seen (snd m) then Some (m, ms)
      else map_option (\<lambda>(x, rest). (x, m # rest)) (pick seen ms))"

lemma pick_length: "pick seen ms = Some (x, rest) \<Longrightarrow> length ms = Suc (length rest)"
  by (induction ms arbitrary: rest) (auto split: if_splits)

lemma pick_fresh_start: "ms \<noteq> [] \<Longrightarrow> pick {} ms \<noteq> None"
  by (cases ms) (simp_all add: fresh_def list_all_iff)

text \<open>
  The loop of \<open>diverseOrder\<close>. It ends although an iteration that picks nothing makes no
  progress of its own: with no key seen the next one picks.
\<close>

function diverse_loop :: "string set \<Rightarrow> (string \<times> string list) list \<Rightarrow> string list" where
  "diverse_loop seen ms =
     (if ms = [] then []
      else case pick seen ms of
        None \<Rightarrow> diverse_loop {} ms
      | Some (x, rest) \<Rightarrow> fst x # diverse_loop (seen \<union> set (snd x)) rest)"
  by pat_completeness auto
termination
proof (relation "measure (\<lambda>(seen, ms). 2 * length ms + (if seen = {} then 0 else 1))")
  fix seen :: "string set" and ms :: "(string \<times> string list) list"
  assume "ms \<noteq> []" "pick seen ms = None"
  then have "seen \<noteq> {}" using pick_fresh_start by blast
  then show "(({}, ms), seen, ms) \<in> measure (\<lambda>(seen, ms). 2 * length ms + (if seen = {} then 0 else 1))" by simp
next
  fix seen :: "string set" and ms :: "(string \<times> string list) list" and p x rest
  assume "pick seen ms = Some p" "(x, rest) = p"
  then show "((seen \<union> set (snd x), rest), seen, ms) \<in> measure (\<lambda>(seen, ms). 2 * length ms + (if seen = {} then 0 else 1))"
    using pick_length [of seen ms x rest] by auto
qed simp

declare diverse_loop.simps [simp del]

definition diverseOrder :: "string list \<Rightarrow> (string \<Rightarrow> string list) \<Rightarrow> string list" where
  "diverseOrder ranked keysOf =
     (if length ranked < 3 then ranked else diverse_loop {} (map (\<lambda>n. (n, keysOf n)) ranked))"

definition appendFailed :: "string list \<Rightarrow> string \<Rightarrow> string list" where
  "appendFailed failed name = (if list_ex (\<lambda>n. n = name) failed then failed else failed @ [name])"

section \<open>The launch order in passes\<close>

text \<open>
  The order as one sweep per pass: a member is launched in a pass if it shares no key with
  those launched before it in the pass, and otherwise left to the next pass.
\<close>

fun sweep_pass :: "string set \<Rightarrow> (string \<times> string list) list \<Rightarrow> (string \<times> string list) list \<times> (string \<times> string list) list" where
  "sweep_pass seen [] = ([], [])"
| "sweep_pass seen (m # ms) =
     (if fresh seen (snd m) then (case sweep_pass (seen \<union> set (snd m)) ms of (c, r) \<Rightarrow> (m # c, r))
      else (case sweep_pass seen ms of (c, r) \<Rightarrow> (c, m # r)))"

lemma sweep_pass_mset: "sweep_pass seen ms = (c, r) \<Longrightarrow> mset c + mset r = mset ms"
  by (induction ms arbitrary: seen c r) (auto split: if_splits prod.splits)

lemma sweep_pass_first: "ms \<noteq> [] \<Longrightarrow> sweep_pass {} ms = (c, r) \<Longrightarrow> \<exists>c'. c = hd ms # c'"
  by (cases ms) (auto simp: fresh_def list_all_iff split: prod.splits)

function by_passes :: "(string \<times> string list) list \<Rightarrow> (string \<times> string list) list list" where
  "by_passes ms = (if ms = [] then [] else case sweep_pass {} ms of (c, r) \<Rightarrow> c # by_passes r)"
  by pat_completeness auto
termination
proof (relation "measure length")
  fix ms c r :: "(string \<times> string list) list"
  assume "ms \<noteq> []" "(c, r) = sweep_pass {} ms"
  then have "mset c + mset r = mset ms" "c \<noteq> []" using sweep_pass_mset [of "{}" ms c r] sweep_pass_first [of ms c r] by auto
  then show "(r, ms) \<in> measure length" by (metis in_measure length_greater_0_conv less_add_same_cancel2 size_mset size_union)
qed simp

declare by_passes.simps [simp del]

lemma by_passes_step: "ms \<noteq> [] \<Longrightarrow> sweep_pass {} ms = (c, r) \<Longrightarrow> by_passes ms = c # by_passes r"
  by (subst by_passes.simps) simp

lemma pick_None: "pick seen ms = None \<longleftrightarrow> (\<forall>m\<in>set ms. \<not> fresh seen (snd m))"
  by (induction ms) auto

lemma sweep_pass_none: "(\<forall>m\<in>set ms. \<not> fresh seen (snd m)) \<Longrightarrow> sweep_pass seen ms = ([], ms)"
  by (induction ms) auto

lemma fresh_mono: "fresh (seen \<union> S) ks \<Longrightarrow> fresh seen ks"
  by (auto simp: fresh_def list_all_iff)

lemma pick_sweep:
  "pick seen ms = Some (x, rest) \<Longrightarrow>
     sweep_pass seen ms = (case sweep_pass (seen \<union> set (snd x)) rest of (c, r) \<Rightarrow> (x # c, r))"
proof (induction ms arbitrary: rest)
  case (Cons m ms)
  show ?case
  proof (cases "fresh seen (snd m)")
    case True
    then show ?thesis using Cons.prems by simp
  next
    case False
    then obtain rest' where r: "pick seen ms = Some (x, rest')" "rest = m # rest'" using Cons.prems by auto
    have "\<not> fresh (seen \<union> set (snd x)) (snd m)" using False fresh_mono by blast
    then show ?thesis using Cons.IH [OF r(1)] r(2) False by (simp split: prod.split)
  qed
qed simp

lemma diverse_loop_sweep:
  "sweep_pass seen ms = (c, r) \<Longrightarrow> diverse_loop seen ms = map fst c @ diverse_loop {} r"
proof (induction seen ms arbitrary: c r rule: diverse_loop.induct)
  case (1 seen ms)
  show ?case
  proof (cases "ms = []")
    case True
    then show ?thesis using "1.prems" by (simp add: diverse_loop.simps)
  next
    case ne: False
    show ?thesis
    proof (cases "pick seen ms")
      case None
      then have "c = []" "r = ms" using "1.prems" sweep_pass_none [of ms seen] by (auto simp: pick_None)
      then show ?thesis using ne None by (simp add: diverse_loop.simps [of seen ms])
    next
      case (Some p)
      obtain x rest where p: "p = (x, rest)" by (rule prod.exhaust)
      obtain c' r' where s: "sweep_pass (seen \<union> set (snd x)) rest = (c', r')" by (rule prod.exhaust)
      have "c = x # c'" "r = r'" using "1.prems" pick_sweep [of seen ms x rest] Some p s by simp_all
      then show ?thesis using ne Some p "1.IH"(2) [OF ne Some p [symmetric] s] by (simp add: diverse_loop.simps [of seen ms])
    qed
  qed
qed

lemma diverse_passes: "diverse_loop {} ms = map fst (concat (by_passes ms))"
proof (induction ms rule: by_passes.induct)
  case (1 ms)
  obtain c r where s: "sweep_pass {} ms = (c, r)" by (rule prod.exhaust)
  show ?case
  proof (cases "ms = []")
    case False
    then show ?thesis using diverse_loop_sweep [OF s] "1.IH" [OF False s [symmetric]] s by (simp add: by_passes.simps [of ms])
  qed (simp add: diverse_loop.simps by_passes.simps)
qed

lemma sweep_pass_disjoint:
  "sweep_pass seen ms = (c, r) \<Longrightarrow>
     list_all (\<lambda>m. fresh seen (snd m)) c \<and> sorted_wrt (\<lambda>a b. set (snd a) \<inter> set (snd b) = {}) c \<and>
     list_all (\<lambda>m. \<not> fresh (seen \<union> (\<Union>x\<in>set c. set (snd x))) (snd m)) r"
proof (induction ms arbitrary: seen c r)
  case (Cons m ms)
  show ?case
  proof (cases "fresh seen (snd m)")
    case True
    obtain c' where s: "sweep_pass (seen \<union> set (snd m)) ms = (c', r)" "c = m # c'"
      using Cons.prems True by (auto split: prod.splits)
    note ih = Cons.IH [OF s(1)]
    have "list_all (\<lambda>x. set (snd m) \<inter> set (snd x) = {}) c'" using ih by (auto simp: list_all_iff fresh_def)
    moreover have "list_all (\<lambda>x. fresh seen (snd x)) c'" using ih fresh_mono by (auto simp: list_all_iff)
    ultimately show ?thesis using ih True s(2) by (simp add: list_all_iff Un_assoc)
  next
    case False
    obtain r' where s: "sweep_pass seen ms = (c, r')" "r = m # r'" using Cons.prems False by (auto split: prod.splits)
    have "\<not> fresh (seen \<union> S) (snd m)" for S using False fresh_mono by blast
    then show ?thesis using Cons.IH [OF s(1)] s(2) by simp
  qed
qed simp

lemma by_passes_mset: "mset (concat (by_passes ms)) = mset ms"
proof (induction ms rule: by_passes.induct)
  case (1 ms)
  obtain c r where s: "sweep_pass {} ms = (c, r)" by (rule prod.exhaust)
  show ?case
  proof (cases "ms = []")
    case False
    then show ?thesis using sweep_pass_mset [OF s] "1.IH" [OF False s [symmetric]] s by (simp add: by_passes.simps [of ms])
  qed (simp add: by_passes.simps)
qed

lemma by_passes_disjoint: "list_all (sorted_wrt (\<lambda>a b. set (snd a) \<inter> set (snd b) = {})) (by_passes ms)"
proof (induction ms rule: by_passes.induct)
  case (1 ms)
  obtain c r where s: "sweep_pass {} ms = (c, r)" by (rule prod.exhaust)
  show ?case
  proof (cases "ms = []")
    case False
    then show ?thesis using sweep_pass_disjoint [OF s] "1.IH" [OF False s [symmetric]] s by (simp add: by_passes.simps [of ms])
  qed (simp add: by_passes.simps)
qed

lemma passes_perm: "mset (map fst (concat (by_passes (map (\<lambda>n. (n, keysOf n)) ranked)))) = mset ranked"
  by (simp only: mset_map by_passes_mset) (simp add: multiset.map_comp comp_def)

lemma diverseOrder_mset: "mset (diverseOrder ranked keysOf) = mset ranked"
  using passes_perm by (simp add: diverseOrder_def diverse_passes)

lemma demote_mset: "mset (demote now site ranked keysOf ao) = mset ranked"
proof -
  have "mset (filter P xs) + mset (filter (\<lambda>x. \<not> P x) xs) = mset xs" for P and xs :: "string list"
    by (induction xs) simp_all
  then show ?thesis by (cases ao) (simp_all add: demote_def Let_def add.commute)
qed

section \<open>The dial gate\<close>

definition gate_inv :: "dialGate \<Rightarrow> bool" where
  "gate_inv g \<longleftrightarrow> dg_used g \<le> dg_cap g \<and> dg_used g = length (filter Not (dg_released g))"

lemma filter_Not_update:
  "i < length rs \<Longrightarrow> \<not> rs ! i \<Longrightarrow> length (filter Not rs) = Suc (length (filter Not (rs[i := True])))"
proof (induction rs arbitrary: i)
  case (Cons r rs)
  then show ?case by (cases i) auto
qed simp

inductive_cases gate_stepE: "gate_step g g'"

lemma gate_step_inv: "gate_step g g' \<Longrightarrow> gate_inv g \<Longrightarrow> gate_inv g' \<and> dg_cap g' = dg_cap g"
proof (erule gate_stepE)
  fix i assume "i < length (dg_released g)" "gate_release i g = Some g'" "gate_inv g"
  then show ?thesis using filter_Not_update [of i "dg_released g"]
    by (auto simp: gate_inv_def gate_release_def split: if_splits)
qed (auto simp: gate_inv_def gate_acquired_def gate_refused_def)

lemma gate_reach_inv: "gate_step\<^sup>*\<^sup>* (newDialGate n) g \<Longrightarrow> gate_inv g \<and> dg_cap g = n"
proof (induction rule: rtranclp_induct)
  case (step g g')
  then show ?case using gate_step_inv by metis
qed (simp add: gate_inv_def newDialGate_def)

section \<open>Runs of misses\<close>

text \<open>The misses of a binding that count: those since the last pause of more than \<open>stickyMissReset\<close>.\<close>

definition extend_run :: "time \<Rightarrow> time list \<Rightarrow> time list" where
  "extend_run t r = (if r \<noteq> [] \<and> stickyMissReset < t - last r then [t] else r @ [t])"

definition represents :: "stickyEntry \<Rightarrow> time list \<Rightarrow> bool" where
  "represents e r \<longleftrightarrow> se_misses e = length r \<and> (r \<noteq> [] \<longrightarrow> se_missFirst e = hd r \<and> se_missLast e = last r)"

lemma miss_represents:
  assumes "represents e r" shows "represents (sticky_miss_entry now e) (extend_run now r)"
proof -
  have "stickyMissReset < time_Sub now u \<longleftrightarrow> stickyMissReset < now - u" for u
    by (rule time_Sub_gt) (simp_all add: stickyMissReset_def second_def)
  then show ?thesis using assms by (cases r) (auto simp: represents_def sticky_miss_entry_def extend_run_def Let_def)
qed

lemma miss_entry_fields [simp]: "se_name (sticky_miss_entry now e) = se_name e" "se_at (sticky_miss_entry now e) = se_at e"
  by (simp_all add: sticky_miss_entry_def Let_def)

lemma miss_binding:
  assumes "key \<noteq> []" "sb_entries s key = Some e" "se_name e = name" "now - se_at e \<le> stickyTTL" "represents e r"
  shows "\<exists>s' e'. sticky_Miss now key name (Some s) =
      (stickyMoveMisses \<le> length (extend_run now r) \<and> stickyMoveAfter \<le> now - hd (extend_run now r), Some s') \<and>
    sb_entries s' key = Some e' \<and> se_name e' = name \<and> se_at e' = se_at e \<and> represents e' (extend_run now r)"
proof -
  let ?e = "sticky_miss_entry now e"
  have "\<not> stickyTTL < time_Sub now (se_at e)"
    using assms(4) by (subst time_Sub_gt) (simp_all add: stickyTTL_def minute_def second_def)
  moreover have r: "represents ?e (extend_run now r)" by (rule miss_represents [OF assms(5)])
  moreover have "extend_run now r \<noteq> []" by (simp add: extend_run_def)
  moreover have "stickyMoveAfter \<le> time_Sub now u \<longleftrightarrow> stickyMoveAfter \<le> now - u" for u
    by (rule time_Sub_ge) (simp_all add: stickyMoveAfter_def second_def)
  ultimately show ?thesis using assms(1-3) by (auto simp: sticky_Miss_def Let_def represents_def)
qed

fun misses :: "string \<Rightarrow> string \<Rightarrow> time list \<Rightarrow> stickyBindings option \<Rightarrow> bool list" where
  "misses key name [] s = []"
| "misses key name (t # ts) s = (case sticky_Miss t key name s of (b, s') \<Rightarrow> b # misses key name ts s')"

fun runs :: "time list \<Rightarrow> time list \<Rightarrow> time list list" where
  "runs r [] = []"
| "runs r (t # ts) = extend_run t r # runs (extend_run t r) ts"

lemma misses_runs:
  assumes "key \<noteq> []" "sb_entries s key = Some e" "se_name e = name" "represents e r" "list_all (\<lambda>t. t - se_at e \<le> stickyTTL) ts"
  shows "misses key name ts (Some s) =
    map2 (\<lambda>t r. stickyMoveMisses \<le> length r \<and> stickyMoveAfter \<le> t - hd r) ts (runs r ts)"
  using assms
proof (induction ts arbitrary: s e r)
  case (Cons t ts)
  obtain s' e' where m: "sticky_Miss t key name (Some s) =
      (stickyMoveMisses \<le> length (extend_run t r) \<and> stickyMoveAfter \<le> t - hd (extend_run t r), Some s')"
    "sb_entries s' key = Some e'" "se_name e' = name" "se_at e' = se_at e" "represents e' (extend_run t r)"
    using miss_binding [OF Cons.prems(1-3) _ Cons.prems(4), of t] Cons.prems(5) by auto
  then show ?case using Cons.IH [OF Cons.prems(1) m(2,3,5)] Cons.prems(5) by simp
qed simp

lemma Set_binding:
  assumes "key \<noteq> []" "name \<noteq> []"
  shows "\<exists>s' e. sticky_Set now key name (Some s) = Some s' \<and> sb_entries s' key = Some e \<and> se_name e = name \<and> se_at e = now \<and>
    represents e []"
proof -
  have "\<not> stickyTTL < time_Sub now now" by (subst time_Sub_gt) (simp_all add: stickyTTL_def minute_def second_def)
  then show ?thesis using assms by (simp add: sticky_Set_def sticky_sweep_def represents_def)
qed

section \<open>Properties\<close>

text \<open>
  The launch order of a race. \<open>diverseOrder\<close> terminates and is a reordering of the binding
  that keeps its first member: it launches the members in passes, each pass going down the
  ranking and taking every member that shares no key with those it took before, so that
  inside a pass no two members share a route or an exit.
\<close>

lemma diverseOrder_passes:
  "mset (diverseOrder ranked keysOf) = mset ranked \<and> take 1 (diverseOrder ranked keysOf) = take 1 ranked \<and>
   diverseOrder ranked keysOf =
     (if length ranked < 3 then ranked else map fst (concat (by_passes (map (\<lambda>n. (n, keysOf n)) ranked)))) \<and>
   list_all (sorted_wrt (\<lambda>a b. set (snd a) \<inter> set (snd b) = {})) (by_passes (map (\<lambda>n. (n, keysOf n)) ranked))"
proof -
  let ?ms = "map (\<lambda>n. (n, keysOf n)) ranked"
  have "take 1 (map fst (concat (by_passes ?ms))) = take 1 ranked"
  proof (cases ranked)
    case (Cons x xs)
    obtain c r where s: "sweep_pass {} ?ms = (c, r)" by (rule prod.exhaust)
    then obtain c' where "c = hd ?ms # c'" using sweep_pass_first [of ?ms c r] Cons by auto
    then have "concat (by_passes ?ms) = hd ?ms # c' @ concat (by_passes r)"
      using by_passes_step [OF _ s] Cons by simp
    then show ?thesis using Cons by simp
  qed (simp add: by_passes.simps)
  then show ?thesis using by_passes_disjoint diverseOrder_mset by (simp add: diverseOrder_def diverse_passes)
qed

text \<open>
  The dial gate. In every state it can reach, at most \<open>n\<close> dials hold a slot, a slot is held
  exactly by the acquisitions not yet released (so releasing twice frees nothing twice, and a
  refused acquisition holds none), no release ever blocks, and once every holder has
  released, the whole capacity is free again.
\<close>

lemma gate_bounded:
  assumes "gate_step\<^sup>*\<^sup>* (newDialGate n) g"
  shows "dg_used g \<le> n \<and> dg_used g = length (filter Not (dg_released g)) \<and>
    (i < length (dg_released g) \<longrightarrow> gate_release i g \<noteq> None) \<and>
    (list_all (\<lambda>r. r) (dg_released g) \<longrightarrow> dg_used g = 0)"
proof -
  have g: "gate_inv g" "dg_cap g = n" using gate_reach_inv [OF assms] by auto
  have "gate_release i g \<noteq> None" if "i < length (dg_released g)"
    using g(1) filter_Not_update [OF that] by (auto simp: gate_release_def gate_inv_def)
  moreover have "filter Not (dg_released g) = []" if "list_all (\<lambda>r. r) (dg_released g)"
    using that by (auto simp: list_all_iff filter_empty_conv)
  ultimately show ?thesis using g by (auto simp: gate_inv_def)
qed

lemma gate_bounded_witness:
  "dg_used (gate_refused (gate_acquired (newDialGate 1))) \<le> 1 \<and> gate_release 0 (gate_refused (gate_acquired (newDialGate 1))) \<noteq> None"
proof -
  have a: "gate_step (newDialGate 1) (gate_acquired (newDialGate 1))" by (rule gate_step.send) (simp add: newDialGate_def)
  have b: "gate_step (gate_acquired (newDialGate 1)) (gate_refused (gate_acquired (newDialGate 1)))" by (rule gate_step.giveup)
  have "gate_step\<^sup>*\<^sup>* (newDialGate 1) (gate_refused (gate_acquired (newDialGate 1)))"
    by (rule converse_rtranclp_into_rtranclp [OF a r_into_rtranclp [of gate_step, OF b]])
  from gate_bounded [OF this, of 0] show ?thesis by (simp add: gate_acquired_def gate_refused_def newDialGate_def)
qed

text \<open>
  When a binding moves. After an upstream carried a destination, a miss asks for the
  binding to move exactly when the run of misses it ends, with no pause longer than
  \<open>stickyMissReset\<close>, has at least two misses and began at least 15 seconds before: neither a
  burst of misses nor a single stale one moves a site.
\<close>

lemma sticky_moves:
  assumes "key \<noteq> []" "name \<noteq> []" "list_all (\<lambda>t. t - t0 \<le> stickyTTL) ts"
  shows "misses key name ts (sticky_Set t0 key name (Some s)) =
    map2 (\<lambda>t r. 2 \<le> length r \<and> 15 * second \<le> t - hd r) ts (runs [] ts)"
  using Set_binding [OF assms(1,2), of t0 s] misses_runs [OF assms(1), where name = name and ts = ts and r = "[]"] assms(3)
  by (auto simp: stickyMoveMisses_def stickyMoveAfter_def)

lemma sticky_moves_witness:
  "misses ''a.com'' ''de'' (map (\<lambda>t. t * second) [1, 2, 3, 70, 80, 86]) (sticky_Set 0 ''a.com'' ''de'' (Some newStickyBindings)) =
     [False, False, False, False, False, True]"
proof -
  have 1: "list_all (\<lambda>t. t - 0 \<le> stickyTTL) (map (\<lambda>t. t * second) [1, 2, 3, 70, 80, 86])" by code_simp
  have 2: "map2 (\<lambda>t r. 2 \<le> length r \<and> 15 * second \<le> t - hd r) (map (\<lambda>t. t * second) [1, 2, 3, 70, 80, 86])
      (runs [] (map (\<lambda>t. t * second) [1, 2, 3, 70, 80, 86])) = [False, False, False, False, False, True]" by code_simp
  show ?thesis by (subst sticky_moves [OF _ _ 1]) (simp_all only: 2, simp_all)
qed

section \<open>Avoidance\<close>

lemma window_iff: "siteAvoidWindow < time_Sub now u \<longleftrightarrow> siteAvoidWindow < now - u"
  by (rule time_Sub_gt) (simp_all add: siteAvoidWindow_def minute_def second_def)

lemma sweep_keeps:
  "sa_recs a i = Some r \<Longrightarrow> now - av_firstAt r \<le> siteAvoidWindow \<Longrightarrow> sa_recs (avoid_sweepLocked now a) i = Some r"
  by (simp add: avoid_sweepLocked_def window_iff)

lemma sweep_None: "sa_recs a i = None \<Longrightarrow> sa_recs (avoid_sweepLocked now a) i = None"
  by (simp add: avoid_sweepLocked_def)

lemma avoid_id_inj [simp]: "avoid_id site k = avoid_id site k' \<longleftrightarrow> k = k'"
  by (simp add: avoid_id_def)

lemma strike_keys_notin:
  "k \<notin> set ks \<Longrightarrow> 0 < i \<Longrightarrow> fst (strike_keys now site i ks recs b) = b \<and>
     snd (strike_keys now site i ks recs b) (avoid_id site k) = recs (avoid_id site k)"
  by (induction ks arbitrary: i recs) (auto split: prod.split)

lemma avoid_strike_first:
  assumes "site \<noteq> []" "k \<noteq> []" "k \<notin> set ks"
  shows "\<exists>a'. avoid_strike now site (k # ks) (Some a) = (snd (strike_record now (sa_recs (avoid_sweepLocked now a) (avoid_id site k))), Some a') \<and>
    sa_recs a' (avoid_id site k) = Some (fst (strike_record now (sa_recs (avoid_sweepLocked now a) (avoid_id site k))))"
proof -
  let ?a = "avoid_sweepLocked now a"
  obtain r b where r: "strike_record now (sa_recs ?a (avoid_id site k)) = (r, b)" by (rule prod.exhaust)
  have "strike_keys now site 0 (k # ks) (sa_recs ?a) False = strike_keys now site 1 ks ((sa_recs ?a)(avoid_id site k \<mapsto> r)) b"
    using assms(2) r by simp
  then show ?thesis
    using strike_keys_notin [OF assms(3), of 1 now site "(sa_recs ?a)(avoid_id site k \<mapsto> r)" b] assms(1) r
    by (auto simp: avoid_strike_def Let_def split: prod.split)
qed

text \<open>
  Avoidance. A member that had no record for a site is not avoided after one failure; a
  second one within \<open>siteAvoidWindow\<close> reports that it became avoided, and from then for
  \<open>siteAvoidFor\<close> the ranking for that site puts the members that are not avoided first, in
  their order, before the avoided ones; it never loses or adds a member.
\<close>

lemma two_strikes_avoid:
  assumes "site \<noteq> []" "k \<noteq> []" "k \<notin> set ks" "sa_recs a (avoid_id site k) = None"
    "avoid_strike t1 site (k # ks) (Some a) = (b1, Some a1)" "avoid_strike t2 site (k # ks) (Some a1) = (b2, Some a2)"
    "t2 - t1 \<le> siteAvoidWindow" "now < t2 + siteAvoidFor" "0 \<le> t2" "k \<in> set (keysOf n)"
  shows "\<not> b1 \<and> b2 \<and> avoidedLocked a2 site now (keysOf n) \<and>
    mset (demote now site ranked keysOf (Some a2)) = mset ranked \<and>
    (list_ex (\<lambda>m. \<not> avoidedLocked a2 site now (keysOf m)) ranked \<longrightarrow>
       demote now site ranked keysOf (Some a2) =
         filter (\<lambda>m. \<not> avoidedLocked a2 site now (keysOf m)) ranked @ filter (\<lambda>m. avoidedLocked a2 site now (keysOf m)) ranked)"
proof -
  let ?i = "avoid_id site k"
  have 1: "b1 = False" "sa_recs a1 ?i = Some \<lparr>av_strikes = 1, av_firstAt = t1, av_avoidUntil = 0\<rparr>"
    using avoid_strike_first [OF assms(1-3), of t1 a] sweep_None [OF assms(4), of t1] assms(5)
    by (simp_all add: strike_record_def timeOr_def siteAvoidStrikes_def)
  have "sa_recs (avoid_sweepLocked t2 a1) ?i = Some \<lparr>av_strikes = 1, av_firstAt = t1, av_avoidUntil = 0\<rparr>"
    by (rule sweep_keeps [OF 1(2)]) (use assms(7) in simp)
  then have 2: "b2" "sa_recs a2 ?i = Some \<lparr>av_strikes = 0, av_firstAt = t2, av_avoidUntil = t2 + siteAvoidFor\<rparr>"
    using avoid_strike_first [OF assms(1-3), of t2 a1] assms(6,7,9)
    by (simp_all add: strike_record_def timeOr_def siteAvoidStrikes_def window_iff)
  have av: "avoidedLocked a2 site now (keysOf n)"
    using 2(2) assms(2,8,10) by (auto simp: avoidedLocked_def list_ex_iff)
  let ?d = "demote now site ranked keysOf (Some a2)"
  have "mset ?d = mset ranked" by (rule demote_mset)
  moreover have "?d = filter (\<lambda>m. \<not> avoidedLocked a2 site now (keysOf m)) ranked @ filter (\<lambda>m. avoidedLocked a2 site now (keysOf m)) ranked"
    if some_ok: "list_ex (\<lambda>m. \<not> avoidedLocked a2 site now (keysOf m)) ranked"
  proof (cases "length ranked < 2")
    case True
    then obtain m where "ranked = [m]" using some_ok by (cases ranked) auto
    then show ?thesis using some_ok assms(1) by (simp add: demote_def)
  next
    case False
    then show ?thesis using some_ok assms(1)
      by (auto simp: demote_def Let_def list_ex_iff filter_empty_conv intro: filter_True [symmetric])
  qed
  ultimately show ?thesis using 1 2 av by blast
qed

definition struck_twice :: siteAvoid where
  "struck_twice = the (snd (avoid_strike (160 * second) ''site:x'' [''de''] (snd (avoid_strike (100 * second) ''site:x'' [''de''] (Some newSiteAvoid)))))"

lemma two_strikes_avoid_witness:
  "demote (170 * second) ''site:x'' [''de'', ''nl'', ''fr''] (\<lambda>n. [n]) (Some struck_twice) = [''nl'', ''fr'', ''de'']"
proof -
  let ?a1 = "the (snd (avoid_strike (100 * second) ''site:x'' [''de''] (Some newSiteAvoid)))"
  have s: "avoid_strike (100 * second) ''site:x'' [''de''] (Some newSiteAvoid) = (fst (avoid_strike (100 * second) ''site:x'' [''de''] (Some newSiteAvoid)), Some ?a1)"
    "avoid_strike (160 * second) ''site:x'' [''de''] (Some ?a1) = (fst (avoid_strike (160 * second) ''site:x'' [''de''] (Some ?a1)), Some struck_twice)"
    by (simp_all add: struck_twice_def avoid_strike_def Let_def split: prod.split)
  have f: "filter (\<lambda>m. \<not> avoidedLocked struck_twice ''site:x'' (170 * second) [m]) [''de'', ''nl'', ''fr''] = [''nl'', ''fr'']"
    "filter (\<lambda>m. avoidedLocked struck_twice ''site:x'' (170 * second) [m]) [''de'', ''nl'', ''fr''] = [''de'']"
    "list_ex (\<lambda>m. \<not> avoidedLocked struck_twice ''site:x'' (170 * second) [m]) [''de'', ''nl'', ''fr'']" by code_simp+
  have "sa_recs newSiteAvoid (avoid_id ''site:x'' ''de'') = None" by (simp add: newSiteAvoid_def)
  from two_strikes_avoid [OF _ _ _ this s, where now = "170 * second" and keysOf = "\<lambda>n. [n]" and n = "''de''" and ranked = "[''de'', ''nl'', ''fr'']"]
  show ?thesis using f by (simp add: siteAvoidWindow_def siteAvoidFor_def minute_def second_def)
qed

section \<open>The tally of a sampled line\<close>

text \<open>
  Repeated lines of one key are counted, not lost: of \<open>n\<close> calls, those that are logged, those
  reported by a logged line and those still pending add up to \<open>n\<close>, as long as the sweep
  does not remove the key.
\<close>

fun allows :: "string \<Rightarrow> time list \<Rightarrow> logSampler option \<Rightarrow> nat \<Rightarrow> nat \<times> logSampler option" where
  "allows key [] s acc = (acc, s)"
| "allows key (t # ts) s acc =
     (case sample_allow t key s of ((ok, n), s') \<Rightarrow> allows key ts s' (if ok then acc + 1 + n else acc))"

definition pending :: "string \<Rightarrow> logSampler option \<Rightarrow> nat" where
  "pending key so = (case so of Some s \<Rightarrow> (case ls_entries s key of Some e \<Rightarrow> lg_suppressed e | None \<Rightarrow> 0) | None \<Rightarrow> 0)"

lemma allows_tally:
  "ls_entries s key = Some e \<Longrightarrow> fst (allows key ts (Some s) acc) + pending key (snd (allows key ts (Some s) acc)) =
     acc + lg_suppressed e + length ts"
proof (induction ts arbitrary: s e acc)
  case (Cons t ts)
  then show ?case by (auto simp: sample_allow_def)
qed (simp add: pending_def)

text \<open>The sweep drops a key with lines still pending: their number is never reported.\<close>

lemma sweep_loses_tally:
  "(case allows ''k'' [100 * second, 101 * second, 102 * second] (Some newLogSampler) 0 of
      (n, s) \<Rightarrow> n = 1 \<and> pending ''k'' s = 2 \<and>
        (case sample_allow (800 * second) ''other'' s of
           (_, s') \<Rightarrow> pending ''k'' s' = 0 \<and> fst (sample_allow (801 * second) ''k'' s') = (True, 0)))"
  by code_simp

end
