(* ===== verification/Health.thy ===== *)
theory Health
  imports Go_Prelude
begin

text \<open>
  \<open>daemon/tcp_health.go\<close> and \<open>daemon/udp_health.go\<close>: the memory of destinations whose path
  is dead. Both keep one record per destination and penalise it for a time taken from a
  ladder; the TCP one lets single probes through during the penalty. The pruning loops
  delete entries independently of each other, so they are written as one restriction of
  the map. A nil receiver is \<open>None\<close>; the clock of each call is the argument \<open>now\<close>.
\<close>

section \<open>TCP\<close>

definition tcpStrikeThreshold :: nat where "tcpStrikeThreshold = 5"
definition tcpProbeInterval :: duration where "tcpProbeInterval = second"
definition tcpHealthEntryTTL :: duration where "tcpHealthEntryTTL = 2 * hour"
definition tcpPenaltyLadder :: "duration list" where "tcpPenaltyLadder = [5 * second, 20 * second, 60 * second]"

record tcpHealthEntry =
  th_strikes :: nat
  th_level :: nat
  th_until :: time
  th_lastProbe :: time
  th_seen :: time

type_synonym tcpHealth = "string \<rightharpoonup> tcpHealthEntry"

definition newTCPHealth :: tcpHealth where "newTCPHealth = Map.empty"

definition tcpHealthKey :: "string \<Rightarrow> int \<Rightarrow> string" where
  "tcpHealthKey host port = host @ '':'' @ Itoa port"

text \<open>The next rung of a ladder, which ends at its last one.\<close>

definition next_level :: "duration list \<Rightarrow> nat \<Rightarrow> nat" where
  "next_level ladder level = (if level < length ladder - 1 then level + 1 else level)"

definition tcp_entry :: "tcpHealth \<Rightarrow> string \<Rightarrow> tcpHealthEntry" where
  "tcp_entry h key = (case h key of Some e \<Rightarrow> e
     | None \<Rightarrow> \<lparr>th_strikes = 0, th_level = 0, th_until = 0, th_lastProbe = 0, th_seen = 0\<rparr>)"

definition tcp_pruneLocked :: "time \<Rightarrow> tcpHealth \<Rightarrow> tcpHealth" where
  "tcp_pruneLocked now h =
     (\<lambda>k. case h k of
        None \<Rightarrow> None
      | Some e \<Rightarrow> if now < th_until e then Some e
                  else if tcpHealthEntryTTL < time_Sub now (th_seen e) then None else Some e)"

fun tcp_admit :: "time \<Rightarrow> string \<Rightarrow> tcpHealth option \<Rightarrow> bool \<times> tcpHealth option" where
  "tcp_admit now key None = (True, None)"
| "tcp_admit now key (Some h) =
     (case h key of
        None \<Rightarrow> (True, Some h)
      | Some e \<Rightarrow>
          (let e1 = e\<lparr>th_seen := now\<rparr> in
           if \<not> now < th_until e1 then (True, Some (h(key \<mapsto> e1)))
           else if tcpProbeInterval \<le> time_Sub now (th_lastProbe e1)
             then (True, Some (h(key \<mapsto> e1\<lparr>th_lastProbe := now\<rparr>)))
           else (False, Some (h(key \<mapsto> e1)))))"

text \<open>The end of \<open>strike\<close> and \<open>condemn\<close>: the penalty of the current rung is applied.\<close>

definition tcp_penalise :: "time \<Rightarrow> string \<Rightarrow> tcpHealthEntry \<Rightarrow> tcpHealth \<Rightarrow> duration \<times> tcpHealth" where
  "tcp_penalise now key e h =
     (let d = tcpPenaltyLadder ! th_level e
      in (d, h(key \<mapsto> e\<lparr>th_strikes := 0, th_level := next_level tcpPenaltyLadder (th_level e), th_until := now + d\<rparr>)))"

fun tcp_strike :: "time \<Rightarrow> string \<Rightarrow> tcpHealth option \<Rightarrow> duration \<times> tcpHealth option" where
  "tcp_strike now key None = (0, None)"
| "tcp_strike now key (Some h0) =
     (let h = tcp_pruneLocked now h0;
          e = (tcp_entry h key)\<lparr>th_seen := now\<rparr>
      in if now < th_until e then (0, Some (h(key \<mapsto> e\<lparr>th_until := now + tcpPenaltyLadder ! th_level e\<rparr>)))
         else
           (let e1 = e\<lparr>th_strikes := th_strikes e + 1\<rparr>
            in if th_strikes e1 < tcpStrikeThreshold then (0, Some (h(key \<mapsto> e1)))
               else (case tcp_penalise now key e1 h of (d, h') \<Rightarrow> (d, Some h'))))"

fun tcp_condemn :: "time \<Rightarrow> string \<Rightarrow> tcpHealth option \<Rightarrow> duration \<times> tcpHealth option" where
  "tcp_condemn now key None = (0, None)"
| "tcp_condemn now key (Some h0) =
     (let h = tcp_pruneLocked now h0;
          e = (tcp_entry h key)\<lparr>th_seen := now\<rparr>
      in case tcp_penalise now key e h of (d, h') \<Rightarrow> (d, Some h'))"

fun tcp_success :: "time \<Rightarrow> string \<Rightarrow> tcpHealth option \<Rightarrow> tcpHealth option" where
  "tcp_success now key None = None"
| "tcp_success now key (Some h) =
     (case h key of
        None \<Rightarrow> Some h
      | Some e \<Rightarrow> Some (h(key \<mapsto> e\<lparr>th_strikes := 0, th_level := 0, th_until := 0, th_seen := now\<rparr>)))"

fun tcp_reset :: "tcpHealth option \<Rightarrow> tcpHealth option" where
  "tcp_reset None = None"
| "tcp_reset (Some h) = Some Map.empty"

section \<open>UDP\<close>

definition udpStrikeThreshold :: nat where "udpStrikeThreshold = 2"
definition udpHealthEntryTTL :: duration where "udpHealthEntryTTL = 2 * hour"
definition udpPenaltyLadder :: "duration list" where "udpPenaltyLadder = [5 * minute, 15 * minute, 60 * minute]"

record udpHealthEntry =
  uh_strikes :: nat
  uh_level :: nat
  uh_until :: time
  uh_seen :: time

type_synonym udpHealth = "string \<rightharpoonup> udpHealthEntry"

definition newUDPHealth :: udpHealth where "newUDPHealth = Map.empty"

definition udpHealthKey :: "string \<Rightarrow> int \<Rightarrow> string" where
  "udpHealthKey host port = host @ '':'' @ Itoa port"

definition udp_entry :: "udpHealth \<Rightarrow> string \<Rightarrow> udpHealthEntry" where
  "udp_entry h key = (case h key of Some e \<Rightarrow> e | None \<Rightarrow> \<lparr>uh_strikes = 0, uh_level = 0, uh_until = 0, uh_seen = 0\<rparr>)"

definition udp_pruneLocked :: "time \<Rightarrow> udpHealth \<Rightarrow> udpHealth" where
  "udp_pruneLocked now h =
     (\<lambda>k. case h k of
        None \<Rightarrow> None
      | Some e \<Rightarrow> if now < uh_until e then Some e
                  else if udpHealthEntryTTL < time_Sub now (uh_seen e) then None else Some e)"

fun udp_blocked :: "time \<Rightarrow> string \<Rightarrow> udpHealth option \<Rightarrow> bool \<times> udpHealth option" where
  "udp_blocked now key None = (False, None)"
| "udp_blocked now key (Some h) =
     (case h key of
        None \<Rightarrow> (False, Some h)
      | Some e \<Rightarrow> (now < uh_until e, Some (h(key \<mapsto> e\<lparr>uh_seen := now\<rparr>))))"

fun udp_strike :: "time \<Rightarrow> string \<Rightarrow> udpHealth option \<Rightarrow> duration \<times> udpHealth option" where
  "udp_strike now key None = (0, None)"
| "udp_strike now key (Some h0) =
     (let h = udp_pruneLocked now h0;
          e = (udp_entry h key)\<lparr>uh_seen := now\<rparr>;
          e1 = e\<lparr>uh_strikes := uh_strikes e + 1\<rparr>
      in if uh_strikes e1 < udpStrikeThreshold then (0, Some (h(key \<mapsto> e1)))
         else
           (let d = udpPenaltyLadder ! uh_level e1
            in (d, Some (h(key \<mapsto> e1\<lparr>uh_strikes := 0, uh_level := next_level udpPenaltyLadder (uh_level e1), uh_until := now + d\<rparr>)))))"

fun udp_success :: "time \<Rightarrow> string \<Rightarrow> udpHealth option \<Rightarrow> udpHealth option" where
  "udp_success now key None = None"
| "udp_success now key (Some h) =
     (case h key of
        None \<Rightarrow> Some h
      | Some e \<Rightarrow> Some (h(key \<mapsto> e\<lparr>uh_strikes := 0, uh_level := 0, uh_until := 0, uh_seen := now\<rparr>)))"

fun udp_reset :: "udpHealth option \<Rightarrow> udpHealth option" where
  "udp_reset None = None"
| "udp_reset (Some h) = Some Map.empty"

section \<open>Ladders\<close>

text \<open>What the trackers rely on in a penalty ladder.\<close>

locale penalty_ladder =
  fixes ladder :: "duration list"
  assumes nonempty: "ladder \<noteq> []" and increasing: "sorted ladder" and positive: "0 < hd ladder"
begin

lemma next_level_in: "l < length ladder \<Longrightarrow> next_level ladder l < length ladder"
  by (auto simp: next_level_def)

lemma zero_in: "0 < length ladder"
  using nonempty by simp

lemma rung_bounds:
  assumes "l < length ladder" shows "0 < ladder ! l \<and> ladder ! l \<le> last ladder"
proof -
  have "ladder ! 0 \<le> ladder ! l" using increasing assms by (intro sorted_nth_mono) auto
  moreover have "ladder ! l \<le> ladder ! (length ladder - 1)" using increasing assms by (intro sorted_nth_mono) auto
  ultimately show ?thesis using positive nonempty by (simp add: hd_conv_nth last_conv_nth)
qed

end

interpretation tcp: penalty_ladder tcpPenaltyLadder
  by unfold_locales (simp_all add: tcpPenaltyLadder_def second_def)

interpretation udp: penalty_ladder udpPenaltyLadder
  by unfold_locales (simp_all add: udpPenaltyLadder_def minute_def second_def)

lemma last_rung: "last tcpPenaltyLadder = 60 * second" "last udpPenaltyLadder = 60 * minute"
  by (simp_all add: tcpPenaltyLadder_def udpPenaltyLadder_def)

section \<open>Reachable records\<close>

text \<open>The calls in any order, with a clock that never goes back.\<close>

inductive tcp_reach :: "time \<Rightarrow> tcpHealth \<Rightarrow> bool" where
  start: "0 \<le> now \<Longrightarrow> tcp_reach now newTCPHealth"
| clock: "tcp_reach now h \<Longrightarrow> now \<le> now' \<Longrightarrow> tcp_reach now' h"
| admit: "tcp_reach now h \<Longrightarrow> tcp_admit now key (Some h) = (r, Some h') \<Longrightarrow> tcp_reach now h'"
| strike: "tcp_reach now h \<Longrightarrow> tcp_strike now key (Some h) = (d, Some h') \<Longrightarrow> tcp_reach now h'"
| condemn: "tcp_reach now h \<Longrightarrow> tcp_condemn now key (Some h) = (d, Some h') \<Longrightarrow> tcp_reach now h'"
| success: "tcp_reach now h \<Longrightarrow> tcp_success now key (Some h) = Some h' \<Longrightarrow> tcp_reach now h'"
| reset: "tcp_reach now h \<Longrightarrow> tcp_reset (Some h) = Some h' \<Longrightarrow> tcp_reach now h'"

definition tcp_ok :: "time \<Rightarrow> tcpHealthEntry \<Rightarrow> bool" where
  "tcp_ok now e \<longleftrightarrow> th_level e < length tcpPenaltyLadder \<and> th_strikes e < tcpStrikeThreshold \<and>
     th_until e \<le> now + last tcpPenaltyLadder \<and> th_lastProbe e \<le> now"

definition tcp_inv :: "time \<Rightarrow> tcpHealth \<Rightarrow> bool" where
  "tcp_inv now h \<longleftrightarrow> (\<forall>k e. h k = Some e \<longrightarrow> tcp_ok now e)"

lemma tcp_invD: "tcp_inv now h \<Longrightarrow> h k = Some e \<Longrightarrow> tcp_ok now e"
  by (simp add: tcp_inv_def)

lemma tcp_inv_upd: "tcp_inv now h \<Longrightarrow> tcp_ok now e \<Longrightarrow> tcp_inv now (h(key \<mapsto> e))"
  by (simp add: tcp_inv_def)

lemma tcp_inv_prune: "tcp_inv now h \<Longrightarrow> tcp_inv now (tcp_pruneLocked now h)"
  by (auto simp: tcp_inv_def tcp_pruneLocked_def split: option.splits if_splits)

lemma tcp_entry_ok: "0 \<le> now \<Longrightarrow> tcp_inv now h \<Longrightarrow> tcp_ok now (tcp_entry h key)"
  using tcp.zero_in tcp_invD [of now h key] last_rung
  by (auto simp: tcp_entry_def tcp_ok_def tcpStrikeThreshold_def second_def split: option.split)

lemma tcp_penalise_inv:
  assumes "tcp_inv now h" "th_level e < length tcpPenaltyLadder" "th_lastProbe e \<le> now"
  shows "tcp_inv now (snd (tcp_penalise now key e h))" "0 < fst (tcp_penalise now key e h)"
    "fst (tcp_penalise now key e h) \<le> last tcpPenaltyLadder"
  using assms tcp.rung_bounds [OF assms(2)] tcp.next_level_in [OF assms(2)]
  by (auto simp: tcp_penalise_def Let_def tcp_ok_def tcpStrikeThreshold_def intro!: tcp_inv_upd)

lemma tcp_strike_inv:
  assumes "0 \<le> now" "tcp_inv now h0" "tcp_strike now key (Some h0) = (d, Some h')"
  shows "tcp_inv now h'"
proof -
  define h where "h = tcp_pruneLocked now h0"
  define e where "e = (tcp_entry h key)\<lparr>th_seen := now\<rparr>"
  have h: "tcp_inv now h" using tcp_inv_prune [OF assms(2)] by (simp add: h_def)
  have e: "tcp_ok now e" using tcp_entry_ok [OF assms(1) h, of key] by (simp add: e_def tcp_ok_def)
  have pen: "tcp_inv now (snd (tcp_penalise now key (e\<lparr>th_strikes := n\<rparr>) h))" for n
    by (rule tcp_penalise_inv [OF h]) (use e in \<open>simp_all add: tcp_ok_def\<close>)
  have d: "tcpPenaltyLadder ! th_level e \<le> last tcpPenaltyLadder" using tcp.rung_bounds e by (simp add: tcp_ok_def)
  have "tcp_ok now (e\<lparr>th_until := now + tcpPenaltyLadder ! th_level e\<rparr>)"
    and "th_strikes e + 1 < tcpStrikeThreshold \<Longrightarrow> tcp_ok now (e\<lparr>th_strikes := th_strikes e + 1\<rparr>)"
    using e d by (simp_all add: tcp_ok_def)
  then show ?thesis
    using assms(3) pen [of "th_strikes e + 1"] h
    by (auto simp: Let_def h_def [symmetric] e_def [symmetric] tcp_inv_upd split: if_splits prod.splits)
qed

lemma tcp_reach_inv: "tcp_reach now h \<Longrightarrow> 0 \<le> now \<and> tcp_inv now h"
proof (induction rule: tcp_reach.induct)
  case (clock now h now')
  then show ?case by (force simp: tcp_inv_def tcp_ok_def)
next
  case (admit now h key r h')
  then show ?case using tcp_invD [of now h key]
    by (auto simp: Let_def tcp_ok_def intro!: tcp_inv_upd split: option.splits if_splits)
next
  case (strike now h key d h')
  then show ?case using tcp_strike_inv by blast
next
  case (condemn now h key d h')
  have p: "tcp_inv now (tcp_pruneLocked now h)" using condemn tcp_inv_prune by blast
  then have "tcp_ok now (tcp_entry (tcp_pruneLocked now h) key)" using condemn tcp_entry_ok by blast
  then have "tcp_inv now (snd (tcp_penalise now key ((tcp_entry (tcp_pruneLocked now h) key)\<lparr>th_seen := now\<rparr>) (tcp_pruneLocked now h)))"
    by (intro tcp_penalise_inv [OF p]) (simp_all add: tcp_ok_def)
  then show ?case using condemn by (auto simp: Let_def split: prod.splits)
next
  case (success now h key h')
  then show ?case using tcp_invD [of now h key] tcp.zero_in last_rung
    by (auto simp: tcp_ok_def tcpStrikeThreshold_def second_def intro!: tcp_inv_upd split: option.splits)
qed (auto simp: tcp_inv_def newTCPHealth_def)

text \<open>Sequences of calls, and the strikes of a destination since it last answered.\<close>

datatype tcp_event = Admit string | Strike string | Condemn string | Success string | Reset

fun tcp_step :: "time \<times> tcp_event \<Rightarrow> tcpHealth option \<Rightarrow> tcpHealth option" where
  "tcp_step (now, Admit k) h = snd (tcp_admit now k h)"
| "tcp_step (now, Strike k) h = snd (tcp_strike now k h)"
| "tcp_step (now, Condemn k) h = snd (tcp_condemn now k h)"
| "tcp_step (now, Success k) h = tcp_success now k h"
| "tcp_step (now, Reset) h = tcp_reset h"

fun struck_step :: "string \<Rightarrow> time \<times> tcp_event \<Rightarrow> nat \<Rightarrow> nat" where
  "struck_step key (_, Strike k) c = (if k = key then c + 1 else c)"
| "struck_step key (_, Condemn k) c = (if k = key then c + tcpStrikeThreshold else c)"
| "struck_step key (_, Success k) c = (if k = key then 0 else c)"
| "struck_step key (_, Reset) c = 0"
| "struck_step key (_, Admit k) c = c"

definition clean :: "string \<Rightarrow> nat \<Rightarrow> tcpHealth option \<Rightarrow> bool" where
  "clean key c ho \<longleftrightarrow> (\<exists>h. ho = Some h \<and>
     (c < tcpStrikeThreshold \<longrightarrow> (\<forall>e. h key = Some e \<longrightarrow> th_until e = 0 \<and> th_strikes e \<le> c)))"

lemma prune_SomeD: "tcp_pruneLocked now h k = Some e \<Longrightarrow> h k = Some e"
  by (auto simp: tcp_pruneLocked_def split: option.splits if_splits)

lemma tcp_entry_clean:
  assumes "\<And>e. h key = Some e \<Longrightarrow> th_until e = 0 \<and> th_strikes e \<le> c"
  shows "th_until (tcp_entry (tcp_pruneLocked now h) key) = 0 \<and> th_strikes (tcp_entry (tcp_pruneLocked now h) key) \<le> c"
  using assms prune_SomeD [of now h key] by (auto simp: tcp_entry_def split: option.split)

lemma strike_other: "k \<noteq> key \<Longrightarrow> \<exists>h'. snd (tcp_strike now k (Some h)) = Some h' \<and> (\<forall>e. h' key = Some e \<longrightarrow> h key = Some e)"
  using prune_SomeD [of now h key] by (auto simp: Let_def tcp_penalise_def)

lemma condemn_other: "k \<noteq> key \<Longrightarrow> \<exists>h'. snd (tcp_condemn now k (Some h)) = Some h' \<and> (\<forall>e. h' key = Some e \<longrightarrow> h key = Some e)"
  using prune_SomeD [of now h key] by (auto simp: Let_def tcp_penalise_def)

lemma clean_mono:
  "clean key c (Some h) \<Longrightarrow> (\<And>e. h' key = Some e \<Longrightarrow> h key = Some e) \<Longrightarrow> clean key c (Some h')"
  by (auto simp: clean_def)

lemma strike_clean:
  assumes "0 \<le> now" "clean key c (Some h)" shows "clean key (c + 1) (snd (tcp_strike now key (Some h)))"
proof -
  let ?p = "tcp_pruneLocked now h"
  let ?e = "(tcp_entry ?p key)\<lparr>th_seen := now\<rparr>"
  have some: "\<exists>h'. snd (tcp_strike now key (Some h)) = Some h'" by (auto simp: Let_def split: prod.split)
  show ?thesis
  proof (cases "c + 1 < tcpStrikeThreshold")
    case True
    then have e: "th_until ?e = 0" "th_strikes ?e \<le> c"
      using assms(2) tcp_entry_clean [of h key c now] by (auto simp: clean_def)
    then have "tcp_strike now key (Some h) = (0, Some (?p(key \<mapsto> ?e\<lparr>th_strikes := th_strikes ?e + 1\<rparr>)))"
      using assms(1) True by (simp add: Let_def)
    then show ?thesis using e by (simp add: clean_def)
  next
    case False
    then show ?thesis using some by (auto simp: clean_def)
  qed
qed

lemma step_clean:
  assumes "0 \<le> fst ev" "clean key c h" shows "clean key (struck_step key ev c) (tcp_step ev h)"
proof -
  obtain now x where ev: "ev = (now, x)" by (rule prod.exhaust)
  obtain h0 where h: "h = Some h0" using assms(2) by (auto simp: clean_def)
  show ?thesis
  proof (cases x)
    case (Admit k)
    then show ?thesis using assms(2) by (auto simp: ev h clean_def Let_def split: option.splits)
  next
    case (Strike k)
    then show ?thesis using assms strike_clean [of now key c h0] strike_other [of k key now h0] clean_mono [of key c h0]
      by (cases "k = key") (auto simp: ev h)
  next
    case (Condemn k)
    have "\<exists>h'. snd (tcp_condemn now k (Some h0)) = Some h'" by (auto simp: Let_def tcp_penalise_def)
    then show ?thesis using Condemn assms condemn_other [of k key now h0] clean_mono [of key c h0]
      by (cases "k = key") (auto simp: ev h, auto simp: clean_def)
  next
    case (Success k)
    then show ?thesis using assms(2) by (cases "k = key") (auto simp: ev h clean_def split: option.splits)
  next
    case Reset
    then show ?thesis by (simp add: ev h clean_def)
  qed
qed

lemma run_clean:
  "list_all (\<lambda>ev. 0 \<le> fst ev) evs \<Longrightarrow> clean key c h \<Longrightarrow> clean key (fold (struck_step key) evs c) (fold tcp_step evs h)"
  by (induction evs arbitrary: c h) (auto simp: step_clean)

section \<open>Probes during a penalty\<close>

fun admitted :: "string \<Rightarrow> time list \<Rightarrow> tcpHealth option \<Rightarrow> time list" where
  "admitted key [] h = []"
| "admitted key (t # ts) h =
     (case tcp_admit t key h of (ok, h') \<Rightarrow> if ok then t # admitted key ts h' else admitted key ts h')"

lemma probe_iff: "tcpProbeInterval \<le> time_Sub t u \<longleftrightarrow> u + tcpProbeInterval \<le> t"
  by (subst time_Sub_ge) (auto simp: tcpProbeInterval_def second_def)

lemma admitted_spaced:
  assumes "h key = Some e" "list_all (\<lambda>t. t < th_until e) ts"
  shows "successively (\<lambda>a b. a + tcpProbeInterval \<le> b) (th_lastProbe e # admitted key ts (Some h))"
  using assms
proof (induction ts arbitrary: h e)
  case (Cons t ts)
  let ?e = "e\<lparr>th_seen := t\<rparr>"
  show ?case
  proof (cases "th_lastProbe e + tcpProbeInterval \<le> t")
    case True
    have "successively (\<lambda>a b. a + tcpProbeInterval \<le> b) (t # admitted key ts (Some (h(key \<mapsto> ?e\<lparr>th_lastProbe := t\<rparr>))))"
      using Cons.IH [of "h(key \<mapsto> ?e\<lparr>th_lastProbe := t\<rparr>)" "?e\<lparr>th_lastProbe := t\<rparr>", OF fun_upd_same] Cons.prems(2) by (simp del: fun_upd_apply)
    then show ?thesis using True Cons.prems by (simp add: Let_def probe_iff)
  next
    case False
    then show ?thesis using Cons.IH [of "h(key \<mapsto> ?e)" ?e, OF fun_upd_same] Cons.prems
      by (simp add: Let_def probe_iff del: fun_upd_apply)
  qed
qed simp

lemma spaced_length:
  assumes "successively (\<lambda>a b. a + d \<le> b) (x # xs)" shows "x + int (length xs) * d \<le> last (x # xs)"
  using assms
proof (induction xs arbitrary: x)
  case (Cons y ys)
  then have "y + int (length ys) * d \<le> last (y # ys)" "x + d \<le> y" by simp_all
  then show ?case by (simp add: algebra_simps)
qed simp

lemma admitted_subset: "set (admitted key ts h) \<subseteq> set ts"
  by (induction ts arbitrary: h) (auto split: prod.splits if_splits)

section \<open>The UDP records\<close>

definition udp_ok :: "time \<Rightarrow> udpHealthEntry \<Rightarrow> bool" where
  "udp_ok now e \<longleftrightarrow> uh_level e < length udpPenaltyLadder \<and> uh_strikes e < udpStrikeThreshold \<and>
     uh_until e \<le> now + last udpPenaltyLadder"

definition udp_inv :: "time \<Rightarrow> udpHealth \<Rightarrow> bool" where
  "udp_inv now h \<longleftrightarrow> (\<forall>k e. h k = Some e \<longrightarrow> udp_ok now e)"

lemma udp_inv_upd: "udp_inv now h \<Longrightarrow> udp_ok now e \<Longrightarrow> udp_inv now (h(key \<mapsto> e))"
  by (simp add: udp_inv_def)

lemma udp_inv_prune: "udp_inv now h \<Longrightarrow> udp_inv now (udp_pruneLocked now h)"
  by (auto simp: udp_inv_def udp_pruneLocked_def split: option.splits if_splits)

lemma udp_entry_ok: "0 \<le> now \<Longrightarrow> udp_inv now h \<Longrightarrow> udp_ok now (udp_entry h key)"
  using udp.zero_in last_rung
  by (auto simp: udp_entry_def udp_inv_def udp_ok_def udpStrikeThreshold_def minute_def second_def split: option.split)

lemma udp_strike_inv:
  assumes "0 \<le> now" "udp_inv now h0" "udp_strike now key (Some h0) = (d, Some h')"
  shows "udp_inv now h'" "d \<le> 60 * minute"
proof -
  define h where "h = udp_pruneLocked now h0"
  define e where "e = (udp_entry h key)\<lparr>uh_seen := now\<rparr>"
  have h: "udp_inv now h" using udp_inv_prune [OF assms(2)] by (simp add: h_def)
  have e: "udp_ok now e" using udp_entry_ok [OF assms(1) h, of key] by (simp add: e_def udp_ok_def)
  then have lvl: "uh_level e < length udpPenaltyLadder" by (simp add: udp_ok_def)
  have st: "uh_strikes (udp_entry h key) = uh_strikes e" by (simp add: e_def)
  note rung = udp.rung_bounds [OF lvl] udp.next_level_in [OF lvl] last_rung(2)
  have "udp_inv now h' \<and> d \<le> 60 * minute"
    using assms(3) e rung h
    by (auto simp: Let_def st h_def [symmetric] e_def [symmetric] udp_ok_def udpStrikeThreshold_def minute_def second_def
        intro!: udp_inv_upd split: if_splits)
  then show "udp_inv now h'" "d \<le> 60 * minute" by simp_all
qed

section \<open>Properties\<close>

text \<open>
  The memory of dead destinations is bounded. In every state reachable under a clock that
  never goes back, the rung of a record indexes its ladder, a record holds fewer strikes
  than the threshold, and no destination stays penalised for longer than the last rung
  after the latest call: 60 seconds later at most every connection is admitted.
\<close>

lemma tcp_penalty_bounded:
  assumes "tcp_reach now h" "h key = Some e"
  shows "th_level e < length tcpPenaltyLadder \<and> th_strikes e < tcpStrikeThreshold \<and> th_until e \<le> now + 60 * second \<and>
    fst (tcp_admit (now + 60 * second) key (Some h))"
proof -
  have "tcp_ok now e" using tcp_invD [OF conjunct2 [OF tcp_reach_inv [OF assms(1)]] assms(2)] .
  then have e: "th_level e < length tcpPenaltyLadder" "th_strikes e < tcpStrikeThreshold" "th_until e \<le> now + 60 * second"
    by (simp_all add: tcp_ok_def last_rung)
  then show ?thesis using assms(2) by (simp add: Let_def not_less)
qed

definition condemned :: tcpHealth where
  "condemned = the (snd (tcp_condemn (100 * second) ''a.com:443'' (Some newTCPHealth)))"

lemma condemned_reach: "tcp_reach (100 * second) condemned"
proof -
  have "tcp_condemn (100 * second) ''a.com:443'' (Some newTCPHealth) =
      (fst (tcp_condemn (100 * second) ''a.com:443'' (Some newTCPHealth)), Some condemned)"
    by (simp add: condemned_def Let_def tcp_penalise_def)
  then show ?thesis by (intro tcp_reach.condemn [OF tcp_reach.start]) (auto simp: second_def)
qed

lemma condemned_entry:
  "condemned ''a.com:443'' = Some \<lparr>th_strikes = 0, th_level = 1, th_until = 105 * second, th_lastProbe = 0, th_seen = 100 * second\<rparr>"
  by code_simp

lemma tcp_penalty_bounded_witness:
  "fst (tcp_admit (160 * second) ''a.com:443'' (Some condemned))"
  using tcp_penalty_bounded [OF condemned_reach condemned_entry] by simp

text \<open>
  C16: The brake. While a destination is penalised, the connections admitted to it are at
  least \<open>tcpProbeInterval\<close> apart, however many arrive and at whatever instants: of those
  that arrive between \<open>lo\<close> and \<open>hi\<close>, at most one per second and one more get through. And
  the destination is never closed: a connection that arrives \<open>tcpProbeInterval\<close> or more after
  the last probe is admitted.
\<close>

theorem tcp_brake:
  assumes "h key = Some e" "list_all (\<lambda>t. lo \<le> t \<and> t \<le> hi \<and> t < th_until e) ts" "lo \<le> hi"
  shows "int (length (admitted key ts (Some h))) * tcpProbeInterval \<le> hi - lo + tcpProbeInterval \<and>
    successively (\<lambda>a b. a + tcpProbeInterval \<le> b) (admitted key ts (Some h)) \<and>
    (th_lastProbe e + tcpProbeInterval \<le> t \<longrightarrow> fst (tcp_admit t key (Some h)))"
proof -
  let ?A = "admitted key ts (Some h)"
  have "list_all (\<lambda>t. t < th_until e) ts" using assms(2) by (simp add: list_all_iff)
  then have s: "successively (\<lambda>a b. a + tcpProbeInterval \<le> b) (th_lastProbe e # ?A)" using admitted_spaced assms(1) by blast
  then have sA: "successively (\<lambda>a b. a + tcpProbeInterval \<le> b) ?A" by (cases ?A) simp_all
  have len: "int (length ?A) * tcpProbeInterval \<le> hi - lo + tcpProbeInterval"
  proof (cases ?A)
    case Nil
    then show ?thesis using assms(3) by (simp add: tcpProbeInterval_def second_def)
  next
    case (Cons a as)
    have "{a, last (a # as)} \<subseteq> set ts" using admitted_subset [of key ts "Some h"] Cons last_in_set [of "a # as"] by auto
    then have "lo \<le> a" "last (a # as) \<le> hi" using assms(2) by (auto simp: list_all_iff simp del: last.simps)
    moreover have "a + int (length as) * tcpProbeInterval \<le> last (a # as)" using spaced_length sA Cons by metis
    ultimately have "int (length as) * tcpProbeInterval \<le> hi - lo" by linarith
    then show ?thesis by (simp add: Cons algebra_simps)
  qed
  have "fst (tcp_admit t key (Some h))" if "th_lastProbe e + tcpProbeInterval \<le> t"
    using that assms(1) by (simp add: Let_def probe_iff)
  then show ?thesis using len sA by blast
qed

theorem tcp_brake_witness:
  "admitted ''a.com:443'' (map (\<lambda>i. 101 * second + i * (second div 4)) [0..3]) (Some condemned) = [101 * second] \<and>
   int (length (admitted ''a.com:443'' (map (\<lambda>i. 101 * second + i * (second div 4)) [0..3]) (Some condemned))) * tcpProbeInterval
     \<le> (102 * second - 101 * second) + tcpProbeInterval"
proof -
  let ?ts = "map (\<lambda>i. 101 * second + i * (second div 4)) [0..3]"
  have "list_all (\<lambda>t. 101 * second \<le> t \<and> t \<le> 102 * second \<and> t < 105 * second) ?ts" by code_simp
  moreover have "admitted ''a.com:443'' ?ts (Some condemned) = [101 * second]" by code_simp
  ultimately show ?thesis using tcp_brake [where h = condemned and key = "''a.com:443''" and lo = "101 * second" and hi = "102 * second" and ts = ?ts]
    by (simp add: second_def condemned_entry)
qed

text \<open>
  No live destination is refused. Whatever the calls for this and for other destinations
  before, a destination that since its last success took fewer than five strikes and no
  condemnation is admitted.
\<close>

lemma tcp_live_admitted:
  assumes "list_all (\<lambda>ev. 0 \<le> fst ev) evs" "0 \<le> now" "fold (struck_step key) evs 0 < tcpStrikeThreshold"
  shows "fst (tcp_admit now key (fold tcp_step evs (Some newTCPHealth)))"
proof -
  have "clean key (fold (struck_step key) evs 0) (fold tcp_step evs (Some newTCPHealth))"
    by (rule run_clean [OF assms(1)]) (simp add: clean_def newTCPHealth_def)
  then obtain h where h: "fold tcp_step evs (Some newTCPHealth) = Some h" "\<And>e. h key = Some e \<Longrightarrow> th_until e = 0"
    using assms(3) by (auto simp: clean_def)
  then show ?thesis using assms(2) by (auto simp: Let_def split: option.split)
qed

definition sample_events :: "(time \<times> tcp_event) list" where
  "sample_events = (let s = \<lambda>i. (second * i, Strike ''a.com:443'')
     in map s [1..5] @ [(7 * second, Success ''a.com:443'')] @ map s [8..11] @ [(12 * second, Condemn ''b.com:443'')])"

lemma tcp_live_admitted_witness:
  "fold (struck_step ''a.com:443'') sample_events 0 = 4 \<and>
   fst (tcp_admit (12 * second) ''a.com:443'' (fold tcp_step sample_events (Some newTCPHealth)))"
proof -
  have "list_all (\<lambda>ev. 0 \<le> fst ev) sample_events" "0 \<le> 12 * second"
    "fold (struck_step ''a.com:443'') sample_events 0 < tcpStrikeThreshold" "fold (struck_step ''a.com:443'') sample_events 0 = 4"
    by code_simp+
  then show ?thesis using tcp_live_admitted by blast
qed

section \<open>The rung of an extension\<close>

text \<open>
  A strike during a penalty is meant to extend it on the same rung. Applying a penalty
  moves the record to the next rung at once, so the extension is taken from the rung above:
  the first penalty is 5 seconds, and a probe that fails one second into it extends it to 20
  seconds from then.
\<close>

lemma strike_extends_next_rung:
  "fst (tcp_condemn (100 * second) ''a.com:443'' (Some newTCPHealth)) = 5 * second \<and>
   map_option th_until (the (snd (tcp_strike (101 * second) ''a.com:443'' (Some condemned))) ''a.com:443'') = Some (121 * second)"
  by code_simp

end
