(* ===== verification/Latency.thy ===== *)
theory Latency
  imports Go_Prelude Complex_Main "HOL-Library.AList" "HOL-Library.Multiset" "HOL-Library.Product_Lexorder"
begin

text \<open>
  \<open>core/netprobe/latency.go\<close>: the latency tracker with its circuit breaker, and the ranking of
  the members of a binding. Failure rates are quotients of counts of at most
  \<open>breakerWindow = 10\<close> outcomes; they are compared with 0.4, 0.2 and, as a difference, with 0.25.
  On quotients with such denominators the only ties are at values that floats represent
  alike on both sides, so the rates are rationals here. The effective cost of a healthy name
  (\<open>sample.cost\<close>) uses \<open>math.Exp\<close> and is a parameter of the ranking, as is the state of
  \<open>handshake.go\<close> behind it. The map of samples is an association list; the callbacks of a
  \<open>record\<close> are returned as events.
\<close>

section \<open>Samples\<close>

definition deadStrikeThreshold :: nat where "deadStrikeThreshold = 2"
definition breakerWindow :: nat where "breakerWindow = 10"
definition breakerWindowTTL :: duration where "breakerWindowTTL = 5 * minute"
definition breakerMinSamples :: nat where "breakerMinSamples = 4"
definition breakerOpenRate :: rat where "breakerOpenRate = 2 / 5"
definition breakerCloseRate :: rat where "breakerCloseRate = 1 / 5"
definition breakerCooldown :: duration where "breakerCooldown = 30 * second"
definition breakerCooldownMax :: duration where "breakerCooldownMax = 10 * minute"
definition breakerTripMemory :: duration where "breakerTripMemory = 15 * minute"
definition flapOutages :: nat where "flapOutages = 3"
definition flapWindow :: duration where "flapWindow = 10 * minute"
definition breakerRelativeMargin :: rat where "breakerRelativeMargin = 1 / 4"
definition resetGrace :: duration where "resetGrace = 15 * second"
definition breakerCloseStreak :: nat where "breakerCloseStreak = 2"
definition trafficSampleInterval :: duration where "trafficSampleInterval = 2 * second"
definition rankHysteresisFloor :: duration where "rankHysteresisFloor = 40 * millisecond"
definition SeatGrace :: duration where "SeatGrace = 15 * second"
definition probationWindow :: duration where "probationWindow = 5 * minute"
definition rttSamples :: nat where "rttSamples = 5"

datatype Seat = SeatHeld | SeatOutage | SeatLost

record outcome_obs =
  oc_ok :: bool
  oc_at :: time

record sample =
  sm_rtt :: duration
  sm_ok :: bool
  sm_at :: time
  sm_fails :: nat
  sm_lastFail :: time
  sm_suspectSince :: time
  sm_rtts :: "duration list"
  sm_window :: "outcome_obs list"
  sm_lastTraffic :: time
  sm_open :: bool
  sm_openedAt :: time
  sm_closedAt :: time
  sm_trips :: nat
  sm_outages :: "time list"

definition zero_sample :: sample where
  "zero_sample = \<lparr>sm_rtt = 0, sm_ok = False, sm_at = 0, sm_fails = 0, sm_lastFail = 0, sm_suspectSince = 0, sm_rtts = [],
     sm_window = [], sm_lastTraffic = 0, sm_open = False, sm_openedAt = 0, sm_closedAt = 0, sm_trips = 0, sm_outages = []\<rparr>"

definition suspect :: "sample \<Rightarrow> bool" where "suspect s \<longleftrightarrow> deadStrikeThreshold \<le> sm_fails s"

definition medianRTT :: "sample \<Rightarrow> duration" where
  "medianRTT s = (if sm_rtts s = [] then sm_rtt s else sort (sm_rtts s) ! (length (sm_rtts s) div 2))"

definition onProbation :: "time \<Rightarrow> sample \<Rightarrow> bool" where
  "onProbation now s \<longleftrightarrow>
     list_ex (\<lambda>u. u \<noteq> 0 \<and> time_Sub now u < probationWindow) [sm_suspectSince s, sm_openedAt s, sm_closedAt s]"

text \<open>The loop of \<open>cooldown\<close>: \<open>k\<close> doublings are left.\<close>

fun cooldown_loop :: "nat \<Rightarrow> duration \<Rightarrow> duration" where
  "cooldown_loop 0 d = d"
| "cooldown_loop (Suc k) d = (if d < breakerCooldownMax then cooldown_loop k (d * 2) else d)"

definition cooldown :: "sample \<Rightarrow> duration" where
  "cooldown s =
     (let d = cooldown_loop (sm_trips s - 1) breakerCooldown
      in if breakerCooldownMax < d then breakerCooldownMax else d)"

section \<open>Windows\<close>

definition trimOutcomes :: "time \<Rightarrow> outcome_obs list \<Rightarrow> outcome_obs list" where
  "trimOutcomes now w = dropWhile (\<lambda>o'. breakerWindowTTL < time_Sub now (oc_at o')) w"

definition appendOutcome :: "time \<Rightarrow> outcome_obs \<Rightarrow> outcome_obs list \<Rightarrow> outcome_obs list" where
  "appendOutcome now o' w =
     (let w' = trimOutcomes now w @ [o'] in if breakerWindow < length w' then drop (length w' - breakerWindow) w' else w')"

definition clearOutage :: "outcome_obs list \<Rightarrow> outcome_obs list" where
  "clearOutage w =
     (let (tail, w1) = (if w \<noteq> [] \<and> oc_ok (last w) then ([last w], butlast w) else ([], w))
      in rev (dropWhile (\<lambda>o'. \<not> oc_ok o') (rev w1)) @ tail)"

definition trimTimes :: "time \<Rightarrow> duration \<Rightarrow> time list \<Rightarrow> time list" where
  "trimTimes now width ts = dropWhile (\<lambda>t. width < time_Sub now t) ts"

definition failureRate :: "outcome_obs list \<Rightarrow> rat \<times> nat" where
  "failureRate w =
     (if w = [] then (0, 0) else (of_nat (length (filter (\<lambda>o'. \<not> oc_ok o') w)) / of_nat (length w), length w))"

definition endsWithSuccesses :: "outcome_obs list \<Rightarrow> nat \<Rightarrow> bool" where
  "endsWithSuccesses w n \<longleftrightarrow> \<not> length w < n \<and> list_all oc_ok (drop (length w - n) w)"

section \<open>The tracker\<close>

record LatencyTracker =
  lt_samples :: "(string \<times> sample) list"
  lt_ttl :: duration
  lt_graceUntil :: time

definition NewLatencyTracker :: "duration \<Rightarrow> LatencyTracker" where
  "NewLatencyTracker ttl = \<lparr>lt_samples = [], lt_ttl = (if ttl \<le> 0 then 60 * second else ttl), lt_graceUntil = 0\<rparr>"

definition sample_of :: "LatencyTracker \<Rightarrow> string \<Rightarrow> sample" where
  "sample_of t name = (case map_of (lt_samples t) name of Some s \<Rightarrow> s | None \<Rightarrow> zero_sample)"

definition others :: "LatencyTracker \<Rightarrow> string \<Rightarrow> sample list" where
  "others t self = map snd (filter (\<lambda>(n, _). n \<noteq> self) (lt_samples t))"

definition mostOthersDownLocked :: "LatencyTracker \<Rightarrow> string \<Rightarrow> bool" where
  "mostOthersDownLocked t self =
     (let total = length (others t self); down = length (filter suspect (others t self)) in 2 \<le> total \<and> total \<le> down * 2)"

definition peerFailureRateLocked :: "time \<Rightarrow> LatencyTracker \<Rightarrow> string \<Rightarrow> rat" where
  "peerFailureRateLocked now t self =
     (let rs = filter (\<lambda>(r, cnt). cnt \<noteq> 0) (map (\<lambda>s. failureRate (trimOutcomes now (sm_window s))) (others t self));
          rates = map fst (filter (\<lambda>(r, cnt). breakerMinSamples \<le> cnt) rs)
      in if length rs < 2 then 0
         else if length rates < 2 then 1
         else sort rates ! (length rates div 2))"

definition evaluateBreaker :: "sample \<Rightarrow> rat \<Rightarrow> nat \<Rightarrow> time \<Rightarrow> rat \<Rightarrow> bool" where
  "evaluateBreaker s rate n now baseline =
     (if \<not> sm_open s then
        (if flapOutages \<le> length (trimTimes now flapWindow (sm_outages s)) then True
         else if suspect s then False
         else breakerMinSamples \<le> n \<and> breakerOpenRate \<le> rate \<and> breakerRelativeMargin \<le> rate - baseline)
      else if time_Sub now (sm_openedAt s) < cooldown s then True
      else if n < breakerMinSamples \<or> breakerCloseRate < rate then True
      else \<not> endsWithSuccesses (sm_window s) breakerCloseStreak)"

text \<open>\<open>record\<close>, in the order of its parts: the streak and the last measurement, the window, the outage, the breaker.\<close>

definition note_outcome :: "time \<Rightarrow> duration \<Rightarrow> bool \<Rightarrow> bool \<Rightarrow> sample \<Rightarrow> sample" where
  "note_outcome now rtt ok fromTraffic s =
     (let s1 = (if ok then
            (let s' = s\<lparr>sm_ok := True, sm_fails := 0\<rparr>;
                 rtts = sm_rtts s @ [rtt]
             in if fromTraffic then s'
                else s'\<lparr>sm_rtt := rtt, sm_rtts := (if rttSamples < length rtts then drop (length rtts - rttSamples) rtts else rtts)\<rparr>)
          else (if fromTraffic then s else s\<lparr>sm_ok := False\<rparr>)\<lparr>sm_fails := sm_fails s + 1, sm_lastFail := now\<rparr>)
      in if fromTraffic then s1 else s1\<lparr>sm_at := now\<rparr>)"

definition note_window :: "time \<Rightarrow> bool \<Rightarrow> bool \<Rightarrow> sample \<Rightarrow> sample" where
  "note_window now ok fromTraffic s =
     (if \<not> fromTraffic \<or> trafficSampleInterval \<le> time_Sub now (sm_lastTraffic s) then
        (if fromTraffic then s\<lparr>sm_lastTraffic := now\<rparr> else s)\<lparr>sm_window := appendOutcome now \<lparr>oc_ok = ok, oc_at = now\<rparr> (sm_window s)\<rparr>
      else s\<lparr>sm_window := trimOutcomes now (sm_window s)\<rparr>)"

definition note_outage :: "time \<Rightarrow> bool \<Rightarrow> bool \<Rightarrow> sample \<Rightarrow> sample" where
  "note_outage now wasSuspect othersDown s =
     (if suspect s \<and> \<not> wasSuspect then
        (let s' = s\<lparr>sm_suspectSince := now\<rparr>
         in if othersDown then s' else s'\<lparr>sm_outages := trimTimes now flapWindow (sm_outages s) @ [now]\<rparr>)
      else if wasSuspect \<and> \<not> suspect s then s\<lparr>sm_window := clearOutage (sm_window s)\<rparr>
      else s)"

definition note_breaker :: "time \<Rightarrow> rat \<Rightarrow> sample \<Rightarrow> sample" where
  "note_breaker now peers s =
     (let (rate, n) = failureRate (sm_window s);
          baseline = (if \<not> sm_open s \<and> breakerOpenRate \<le> rate then peers else 0);
          op = evaluateBreaker s rate n now baseline;
          s1 = s\<lparr>sm_open := op\<rparr>;
          s2 = (if op \<and> \<not> sm_open s then
              s1\<lparr>sm_trips := (if sm_closedAt s \<noteq> 0 \<and> breakerTripMemory < time_Sub now (sm_closedAt s) then 0 else sm_trips s) + 1,
                 sm_openedAt := now, sm_outages := []\<rparr> else s1)
      in if sm_open s \<and> \<not> op then s2\<lparr>sm_closedAt := now\<rparr> else s2)"

datatype latency_event = SuspectChange string bool | BreakerChange string bool rat nat

definition latency_record :: "time \<Rightarrow> string \<Rightarrow> duration \<Rightarrow> bool \<Rightarrow> bool \<Rightarrow> LatencyTracker \<Rightarrow> latency_event list \<times> LatencyTracker" where
  "latency_record now name rtt ok fromTraffic t =
     (if \<not> ok \<and> now < lt_graceUntil t then ([], t)
      else
        (let s = sample_of t name;
             s1 = note_window now ok fromTraffic (note_outcome now rtt ok fromTraffic s);
             s2 = note_outage now (suspect s) (mostOthersDownLocked t name) s1;
             s3 = note_breaker now (peerFailureRateLocked now t name) s2;
             (rate, n) = failureRate (sm_window s2)
         in ((if suspect s2 \<noteq> suspect s then [SuspectChange name (suspect s2)] else []) @
               (if sm_open s \<noteq> sm_open s3 then [BreakerChange name (sm_open s3) rate n] else []),
             t\<lparr>lt_samples := AList.update name s3 (lt_samples t)\<rparr>)))"

definition latency_Record :: "time \<Rightarrow> string \<Rightarrow> duration \<Rightarrow> bool \<Rightarrow> LatencyTracker \<Rightarrow> latency_event list \<times> LatencyTracker" where
  "latency_Record now name rtt ok t = latency_record now name rtt ok False t"

definition latency_Fail :: "time \<Rightarrow> string \<Rightarrow> LatencyTracker \<Rightarrow> latency_event list \<times> LatencyTracker" where
  "latency_Fail now name t = latency_record now name 0 False True t"

definition latency_Succeed :: "time \<Rightarrow> string \<Rightarrow> LatencyTracker \<Rightarrow> latency_event list \<times> LatencyTracker" where
  "latency_Succeed now name t = latency_record now name 0 True True t"

definition latency_Reset :: "time \<Rightarrow> LatencyTracker \<Rightarrow> LatencyTracker" where
  "latency_Reset now t = t\<lparr>lt_samples := [], lt_graceUntil := now + resetGrace\<rparr>"

definition latency_Seat :: "time \<Rightarrow> LatencyTracker \<Rightarrow> string \<Rightarrow> Seat" where
  "latency_Seat now t name =
     (case map_of (lt_samples t) name of
        None \<Rightarrow> SeatHeld
      | Some s \<Rightarrow>
          if sm_open s then SeatLost
          else if suspect s then (if SeatGrace \<le> time_Sub now (sm_suspectSince s) then SeatLost else SeatOutage)
          else SeatHeld)"

definition Unsettled :: "time \<Rightarrow> LatencyTracker \<Rightarrow> string list \<Rightarrow> string list" where
  "Unsettled now t names =
     filter (\<lambda>n. case map_of (lt_samples t) n of
         None \<Rightarrow> True | Some s \<Rightarrow> sm_open s \<or> \<not> sm_ok s \<or> lt_ttl t < time_Sub now (sm_at s)) names"

section \<open>Ranking\<close>

datatype tier = TierHealthy | TierProbation | TierUnknown | TierSuspect | TierDead

fun tier_nat :: "tier \<Rightarrow> nat" where
  "tier_nat TierHealthy = 0"
| "tier_nat TierProbation = 1"
| "tier_nat TierUnknown = 2"
| "tier_nat TierSuspect = 3"
| "tier_nat TierDead = 4"

record rankedName =
  rn_name :: string
  rn_idx :: nat
  rn_tier :: tier
  rn_rtt :: duration
  rn_rate :: rat
  rn_probation :: bool

definition rank_entry :: "(string \<Rightarrow> sample \<Rightarrow> rat \<Rightarrow> time \<Rightarrow> duration) \<Rightarrow> time \<Rightarrow> LatencyTracker \<Rightarrow> nat \<times> string \<Rightarrow> rankedName" where
  "rank_entry cost now t = (\<lambda>(i, n).
     (let has = (map_of (lt_samples t) n \<noteq> None);
          s = sample_of t n;
          fresh = (has \<and> time_Sub now (sm_at s) \<le> lt_ttl t);
          rate = fst (failureRate (sm_window s));
          entry = (\<lambda>tier rtt rate. \<lparr>rn_name = n, rn_idx = i, rn_tier = tier, rn_rtt = rtt, rn_rate = rate,
             rn_probation = has \<and> onProbation now s\<rparr>)
      in if has \<and> sm_open s then entry TierDead (sm_rtt s) rate
         else if has \<and> suspect s then entry TierSuspect (sm_rtt s) rate
         else if fresh \<and> sm_ok s \<and> onProbation now s then entry TierProbation (cost n s rate now) 0
         else if fresh \<and> sm_ok s then entry TierHealthy (cost n s rate now) 0
         else entry TierUnknown 0 0))"

definition rank_less :: "rankedName \<Rightarrow> rankedName \<Rightarrow> bool" where
  "rank_less a b =
     (if rn_tier a \<noteq> rn_tier b then tier_nat (rn_tier a) < tier_nat (rn_tier b)
      else if rn_tier a \<in> {TierHealthy, TierProbation} \<and> rn_rtt a \<noteq> rn_rtt b then rn_rtt a < rn_rtt b
      else if rn_tier a \<in> {TierSuspect, TierDead} \<and> rn_rate a \<noteq> rn_rate b then rn_rate a < rn_rate b
      else if rn_tier a \<in> {TierSuspect, TierDead} \<and> (rn_rtt a = 0) \<noteq> (rn_rtt b = 0) then rn_rtt b = 0
      else if rn_tier a \<in> {TierSuspect, TierDead} \<and> rn_rtt a \<noteq> rn_rtt b then rn_rtt a < rn_rtt b
      else rn_idx a < rn_idx b)"

text \<open>\<open>sort.SliceStable\<close>, as a stable insertion sort.\<close>

fun insert_stable :: "('a \<Rightarrow> 'a \<Rightarrow> bool) \<Rightarrow> 'a \<Rightarrow> 'a list \<Rightarrow> 'a list" where
  "insert_stable lt x [] = [x]"
| "insert_stable lt x (y # ys) = (if lt y x then y # insert_stable lt x ys else x # y # ys)"

definition SliceStable :: "('a \<Rightarrow> 'a \<Rightarrow> bool) \<Rightarrow> 'a list \<Rightarrow> 'a list" where
  "SliceStable lt xs = foldr (insert_stable lt) xs []"

definition beatsByMargin :: "rankedName \<Rightarrow> rankedName \<Rightarrow> bool" where
  "beatsByMargin challenger incumbent =
     (if rn_tier challenger \<noteq> rn_tier incumbent then tier_nat (rn_tier challenger) < tier_nat (rn_tier incumbent)
      else (let gain = rn_rtt incumbent - rn_rtt challenger in rankHysteresisFloor \<le> gain \<and> rn_rtt incumbent \<le> 4 * gain))"

text \<open>The hysteresis of \<open>RankFrom\<close>: \<open>before\<close> are the candidates already passed, nearest first.\<close>

fun hold_incumbent :: "string \<Rightarrow> rankedName \<Rightarrow> rankedName list \<Rightarrow> rankedName list \<Rightarrow> rankedName list" where
  "hold_incumbent incumbent leader before [] = rev before"
| "hold_incumbent incumbent leader before (r # rs) =
     (if rn_name r \<noteq> incumbent \<or> tier_nat TierUnknown < tier_nat (rn_tier r)
        then hold_incumbent incumbent leader (r # before) rs
      else if (rn_tier r = TierUnknown \<and> \<not> rn_probation r) \<or> \<not> beatsByMargin leader r
        then r # rev before @ rs
      else rev before @ r # rs)"

definition RankFrom :: "(string \<Rightarrow> sample \<Rightarrow> rat \<Rightarrow> time \<Rightarrow> duration) \<Rightarrow> time \<Rightarrow> LatencyTracker \<Rightarrow> string list \<Rightarrow> string \<Rightarrow> string list" where
  "RankFrom cost now t names incumbent =
     (if length names < 2 then names
      else
        (let rs = SliceStable rank_less (map (rank_entry cost now t) (enumerate 0 names));
             rs' = (if incumbent \<noteq> [] \<and> rn_name (hd rs) \<noteq> incumbent then hold_incumbent incumbent (hd rs) [] rs else rs)
         in map rn_name rs'))"

definition Rank :: "(string \<Rightarrow> sample \<Rightarrow> rat \<Rightarrow> time \<Rightarrow> duration) \<Rightarrow> time \<Rightarrow> LatencyTracker \<Rightarrow> string list \<Rightarrow> string list" where
  "Rank cost now t names = RankFrom cost now t names []"

section \<open>The order of the ranking\<close>

definition rank_key :: "rankedName \<Rightarrow> nat \<times> rat \<times> nat \<times> duration \<times> nat" where
  "rank_key r =
     (tier_nat (rn_tier r),
      if rn_tier r \<in> {TierSuspect, TierDead} then rn_rate r else 0,
      if rn_tier r \<in> {TierSuspect, TierDead} \<and> rn_rtt r = 0 then 1 else 0,
      if rn_tier r = TierUnknown then 0 else rn_rtt r,
      rn_idx r)"

lemma tier_nat_inj: "tier_nat a = tier_nat b \<Longrightarrow> a = b"
  by (cases a; cases b) simp_all

lemma less_fst: "fst p \<noteq> fst q \<Longrightarrow> p < q \<longleftrightarrow> fst p < fst q"
  for p q :: "nat \<times> rat \<times> nat \<times> duration \<times> nat"
  by (cases p; cases q) (auto simp: less_le)

lemma rank_less_key: "rank_less a b \<longleftrightarrow> rank_key a < rank_key b"
proof (cases "rn_tier a = rn_tier b")
  case False
  then have "fst (rank_key a) \<noteq> fst (rank_key b)" using tier_nat_inj by (auto simp: rank_key_def)
  then have "rank_key a < rank_key b \<longleftrightarrow> fst (rank_key a) < fst (rank_key b)" by (rule less_fst)
  then show ?thesis using False by (simp add: rank_less_def) (simp add: rank_key_def)
next
  case True
  then show ?thesis by (cases "rn_tier b") (auto simp: rank_less_def rank_key_def less_prod_def)
qed

lemma insert_stable_key: "insert_stable rank_less x ys = insort_key rank_key x ys"
  by (induction ys) (auto simp: rank_less_key not_le)

lemma SliceStable_key: "SliceStable rank_less xs = sort_key rank_key xs"
  by (induction xs) (simp_all add: SliceStable_def sort_key_def insert_stable_key)

definition entries :: "(string \<Rightarrow> sample \<Rightarrow> rat \<Rightarrow> time \<Rightarrow> duration) \<Rightarrow> time \<Rightarrow> LatencyTracker \<Rightarrow> string list \<Rightarrow> rankedName list" where
  "entries cost now t names = sort_key rank_key (map (rank_entry cost now t) (enumerate 0 names))"

lemma rn_name_entry [simp]: "rn_name (rank_entry cost now t (i, n)) = n"
  by (simp add: rank_entry_def Let_def)

lemma entry_idx:
  "rn_tier (rank_entry cost now t (i, n)) = rn_tier (rank_entry cost now t (0, n))"
  "rn_rtt (rank_entry cost now t (i, n)) = rn_rtt (rank_entry cost now t (0, n))"
  "rn_probation (rank_entry cost now t (i, n)) = rn_probation (rank_entry cost now t (0, n))"
  by (simp_all only: rank_entry_def Let_def prod.case if_distrib [of rn_tier] if_distrib [of rn_rtt] if_distrib [of rn_probation] rankedName.simps)

lemma enumerate_names: "map rn_name (map (rank_entry cost now t) (enumerate i names)) = names"
  by (induction names arbitrary: i) simp_all

lemma entries_names: "mset (map rn_name (entries cost now t names)) = mset names"
  using enumerate_names [of cost now t 0 names] by (metis entries_def mset_map mset_sort)

lemma entries_mem:
  assumes "r \<in> set (entries cost now t names)"
  shows "\<exists>i. r = rank_entry cost now t (i, rn_name r)"
  using assms by (auto simp: entries_def)

lemma entries_sorted: "sorted (map (\<lambda>r. tier_nat (rn_tier r)) (entries cost now t names))"
proof -
  have "sorted_wrt (\<lambda>a b. rank_key a \<le> rank_key b) (entries cost now t names)"
    using sorted_sort_key [of rank_key] by (simp add: entries_def sorted_map)
  then have "sorted_wrt (\<lambda>a b. tier_nat (rn_tier a) \<le> tier_nat (rn_tier b)) (entries cost now t names)"
    by (rule sorted_wrt_mono_rel [rotated]) (auto simp: rank_key_def less_eq_prod_def)
  then show ?thesis by (simp add: sorted_map)
qed

lemma RankFrom_entries:
  assumes "2 \<le> length names"
  shows "RankFrom cost now t names inc = map rn_name
    (if inc \<noteq> [] \<and> rn_name (hd (entries cost now t names)) \<noteq> inc
     then hold_incumbent inc (hd (entries cost now t names)) [] (entries cost now t names) else entries cost now t names)"
  using assms by (simp add: RankFrom_def Let_def SliceStable_key entries_def [symmetric])

definition entry_of :: "(string \<Rightarrow> sample \<Rightarrow> rat \<Rightarrow> time \<Rightarrow> duration) \<Rightarrow> time \<Rightarrow> LatencyTracker \<Rightarrow> string \<Rightarrow> rankedName" where
  "entry_of cost now t n = rank_entry cost now t (0, n)"

lemma entry_tier:
  assumes "r \<in> set (entries cost now t names)"
  shows "rn_tier (entry_of cost now t (rn_name r)) = rn_tier r"
proof -
  obtain i where "r = rank_entry cost now t (i, rn_name r)" using entries_mem [OF assms] by blast
  then show ?thesis unfolding entry_of_def by (metis entry_idx(1))
qed

text \<open>Whether the incumbent keeps its place in front of the leader.\<close>

definition keeps_place :: "rankedName \<Rightarrow> rankedName \<Rightarrow> bool" where
  "keeps_place leader r \<longleftrightarrow> tier_nat (rn_tier r) \<le> tier_nat TierUnknown \<and>
     (rn_tier r = TierUnknown \<and> \<not> rn_probation r \<or> \<not> beatsByMargin leader r)"

lemma hold_none:
  "list_all (\<lambda>r. rn_name r \<noteq> inc) rs \<Longrightarrow> hold_incumbent inc l before rs = rev before @ rs"
  by (induction rs arbitrary: before) auto

lemma hold_incumbent_spec:
  assumes "distinct (map rn_name rs)" "r \<in> set rs" "rn_name r = inc"
  shows "hold_incumbent inc l before rs =
    (if keeps_place l r then r # rev before @ remove1 r rs else rev before @ rs)"
  using assms
proof (induction rs arbitrary: before)
  case (Cons x rs)
  show ?case
  proof (cases "x = r")
    case True
    have "inc \<notin> rn_name ` set rs" using Cons.prems True by simp
    then have "list_all (\<lambda>y. rn_name y \<noteq> inc) rs" by (auto simp: list_all_iff image_iff)
    then show ?thesis using True Cons.prems(3) hold_none [of inc rs l "r # before"]
      by (auto simp: keeps_place_def not_less)
  next
    case False
    then have r: "r \<in> set rs" "rn_name x \<noteq> inc" using Cons.prems by auto
    then have "hold_incumbent inc l before (x # rs) = hold_incumbent inc l (x # before) rs" by simp
    also have "\<dots> = (if keeps_place l r then r # rev (x # before) @ remove1 r rs else rev (x # before) @ rs)"
      by (rule Cons.IH) (use Cons.prems r in auto)
    finally show ?thesis using False by simp
  qed
qed simp

lemma remove1_map_inj: "distinct (map f xs) \<Longrightarrow> x \<in> set xs \<Longrightarrow> map f (remove1 x xs) = remove1 (f x) (map f xs)"
  by (induction xs) (auto simp: image_iff)

lemma hold_incumbent_mset: "mset (hold_incumbent inc l before rs) = mset before + mset rs"
  by (induction rs arbitrary: before) auto

lemma RankFrom_mset: "mset (RankFrom cost now t names inc) = mset names"
proof (cases "2 \<le> length names")
  case True
  let ?E = "entries cost now t names"
  have "mset (if inc \<noteq> [] \<and> rn_name (hd ?E) \<noteq> inc then hold_incumbent inc (hd ?E) [] ?E else ?E) = mset ?E"
    by (simp add: hold_incumbent_mset)
  then show ?thesis unfolding RankFrom_entries [OF True] by (metis entries_names mset_map)
qed (simp add: RankFrom_def)

section \<open>The breaker\<close>

lemma cooldown_loop_min:
  "d < breakerCooldownMax \<or> k = 0 \<Longrightarrow> 0 < d \<Longrightarrow> min breakerCooldownMax (cooldown_loop k d) = min breakerCooldownMax (d * 2 ^ k)"
proof (induction k arbitrary: d)
  case (Suc k)
  show ?case
  proof (cases "d * 2 < breakerCooldownMax \<or> k = 0")
    case True
    then have "min breakerCooldownMax (cooldown_loop k (d * 2)) = min breakerCooldownMax (d * 2 * 2 ^ k)" using Suc by simp
    then show ?thesis using Suc.prems by (simp add: mult.assoc)
  next
    case False
    then obtain j where k: "k = Suc j" "breakerCooldownMax \<le> d * 2" by (cases k) auto
    have "d * 2 * 1 \<le> d * 2 * 2 ^ k" using Suc.prems by (intro mult_left_mono) auto
    then have "breakerCooldownMax \<le> d * 2 ^ Suc k" using k(2) by (simp add: mult.assoc)
    then show ?thesis using Suc.prems k by (simp add: min_def)
  qed
qed simp

lemma cooldown_eq: "cooldown s = min breakerCooldownMax (breakerCooldown * 2 ^ (sm_trips s - 1))"
proof -
  have "min breakerCooldownMax (cooldown_loop (sm_trips s - 1) breakerCooldown) = min breakerCooldownMax (breakerCooldown * 2 ^ (sm_trips s - 1))"
    by (rule cooldown_loop_min) (simp_all add: breakerCooldown_def breakerCooldownMax_def minute_def second_def)
  then show ?thesis by (simp add: cooldown_def Let_def min_def not_less split: if_splits)
qed

lemma cooldown_bounds: "0 < cooldown s" "cooldown s < 2 ^ 63" "breakerCooldown \<le> cooldown s"
proof -
  have p: "breakerCooldown \<le> breakerCooldown * 2 ^ (sm_trips s - 1)"
    using mult_left_mono [of 1 "2 ^ (sm_trips s - 1)" breakerCooldown] by (simp add: breakerCooldown_def second_def)
  then show "breakerCooldown \<le> cooldown s" unfolding cooldown_eq
    by (simp add: breakerCooldown_def breakerCooldownMax_def minute_def second_def)
  then show "0 < cooldown s" by (simp add: breakerCooldown_def second_def)
  show "cooldown s < 2 ^ 63" unfolding cooldown_eq
    by (rule le_less_trans [OF min.cobounded1]) (simp add: breakerCooldownMax_def minute_def second_def)
qed

lemma evaluateBreaker_opens:
  "\<not> sm_open s \<Longrightarrow> evaluateBreaker s rate n now b \<Longrightarrow>
     3 \<le> length (trimTimes now flapWindow (sm_outages s)) \<or> \<not> suspect s \<and> 4 \<le> n \<and> 2 / 5 \<le> rate \<and> 1 / 4 \<le> rate - b"
  by (auto simp: evaluateBreaker_def flapOutages_def breakerMinSamples_def breakerOpenRate_def breakerRelativeMargin_def split: if_splits)

lemma evaluateBreaker_closes:
  "sm_open s \<Longrightarrow> \<not> evaluateBreaker s rate n now b \<Longrightarrow>
     cooldown s \<le> time_Sub now (sm_openedAt s) \<and> 4 \<le> n \<and> rate \<le> 1 / 5 \<and>
     list_all oc_ok (drop (length (sm_window s) - 2) (sm_window s))"
  by (auto simp: evaluateBreaker_def breakerMinSamples_def breakerCloseRate_def endsWithSuccesses_def breakerCloseStreak_def
      not_less split: if_splits)

lemma breaker_fields:
  "sm_open (note_outcome now rtt ok tr s) = sm_open s" "sm_open (note_window now ok tr s) = sm_open s"
  "sm_open (note_outage now w d s) = sm_open s"
  "sm_openedAt (note_outcome now rtt ok tr s) = sm_openedAt s" "sm_openedAt (note_window now ok tr s) = sm_openedAt s"
  "sm_openedAt (note_outage now w d s) = sm_openedAt s"
  "sm_trips (note_outcome now rtt ok tr s) = sm_trips s" "sm_trips (note_window now ok tr s) = sm_trips s"
  "sm_trips (note_outage now w d s) = sm_trips s"
  by (simp_all add: note_outcome_def note_window_def note_outage_def Let_def)

lemma note_breaker_open: "sm_open (note_breaker now peers s) =
    evaluateBreaker s (fst (failureRate (sm_window s))) (snd (failureRate (sm_window s))) now
      (if \<not> sm_open s \<and> breakerOpenRate \<le> fst (failureRate (sm_window s)) then peers else 0)"
  by (simp add: note_breaker_def Let_def case_prod_unfold)

lemma note_breaker_window [simp]: "sm_window (note_breaker now peers s) = sm_window s" "sm_rtts (note_breaker now peers s) = sm_rtts s"
    "sm_fails (note_breaker now peers s) = sm_fails s"
  by (simp_all add: note_breaker_def Let_def case_prod_unfold)

section \<open>Reachable trackers\<close>

inductive latency_reach :: "duration \<Rightarrow> time \<Rightarrow> LatencyTracker \<Rightarrow> bool" for ttl where
  start: "latency_reach ttl now (NewLatencyTracker ttl)"
| clock: "latency_reach ttl now t \<Longrightarrow> now \<le> now' \<Longrightarrow> latency_reach ttl now' t"
| observe: "latency_reach ttl now t \<Longrightarrow> latency_record now name rtt ok fromTraffic t = (ev, t') \<Longrightarrow> latency_reach ttl now t'"
| reset: "latency_reach ttl now t \<Longrightarrow> latency_reach ttl now (latency_Reset now t)"

definition sample_ok :: "time \<Rightarrow> sample \<Rightarrow> bool" where
  "sample_ok now s \<longleftrightarrow> length (sm_window s) \<le> breakerWindow \<and> length (sm_rtts s) \<le> rttSamples \<and>
     (sm_open s \<longrightarrow> 1 \<le> sm_trips s \<and> sm_openedAt s \<le> now)"

lemma trim_length: "length (trimOutcomes now w) \<le> length w"
  by (simp add: trimOutcomes_def length_dropWhile_le)

lemma clearOutage_length: "length (clearOutage w) \<le> length w"
  by (cases w rule: rev_cases)
    (auto simp: clearOutage_def le_trans [OF length_dropWhile_le])

lemma note_breaker_ok:
  assumes "length (sm_window s) \<le> breakerWindow" "length (sm_rtts s) \<le> rttSamples"
    "sm_open s \<longrightarrow> 1 \<le> sm_trips s \<and> sm_openedAt s \<le> now"
  shows "sample_ok now (note_breaker now peers s)"
  using assms unfolding sample_ok_def note_breaker_window by (auto simp: note_breaker_def Let_def case_prod_unfold)

lemma rtts_length: "length (sm_rtts s) \<le> rttSamples \<Longrightarrow> length (sm_rtts (note_outcome now rtt ok tr s)) \<le> rttSamples"
  by (simp add: note_outcome_def rttSamples_def Let_def)

lemma window_length: "length (sm_window s) \<le> breakerWindow \<Longrightarrow> length (sm_window (note_window now ok tr s)) \<le> breakerWindow"
  using trim_length [of now "sm_window s"] by (simp add: note_window_def appendOutcome_def breakerWindow_def Let_def)

lemma other_fields [simp]:
  "sm_window (note_outcome now rtt ok tr s) = sm_window s" "sm_rtts (note_window now ok tr s) = sm_rtts s"
  "sm_rtts (note_outage now w d s) = sm_rtts s"
  by (simp_all add: note_outcome_def note_window_def note_outage_def Let_def)

lemma outage_length: "length (sm_window (note_outage now w d s)) \<le> length (sm_window s)"
  using clearOutage_length [of "sm_window s"] by (simp add: note_outage_def Let_def)

definition next_sample :: "time \<Rightarrow> string \<Rightarrow> duration \<Rightarrow> bool \<Rightarrow> bool \<Rightarrow> LatencyTracker \<Rightarrow> sample" where
  "next_sample now name rtt ok tr t =
     note_outage now (suspect (sample_of t name)) (mostOthersDownLocked t name)
       (note_window now ok tr (note_outcome now rtt ok tr (sample_of t name)))"

lemma next_sample_ok:
  assumes "sample_ok now (sample_of t name)"
  shows "sample_ok now (note_breaker now peers (next_sample now name rtt ok tr t))"
proof (rule note_breaker_ok)
  let ?s = "sample_of t name"
  have "length (sm_window (note_window now ok tr (note_outcome now rtt ok tr ?s))) \<le> breakerWindow"
    using assms by (intro window_length) (simp add: sample_ok_def)
  then show "length (sm_window (next_sample now name rtt ok tr t)) \<le> breakerWindow"
    unfolding next_sample_def by (rule le_trans [OF outage_length])
  show "length (sm_rtts (next_sample now name rtt ok tr t)) \<le> rttSamples"
    using assms rtts_length by (simp add: next_sample_def sample_ok_def)
  show "sm_open (next_sample now name rtt ok tr t) \<longrightarrow>
      1 \<le> sm_trips (next_sample now name rtt ok tr t) \<and> sm_openedAt (next_sample now name rtt ok tr t) \<le> now"
    using assms by (simp add: next_sample_def breaker_fields sample_ok_def)
qed

lemma record_sample:
  assumes "latency_record now name rtt ok tr t = (ev, t')" "ok \<or> \<not> now < lt_graceUntil t"
  shows "sample_of t' n = (if n = name then note_breaker now (peerFailureRateLocked now t name) (next_sample now name rtt ok tr t)
     else sample_of t n)"
  using assms by (auto simp: latency_record_def Let_def next_sample_def sample_of_def update_conv' split: prod.splits)

lemma latency_reach_ok: "latency_reach ttl now t \<Longrightarrow> sample_ok now (sample_of t n)"
proof (induction arbitrary: n rule: latency_reach.induct)
  case (clock now t now')
  then show ?case by (fastforce simp: sample_ok_def)
next
  case (observe now t name rtt ok fromTraffic ev t')
  show ?case
  proof (cases "ok \<or> \<not> now < lt_graceUntil t")
    case True
    then show ?thesis using record_sample [OF observe(2) True, of n] observe.IH next_sample_ok by auto
  next
    case False
    then show ?thesis using observe by (auto simp: latency_record_def)
  qed
qed (simp_all add: NewLatencyTracker_def latency_Reset_def sample_of_def zero_sample_def sample_ok_def)

section \<open>Properties\<close>


text \<open>A name that fails six probes in three outages.\<close>

definition flapping :: "(time \<times> bool) list" where
  "flapping = [(100 * second, False), (101 * second, False), (102 * second, True), (110 * second, False), (111 * second, False),
     (112 * second, True), (120 * second, False)]"

definition probe_run :: "(time \<times> bool) list \<Rightarrow> LatencyTracker \<Rightarrow> LatencyTracker" where
  "probe_run obs t = fold (\<lambda>(now, ok) t. snd (latency_Record now ''de'' (50 * millisecond) ok t)) obs t"

lemma probe_run_reach:
  "latency_reach ttl now t \<Longrightarrow> sorted (now # map fst obs) \<Longrightarrow> latency_reach ttl (last (now # map fst obs)) (probe_run obs t)"
proof (induction obs arbitrary: now t)
  case (Cons o' obs)
  obtain u ok where o': "o' = (u, ok)" by (rule prod.exhaust)
  have "latency_reach ttl u t" using Cons.prems by (auto simp: o' intro: latency_reach.clock)
  then have "latency_reach ttl u (snd (latency_Record u ''de'' (50 * millisecond) ok t))"
    unfolding latency_Record_def by (rule latency_reach.observe [OF _ prod.collapse [symmetric]])
  then show ?case using Cons.IH Cons.prems by (simp add: o' probe_run_def)
qed (simp add: probe_run_def)


text \<open>
  The ranking of a binding. For every cost function, ranking is a reordering of the
  members in which tiers never decrease: healthy members first, then those on probation,
  unknown ones, those in an outage and those with an open breaker. An incumbent that is not
  in an outage and whose breaker is closed is held at the front exactly when it is unknown
  and off probation, or the leader does not beat it by the hysteresis margin; the order of
  the others is unchanged, and a suspect or open incumbent changes nothing.
\<close>

lemma RankFrom_order:
  assumes "distinct names" "2 \<le> length names"
  shows "mset (Rank cost now t names) = mset names \<and>
    sorted (map (\<lambda>n. tier_nat (rn_tier (entry_of cost now t n))) (Rank cost now t names)) \<and>
    RankFrom cost now t names inc =
      (if inc \<noteq> [] \<and> inc \<in> set names \<and> keeps_place (entry_of cost now t (hd (Rank cost now t names))) (entry_of cost now t inc)
       then inc # remove1 inc (Rank cost now t names) else Rank cost now t names)"
proof -
  let ?R = "Rank cost now t names" and ?entry = "entry_of cost now t"
  let ?E = "entries cost now t names"
  have R: "?R = map rn_name ?E" using RankFrom_entries [OF assms(2)] by (simp add: Rank_def)
  have mR: "mset ?R = mset names" by (simp only: R entries_names)
  have "map (\<lambda>n. tier_nat (rn_tier (?entry n))) ?R = map (\<lambda>r. tier_nat (rn_tier r)) ?E"
    using entry_tier by (simp add: R)
  then have so: "sorted (map (\<lambda>n. tier_nat (rn_tier (?entry n))) ?R)" using entries_sorted by simp
  have dR: "distinct ?R" using mR assms(1) by (metis mset_eq_imp_distinct_iff)
  have ne: "?E \<noteq> []" using assms(2) mR R by (cases ?E) auto
  have keep: "keeps_place l r \<longleftrightarrow> keeps_place (?entry (rn_name l)) (?entry (rn_name r))" if lr: "l \<in> set ?E" "r \<in> set ?E" for l r
  proof -
    obtain i j where ij: "l = rank_entry cost now t (i, rn_name l)" "r = rank_entry cost now t (j, rn_name r)"
      using entries_mem lr by blast
    have "rn_tier l = rn_tier (?entry (rn_name l))" "rn_rtt l = rn_rtt (?entry (rn_name l))"
      "rn_tier r = rn_tier (?entry (rn_name r))" "rn_rtt r = rn_rtt (?entry (rn_name r))"
      "rn_probation r = rn_probation (?entry (rn_name r))"
      using entry_idx ij by (metis entry_of_def)+
    then show ?thesis by (simp add: keeps_place_def beatsByMargin_def)
  qed
  show ?thesis
  proof (cases "inc \<noteq> [] \<and> inc \<in> set names")
    case False
    have "list_all (\<lambda>r. rn_name r \<noteq> inc) ?E" if "inc \<notin> set names"
      using that mR R by (metis (mono_tags, lifting) imageI list.set_map list_all_iff set_mset_mset)
    then show ?thesis using False RankFrom_entries [OF assms(2)] hold_none mR so R by auto
  next
    case True
    then have "inc \<in> set ?R" using mR by (metis set_mset_mset)
    then obtain r where r: "r \<in> set ?E" "rn_name r = inc" by (auto simp: R)
    have hdR: "hd ?R = rn_name (hd ?E)" using ne by (simp add: R hd_map)
    have rm: "map rn_name (remove1 r ?E) = remove1 inc ?R"
      using dR r by (simp add: R remove1_map_inj)
    have h: "hold_incumbent inc (hd ?E) [] ?E = (if keeps_place (hd ?E) r then r # remove1 r ?E else ?E)"
      using hold_incumbent_spec [OF _ r, of "hd ?E" "[]"] dR by (simp add: R)
    have kp: "keeps_place (hd ?E) r \<longleftrightarrow> keeps_place (?entry (hd ?R)) (?entry inc)"
      using keep [of "hd ?E" r] ne r hdR by simp
    have same: "inc # remove1 inc ?R = ?R" if "rn_name (hd ?E) = inc" using that hdR ne by (cases ?E) (simp_all add: R)
    show ?thesis using RankFrom_entries [OF assms(2), of cost now t inc] True h kp rm same r(2) mR so R by auto
  qed
qed

definition sample_tracker :: LatencyTracker where
  "sample_tracker = snd (latency_Record (10 * second) ''nl'' (100 * millisecond) True
     (snd (latency_Record (10 * second) ''fr'' (80 * millisecond) True
       (probe_run [(8 * second, False), (9 * second, False)] (NewLatencyTracker 0)))))"

definition rtt_cost :: "string \<Rightarrow> sample \<Rightarrow> rat \<Rightarrow> time \<Rightarrow> duration" where
  "rtt_cost n s rate now = medianRTT s"

lemma RankFrom_order_witness:
  "Rank rtt_cost (11 * second) sample_tracker [''de'', ''nl'', ''fr''] = [''fr'', ''nl'', ''de''] \<and>
   RankFrom rtt_cost (11 * second) sample_tracker [''de'', ''nl'', ''fr''] ''nl'' = [''nl'', ''fr'', ''de''] \<and>
   RankFrom rtt_cost (11 * second) sample_tracker [''de'', ''nl'', ''fr''] ''de'' = [''fr'', ''nl'', ''de'']"
proof -
  let ?ns = "[''de'', ''nl'', ''fr'']" and ?t = sample_tracker
  have R: "Rank rtt_cost (11 * second) ?t ?ns = [''fr'', ''nl'', ''de'']" by code_simp
  have k: "keeps_place (entry_of rtt_cost (11 * second) ?t ''fr'') (entry_of rtt_cost (11 * second) ?t ''nl'')"
    "\<not> keeps_place (entry_of rtt_cost (11 * second) ?t ''fr'') (entry_of rtt_cost (11 * second) ?t ''de'')"
    by code_simp+
  have "distinct ?ns" "2 \<le> length ?ns" by simp_all
  note o = RankFrom_order [OF this, of rtt_cost "11 * second" ?t, unfolded R]
  have "RankFrom rtt_cost (11 * second) ?t ?ns ''nl'' = [''nl'', ''fr'', ''de'']" using o [of "''nl''"] k by simp
  moreover have "RankFrom rtt_cost (11 * second) ?t ?ns ''de'' = [''fr'', ''nl'', ''de'']" using o [of "''de''"] k by simp
  ultimately show ?thesis using R by blast
qed

end
