(* ===== verification/Forwarder.thy ===== *)
theory Forwarder
  imports Decision Routing Interfaces Selection Health Latency
begin

text \<open>
  The forwarder of \<open>daemon/proxytun.go\<close>: which member of a binding is tried in which order,
  how a connection is dialled in rounds, who is blamed for a failure and when the binding of a
  destination moves. The state is the record of the memories of \<open>Selection\<close>, \<open>Health\<close>
  and \<open>Latency\<close> with the address table and the route manager. Each operation runs at one
  instant \<open>now\<close>. The connections themselves are not modelled: a serial round takes the
  outcome of each dial, a race the sequence of its events, a connection the byte counts of
  its splice. Left out are the counters of \<open>connStats\<close>, the traffic aggregator and the handshake
  timing of \<open>observeHandshakes\<close>, which no decision here reads.
\<close>

section \<open>Destinations\<close>

definition stickyKey :: "Entry \<Rightarrow> string" where "stickyKey entry = en_Hostname entry"

definition siteKey :: "string \<Rightarrow> string" where
  "siteKey host0 =
     (let host = TrimSuffix (ToLower host0) ''.'' in
      if host = [] \<or> ParseIP host \<noteq> None then []
      else
        (let labels = Split host CHR ''.'' in
         if length labels \<le> 2 then []
         else
           (let tld = labels ! (length labels - 1); sld = labels ! (length labels - 2);
                n = (if length tld = 2 \<and> sld \<in> {''co'', ''com'', ''net'', ''org'', ''gov'', ''edu'', ''ac''} then 3 else 2)
            in if length labels \<le> n then [] else ''site:'' @ Join (drop (length labels - n) labels) ''.'')))"

definition avoidSite :: "Entry \<Rightarrow> string" where
  "avoidSite entry = (let s = siteKey (en_Hostname entry) in if s \<noteq> [] then s else stickyKey entry)"

definition stickyKeys :: "Entry \<Rightarrow> string list" where
  "stickyKeys entry = [stickyKey entry, siteKey (en_Hostname entry)]"

definition proxyNamesForInterface :: "string \<Rightarrow> string list" where
  "proxyNamesForInterface iface =
     (if IsXrayInterface iface then map InternalProxyName (xray_ParseInterface iface) else proxy_ParseInterface iface)"

section \<open>The forwarder\<close>

datatype forward_log = MovedBinding string string string string nat | KeepsFailing string string nat

record proxyForwarder =
  pf_table :: Table
  pf_router :: "Manager option"
  pf_decider :: "engine option"
  pf_latency :: "LatencyTracker option"
  pf_sticky :: "stickyBindings option"
  pf_health :: "udpHealth option"
  pf_breaker :: "tcpHealth option"
  pf_sampler :: "logSampler option"
  pf_witness :: "uplinkWitness option"
  pf_routes :: routeKeys
  pf_exits :: exitKeys
  pf_avoid :: "siteAvoid option"
  pf_hosts :: "string \<rightharpoonup> string"  \<comment> \<open>the host of a proxy of the store\<close>
  pf_log :: "forward_log list"

type_synonym cost_fun = "string \<Rightarrow> sample \<Rightarrow> rat \<Rightarrow> time \<Rightarrow> duration"

definition lookupIPRule :: "ip \<Rightarrow> proxyForwarder \<Rightarrow> Entry option" where
  "lookupIPRule dest pf =
     (case pf_decider pf of
        None \<Rightarrow> None
      | Some e \<Rightarrow>
          (let d = DecideIP e dest in
           if dc_Outcome d \<noteq> OutcomeRoute then None
           else
             (let names = proxyNamesForInterface (dc_Interface d) in
              if names = [] then None
              else Some \<lparr>en_ProxyNames = names, en_Hostname = ip_String dest, en_ExpiresAt = 0, en_RuleID = dc_RuleID d\<rparr>)))"

definition resetHealth :: "proxyForwarder \<Rightarrow> proxyForwarder" where
  "resetHealth pf = pf\<lparr>pf_breaker := tcp_reset (pf_breaker pf), pf_health := udp_reset (pf_health pf), pf_avoid := avoid_reset (pf_avoid pf)\<rparr>"

definition incumbent :: "time \<Rightarrow> Entry \<Rightarrow> proxyForwarder \<Rightarrow> string" where
  "incumbent now entry pf =
     (case find (\<lambda>n. n \<noteq> []) (map (\<lambda>k. sticky_Get now k (pf_sticky pf)) (stickyKeys entry)) of Some n \<Rightarrow> n | None \<Rightarrow> [])"

definition avoidKeys :: "proxyForwarder \<Rightarrow> string \<Rightarrow> string list" where
  "avoidKeys pf name = [name, exit_lookup (pf_exits pf) name]"

definition orderedNames :: "cost_fun \<Rightarrow> time \<Rightarrow> Entry \<Rightarrow> proxyForwarder \<Rightarrow> string list" where
  "orderedNames cost now entry pf =
     (let names = (case pf_latency pf of
           Some t \<Rightarrow> RankFrom cost now t (en_ProxyNames entry) (incumbent now entry pf)
         | None \<Rightarrow> en_ProxyNames entry)
      in demote now (avoidSite entry) names (avoidKeys pf) (pf_avoid pf))"

definition routeOf :: "proxyForwarder \<Rightarrow> string \<Rightarrow> string" where
  "routeOf pf name =
     (case route_lookup (pf_routes pf) name of
        Some k \<Rightarrow> k
      | None \<Rightarrow>
          (case (if HasPrefix name (InternalProxyName []) then None else pf_hosts pf name) of
             Some h \<Rightarrow> if h \<noteq> [] then ''host:'' @ ToLower h else ''name:'' @ name
           | None \<Rightarrow> ''name:'' @ name))"

definition diversityKeys :: "proxyForwarder \<Rightarrow> string \<Rightarrow> string list" where
  "diversityKeys pf name =
     (let e = exit_lookup (pf_exits pf) name in if e \<noteq> [] then [routeOf pf name, e] else [routeOf pf name])"

definition noteSiteCarried :: "Entry \<Rightarrow> string \<Rightarrow> proxyForwarder \<Rightarrow> proxyForwarder" where
  "noteSiteCarried entry name pf = pf\<lparr>pf_avoid := avoid_clear (avoidSite entry) (avoidKeys pf name) (pf_avoid pf)\<rparr>"

definition bindingMoves :: "time \<Rightarrow> string \<Rightarrow> string \<Rightarrow> Entry \<Rightarrow> string list \<Rightarrow> string list \<Rightarrow> proxyForwarder \<Rightarrow> string \<times> proxyForwarder" where
  "bindingMoves now key cur entry names failed pf =
     (if cur \<notin> set (en_ProxyNames entry) then (''left the binding'', pf)
      else
        (let seat = (case pf_latency pf of Some t \<Rightarrow> latency_Seat now t cur | None \<Rightarrow> SeatHeld) in
         if seat = SeatLost then (''lost its seat (demoted, or down past grace)'', pf)
         else if cur \<in> set failed then ([], pf)
         else if seat = SeatHeld \<and> names \<noteq> [] \<and> hd names \<noteq> cur then (''ranked behind '' @ hd names, pf)
         else
           (case sticky_Miss now key cur (pf_sticky pf) of
              (moves, s) \<Rightarrow> (if moves then ''kept missing'' else [], pf\<lparr>pf_sticky := s\<rparr>))))"

definition settle_key :: "time \<Rightarrow> Entry \<Rightarrow> string \<Rightarrow> string list \<Rightarrow> string list \<Rightarrow> string \<Rightarrow> proxyForwarder \<Rightarrow> proxyForwarder" where
  "settle_key now entry used names failed k pf =
     (let cur = sticky_Get now k (pf_sticky pf) in
      if cur \<noteq> [] \<and> cur \<noteq> used then
        (case bindingMoves now k cur entry names failed pf of
           (why, pf1) \<Rightarrow>
             if why = [] then pf1
             else
               (case sample_allow now (''rebind|'' @ k) (pf_sampler pf1) of
                  ((ok, n), smp) \<Rightarrow>
                    (let pf2 = pf1\<lparr>pf_sampler := smp, pf_log := pf_log pf1 @ (if ok then [MovedBinding k cur used why n] else [])\<rparr>
                     in pf2\<lparr>pf_sticky := sticky_Set now k used (pf_sticky pf2)\<rparr>)))
      else pf\<lparr>pf_sticky := sticky_Set now k used (pf_sticky pf)\<rparr>)"

definition settleBinding :: "time \<Rightarrow> Entry \<Rightarrow> string \<Rightarrow> string list \<Rightarrow> string list \<Rightarrow> proxyForwarder \<Rightarrow> proxyForwarder" where
  "settleBinding now entry used names failed pf = fold (settle_key now entry used names failed) (stickyKeys entry) pf"

definition miss_key :: "time \<Rightarrow> string \<Rightarrow> string \<Rightarrow> proxyForwarder \<Rightarrow> proxyForwarder" where
  "miss_key now name k pf =
     (case sticky_Miss now k name (pf_sticky pf) of
        (moves, s) \<Rightarrow> pf\<lparr>pf_sticky := (if moves then sticky_Drop k name s else s)\<rparr>)"

definition noteUpstreamFailure :: "time \<Rightarrow> Entry \<Rightarrow> string \<Rightarrow> proxyForwarder \<Rightarrow> proxyForwarder" where
  "noteUpstreamFailure now entry name pf =
     (let pf1 = fold (miss_key now name) (stickyKeys entry) pf;
          site = avoidSite entry;
          (became, a) = avoid_strike now site (avoidKeys pf1 name) (pf_avoid pf1);
          pf2 = pf1\<lparr>pf_avoid := a\<rparr>;
          pf3 = (if became then
              (case sample_allow now (''avoid|'' @ site @ ''|'' @ name) (pf_sampler pf2) of
                 ((ok, n), smp) \<Rightarrow> pf2\<lparr>pf_sampler := smp, pf_log := pf_log pf2 @ (if ok then [KeepsFailing name site n] else [])\<rparr>)
            else pf2)
      in pf3\<lparr>pf_latency := map_option (\<lambda>t. snd (latency_Fail now name t)) (pf_latency pf3)\<rparr>)"

definition noteUpstreamSuccess :: "time \<Rightarrow> string \<Rightarrow> proxyForwarder \<Rightarrow> proxyForwarder" where
  "noteUpstreamSuccess now name pf =
     pf\<lparr>pf_witness := saw now name (pf_witness pf),
        pf_latency := map_option (\<lambda>t. snd (latency_Succeed now name t)) (pf_latency pf)\<rparr>"

definition proxyRouteKeepaliveTTL :: duration where "proxyRouteKeepaliveTTL = 90 * second"

definition touchRoute :: "time \<Rightarrow> ip \<Rightarrow> proxyForwarder \<Rightarrow> proxyForwarder" where
  "touchRoute now ip pf =
     pf\<lparr>pf_router := map_option (\<lambda>m. snd (Extend now (ip_String ip) proxyRouteKeepaliveTTL m)) (pf_router pf),
        pf_table := snd (Touch now (Some ip) proxyRouteKeepaliveTTL (pf_table pf))\<rparr>"

section \<open>One round over a binding\<close>

datatype dial_error = ClientGone | DestinationRefused | EmptyBinding | MemberError | ContextDone

type_synonym round_result = "(dial_error + string) \<times> string list"

text \<open>A serial round; \<open>dial\<close> says whether the dial of a member and the forwarding of the opening bytes succeed.\<close>

fun serialRound :: "(string \<Rightarrow> bool) \<Rightarrow> string list \<Rightarrow> string list \<Rightarrow> round_result" where
  "serialRound dial [] failed = (Inl MemberError, failed)"
| "serialRound dial (name # names) failed =
     (if dial name then (Inr name, failed) else serialRound dial names (appendFailed failed name))"

text \<open>
  A race: the members launched and not yet answered are \<open>rc_inFlight\<close>. Its events are an
  answer of a member in flight, an error of one (with the mark of a refusing exit), the hedge
  timer and the end of the context.
\<close>

definition proxyHedgeMaxInFlight :: nat where "proxyHedgeMaxInFlight = 2"

record race =
  rc_order :: "string list"
  rc_next :: nat
  rc_inFlight :: "string list"
  rc_failed :: "string list"
  rc_refused :: "string list"
  rc_result :: "(dial_error + string) option"

datatype race_event = Answered string | Errored string bool | HedgeTick | CtxDone

definition launch :: "race \<Rightarrow> race" where
  "launch r = r\<lparr>rc_inFlight := rc_inFlight r @ [rc_order r ! rc_next r], rc_next := rc_next r + 1\<rparr>"

definition race_start :: "string list \<Rightarrow> string list \<Rightarrow> race" where
  "race_start order failed =
     launch \<lparr>rc_order = order, rc_next = 0, rc_inFlight = [], rc_failed = failed, rc_refused = [], rc_result = None\<rparr>"

text \<open>The end of the loop, when nothing is in flight.\<close>

definition race_end :: "(string list \<Rightarrow> bool) \<Rightarrow> race \<Rightarrow> race" where
  "race_end proven r =
     (if rc_inFlight r = [] then
        r\<lparr>rc_result := Some (Inl (if length (rc_refused r) = length (rc_order r) \<and> proven (rc_refused r)
            then DestinationRefused else MemberError))\<rparr>
      else r)"

text \<open>One iteration of the loop; \<open>None\<close> for an event that cannot occur.\<close>

fun race_step :: "(string list \<Rightarrow> bool) \<Rightarrow> race_event \<Rightarrow> race \<Rightarrow> race option" where
  "race_step proven (Answered n) r =
     (if rc_result r \<noteq> None \<or> n \<notin> set (rc_inFlight r) then None
      else Some (r\<lparr>rc_inFlight := remove1 n (rc_inFlight r), rc_result := Some (Inr n)\<rparr>))"
| "race_step proven (Errored n ref) r =
     (if rc_result r \<noteq> None \<or> n \<notin> set (rc_inFlight r) then None
      else
        (let r1 = r\<lparr>rc_inFlight := remove1 n (rc_inFlight r), rc_refused := (if ref then rc_refused r @ [n] else rc_refused r),
                    rc_failed := appendFailed (rc_failed r) n\<rparr>
         in Some (race_end proven (if rc_next r1 < length (rc_order r1) then launch r1 else r1))))"
| "race_step proven HedgeTick r =
     (if rc_result r \<noteq> None then None
      else if rc_next r < length (rc_order r) \<and> length (rc_inFlight r) < proxyHedgeMaxInFlight then Some (launch r)
      else Some r)"
| "race_step proven CtxDone r =
     (if rc_result r \<noteq> None then None else Some (r\<lparr>rc_result := Some (Inl ContextDone)\<rparr>))"

fun race_run :: "(string list \<Rightarrow> bool) \<Rightarrow> race_event list \<Rightarrow> race \<Rightarrow> race option" where
  "race_run proven [] r = Some r"
| "race_run proven (ev # evs) r = Option.bind (race_step proven ev r) (race_run proven evs)"

text \<open>A race round that ran to its end with the given events, on the launch order of \<open>diverseOrder\<close>.\<close>

definition raceRound :: "time \<Rightarrow> proxyForwarder \<Rightarrow> race_event list \<Rightarrow> string list \<Rightarrow> string list \<Rightarrow> round_result option" where
  "raceRound now pf evs names failed =
     (if names = [] then Some (Inl EmptyBinding, failed)
      else
        (case race_run (\<lambda>ns. anyProven now ns (pf_witness pf)) evs (race_start (diverseOrder names (diversityKeys pf)) failed) of
           None \<Rightarrow> None
         | Some r \<Rightarrow> map_option (\<lambda>res. (res, rc_failed r)) (rc_result r)))"

section \<open>Dialling a binding\<close>

definition proxyDialMaxRounds :: nat where "proxyDialMaxRounds = 3"

text \<open>What a successful round leaves behind.\<close>

definition dial_carried :: "time \<Rightarrow> Entry \<Rightarrow> bool \<Rightarrow> string list \<Rightarrow> string \<Rightarrow> string list \<Rightarrow> proxyForwarder \<Rightarrow> proxyForwarder" where
  "dial_carried now entry verify names used failed pf =
     (let pf1 = fold (\<lambda>n p. if n \<noteq> used then noteUpstreamFailure now entry n p else p) failed pf;
          pf2 = (if verify then noteSiteCarried entry used (pf1\<lparr>pf_witness := saw now used (pf_witness pf1)\<rparr>) else pf1)
      in settleBinding now entry used names failed pf2)"

text \<open>
  The rounds of \<open>dialBinding\<close>: \<open>k\<close> rounds are left and \<open>rnd i\<close> is the result of the \<open>i\<close>-th; \<open>expired i\<close>
  says that the context ended during it, \<open>interrupted i\<close> that it ended in the pause after it.
\<close>

fun dial_rounds :: "nat \<Rightarrow> nat \<Rightarrow> (nat \<Rightarrow> string list \<Rightarrow> string list \<Rightarrow> round_result) \<Rightarrow> (nat \<Rightarrow> bool) \<Rightarrow> (nat \<Rightarrow> bool) \<Rightarrow>
    time \<Rightarrow> Entry \<Rightarrow> bool \<Rightarrow> string list \<Rightarrow> string list \<Rightarrow> dial_error \<Rightarrow> proxyForwarder \<Rightarrow> (dial_error + string) \<times> proxyForwarder" where
  "dial_rounds 0 i rnd expired interrupted now entry verify names failed lastErr pf = (Inl lastErr, pf)"
| "dial_rounds (Suc k) i rnd expired interrupted now entry verify names failed lastErr pf =
     (case rnd i names failed of
        (Inr used, failed') \<Rightarrow> (Inr used, dial_carried now entry verify names used failed' pf)
      | (Inl err, failed') \<Rightarrow>
          if expired i \<or> err = DestinationRefused then (Inl err, pf)
          else if 0 < k \<and> interrupted i then (Inl ContextDone, pf)
          else dial_rounds k (i + 1) rnd expired interrupted now entry verify names failed' err pf)"

text \<open>\<open>gone\<close>: the client closed before its opening bytes; \<open>verify\<close>: the opening allows the path to be verified.\<close>

definition dialBinding :: "cost_fun \<Rightarrow> (nat \<Rightarrow> string list \<Rightarrow> string list \<Rightarrow> round_result) \<Rightarrow> (nat \<Rightarrow> bool) \<Rightarrow> (nat \<Rightarrow> bool) \<Rightarrow>
    bool \<Rightarrow> bool \<Rightarrow> time \<Rightarrow> Entry \<Rightarrow> proxyForwarder \<Rightarrow> (dial_error + string) \<times> proxyForwarder" where
  "dialBinding cost rnd expired interrupted gone verify now entry pf =
     (if gone then (Inl ClientGone, pf)
      else dial_rounds proxyDialMaxRounds 1 rnd expired interrupted now entry verify (orderedNames cost now entry pf) [] MemberError pf)"

text \<open>The round a connection runs: a race when the path can be verified, else a serial pass.\<close>

definition rounds :: "bool \<Rightarrow> time \<Rightarrow> proxyForwarder \<Rightarrow> (nat \<Rightarrow> string \<Rightarrow> bool) \<Rightarrow> (nat \<Rightarrow> race_event list) \<Rightarrow>
    nat \<Rightarrow> string list \<Rightarrow> string list \<Rightarrow> round_result" where
  "rounds verify now pf dials races i names failed =
     (if verify then (case raceRound now pf (races i) names failed of Some r \<Rightarrow> r | None \<Rightarrow> (Inl ContextDone, failed))
      else serialRound (dials i) names failed)"

section \<open>One connection\<close>

definition proxyAbandonWindow :: duration where "proxyAbandonWindow = 4 * second"

record splice_result =
  sp_AtoB :: int
  sp_BtoA :: int
  sp_AFirst :: bool
  sp_FirstEnd :: duration

text \<open>What a finished splice says about the destination and the member.\<close>

definition tcp_finish :: "time \<Rightarrow> Entry \<Rightarrow> string \<Rightarrow> string \<Rightarrow> int \<Rightarrow> splice_result \<Rightarrow> proxyForwarder \<Rightarrow> proxyForwarder" where
  "tcp_finish now entry used healthKey sent res pf =
     (if 0 < sp_BtoA res then
        noteSiteCarried entry used (noteUpstreamSuccess now used (pf\<lparr>pf_breaker := tcp_success now healthKey (pf_breaker pf)\<rparr>))
      else if 0 < sp_AtoB res + sent \<and> sp_AFirst res \<and> sp_FirstEnd res < proxyAbandonWindow then pf
      else if 0 < sp_AtoB res + sent then
        (let pf1 = (if otherAlive now used (pf_witness pf) then noteUpstreamFailure now entry used pf else pf)
         in pf1\<lparr>pf_breaker := snd (tcp_strike now healthKey (pf_breaker pf1))\<rparr>)
      else pf)"

datatype handle_outcome = NoMapping | Paused | DialCeiling | LeftEarly | Condemned duration | NoUpstream duration | Carried string

definition sampled :: "time \<Rightarrow> string \<Rightarrow> proxyForwarder \<Rightarrow> proxyForwarder" where
  "sampled now key pf = pf\<lparr>pf_sampler := snd (sample_allow now key (pf_sampler pf))\<rparr>"

definition tcp_dialled :: "time \<Rightarrow> time \<Rightarrow> Entry \<Rightarrow> ip \<Rightarrow> int \<Rightarrow> int \<Rightarrow> splice_result \<Rightarrow> (dial_error + string) \<times> proxyForwarder \<Rightarrow>
    handle_outcome \<times> proxyForwarder" where
  "tcp_dialled now finish entry dest port sent res = (\<lambda>(r, pf).
     (let target = (if en_Hostname entry = [] then ip_String dest else en_Hostname entry);
          healthKey = tcpHealthKey target port
      in case r of
           Inl ClientGone \<Rightarrow> (LeftEarly, pf)
         | Inl DestinationRefused \<Rightarrow>
             (case tcp_condemn now healthKey (pf_breaker pf) of
                (d, b) \<Rightarrow> (Condemned d, sampled now (''refused|'' @ healthKey) (pf\<lparr>pf_breaker := b\<rparr>)))
         | Inl _ \<Rightarrow>
             (case tcp_strike now healthKey (pf_breaker pf) of
                (d, b) \<Rightarrow>
                  if 0 < d then (NoUpstream d, pf\<lparr>pf_breaker := b\<rparr>)
                  else (NoUpstream d, sampled now (''faildial|'' @ healthKey) (pf\<lparr>pf_breaker := b\<rparr>)))
         | Inr used \<Rightarrow>
             (let pf1 = touchRoute now dest pf;
                  pf2 = sampled now (''proxytun|'' @ target @ ''|'' @ Itoa port @ ''|'' @ used) pf1
              in (Carried used, tcp_finish finish entry used healthKey sent res pf2))))"

text \<open>
  \<open>handle\<close>: \<open>slot\<close> says whether the dial gate gives a slot, \<open>dial\<close> is \<open>dialBinding\<close> for the entry,
  \<open>finish\<close> is when the splice ends with the result \<open>res\<close>.
\<close>

definition tcp_handle :: "bool \<Rightarrow> (Entry \<Rightarrow> proxyForwarder \<Rightarrow> (dial_error + string) \<times> proxyForwarder) \<Rightarrow> time \<Rightarrow> time \<Rightarrow> ip \<Rightarrow> int \<Rightarrow>
    int \<Rightarrow> splice_result \<Rightarrow> proxyForwarder \<Rightarrow> handle_outcome \<times> proxyForwarder" where
  "tcp_handle slot dial now finish dest port sent res pf =
     (case (case Lookup now (Some dest) (pf_table pf) of Some e \<Rightarrow> Some e | None \<Rightarrow> lookupIPRule dest pf) of
        None \<Rightarrow> (NoMapping, pf)
      | Some entry \<Rightarrow>
          (let target = (if en_Hostname entry = [] then ip_String dest else en_Hostname entry);
               healthKey = tcpHealthKey target port
           in case tcp_admit now healthKey (pf_breaker pf) of
                (ok, b) \<Rightarrow>
                  (let pf1 = pf\<lparr>pf_breaker := b\<rparr> in
                   if \<not> ok then (Paused, pf1)
                   else if \<not> slot then (DialCeiling, sampled now (''gate|'' @ healthKey) pf1)
                   else tcp_dialled now finish entry dest port sent res (dial entry pf1))))"

section \<open>Rounds\<close>

text \<open>What the retry loop relies on in a round.\<close>

locale dial_round =
  fixes rnd :: "nat \<Rightarrow> string list \<Rightarrow> string list \<Rightarrow> round_result"
  assumes carrier: "rnd i names failed = (Inr n, failed') \<Longrightarrow> n \<in> set names"
    and failures: "rnd i names failed = (r, failed') \<Longrightarrow> set failed' \<subseteq> set failed \<union> set names"
begin

lemma dial_rounds_cases:
  assumes "dial_rounds k i rnd expired interrupted now entry verify names failed e pf = (r, pf')" "set failed \<subseteq> set names"
  shows "(\<exists>err. r = Inl err \<and> pf' = pf) \<or>
    (\<exists>used failed'. r = Inr used \<and> used \<in> set names \<and> set failed' \<subseteq> set names \<and> pf' = dial_carried now entry verify names used failed' pf)"
  using assms
proof (induction k arbitrary: i failed e)
  case (Suc k)
  obtain res failed' where rd: "rnd i names failed = (res, failed')" by (rule prod.exhaust)
  have f: "set failed' \<subseteq> set names" using failures [OF rd] Suc.prems(2) by blast
  show ?case
  proof (cases res)
    case (Inl err)
    then show ?thesis using Suc.prems(1) rd Suc.IH [OF _ f] by (auto split: if_splits)
  next
    case (Inr used)
    then show ?thesis using Suc.prems(1) rd f carrier [of i names failed used failed'] by auto
  qed
qed auto

end

lemma set_appendFailed [simp]: "set (appendFailed failed n) = insert n (set failed)"
  by (auto simp: appendFailed_def list_ex_iff)

lemma serial_carrier: "serialRound dial names failed = (Inr n, failed') \<Longrightarrow> n \<in> set names"
  by (induction names arbitrary: failed) (auto split: if_splits)

lemma serial_failures: "serialRound dial names failed = (r, failed') \<Longrightarrow> set failed' \<subseteq> set failed \<union> set names"
  by (induction names arbitrary: failed) (force split: if_splits)+

section \<open>Races\<close>

text \<open>The members that answered or failed in a sequence of events.\<close>

fun attempt_of :: "race_event \<Rightarrow> string list" where
  "attempt_of (Answered n) = [n]"
| "attempt_of (Errored n _) = [n]"
| "attempt_of _ = []"

definition attempts :: "race_event list \<Rightarrow> string list" where "attempts evs = concat (map attempt_of evs)"

definition race_inv :: "string list \<Rightarrow> string list \<Rightarrow> string list \<Rightarrow> race \<Rightarrow> bool" where
  "race_inv order failed0 tried r \<longleftrightarrow> rc_order r = order \<and> rc_next r \<le> length order \<and>
     length (rc_inFlight r) \<le> proxyHedgeMaxInFlight \<and>
     mset (take (rc_next r) order) = mset (rc_inFlight r) + mset tried \<and>
     (rc_inFlight r = [] \<longrightarrow> rc_result r \<noteq> None) \<and>
     set (rc_failed r) \<subseteq> set failed0 \<union> set order \<and>
     (case rc_result r of
        Some (Inl err) \<Rightarrow> err = ContextDone \<or> rc_inFlight r = [] \<and> rc_next r = length order
      | Some (Inr n) \<Rightarrow> n \<in> set order
      | None \<Rightarrow> True)"

lemma launch_mset:
  assumes "rc_next r < length (rc_order r)" "mset (take (rc_next r) (rc_order r)) = mset (rc_inFlight r) + mset tried"
  shows "mset (take (rc_next (launch r)) (rc_order r)) = mset (rc_inFlight (launch r)) + mset tried"
  using assms by (simp add: launch_def take_Suc_conv_app_nth)

lemma in_flight_order:
  assumes "race_inv order failed0 tried r" "n \<in> set (rc_inFlight r)" shows "n \<in> set order"
proof -
  have "n \<in># mset (take (rc_next r) order)" using assms by (simp add: race_inv_def)
  then show ?thesis by (auto dest: in_set_takeD)
qed

lemma race_start_inv: "order \<noteq> [] \<Longrightarrow> race_inv order failed [] (race_start order failed)"
  by (cases order) (auto simp: race_inv_def race_start_def launch_def proxyHedgeMaxInFlight_def)

lemma errored_inv:
  assumes inv: "race_inv order failed0 tried r" and st: "race_step proven (Errored n ref) r = Some r'"
  shows "race_inv order failed0 (tried @ [n]) r'"
proof -
  have n: "rc_result r = None" "n \<in> set (rc_inFlight r)" using st by (auto split: if_splits)
  define r1 where "r1 = r\<lparr>rc_inFlight := remove1 n (rc_inFlight r), rc_refused := (if ref then rc_refused r @ [n] else rc_refused r),
    rc_failed := appendFailed (rc_failed r) n\<rparr>"
  have r': "r' = race_end proven (if rc_next r1 < length (rc_order r1) then launch r1 else r1)"
    using st n by (simp add: Let_def flip: r1_def)
  have f: "rc_order r1 = order" "rc_next r1 \<le> length order" "rc_result r1 = None" "set (rc_failed r1) \<subseteq> set failed0 \<union> set order"
    "length (rc_inFlight r1) < proxyHedgeMaxInFlight"
    using inv n in_flight_order [OF inv n(2)] by (auto simp: r1_def race_inv_def length_remove1 proxyHedgeMaxInFlight_def)
  have ms: "mset (take (rc_next r1) order) = mset (rc_inFlight r1) + mset (tried @ [n])"
    using inv n(2) by (simp add: r1_def race_inv_def)
  show ?thesis
  proof (cases "rc_next r1 < length order")
    case True
    then show ?thesis using f ms launch_mset [of r1 "tried @ [n]"] r'
      by (simp add: race_inv_def race_end_def launch_def)
  next
    case False
    then show ?thesis using f ms r' by (auto simp: race_inv_def race_end_def)
  qed
qed

lemma race_step_inv:
  assumes inv: "race_inv order failed0 tried r" and st: "race_step proven ev r = Some r'"
  shows "race_inv order failed0 (tried @ attempt_of ev) r'"
proof (cases ev)
  case (Answered n)
  then show ?thesis using inv st in_flight_order [OF inv, of n]
    by (auto simp: race_inv_def length_remove1 split: if_splits)
next
  case (Errored n ref)
  then show ?thesis using errored_inv [OF inv] st by simp
next
  case HedgeTick
  then show ?thesis using inv st launch_mset [of r tried]
    by (auto simp: race_inv_def launch_def split: if_splits)
next
  case CtxDone
  then show ?thesis using inv st by (auto simp: race_inv_def split: if_splits)
qed

lemma race_run_inv:
  assumes "race_run proven evs r = Some r'" "race_inv order failed0 tried r"
  shows "race_inv order failed0 (tried @ attempts evs) r'"
  using assms
proof (induction evs arbitrary: r tried)
  case (Cons ev evs)
  obtain r1 where r1: "race_step proven ev r = Some r1" "race_run proven evs r1 = Some r'"
    using Cons.prems(1) by (auto simp: bind_eq_Some_conv)
  show ?case using Cons.IH [OF r1(2) race_step_inv [OF Cons.prems(2) r1(1)]] by (simp add: attempts_def)
qed (simp add: attempts_def)

lemma raceRound_end:
  assumes "raceRound now pf evs names failed = Some (res, failed')"
  shows "names = [] \<and> res = Inl EmptyBinding \<and> failed' = failed \<or>
    (\<exists>r. race_run (\<lambda>ns. anyProven now ns (pf_witness pf)) evs (race_start (diverseOrder names (diversityKeys pf)) failed) = Some r \<and>
       race_inv (diverseOrder names (diversityKeys pf)) failed (attempts evs) r \<and> rc_result r = Some res \<and> failed' = rc_failed r)"
proof (cases "names = []")
  case False
  let ?o = "diverseOrder names (diversityKeys pf)"
  have ne: "?o \<noteq> []" using diverseOrder_mset [of names "diversityKeys pf"] False by (metis mset_zero_iff)
  obtain r where r: "race_run (\<lambda>ns. anyProven now ns (pf_witness pf)) evs (race_start ?o failed) = Some r" "rc_result r = Some res" "failed' = rc_failed r"
    using assms False by (auto simp: raceRound_def split: option.splits)
  have "race_inv ?o failed ([] @ attempts evs) r" by (rule race_run_inv [OF r(1) race_start_inv [OF ne]])
  then show ?thesis using r by auto
qed (use assms in \<open>auto simp: raceRound_def\<close>)

lemma set_diverseOrder: "set (diverseOrder names keysOf) = set names"
  using diverseOrder_mset by (metis set_mset_mset)

lemma race_carrier: "raceRound now pf evs names failed = Some (Inr n, failed') \<Longrightarrow> n \<in> set names"
  using raceRound_end [of now pf evs names failed "Inr n" failed'] by (auto simp: race_inv_def set_diverseOrder)

lemma race_failures: "raceRound now pf evs names failed = Some (r, failed') \<Longrightarrow> set failed' \<subseteq> set failed \<union> set names"
  using raceRound_end [of now pf evs names failed r failed'] by (auto simp: race_inv_def set_diverseOrder)

interpretation rnds: dial_round "rounds verify now pf dials races" for verify now pf dials races
proof
  fix i names failed n failed'
  assume "rounds verify now pf dials races i names failed = (Inr n, failed')"
  then show "n \<in> set names"
    using serial_carrier race_carrier by (auto simp: rounds_def split: if_splits option.splits)
next
  fix i names failed r failed'
  assume "rounds verify now pf dials races i names failed = (r, failed')"
  then show "set failed' \<subseteq> set failed \<union> set names"
    using serial_failures race_failures by (fastforce simp: rounds_def split: if_splits option.splits)
qed

section \<open>Frames\<close>

lemma set_orderedNames: "set (orderedNames cost now entry pf) = set (en_ProxyNames entry)"
proof -
  have "mset (orderedNames cost now entry pf) = mset (en_ProxyNames entry)"
    by (simp add: orderedNames_def Let_def demote_mset RankFrom_mset split: option.split)
  then show ?thesis by (metis set_mset_mset)
qed

lemma bindingMoves_latency [simp]: "pf_latency (snd (bindingMoves now k cur entry names failed pf)) = pf_latency pf"
  by (simp add: bindingMoves_def Let_def split: prod.split)

lemma settle_key_latency [simp]: "pf_latency (settle_key now entry used names failed k pf) = pf_latency pf"
  using bindingMoves_latency [of now k "sticky_Get now k (pf_sticky pf)" entry names failed pf]
  by (auto simp: settle_key_def Let_def split: prod.split simp del: bindingMoves_latency)

lemma settleBinding_latency [simp]: "pf_latency (settleBinding now entry used names failed pf) = pf_latency pf"
  by (simp add: settleBinding_def stickyKeys_def)

lemma fold_miss_latency [simp]: "pf_latency (fold (miss_key now name) ks pf) = pf_latency pf"
  by (induction ks arbitrary: pf) (simp_all add: miss_key_def split: prod.split)

lemma noteUpstreamFailure_latency:
  "pf_latency (noteUpstreamFailure now entry name pf) = map_option (\<lambda>t. snd (latency_Fail now name t)) (pf_latency pf)"
  by (simp add: noteUpstreamFailure_def Let_def split: prod.split)

lemma Fail_other:
  assumes "n \<noteq> name" shows "sample_of (snd (latency_Fail now name t)) n = sample_of t n"
proof (cases "now < lt_graceUntil t")
  case True
  then show ?thesis by (simp add: latency_Fail_def latency_record_def)
next
  case False
  obtain ev t' where "latency_record now name 0 False True t = (ev, t')" by (rule prod.exhaust)
  then show ?thesis using record_sample [of now name 0 False True t ev t' n] False assms by (simp add: latency_Fail_def)
qed

lemma blamed_latency:
  assumes "pf_latency pf = Some t"
  shows "\<exists>t'. pf_latency (fold (\<lambda>n p. if n \<noteq> used then noteUpstreamFailure now entry n p else p) failed pf) = Some t' \<and>
    (\<forall>n. n = used \<or> n \<notin> set failed \<longrightarrow> sample_of t' n = sample_of t n)"
  using assms
proof (induction failed arbitrary: pf t)
  case (Cons f failed)
  show ?case
  proof (cases "f = used")
    case True
    then show ?thesis using Cons.IH [OF Cons.prems] by auto
  next
    case False
    have "pf_latency (noteUpstreamFailure now entry f pf) = Some (snd (latency_Fail now f t))"
      using Cons.prems by (simp add: noteUpstreamFailure_latency)
    from Cons.IH [OF this] show ?thesis using False Fail_other [of _ f now t] by auto
  qed
qed simp

lemma dial_carried_latency:
  assumes "pf_latency pf = Some t"
  shows "\<exists>t'. pf_latency (dial_carried now entry verify names used failed pf) = Some t' \<and>
    (\<forall>n. n = used \<or> n \<notin> set failed \<longrightarrow> sample_of t' n = sample_of t n)"
  using blamed_latency [OF assms, of used now entry failed] by (auto simp: dial_carried_def Let_def noteSiteCarried_def)

section \<open>Properties\<close>

text \<open>
  C18: The race. Whatever the order of its events, at most two members are in flight; every
  member launched is in flight or has answered or failed, and each is launched at most once;
  a race lost without its context ending has launched every member of the binding and every
  one of them has failed; and a race is won by a member of the binding.
\<close>

theorem race_exhaustive:
  assumes "names \<noteq> []" "race_run proven evs (race_start (diverseOrder names keysOf) failed) = Some r"
  shows "length (rc_inFlight r) \<le> 2 \<and> rc_next r \<le> length names \<and>
    mset (take (rc_next r) (diverseOrder names keysOf)) = mset (rc_inFlight r) + mset (attempts evs) \<and>
    (case rc_result r of
       Some (Inl err) \<Rightarrow> err = ContextDone \<or> mset (attempts evs) = mset names
     | Some (Inr n) \<Rightarrow> n \<in> set names
     | None \<Rightarrow> rc_inFlight r \<noteq> [])"
proof -
  let ?o = "diverseOrder names keysOf"
  have o: "?o \<noteq> []" "length ?o = length names" "set ?o = set names" "mset ?o = mset names"
    using diverseOrder_mset [of names keysOf] assms(1) set_diverseOrder by (metis mset_zero_iff size_mset)+
  have "race_inv ?o failed ([] @ attempts evs) r" by (rule race_run_inv [OF assms(2) race_start_inv [OF o(1)]])
  then have i: "race_inv ?o failed (attempts evs) r" by simp
  show ?thesis using i o by (auto simp: race_inv_def proxyHedgeMaxInFlight_def split: option.splits sum.splits)
qed

theorem race_exhaustive_witness:
  "case race_run (\<lambda>ns. True) [HedgeTick, HedgeTick, Errored ''a'' True, Errored ''b'' True, Errored ''c'' True]
      (race_start (diverseOrder [''a'', ''c'', ''b''] (\<lambda>n. if n = ''b'' then [''y''] else [''x''])) []) of
     Some r \<Rightarrow> rc_order r = [''a'', ''b'', ''c''] \<and> rc_result r = Some (Inl DestinationRefused) \<and>
       mset [''a'', ''b'', ''c''] = mset [''a'', ''c'', ''b'']
   | None \<Rightarrow> False"
proof -
  let ?k = "\<lambda>n. if n = ''b'' then [''y''] else [''x'']"
  let ?evs = "[HedgeTick, HedgeTick, Errored ''a'' True, Errored ''b'' True, Errored ''c'' True]"
  let ?R = "race_run (\<lambda>ns. True) ?evs (race_start (diverseOrder [''a'', ''c'', ''b''] ?k) [])"
  have c: "map_option (\<lambda>r. (rc_order r, rc_result r)) ?R = Some ([''a'', ''b'', ''c''], Some (Inl DestinationRefused))" by code_simp
  then obtain r where r: "?R = Some r" "rc_order r = [''a'', ''b'', ''c'']" "rc_result r = Some (Inl DestinationRefused)" by auto
  have "mset (attempts ?evs) = mset [''a'', ''c'', ''b'']" using race_exhaustive [OF _ r(1)] r(3) by simp
  then show ?thesis using r by (simp add: attempts_def)
qed


definition sample_pf :: proxyForwarder where
  "sample_pf = \<lparr>pf_table = NewTable 0, pf_router = None, pf_decider = None, pf_latency = Some (NewLatencyTracker 0),
     pf_sticky = Some newStickyBindings, pf_health = Some newUDPHealth, pf_breaker = Some newTCPHealth, pf_sampler = Some newLogSampler,
     pf_witness = Some newUplinkWitness, pf_routes = None, pf_exits = None, pf_avoid = Some newSiteAvoid, pf_hosts = Map.empty, pf_log = []\<rparr>"

definition sample_entry :: Entry where
  "sample_entry = \<lparr>en_ProxyNames = [''de'', ''nl''], en_Hostname = ''cdn.example.com'', en_ExpiresAt = 0, en_RuleID = 1\<rparr>"

definition sample_dial :: "(string \<Rightarrow> bool) \<Rightarrow> (dial_error + string) \<times> proxyForwarder" where
  "sample_dial up = dialBinding rtt_cost (rounds False (100 * second) sample_pf (\<lambda>i. up) (\<lambda>i. [])) (\<lambda>i. False) (\<lambda>i. False) False False
     (100 * second) sample_entry sample_pf"


end
