(* ===== verification/Node_Pool.thy ===== *)
theory Node_Pool
  imports Dialer_Graph "HOL-Library.Char_ord" "HOL-Library.List_Lexorder" "HOL-Library.Product_Lexorder" "HOL-Library.Multiset"
begin

text \<open>
  \<open>daemon/xray_nodepark.go\<close> and \<open>daemon/xray_shortlist.go\<close>: which members of a dialer slot are
  parked because they are dead, and which are on the shortlist of the balancer. The health of
  the members (\<open>byTag\<close>, decoded from the metrics of xray) is an argument. The score of a member
  and its smoothing are floating-point functions and are parameters. Where a loop over a Go map
  treats its entries independently it is written as one function on the map; the list of
  released keys that \<open>release\<close> and \<open>releaseAll\<close> also return, for the log, is left out.
\<close>

section \<open>Parking\<close>

definition nodeDeadBeforePark :: duration where "nodeDeadBeforePark = 15 * minute"
definition nodeTrialWindow :: duration where "nodeTrialWindow = 3 * minute"
definition nodeParkInitial :: duration where "nodeParkInitial = 5 * minute"
definition nodeParkMax :: duration where "nodeParkMax = hour"

record nodeStatus =
  ns_Alive :: bool
  ns_Delay :: int
  ns_All :: int
  ns_Fail :: int
  ns_Average :: int
  ns_Deviation :: int

definition node_dead :: "nodeStatus \<Rightarrow> bool" where
  "node_dead n \<longleftrightarrow> \<not> ns_Alive n \<and> 0 < ns_All n \<and> ns_Fail n = ns_All n"

record parkState =
  ps_deadSince :: time
  ps_parkedUntil :: time
  ps_parkFor :: duration
  ps_onTrial :: bool

type_synonym parkNodes = "string \<rightharpoonup> parkState"

definition newNodeParker :: parkNodes where "newNodeParker = Map.empty"

definition node_parked :: "time \<Rightarrow> parkNodes option \<Rightarrow> string \<Rightarrow> bool" where
  "node_parked now po k =
     (case po of None \<Rightarrow> False | Some p \<Rightarrow> (case p k of Some st \<Rightarrow> now < ps_parkedUntil st | None \<Rightarrow> False))"

record parkEvent =
  pe_key :: string
  pe_parked :: bool
  pe_for :: duration

text \<open>The switch of \<open>observe\<close> for a dead member: the new record, and the park length when it is parked now.\<close>

definition park_for :: "parkState \<Rightarrow> duration" where
  "park_for ps =
     (if ps_parkFor ps = 0 then nodeParkInitial
      else if ps_onTrial ps then (if nodeParkMax < ps_parkFor ps * 2 then nodeParkMax else ps_parkFor ps * 2)
      else ps_parkFor ps)"

definition dead_step :: "time \<Rightarrow> nat \<Rightarrow> nat \<Rightarrow> parkState option \<Rightarrow> parkState \<times> bool" where
  "dead_step now aliveCount remaining pso =
     (let ps0 = (case pso of Some ps \<Rightarrow> ps | None \<Rightarrow> \<lparr>ps_deadSince = 0, ps_parkedUntil = 0, ps_parkFor = 0, ps_onTrial = False\<rparr>);
          ps = (if ps_deadSince ps0 = 0 then ps0\<lparr>ps_deadSince := now\<rparr> else ps0);
          wait = (if ps_onTrial ps then nodeTrialWindow else nodeDeadBeforePark)
      in if time_Sub now (ps_deadSince ps) < wait \<or> aliveCount = 0 \<or> remaining \<le> 1 then (ps, False)
         else (ps\<lparr>ps_parkFor := park_for ps, ps_parkedUntil := now + park_for ps, ps_deadSince := 0, ps_onTrial := False\<rparr>, True))"

fun observe_members :: "time \<Rightarrow> (string \<Rightarrow> nodeStatus option) \<Rightarrow> nat \<Rightarrow> string list \<Rightarrow> nat \<Rightarrow> parkNodes \<Rightarrow> parkEvent list \<Rightarrow>
    nat \<times> parkNodes \<times> parkEvent list" where
  "observe_members now status aliveCount [] remaining p evs = (remaining, p, evs)"
| "observe_members now status aliveCount (k # ks) remaining p evs =
     (case status k of
        None \<Rightarrow> observe_members now status aliveCount ks remaining p evs
      | Some st \<Rightarrow>
          if ns_Alive st then observe_members now status aliveCount ks remaining (p(k := None)) evs
          else if node_dead st then
            (case dead_step now aliveCount remaining (p k) of
               (ps, parks) \<Rightarrow>
                 if parks then observe_members now status aliveCount ks (remaining - 1) (p(k \<mapsto> ps))
                     (evs @ [\<lparr>pe_key = k, pe_parked = True, pe_for = ps_parkFor ps\<rparr>])
                 else observe_members now status aliveCount ks remaining (p(k \<mapsto> ps)) evs)
          else observe_members now status aliveCount ks remaining p evs)"

definition slot_status :: "(string \<rightharpoonup> nodeStatus) \<Rightarrow> DialerSlot \<Rightarrow> string \<Rightarrow> nodeStatus option" where
  "slot_status byTag sl key = byTag (SlotMemberTag (sl_Index sl) key)"

definition alive_count :: "(string \<rightharpoonup> nodeStatus) \<Rightarrow> DialerSlot \<Rightarrow> nat" where
  "alive_count byTag sl =
     length (filter (\<lambda>m. case slot_status byTag sl (mem_Key m) of Some st \<Rightarrow> ns_Alive st | None \<Rightarrow> False) (sl_Members sl))"

definition observe_slot :: "time \<Rightarrow> (string \<rightharpoonup> nodeStatus) \<Rightarrow> DialerSlot \<Rightarrow> parkNodes \<times> parkEvent list \<Rightarrow> parkNodes \<times> parkEvent list" where
  "observe_slot now byTag sl = (\<lambda>(p, evs).
     if NeverParks sl then (p, evs)
     else snd (observe_members now (slot_status byTag sl) (alive_count byTag sl) (map mem_Key (sl_Members sl)) (length (sl_Members sl)) p evs))"

definition park_observe :: "time \<Rightarrow> (string \<rightharpoonup> nodeStatus) \<Rightarrow> DialerSlot list \<Rightarrow> parkNodes option \<Rightarrow> parkNodes option \<times> parkEvent list" where
  "park_observe now byTag slots po =
     (case po of
        None \<Rightarrow> (None, [])
      | Some p \<Rightarrow> (case fold (observe_slot now byTag) slots (p, []) of (p', evs) \<Rightarrow> (Some p', evs)))"

definition on_trial :: "parkState \<Rightarrow> parkState" where
  "on_trial st = st\<lparr>ps_parkedUntil := 0, ps_onTrial := True, ps_deadSince := 0\<rparr>"

definition park_release :: "time \<Rightarrow> parkNodes option \<Rightarrow> parkNodes option" where
  "park_release now po =
     map_option (\<lambda>p k. map_option (\<lambda>st. if ps_parkedUntil st \<noteq> 0 \<and> \<not> now < ps_parkedUntil st then on_trial st else st) (p k)) po"

definition park_releaseAll :: "parkNodes option \<Rightarrow> parkNodes option" where
  "park_releaseAll po = map_option (\<lambda>p k. map_option (\<lambda>st. if ps_parkedUntil st \<noteq> 0 then on_trial st else st) (p k)) po"

definition park_retain :: "(string \<Rightarrow> bool) \<Rightarrow> parkNodes option \<Rightarrow> parkNodes option" where
  "park_retain keys po = map_option (\<lambda>p k. if keys k then p k else None) po"

definition park_forget :: "string list \<Rightarrow> parkNodes option \<Rightarrow> parkNodes option" where
  "park_forget keys po = map_option (\<lambda>p. fold (\<lambda>k p. p(k := None)) keys p) po"

definition withoutParked :: "DialerMember list \<Rightarrow> (string \<Rightarrow> bool) \<Rightarrow> DialerMember list" where
  "withoutParked members parked =
     (let out = filter (\<lambda>m. \<not> parked (mem_Key m)) members in if out = [] then members else out)"

section \<open>The shortlist\<close>

definition SlotShortlistSize :: nat where "SlotShortlistSize = 2"
definition shortlistMarginFloor :: duration where "shortlistMarginFloor = 50 * millisecond"

definition beatsShortlisted :: "duration \<Rightarrow> duration \<Rightarrow> bool" where
  "beatsShortlisted challenger inc = (let gain = inc - challenger in shortlistMarginFloor \<le> gain \<and> inc \<le> 4 * gain)"

text \<open>The scores of a round are an association list, \<open>sc\<close> its lookup.\<close>

definition score_of :: "(string \<times> duration) list \<Rightarrow> string \<Rightarrow> duration" where
  "score_of scores k = (case map_of scores k of Some d \<Rightarrow> d | None \<Rightarrow> 0)"

text \<open>The index scans of \<open>pickShortlist\<close>: the loop variable is \<open>i\<close>, the position kept so far \<open>b\<close>.\<close>

definition scan_index :: "(string \<Rightarrow> string \<Rightarrow> bool) \<Rightarrow> string list \<Rightarrow> nat" where
  "scan_index beats xs = fold (\<lambda>i b. if beats (xs ! i) (xs ! b) then i else b) [0..<length xs] 0"

fun displace :: "(string \<Rightarrow> duration) \<Rightarrow> string list \<Rightarrow> string list \<Rightarrow> string list" where
  "displace sc nxt [] = nxt"
| "displace sc nxt (o' # outs) =
     (let weak = scan_index (\<lambda>a b. sc b < sc a) nxt
      in if beatsShortlisted (sc o') (sc (nxt ! weak)) then displace sc (nxt[weak := o']) outs else nxt)"

definition put_best_first :: "(string \<Rightarrow> duration) \<Rightarrow> string list \<Rightarrow> string list" where
  "put_best_first sc nxt =
     (let best = scan_index (\<lambda>a b. sc a < sc b) nxt
      in if best \<noteq> 0 \<and> beatsShortlisted (sc (nxt ! best)) (sc (nxt ! 0)) then nxt[0 := nxt ! best, best := nxt ! 0] else nxt)"

definition incumbents :: "(string \<times> duration) list \<Rightarrow> nat \<Rightarrow> string list \<Rightarrow> string list" where
  "incumbents scores sz old = take sz (filter (\<lambda>k. map_of scores k \<noteq> None) old)"

definition outsiders :: "(string \<times> duration) list \<Rightarrow> string list \<Rightarrow> string list" where
  "outsiders scores nxt = sort_key (\<lambda>k. (score_of scores k, k)) (filter (\<lambda>k. k \<notin> set nxt) (map fst scores))"

definition pickShortlist :: "string list \<Rightarrow> (string \<times> duration) list \<Rightarrow> nat \<Rightarrow> string list option" where
  "pickShortlist old scores sz =
     (if scores = [] then None
      else
        (let nxt = incumbents scores sz old;
             outs = outsiders scores nxt;
             free = sz - length nxt
         in Some (put_best_first (score_of scores) (displace (score_of scores) (nxt @ take free outs) (drop free outs)))))"

definition dropBroken :: "(string \<times> duration) list \<Rightarrow> string list \<Rightarrow> (string \<times> duration) list" where
  "dropBroken scores broken =
     (let kept = filter (\<lambda>(k, _). k \<notin> set broken) scores in if kept = [] then scores else kept)"

record slotShortlist =
  sh_picks :: "string \<rightharpoonup> string list"
  sh_smooth :: "string \<rightharpoonup> (string \<times> duration) list"

definition shortlist_preferred :: "string \<Rightarrow> DialerMember list \<Rightarrow> slotShortlist option \<Rightarrow> string list" where
  "shortlist_preferred master members so =
     (case so of
        None \<Rightarrow> []
      | Some s \<Rightarrow> if length members \<le> SlotShortlistSize then []
                  else (case sh_picks s master of Some ks \<Rightarrow> ks | None \<Rightarrow> []))"

text \<open>The scores of a slot's members: \<open>score\<close> is \<open>nodeScore\<close>, \<open>smooth\<close> is \<open>smoothScore\<close>.\<close>

definition slot_scores :: "(nodeStatus \<Rightarrow> duration option) \<Rightarrow> (duration \<Rightarrow> duration \<Rightarrow> duration) \<Rightarrow> (string \<rightharpoonup> nodeStatus) \<Rightarrow>
    DialerSlot \<Rightarrow> (string \<times> duration) list \<Rightarrow> (string \<times> duration) list" where
  "slot_scores score smooth byTag sl prev =
     concat (map (\<lambda>k. case Option.bind (slot_status byTag sl k) score of
         Some c \<Rightarrow> [(k, smooth (score_of prev k) c)] | None \<Rightarrow> []) (remdups (map mem_Key (sl_Members sl))))"

record shortlistChange =
  sc_master :: string
  sc_from :: "string list"
  sc_to :: "string list"

definition shortlist_slot :: "(nodeStatus \<Rightarrow> duration option) \<Rightarrow> (duration \<Rightarrow> duration \<Rightarrow> duration) \<Rightarrow> (string \<rightharpoonup> nodeStatus) \<Rightarrow>
    DialerSlot \<Rightarrow> slotShortlist \<times> shortlistChange list \<Rightarrow> slotShortlist \<times> shortlistChange list" where
  "shortlist_slot score smooth byTag sl = (\<lambda>(s, changes).
     if Agile sl \<or> Manual sl then (s, changes)
     else
       (let old = (case sh_picks s (sl_Master sl) of Some ks \<Rightarrow> ks | None \<Rightarrow> []) in
        if length (sl_Members sl) \<le> SlotShortlistSize then
          (if old \<noteq> [] then
             (s\<lparr>sh_picks := (sh_picks s)(sl_Master sl := None)\<rparr>,
              changes @ [\<lparr>sc_master = sl_Master sl, sc_from = old, sc_to = []\<rparr>])
           else (s, changes))
        else
          (let prev = (case sh_smooth s (sl_Master sl) of Some m \<Rightarrow> m | None \<Rightarrow> []);
               scores = dropBroken (slot_scores score smooth byTag sl prev) (sl_Broken sl);
               s1 = s\<lparr>sh_smooth := (sh_smooth s)(sl_Master sl \<mapsto> scores)\<rparr>
           in case pickShortlist old scores SlotShortlistSize of
                None \<Rightarrow> (s1, changes)
              | Some nxt \<Rightarrow>
                  if nxt = old then (s1, changes)
                  else (s1\<lparr>sh_picks := (sh_picks s1)(sl_Master sl \<mapsto> nxt)\<rparr>,
                        changes @ [\<lparr>sc_master = sl_Master sl, sc_from = old, sc_to = nxt\<rparr>]))))"

definition shortlist_observe :: "(nodeStatus \<Rightarrow> duration option) \<Rightarrow> (duration \<Rightarrow> duration \<Rightarrow> duration) \<Rightarrow> (string \<rightharpoonup> nodeStatus) \<Rightarrow>
    DialerSlot list \<Rightarrow> slotShortlist option \<Rightarrow> slotShortlist option \<times> shortlistChange list" where
  "shortlist_observe score smooth byTag slots so =
     (case so of
        None \<Rightarrow> (None, [])
      | Some s \<Rightarrow>
          (case fold (shortlist_slot score smooth byTag) slots (s, []) of
             (s1, changes) \<Rightarrow>
               (let live = (\<lambda>m. list_ex (\<lambda>sl. \<not> Agile sl \<and> \<not> Manual sl \<and> sl_Master sl = m) slots)
                in (Some (s1\<lparr>sh_picks := (\<lambda>m. if live m then sh_picks s1 m else None),
                             sh_smooth := (\<lambda>m. if live m then sh_smooth s1 m else None)\<rparr>),
                    changes))))"


section \<open>Properties of the shortlist\<close>

lemma beats_mono: "beatsShortlisted c i \<Longrightarrow> c' \<le> c \<Longrightarrow> i \<le> i' \<Longrightarrow> beatsShortlisted c' i'"
  by (auto simp: beatsShortlisted_def Let_def)

lemma beats_less: "beatsShortlisted c i \<Longrightarrow> c < i"
  by (auto simp: beatsShortlisted_def Let_def shortlistMarginFloor_def millisecond_def)

lemma scan_prefix:
  fixes f :: "string \<Rightarrow> int"
  assumes "n \<le> length xs" "0 < n"
  defines "r \<equiv> fold (\<lambda>i b. if f (xs ! b) < f (xs ! i) then i else b) [0..<n] 0"
  shows "r < n \<and> (\<forall>j < n. f (xs ! j) \<le> f (xs ! r))"
  using assms(1,2) unfolding r_def
proof (induction n)
  case (Suc n)
  show ?case
  proof (cases "n = 0")
    case False
    then show ?thesis using Suc by (auto simp: less_Suc_eq)
  qed simp
qed simp

lemma scan_max:
  fixes f :: "string \<Rightarrow> int"
  assumes "xs \<noteq> []"
  shows "scan_index (\<lambda>a b. f b < f a) xs < length xs"
    and "x \<in> set xs \<Longrightarrow> f x \<le> f (xs ! scan_index (\<lambda>a b. f b < f a) xs)"
  using scan_prefix [of "length xs" xs f] assms by (auto simp: scan_index_def in_set_conv_nth)

lemma scan_min:
  fixes f :: "string \<Rightarrow> int"
  assumes "xs \<noteq> []"
  shows "scan_index (\<lambda>a b. f a < f b) xs < length xs"
    and "x \<in> set xs \<Longrightarrow> f (xs ! scan_index (\<lambda>a b. f a < f b) xs) \<le> f x"
  using scan_max [OF assms, where f = "\<lambda>x. - f x"] by simp_all

lemma scan_head:
  assumes "\<And>x. x \<in> set xs \<Longrightarrow> \<not> beats x (xs ! 0)"
  shows "scan_index beats xs = 0"
proof -
  have "n \<le> length xs \<Longrightarrow> fold (\<lambda>i b. if beats (xs ! i) (xs ! b) then i else b) [0..<n] 0 = 0" for n
    using assms by (induction n) auto
  then show ?thesis by (simp add: scan_index_def)
qed

lemma displace_upper:
  assumes "nxt \<noteq> []" "\<forall>x\<in>set nxt. sc x \<le> B"
  shows "\<forall>x\<in>set (displace sc nxt outs). sc x \<le> B"
  using assms
proof (induction outs arbitrary: nxt)
  case (Cons o' outs)
  let ?w = "scan_index (\<lambda>a b. sc b < sc a) nxt"
  show ?case
  proof (cases "beatsShortlisted (sc o') (sc (nxt ! ?w))")
    case True
    have "sc o' \<le> B" using beats_less [OF True] Cons.prems scan_max(1) [of nxt, where f = sc] by (fastforce dest: nth_mem)
    then have "\<forall>x\<in>set (nxt[?w := o']). sc x \<le> B" using Cons.prems set_update_subset_insert by fastforce
    then show ?thesis using Cons.IH [of "nxt[?w := o']"] Cons.prems True by (simp add: Let_def)
  qed (use Cons.prems in \<open>simp add: Let_def\<close>)
qed simp

text \<open>Displacement keeps the seats filled with distinct members, and nobody left outside clearly beats a seat.\<close>

definition no_challenger :: "(string \<Rightarrow> duration) \<Rightarrow> string set \<Rightarrow> string list \<Rightarrow> bool" where
  "no_challenger sc pool seats \<longleftrightarrow> (\<forall>k\<in>pool - set seats. \<forall>x\<in>set seats. \<not> beatsShortlisted (sc k) (sc x))"

lemma seats_after_swap:
  assumes "distinct (nxt @ o' # outs)" "w < length nxt"
  shows "distinct (nxt[w := o'] @ outs)" "insert (nxt ! w) (set (nxt[w := o']) \<union> set outs) = set nxt \<union> set (o' # outs)"
proof -
  have "set (nxt[w := o']) = insert o' (set nxt - {nxt ! w})"
    using assms by (simp add: set_update_distinct)
  then show "insert (nxt ! w) (set (nxt[w := o']) \<union> set outs) = set nxt \<union> set (o' # outs)"
    using assms nth_mem [of w nxt] by auto
  show "distinct (nxt[w := o'] @ outs)"
    using assms \<open>set (nxt[w := o']) = _\<close> by (auto simp: distinct_list_update)
qed

lemma displace_spec:
  assumes "nxt \<noteq> []" "distinct (nxt @ outs)" "sorted (map sc outs)"
  shows "length (displace sc nxt outs) = length nxt \<and> distinct (displace sc nxt outs)
    \<and> set (displace sc nxt outs) \<subseteq> set nxt \<union> set outs \<and> no_challenger sc (set nxt \<union> set outs) (displace sc nxt outs)"
  using assms
proof (induction outs arbitrary: nxt)
  case Nil
  then show ?case by (simp add: no_challenger_def)
next
  case (Cons o' outs)
  let ?w = "scan_index (\<lambda>a b. sc b < sc a) nxt"
  have w: "?w < length nxt" "\<And>x. x \<in> set nxt \<Longrightarrow> sc x \<le> sc (nxt ! ?w)"
    using scan_max [of nxt, where f = sc] Cons.prems(1) by auto
  show ?case
  proof (cases "beatsShortlisted (sc o') (sc (nxt ! ?w))")
    case True
    let ?n = "nxt[?w := o']"
    note swap = seats_after_swap [OF Cons.prems(2) w(1)]
    have up: "\<forall>x\<in>set ?n. sc x \<le> sc (nxt ! ?w)"
      using w(2) beats_less [OF True] set_update_subset_insert by fastforce
    have IH: "length (displace sc ?n outs) = length ?n" "distinct (displace sc ?n outs)"
      "set (displace sc ?n outs) \<subseteq> set ?n \<union> set outs" "no_challenger sc (set ?n \<union> set outs) (displace sc ?n outs)"
      using Cons.IH [of ?n] Cons.prems swap(1) by auto
    have "\<forall>x\<in>set (displace sc ?n outs). sc x \<le> sc (nxt ! ?w)"
      using displace_upper [OF _ up] Cons.prems(1) by auto
    then have "no_challenger sc (insert (nxt ! ?w) (set ?n \<union> set outs)) (displace sc ?n outs)"
      using IH(4) beats_less [of "sc (nxt ! ?w)"] unfolding no_challenger_def by (metis DiffD1 DiffD2 DiffI insertE leD)
    then show ?thesis using IH True swap(2) by (auto simp: Let_def)
  next
    case False
    have "\<not> beatsShortlisted (sc k) (sc x)" if "k \<in> set (o' # outs)" "x \<in> set nxt" for k x
    proof -
      have "sc o' \<le> sc k" using that(1) Cons.prems(3) by auto
      then show ?thesis using False w(2) [OF that(2)] beats_mono by blast
    qed
    then show ?thesis using False Cons.prems(2) by (auto simp: Let_def no_challenger_def)
  qed
qed

lemma put_best_first_set:
  assumes "nxt \<noteq> []"
  shows "mset (put_best_first sc nxt) = mset nxt"
  using assms scan_min(1) [of nxt, where f = sc] by (simp add: put_best_first_def Let_def mset_swap)

lemma put_best_first_idem:
  assumes "nxt \<noteq> []"
  shows "put_best_first sc (put_best_first sc nxt) = put_best_first sc nxt"
proof (cases "put_best_first sc nxt = nxt")
  case False
  let ?b = "scan_index (\<lambda>a b. sc a < sc b) nxt"
  let ?r = "put_best_first sc nxt"
  have r: "?r = nxt[0 := nxt ! ?b, ?b := nxt ! 0]" "?b \<noteq> 0"
    using False by (auto simp: put_best_first_def Let_def split: if_splits)
  have head: "?r ! 0 = nxt ! ?b" using r assms by simp
  have "set ?r = set nxt" using put_best_first_set [OF assms, of sc] mset_eq_setD by blast
  then have "\<not> sc x < sc (?r ! 0)" if "x \<in> set ?r" for x
    unfolding head using scan_min(2) [OF assms, of x sc] that by simp
  then have "scan_index (\<lambda>a b. sc a < sc b) ?r = 0" by (rule scan_head)
  then show ?thesis by (simp add: put_best_first_def [of sc ?r] Let_def)
qed simp


lemma head_unbeaten:
  assumes "nxt \<noteq> []" "put_best_first sc nxt = nxt" "x \<in> set nxt"
  shows "\<not> beatsShortlisted (sc x) (sc (nxt ! 0))"
proof
  assume beats: "beatsShortlisted (sc x) (sc (nxt ! 0))"
  let ?b = "scan_index (\<lambda>a b. sc a < sc b) nxt"
  have b: "?b < length nxt" "sc (nxt ! ?b) \<le> sc x" using scan_min [OF assms(1), where f = sc] assms(3) by auto
  have beats_b: "beatsShortlisted (sc (nxt ! ?b)) (sc (nxt ! 0))" using beats_mono [OF beats b(2)] by simp
  then have ne: "nxt ! ?b \<noteq> nxt ! 0" using beats_less by force
  then have "?b \<noteq> 0" by metis
  then have "put_best_first sc nxt ! 0 = nxt ! ?b" using beats_b assms(1) by (simp add: put_best_first_def Let_def)
  then show False using assms(2) ne by simp
qed

lemma put_best_first_facts:
  assumes "nxt \<noteq> []"
  shows "set (put_best_first sc nxt) = set nxt" "length (put_best_first sc nxt) = length nxt"
    "distinct (put_best_first sc nxt) = distinct nxt"
  using put_best_first_set [OF assms, of sc] mset_eq_setD mset_eq_length mset_eq_imp_distinct_iff by blast+

lemma outsiders_set: "set (outsiders scores nxt) = fst ` set scores - set nxt"
  by (auto simp: outsiders_def)

lemma outsiders_distinct: "distinct (map fst scores) \<Longrightarrow> distinct (outsiders scores nxt)"
  by (simp add: outsiders_def)

lemma outsiders_sorted: "sorted (map (score_of scores) (outsiders scores nxt))"
proof -
  have "sorted (map (\<lambda>k. (score_of scores k, k)) (outsiders scores nxt))" by (simp add: outsiders_def)
  then show ?thesis by (auto simp: sorted_wrt_map elim!: sorted_wrt_mono_rel [rotated])
qed

lemma incumbents_facts:
  assumes "distinct old"
  shows "distinct (incumbents scores sz old)" "set (incumbents scores sz old) \<subseteq> fst ` set scores"
    "length (incumbents scores sz old) \<le> sz"
  using assms by (auto simp: incumbents_def dest!: in_set_takeD simp: map_of_eq_None_iff)

lemma card_keys: "distinct (map fst scores) \<Longrightarrow> card (fst ` set scores) = length scores"
  using distinct_card [of "map fst scores"] by simp

lemma outsiders_length:
  assumes "distinct (map fst scores)" "distinct nxt" "set nxt \<subseteq> fst ` set scores"
  shows "length nxt + length (outsiders scores nxt) = length scores"
proof -
  have "length (outsiders scores nxt) = card (fst ` set scores) - card (set nxt)"
    using distinct_card [OF outsiders_distinct [OF assms(1)], of nxt] assms(3)
    by (simp add: outsiders_set card_Diff_subset)
  moreover have "card (set nxt) \<le> card (fst ` set scores)" using assms(3) by (simp add: card_mono)
  ultimately show ?thesis using card_keys [OF assms(1)] distinct_card [OF assms(2)] by simp
qed

lemma pickShortlist_spec:
  assumes "scores \<noteq> []" "distinct (map fst scores)" "distinct old" "0 < sz"
  obtains nxt where "pickShortlist old scores sz = Some nxt" "nxt \<noteq> []" "distinct nxt" "set nxt \<subseteq> fst ` set scores"
    "length nxt = min sz (length scores)" "no_challenger (score_of scores) (fst ` set scores) nxt"
    "put_best_first (score_of scores) nxt = nxt"
proof -
  let ?sc = "score_of scores"
  define inc where "inc = incumbents scores sz old"
  define outs where "outs = outsiders scores inc"
  define f where "f = sz - length inc"
  define seats where "seats = inc @ take f outs"
  define d where "d = displace ?sc seats (drop f outs)"
  note inc = incumbents_facts [OF assms(3), of scores sz, folded inc_def]
  have all: "set seats \<union> set (drop f outs) = fst ` set scores"
    using inc(2) outsiders_set [of scores inc] set_append [of "take f outs" "drop f outs"]
    by (auto simp: seats_def outs_def)
  have dis: "distinct (seats @ drop f outs)"
    using inc(1) outsiders_distinct [OF assms(2), of inc] outsiders_set [of scores inc] by (auto simp: seats_def outs_def)
  have len: "length seats = min sz (length scores)"
    using outsiders_length [OF assms(2) inc(1,2)] inc(3) by (auto simp: seats_def f_def outs_def)
  then have "0 < length seats" using assms(1,4) by simp
  then have ne: "seats \<noteq> []" by simp
  have "sorted (map ?sc (drop f outs))"
    using outsiders_sorted [of scores inc] by (simp add: outs_def drop_map [symmetric] sorted_wrt_drop)
  from displace_spec [OF ne dis this] have d: "length d = length seats" "distinct d"
    "set d \<subseteq> fst ` set scores" "no_challenger ?sc (fst ` set scores) d"
    unfolding d_def all by blast+
  then have dne: "d \<noteq> []" using ne by auto
  let ?r = "put_best_first ?sc d"
  note r = put_best_first_facts [OF dne, of ?sc]
  show thesis
  proof (rule that [of ?r])
    show "pickShortlist old scores sz = Some ?r"
      using assms(1) by (simp add: pickShortlist_def Let_def d_def seats_def f_def outs_def inc_def)
    show "?r \<noteq> []" using r(2) dne by auto
    show "no_challenger ?sc (fst ` set scores) ?r" using d(4) by (simp add: no_challenger_def r(1))
    show "put_best_first ?sc ?r = ?r" by (rule put_best_first_idem [OF dne])
  qed (use r d len in auto)
qed

lemma displace_no_challenger:
  assumes "nxt \<noteq> []" "no_challenger sc pool nxt" "set outs \<subseteq> pool - set nxt"
  shows "displace sc nxt outs = nxt"
proof (cases outs)
  case (Cons o' os)
  have "nxt ! scan_index (\<lambda>a b. sc b < sc a) nxt \<in> set nxt" using scan_max(1) [OF assms(1)] by simp
  then show ?thesis using assms(2,3) Cons by (auto simp: no_challenger_def Let_def)
qed simp

text \<open>A round leaves a shortlist that the same scores would not change.\<close>

lemma pickShortlist_fixed:
  assumes "distinct (map fst scores)" "nxt \<noteq> []" "distinct nxt" "set nxt \<subseteq> fst ` set scores"
    "length nxt = min sz (length scores)" "no_challenger (score_of scores) (fst ` set scores) nxt"
    "put_best_first (score_of scores) nxt = nxt"
  shows "pickShortlist nxt scores sz = Some nxt"
proof -
  let ?f = "sz - length nxt"
  have "filter (\<lambda>k. map_of scores k \<noteq> None) nxt = nxt"
    using assms(4) by (auto simp: filter_id_conv map_of_eq_None_iff)
  then have inc: "incumbents scores sz nxt = nxt" using assms(5) by (simp add: incumbents_def)
  have "length nxt + length (outsiders scores nxt) = length scores" by (rule outsiders_length) fact+
  then have take: "take ?f (outsiders scores nxt) = []" using assms(5) by (cases "sz \<le> length scores") auto
  have "set (drop ?f (outsiders scores nxt)) \<subseteq> fst ` set scores - set nxt"
    using set_drop_subset outsiders_set by fastforce
  from displace_no_challenger [OF assms(2,6) this] show ?thesis
    using assms(2,4,7) by (auto simp: pickShortlist_def Let_def inc take)
qed

text \<open>With at least one scored member, a round's shortlist is full: it has the smaller of the number of
  seats and of scored members, all scored, without repetition. No member left out clearly beats
  (by the 50 ms floor and a quarter of the score) any seat, the head included, and the shortlist is
  stable: the same scores leave it unchanged.\<close>
lemma pickShortlist_stable:
  assumes "scores \<noteq> []" "distinct (map fst scores)" "distinct old" "0 < sz"
  shows "\<exists>nxt. pickShortlist old scores sz = Some nxt \<and> distinct nxt \<and> set nxt \<subseteq> fst ` set scores
    \<and> length nxt = min sz (length scores)
    \<and> (\<forall>k\<in>fst ` set scores - set nxt. \<forall>x\<in>set nxt. \<not> beatsShortlisted (score_of scores k) (score_of scores x))
    \<and> (\<forall>x\<in>set nxt. \<not> beatsShortlisted (score_of scores x) (score_of scores (nxt ! 0)))
    \<and> pickShortlist nxt scores sz = Some nxt"
proof -
  obtain nxt where n: "pickShortlist old scores sz = Some nxt" "nxt \<noteq> []" "distinct nxt" "set nxt \<subseteq> fst ` set scores"
    "length nxt = min sz (length scores)" "no_challenger (score_of scores) (fst ` set scores) nxt"
    "put_best_first (score_of scores) nxt = nxt"
    using pickShortlist_spec [OF assms] by blast
  then show ?thesis
    using pickShortlist_fixed [OF assms(2) n(2-7)] head_unbeaten [OF n(2,7)] n(6)
    by (intro exI [of _ nxt]) (simp add: no_challenger_def)
qed

lemma pickShortlist_stable_witness:
  "\<exists>nxt. pickShortlist [''b'', ''c''] [(''a'', 100000000), (''b'', 500000000), (''c'', 520000000)] 2 = Some nxt \<and> length nxt = 2
    \<and> pickShortlist nxt [(''a'', 100000000), (''b'', 500000000), (''c'', 520000000)] 2 = Some nxt"
  using pickShortlist_stable [of "[(''a'', 100000000), (''b'', 500000000), (''c'', 520000000)]" "[''b'', ''c'']" 2] by auto

text \<open>The state of the shortlist: every master's picks are distinct and fill at most the seats of the balancer.\<close>

definition shortlist_inv :: "slotShortlist \<Rightarrow> bool" where
  "shortlist_inv s \<longleftrightarrow> (\<forall>m ks. sh_picks s m = Some ks \<longrightarrow> distinct ks \<and> length ks \<le> SlotShortlistSize)"

lemma slot_scores_keys: "map fst (slot_scores score smooth byTag sl prev) =
    filter (\<lambda>k. Option.bind (slot_status byTag sl k) score \<noteq> None) (remdups (map mem_Key (sl_Members sl)))"
proof -
  have "map fst (concat (map (\<lambda>k. case g k of Some c \<Rightarrow> [(k, h k c)] | None \<Rightarrow> []) ks)) = filter (\<lambda>k. g k \<noteq> None) ks"
    for g :: "string \<Rightarrow> duration option" and h :: "string \<Rightarrow> duration \<Rightarrow> duration" and ks
    by (induction ks) (auto split: option.splits)
  from this [where g = "\<lambda>k. Option.bind (slot_status byTag sl k) score" and h = "\<lambda>k. smooth (score_of prev k)"]
  show ?thesis unfolding slot_scores_def by simp
qed

lemma dropBroken_distinct: "distinct (map fst scores) \<Longrightarrow> distinct (map fst (dropBroken scores broken))"
  by (simp add: dropBroken_def Let_def distinct_map_filter)

lemma shortlist_slot_inv:
  assumes "shortlist_inv s" "shortlist_slot score smooth byTag sl (s, cs) = (s', cs')"
  shows "shortlist_inv s'"
proof -
  define old where "old = (case sh_picks s (sl_Master sl) of Some ks \<Rightarrow> ks | None \<Rightarrow> [])"
  define prev where "prev = (case sh_smooth s (sl_Master sl) of Some m \<Rightarrow> m | None \<Rightarrow> [])"
  define scores where "scores = dropBroken (slot_scores score smooth byTag sl prev) (sl_Broken sl)"
  have old: "distinct old" using assms(1) by (auto simp: shortlist_inv_def old_def split: option.splits)
  have scores: "distinct (map fst scores)" unfolding scores_def by (rule dropBroken_distinct) (simp add: slot_scores_keys)
  have "distinct nxt \<and> length nxt \<le> SlotShortlistSize" if "pickShortlist old scores SlotShortlistSize = Some nxt" for nxt
  proof -
    have "scores \<noteq> []" "0 < SlotShortlistSize" using that by (auto simp: pickShortlist_def SlotShortlistSize_def)
    from pickShortlist_spec [OF this(1) scores old this(2)] that show ?thesis
      by (metis min.cobounded1 option.inject)
  qed
  with assms show ?thesis
    unfolding shortlist_slot_def old_def [symmetric] prev_def [symmetric] scores_def [symmetric] prod.case Let_def
    by (auto simp: shortlist_inv_def split: if_splits option.splits)
qed

lemma shortlist_observe_inv:
  assumes "shortlist_inv s" "shortlist_observe score smooth byTag slots (Some s) = (Some s', cs)"
  shows "shortlist_inv s'"
proof -
  have "shortlist_inv (fst (fold (shortlist_slot score smooth byTag) slots (s, cs)))" for cs
    using assms(1)
  proof (induction slots arbitrary: s cs)
    case (Cons sl slots)
    obtain s1 cs1 where 1: "shortlist_slot score smooth byTag sl (s, cs) = (s1, cs1)" by fastforce
    show ?case using Cons.IH [OF shortlist_slot_inv [OF Cons.prems 1]] by (simp add: 1)
  qed simp
  from this [of "[]"] assms(2) show ?thesis
    by (auto simp: shortlist_observe_def Let_def shortlist_inv_def split: prod.splits if_splits)
qed

section \<open>Properties of the parker\<close>

text \<open>Park lengths stay between five minutes and an hour, and nothing is parked further ahead than an hour.\<close>

definition park_inv :: "time \<Rightarrow> parkNodes \<Rightarrow> bool" where
  "park_inv now p \<longleftrightarrow> (\<forall>k st. p k = Some st \<longrightarrow>
     (ps_parkFor st = 0 \<or> nodeParkInitial \<le> ps_parkFor st \<and> ps_parkFor st \<le> nodeParkMax) \<and> ps_parkedUntil st \<le> now + nodeParkMax)"

lemmas park_consts = nodeParkInitial_def nodeParkMax_def nodeTrialWindow_def nodeDeadBeforePark_def

lemma park_inv_del: "park_inv now p \<Longrightarrow> park_inv now (p(k := None))"
  by (simp add: park_inv_def)

lemma park_inv_mono: "park_inv now p \<Longrightarrow> now \<le> now' \<Longrightarrow> park_inv now' p"
  by (fastforce simp: park_inv_def)

lemma park_inv_trial:
  "park_inv now p \<Longrightarrow> 0 \<le> now \<Longrightarrow> park_inv now (\<lambda>k. map_option (\<lambda>st. if b st then on_trial st else st) (p k))"
  by (fastforce simp: park_inv_def on_trial_def park_consts hour_def minute_def second_def)

lemma park_inv_fold_del: "park_inv now p \<Longrightarrow> park_inv now (fold (\<lambda>k p. p(k := None)) ks p)"
  by (induction ks arbitrary: p) (auto intro: park_inv_del simp del: fun_upd_apply)

lemma park_for_range:
  assumes "ps_parkFor ps = 0 \<or> nodeParkInitial \<le> ps_parkFor ps \<and> ps_parkFor ps \<le> nodeParkMax"
  shows "nodeParkInitial \<le> park_for ps" "park_for ps \<le> nodeParkMax"
  using assms by (auto simp: park_for_def park_consts hour_def minute_def second_def)

lemma dead_step_spec:
  assumes "park_inv now p" "0 \<le> now" "dead_step now a r (p k) = (ps, parks)"
  shows "park_inv now (p(k \<mapsto> ps))"
    "parks \<Longrightarrow> 0 < a \<and> 1 < r \<and> ps_parkedUntil ps = now + ps_parkFor ps \<and> nodeParkInitial \<le> ps_parkFor ps \<and> ps_parkFor ps \<le> nodeParkMax"
    "\<not> parks \<Longrightarrow> ps_parkedUntil ps = (case p k of Some st \<Rightarrow> ps_parkedUntil st | None \<Rightarrow> 0)"
proof -
  define ps0 where "ps0 = (case p k of Some ps \<Rightarrow> ps | None \<Rightarrow> \<lparr>ps_deadSince = 0, ps_parkedUntil = 0, ps_parkFor = 0, ps_onTrial = False\<rparr>)"
  have h: "0 \<le> nodeParkMax" by (simp add: park_consts hour_def minute_def second_def)
  have ps0: "ps_parkFor ps0 = 0 \<or> nodeParkInitial \<le> ps_parkFor ps0 \<and> ps_parkFor ps0 \<le> nodeParkMax" "ps_parkedUntil ps0 \<le> now + nodeParkMax"
    using assms(1,2) h by (auto simp: ps0_def park_inv_def split: option.splits)
  define ps1 where "ps1 = (if ps_deadSince ps0 = 0 then ps0\<lparr>ps_deadSince := now\<rparr> else ps0)"
  have ps1: "ps_parkFor ps1 = ps_parkFor ps0" "ps_parkedUntil ps1 = ps_parkedUntil ps0" by (auto simp: ps1_def)
  note rng = park_for_range [of ps1, unfolded ps1(1), OF ps0(1)]
  have c: "(ps = ps1 \<and> \<not> parks) \<or> (0 < a \<and> 1 < r \<and> parks \<and>
      ps = ps1\<lparr>ps_parkFor := park_for ps1, ps_parkedUntil := now + park_for ps1, ps_deadSince := 0, ps_onTrial := False\<rparr>)"
    using assms(3) unfolding dead_step_def ps0_def [symmetric] Let_def ps1_def [symmetric]
    by (auto split: if_splits)
  show "park_inv now (p(k \<mapsto> ps))" using c assms(1) ps0 ps1 rng by (auto simp: park_inv_def)
  show "parks \<Longrightarrow> 0 < a \<and> 1 < r \<and> ps_parkedUntil ps = now + ps_parkFor ps \<and> nodeParkInitial \<le> ps_parkFor ps \<and> ps_parkFor ps \<le> nodeParkMax"
    using c rng by auto
  show "\<not> parks \<Longrightarrow> ps_parkedUntil ps = (case p k of Some st \<Rightarrow> ps_parkedUntil st | None \<Rightarrow> 0)"
    using c ps1 by (auto simp: ps0_def split: option.splits)
qed

text \<open>What a round over the members of a slot may do: \<open>new\<close> are its events.\<close>

definition park_round :: "time \<Rightarrow> (string \<Rightarrow> nodeStatus option) \<Rightarrow> nat \<Rightarrow> string list \<Rightarrow> parkNodes \<Rightarrow> parkNodes \<Rightarrow> parkEvent list \<Rightarrow> bool" where
  "park_round now status a ks p p' new \<longleftrightarrow>
     park_inv now p' \<and> (new \<noteq> [] \<longrightarrow> 0 < a)
   \<and> (\<forall>e\<in>set new. pe_parked e \<and> pe_key e \<in> set ks \<and> nodeParkInitial \<le> pe_for e \<and> pe_for e \<le> nodeParkMax
        \<and> (\<exists>st. status (pe_key e) = Some st \<and> node_dead st)
        \<and> (\<exists>ps. p' (pe_key e) = Some ps \<and> ps_parkedUntil ps = now + pe_for e))
   \<and> (\<forall>k. k \<notin> set ks \<longrightarrow> p' k = p k)
   \<and> (\<forall>k\<in>set ks. \<forall>st. status k = Some st \<and> ns_Alive st \<longrightarrow> p' k = None)
   \<and> (\<forall>k. k \<notin> pe_key ` set new \<and> node_parked now (Some p') k \<longrightarrow> node_parked now (Some p) k)"

lemma park_round_nil: "park_inv now p \<Longrightarrow> park_round now status a [] p p []"
  by (simp add: park_round_def)

lemma park_round_skip:
  assumes "park_round now status a ks p p' new" "\<And>st. status k = Some st \<Longrightarrow> \<not> ns_Alive st"
  shows "park_round now status a (k # ks) p p' new"
  using assms by (fastforce simp: park_round_def)

lemma park_round_alive:
  assumes "park_round now status a ks (p(k := None)) p' new" "k \<notin> set ks"
  shows "park_round now status a (k # ks) p p' new"
proof -
  have "p' k = None" using assms by (simp add: park_round_def)
  then show ?thesis using assms by (auto simp: park_round_def node_parked_def split: if_splits)
qed

lemma park_round_parks:
  assumes "park_round now status a ks (p(k \<mapsto> ps)) p' new" "k \<notin> set ks" "status k = Some st" "node_dead st" "0 < a"
    "ps_parkedUntil ps = now + ps_parkFor ps" "nodeParkInitial \<le> ps_parkFor ps" "ps_parkFor ps \<le> nodeParkMax"
  shows "park_round now status a (k # ks) p p' (\<lparr>pe_key = k, pe_parked = True, pe_for = ps_parkFor ps\<rparr> # new)"
proof -
  have "p' k = Some ps" using assms(1,2) by (simp add: park_round_def)
  moreover have "\<not> ns_Alive st" using assms(4) by (simp add: node_dead_def)
  ultimately show ?thesis using assms by (auto simp: park_round_def node_parked_def split: if_splits)
qed

lemma park_round_stays:
  assumes "park_round now status a ks (p(k \<mapsto> ps)) p' new" "status k = Some st" "node_dead st"
    "ps_parkedUntil ps = (case p k of Some st \<Rightarrow> ps_parkedUntil st | None \<Rightarrow> 0)" "0 \<le> now"
  shows "park_round now status a (k # ks) p p' new"
proof -
  have "node_parked now (Some (p(k \<mapsto> ps))) j \<Longrightarrow> node_parked now (Some p) j" for j
    using assms(4,5) by (auto simp: node_parked_def split: option.splits if_splits)
  moreover have "\<not> ns_Alive st" using assms(3) by (simp add: node_dead_def)
  ultimately show ?thesis using assms(1,2) by (auto simp: park_round_def fun_upd_other simp del: fun_upd_apply)
qed

lemma observe_members_spec:
  assumes "park_inv now p" "0 \<le> now" "distinct ks" "observe_members now status a ks r p evs = (r', p', evs')"
  shows "\<exists>new. evs' = evs @ new \<and> r' + length new = r \<and> park_round now status a ks p p' new"
  using assms
proof (induction ks arbitrary: r p evs)
  case Nil
  then show ?case by (auto intro: park_round_nil)
next
  case (Cons k ks)
  have kks: "k \<notin> set ks" "distinct ks" using Cons.prems(3) by auto
  consider (skip) "\<And>st. status k = Some st \<Longrightarrow> \<not> ns_Alive st \<and> \<not> node_dead st"
    | (alive) st where "status k = Some st" "ns_Alive st" | (dead) st where "status k = Some st" "node_dead st"
    by (cases "status k") auto
  then show ?case
  proof cases
    case skip
    with Cons.prems(4) have "observe_members now status a ks r p evs = (r', p', evs')" by (auto split: option.splits)
    from Cons.IH [OF Cons.prems(1,2) kks(2) this] obtain new where
      n: "evs' = evs @ new" "r' + length new = r" "park_round now status a ks p p' new" by blast
    have "park_round now status a (k # ks) p p' new" using park_round_skip [OF n(3)] skip by simp
    with n show ?thesis by blast
  next
    case alive
    with Cons.prems(4) have "observe_members now status a ks r (p(k := None)) evs = (r', p', evs')" by simp
    from Cons.IH [OF park_inv_del [OF Cons.prems(1)] Cons.prems(2) kks(2) this] show ?thesis
      using park_round_alive kks(1) by blast
  next
    case dead
    obtain ps parks where d: "dead_step now a r (p k) = (ps, parks)" by fastforce
    note ds = dead_step_spec [OF Cons.prems(1,2) d]
    let ?e = "\<lparr>pe_key = k, pe_parked = True, pe_for = ps_parkFor ps\<rparr>"
    have next_: "observe_members now status a ks (if parks then r - 1 else r) (p(k \<mapsto> ps))
        (if parks then evs @ [?e] else evs) = (r', p', evs')"
      using dead d Cons.prems(4) by (auto simp: node_dead_def)
    from Cons.IH [OF ds(1) Cons.prems(2) kks(2) next_] obtain new where
      n: "evs' = (if parks then evs @ [?e] else evs) @ new" "r' + length new = (if parks then r - 1 else r)"
        "park_round now status a ks (p(k \<mapsto> ps)) p' new" by blast
    show ?thesis
    proof (cases parks)
      case True
      with n ds(2) park_round_parks [OF n(3) kks(1) dead] show ?thesis by (intro exI [of _ "?e # new"]) auto
    next
      case False
      with n ds(3) park_round_stays [OF n(3) dead] Cons.prems(2) show ?thesis by (intro exI [of _ new]) auto
    qed
  qed
qed

text \<open>Every state the parker can reach: the clock never runs backwards, and the operations come in any order.\<close>

inductive parker_reach :: "time \<Rightarrow> parkNodes \<Rightarrow> bool" where
  parker_new: "0 < now \<Longrightarrow> parker_reach now newNodeParker"
| parker_tick: "parker_reach now p \<Longrightarrow> now \<le> now' \<Longrightarrow> parker_reach now' p"
| parker_observe: "parker_reach now p \<Longrightarrow> \<forall>sl\<in>set slots. distinct (map mem_Key (sl_Members sl)) \<Longrightarrow>
    park_observe now byTag slots (Some p) = (Some p', evs) \<Longrightarrow> parker_reach now p'"
| parker_release: "parker_reach now p \<Longrightarrow> park_release now (Some p) = Some p' \<Longrightarrow> parker_reach now p'"
| parker_releaseAll: "parker_reach now p \<Longrightarrow> park_releaseAll (Some p) = Some p' \<Longrightarrow> parker_reach now p'"
| parker_retain: "parker_reach now p \<Longrightarrow> park_retain keys (Some p) = Some p' \<Longrightarrow> parker_reach now p'"
| parker_forget: "parker_reach now p \<Longrightarrow> park_forget ks (Some p) = Some p' \<Longrightarrow> parker_reach now p'"

lemma observe_slot_spec:
  assumes "park_inv now p" "0 \<le> now" "distinct (map mem_Key (sl_Members sl))" "observe_slot now byTag sl (p, evs) = (p', evs')"
  shows "\<exists>new. evs' = evs @ new \<and> length new \<le> length (sl_Members sl) \<and> (NeverParks sl \<longrightarrow> p' = p \<and> new = [])
    \<and> (\<not> NeverParks sl \<longrightarrow> park_round now (slot_status byTag sl) (alive_count byTag sl) (map mem_Key (sl_Members sl)) p p' new)"
proof (cases "NeverParks sl")
  case False
  obtain r' where "observe_members now (slot_status byTag sl) (alive_count byTag sl) (map mem_Key (sl_Members sl))
      (length (sl_Members sl)) p evs = (r', p', evs')"
    using assms(4) False by (auto simp: observe_slot_def split: prod.splits) (metis prod.collapse snd_conv)
  from observe_members_spec [OF assms(1-3) this] False show ?thesis by fastforce
qed (use assms(4) in \<open>simp add: observe_slot_def\<close>)

lemma observe_slots_inv:
  assumes "park_inv now p" "0 \<le> now" "\<forall>sl\<in>set slots. distinct (map mem_Key (sl_Members sl))"
  shows "park_inv now (fst (fold (observe_slot now byTag) slots (p, evs)))"
  using assms
proof (induction slots arbitrary: p evs)
  case (Cons sl slots)
  obtain p' evs' where o: "observe_slot now byTag sl (p, evs) = (p', evs')" by fastforce
  have "park_inv now p'"
    using observe_slot_spec [OF Cons.prems(1,2) _ o] Cons.prems by (cases "NeverParks sl") (auto simp: park_round_def)
  then show ?case using Cons by (simp add: o)
qed simp

lemma parker_reach_inv: "parker_reach now p \<Longrightarrow> 0 < now \<and> park_inv now p"
proof (induction rule: parker_reach.induct)
  case (parker_new now)
  then show ?case by (simp add: newNodeParker_def park_inv_def)
next
  case (parker_observe now p slots byTag p' evs)
  then show ?case using observe_slots_inv [of now p slots byTag "[]"] by (auto simp: park_observe_def split: prod.splits)
next
  case (parker_forget now p ks p')
  then show ?case using park_inv_fold_del by (auto simp: park_forget_def)
next
  case (parker_retain now p keys p')
  then have "p' = (\<lambda>k. if keys k then p k else None)" by (simp add: park_retain_def)
  with parker_retain show ?case unfolding park_inv_def by (metis option.distinct(1))
qed (auto intro: park_inv_mono park_inv_trial simp: park_release_def park_releaseAll_def)

lemma park_inv_returns: "park_inv now p \<Longrightarrow> now + nodeParkMax \<le> t \<Longrightarrow> \<not> node_parked t (Some p) k"
  by (fastforce simp: park_inv_def node_parked_def split: option.splits)

lemma alive_sibling:
  assumes "park_round now (slot_status byTag sl) (alive_count byTag sl) (map mem_Key (sl_Members sl)) p p' new" "new \<noteq> []"
  shows "\<exists>m\<in>set (sl_Members sl). \<not> node_parked now (Some p') (mem_Key m)
    \<and> (\<exists>st. slot_status byTag sl (mem_Key m) = Some st \<and> ns_Alive st)"
proof -
  have "0 < alive_count byTag sl" using assms by (simp add: park_round_def)
  then obtain m st where m: "m \<in> set (sl_Members sl)" "slot_status byTag sl (mem_Key m) = Some st" "ns_Alive st"
    by (auto simp: alive_count_def filter_empty_conv split: option.splits)
  then have "p' (mem_Key m) = None" using assms(1) by (auto simp: park_round_def)
  then have "\<not> node_parked now (Some p') (mem_Key m)" by (simp add: node_parked_def)
  with m show ?thesis by blast
qed

text \<open>C20: In every reachable parker, a health round over a slot of distinct members parks only members whose
  every recent ping failed, for five minutes to an hour, and only while another member of the slot
  answers and stays in the pool; slots that never park are untouched. No other node becomes
  parked, and an hour later every node is back.\<close>
theorem parker_safe:
  assumes "parker_reach now p" "distinct (map mem_Key (sl_Members sl))" "observe_slot now byTag sl (p, evs) = (p', evs')"
  shows "\<exists>new. evs' = evs @ new \<and> (NeverParks sl \<longrightarrow> p' = p \<and> new = [])
    \<and> (\<forall>e\<in>set new. pe_parked e \<and> nodeParkInitial \<le> pe_for e \<and> pe_for e \<le> nodeParkMax
         \<and> (\<exists>st. slot_status byTag sl (pe_key e) = Some st \<and> node_dead st)
         \<and> (\<exists>ps. p' (pe_key e) = Some ps \<and> ps_parkedUntil ps = now + pe_for e))
    \<and> (new \<noteq> [] \<longrightarrow> (\<exists>m\<in>set (sl_Members sl). \<not> node_parked now (Some p') (mem_Key m)
         \<and> (\<exists>st. slot_status byTag sl (mem_Key m) = Some st \<and> ns_Alive st)))
    \<and> (\<forall>k. node_parked now (Some p') k \<longrightarrow> node_parked now (Some p) k \<or> k \<in> pe_key ` set new)
    \<and> (\<forall>t k. now + nodeParkMax \<le> t \<longrightarrow> \<not> node_parked t (Some p') k)"
proof -
  note inv = parker_reach_inv [OF assms(1)]
  obtain new where n: "evs' = evs @ new" "NeverParks sl \<longrightarrow> p' = p \<and> new = []"
    "\<not> NeverParks sl \<longrightarrow> park_round now (slot_status byTag sl) (alive_count byTag sl) (map mem_Key (sl_Members sl)) p p' new"
    using observe_slot_spec [OF _ _ assms(2,3)] inv by fastforce
  have inv': "park_inv now p'" using n(2,3) inv by (auto simp: park_round_def)
  show ?thesis
  proof (cases "NeverParks sl")
    case True
    then show ?thesis using n(1,2) park_inv_returns [OF inv'] by auto
  next
    case False
    with n(3) have r: "park_round now (slot_status byTag sl) (alive_count byTag sl) (map mem_Key (sl_Members sl)) p p' new" by simp
    show ?thesis
      using n(1) False r alive_sibling [OF r] park_inv_returns [OF inv'] unfolding park_round_def
      by (intro exI [of _ new]) blast
  qed
qed

text \<open>Member \<open>a\<close> was first seen dead at minute 100; twenty minutes later it is parked beside the live \<open>b\<close>.\<close>

definition park_demo_slot :: DialerSlot where
  "park_demo_slot = \<lparr>sl_Master = ''m'', sl_Aliases = [], sl_Index = 0,
     sl_Members = [\<lparr>mem_Key = ''a'', mem_Outbound = []\<rparr>, \<lparr>mem_Key = ''b'', mem_Outbound = []\<rparr>],
     sl_Preferred = [], sl_PoolKey = [], sl_Strategy = StrategyStable, sl_Auto = False, sl_Pinned = [], sl_Expected = 0,
     sl_Fallback = [], sl_Broken = []\<rparr>"

definition park_demo_tags :: "string \<rightharpoonup> nodeStatus" where
  "park_demo_tags = [SlotMemberTag 0 ''a'' \<mapsto> \<lparr>ns_Alive = False, ns_Delay = 0, ns_All = 6, ns_Fail = 6, ns_Average = 0, ns_Deviation = 0\<rparr>,
     SlotMemberTag 0 ''b'' \<mapsto> \<lparr>ns_Alive = True, ns_Delay = 90, ns_All = 6, ns_Fail = 0, ns_Average = 90, ns_Deviation = 5\<rparr>]"

definition park_demo :: parkNodes where
  "park_demo = [''a'' \<mapsto> \<lparr>ps_deadSince = 100 * minute, ps_parkedUntil = 0, ps_parkFor = 0, ps_onTrial = False\<rparr>]"

lemma park_demo_status:
  "slot_status park_demo_tags park_demo_slot ''a'' = Some \<lparr>ns_Alive = False, ns_Delay = 0, ns_All = 6, ns_Fail = 6, ns_Average = 0, ns_Deviation = 0\<rparr>"
  "slot_status park_demo_tags park_demo_slot ''b'' = Some \<lparr>ns_Alive = True, ns_Delay = 90, ns_All = 6, ns_Fail = 0, ns_Average = 90, ns_Deviation = 5\<rparr>"
  "\<not> NeverParks park_demo_slot" "map mem_Key (sl_Members park_demo_slot) = [''a'', ''b'']" "length (sl_Members park_demo_slot) = 2"
  by code_simp+

lemma park_demo_count: "alive_count park_demo_tags park_demo_slot = 1"
  by code_simp

lemmas park_demo_eval = observe_slot_def park_demo_status park_demo_count node_dead_def dead_step_def park_for_def time_Sub_def
  park_consts hour_def minute_def second_def

lemma park_demo_first: "observe_slot (100 * minute) park_demo_tags park_demo_slot (newNodeParker, []) = (park_demo, [])"
  by (simp add: park_demo_eval park_demo_def newNodeParker_def)

lemma park_demo_reach: "parker_reach (120 * minute) park_demo"
proof -
  have "parker_reach (100 * minute) newNodeParker" by (rule parker_new) (simp add: minute_def second_def)
  then have "parker_reach (100 * minute) park_demo"
    by (rule parker_observe [where slots = "[park_demo_slot]" and byTag = park_demo_tags])
      (simp_all add: park_observe_def park_demo_first park_demo_status)
  then show ?thesis by (rule parker_tick) (simp add: minute_def second_def)
qed

theorem parker_safe_witness:
  "\<exists>p' e. observe_slot (120 * minute) park_demo_tags park_demo_slot (park_demo, []) = (p', [e]) \<and> pe_key e = ''a''
    \<and> pe_for e \<le> nodeParkMax \<and> \<not> node_parked (180 * minute) (Some p') ''a''"
proof -
  obtain p' e where o: "observe_slot (120 * minute) park_demo_tags park_demo_slot (park_demo, []) = (p', [e])" "pe_key e = ''a''"
    by (simp add: park_demo_eval park_demo_def)
  from parker_safe [OF park_demo_reach _ o(1)] o show ?thesis
    by (auto simp: park_demo_status nodeParkMax_def hour_def minute_def second_def)
qed

end
