(* ===== verification/Sql_Table.thy ===== *)
theory Sql_Table
  imports Go_Prelude "HOL-Library.Char_ord" "HOL-Library.List_Lexorder"
begin

text \<open>
  The statements the stores run on their SQLite tables. A table is the list of its rows; a
  statement that fails leaves it as it was, and which statements of an operation fail is an
  argument (\<open>sql_fault\<close>, by the number of the statement in the operation). Also an argument is
  the row identifier the engine assigns on an insert. The locale \<open>unique_table\<close> is what the
  stores share: a primary key, uniqueness constraints and well-formed rows are kept by every
  insert, update and delete.
\<close>

type_synonym sql_fault = "nat \<Rightarrow> string option"

definition no_fault :: sql_fault where "no_fault = (\<lambda>_. None)"

definition isUniqueErr :: "string \<Rightarrow> bool" where
  "isUniqueErr e = Contains e ''UNIQUE constraint failed''"

definition sql_write :: "string option \<Rightarrow> ('r list \<Rightarrow> bool) \<Rightarrow> 'r list \<Rightarrow> string + 'r list" where
  "sql_write fault uniq rows =
     (case fault of
        Some e \<Rightarrow> Inl e
      | None \<Rightarrow> if uniq rows then Inr rows else Inl ''UNIQUE constraint failed'')"

definition update_where :: "('r \<Rightarrow> bool) \<Rightarrow> ('r \<Rightarrow> 'r) \<Rightarrow> 'r list \<Rightarrow> 'r list" where
  "update_where P g rows = map (\<lambda>r. if P r then g r else r) rows"

definition delete_where :: "('r \<Rightarrow> bool) \<Rightarrow> 'r list \<Rightarrow> 'r list" where
  "delete_where P rows = filter (\<lambda>r. \<not> P r) rows"

definition rows_affected :: "('r \<Rightarrow> bool) \<Rightarrow> 'r list \<Rightarrow> nat" where
  "rows_affected P rows = length (filter P rows)"

text \<open>The operator \<open>LIKE\<close>: \<open>%\<close> is any sequence, \<open>_\<close> any character, letters match in either case.\<close>

fun sql_like :: "string \<Rightarrow> string \<Rightarrow> bool" where
  "sql_like [] s \<longleftrightarrow> s = []"
| "sql_like (p # ps) s \<longleftrightarrow>
     (if p = CHR ''%'' then list_ex (\<lambda>k. sql_like ps (drop k s)) [0..<Suc (length s)]
      else case s of [] \<Rightarrow> False | c # cs \<Rightarrow> (p = CHR ''_'' \<or> lower p = lower c) \<and> sql_like ps cs)"

lemma sql_like_any: "sql_like ''%'' s"
  by (simp add: list_ex_iff)

lemma sql_like_prefix: "sql_like (p @ ''%'') (p @ t)"
proof (induction p)
  case Nil
  then show ?case using sql_like_any by simp
next
  case (Cons c p)
  show ?case
  proof (cases "c = CHR ''%''")
    case True
    have "sql_like (p @ ''%'') (drop 1 (c # p @ t))" using Cons by simp
    moreover have "1 \<in> set [0..<Suc (length (c # p @ t))]" by (simp del: upt_Suc)
    ultimately show ?thesis unfolding append_Cons sql_like.simps(2) list_ex_iff using True by metis
  next
    case False
    then show ?thesis using Cons by simp
  qed
qed

text \<open>The identifiers an engine assigns: positive and above every one in the table.\<close>

definition fresh_ids :: "(int list \<Rightarrow> int) \<Rightarrow> bool" where
  "fresh_ids fresh \<longleftrightarrow> (\<forall>ids. 0 < fresh ids \<and> (\<forall>i\<in>set ids. i < fresh ids))"

definition next_rowid :: "int list \<Rightarrow> int" where
  "next_rowid ids = fold max ids 0 + 1"

lemma fold_max_ge: "(m::int) \<le> fold max ids m \<and> (\<forall>i\<in>set ids. i \<le> fold max ids m)"
proof (induction ids arbitrary: m)
  case (Cons i ids)
  from Cons [of "max i m"] show ?case by auto
qed simp

lemma fresh_next_rowid: "fresh_ids next_rowid"
  using fold_max_ge [of 0] by (fastforce simp: fresh_ids_def next_rowid_def)

definition table_ok :: "('r \<Rightarrow> int) \<Rightarrow> ('r list \<Rightarrow> bool) \<Rightarrow> ('r \<Rightarrow> bool) \<Rightarrow> 'r list \<Rightarrow> bool" where
  "table_ok rid uniq okrow rows \<longleftrightarrow> distinct (map rid rows) \<and> uniq rows \<and> (\<forall>r\<in>set rows. okrow r)"

lemma sql_write_Inr: "sql_write f u rows = Inr rows' \<longleftrightarrow> f = None \<and> u rows \<and> rows' = rows"
  by (auto simp: sql_write_def split: option.splits)

lemma sql_write_Inl: "sql_write f u rows = Inl e \<longleftrightarrow> f = Some e \<or> f = None \<and> \<not> u rows \<and> e = ''UNIQUE constraint failed''"
  by (auto simp: sql_write_def split: option.splits)

lemmas sql_write_iff = sql_write_Inr sql_write_Inl

lemma isUniqueErr_constraint [simp]: "isUniqueErr ''UNIQUE constraint failed''"
  by (simp add: isUniqueErr_def)

locale unique_table =
  fixes rid :: "'r \<Rightarrow> int" and set_rid :: "int \<Rightarrow> 'r \<Rightarrow> 'r"
    and uniq :: "'r list \<Rightarrow> bool" and okrow :: "'r \<Rightarrow> bool"
  assumes rid_set: "rid (set_rid i r) = i"
    and okrow_set: "okrow (set_rid i r) = okrow r"
    and uniq_filter: "uniq rows \<Longrightarrow> uniq (filter P rows)"
    and uniq_nil: "uniq []"
begin

lemma empty_ok: "table_ok rid uniq okrow []"
  by (simp add: table_ok_def uniq_nil)

lemma insert_ok:
  assumes "fresh_ids fresh" "table_ok rid uniq okrow rows" "okrow r"
    "sql_write f uniq (rows @ [set_rid (fresh (map rid rows)) r]) = Inr rows'"
  shows "table_ok rid uniq okrow rows'"
proof -
  have "fresh (map rid rows) \<notin> rid ` set rows" using assms(1) unfolding fresh_ids_def by (metis (no_types) list.set_map less_irrefl)
  then show ?thesis using assms by (auto simp: table_ok_def sql_write_Inr rid_set okrow_set)
qed

lemma update_ok:
  assumes "table_ok rid uniq okrow rows" "\<And>r. r \<in> set rows \<Longrightarrow> P r \<Longrightarrow> rid (g r) = rid r \<and> okrow (g r)"
    "sql_write f uniq (update_where P g rows) = Inr rows'"
  shows "table_ok rid uniq okrow rows'"
proof -
  have "map rid (update_where P g rows) = map rid rows"
    using assms(2) by (auto simp: update_where_def)
  moreover have "\<forall>r\<in>set (update_where P g rows). okrow r"
    using assms(1,2) by (auto simp: table_ok_def update_where_def)
  ultimately show ?thesis using assms(1,3) by (simp add: table_ok_def sql_write_Inr)
qed

lemma delete_ok:
  assumes "table_ok rid uniq okrow rows"
  shows "table_ok rid uniq okrow (delete_where P rows)"
  using assms by (auto simp: table_ok_def delete_where_def uniq_filter distinct_map_filter)

end

text \<open>The lookup of a row by a key that the table keeps unique.\<close>

lemma find_unique:
  assumes "distinct (map key rows)" "r \<in> set rows"
  shows "find (\<lambda>x. key x = key r) rows = Some r"
  using assms by (induction rows) auto

lemma find_snoc: "find P (xs @ [x]) = (case find P xs of None \<Rightarrow> if P x then Some x else None | Some y \<Rightarrow> Some y)"
  by (induction xs) auto

lemma sort_key_find:
  assumes "distinct (map key rows)"
  shows "find (\<lambda>x. key x = k) (sort_key f rows) = find (\<lambda>x. key x = k) rows"
proof -
  have d: "distinct (map key (sort_key f rows))"
    using assms by (simp add: distinct_map)
  show ?thesis
  proof (cases "\<exists>r\<in>set rows. key r = k")
    case True
    then obtain r where "r \<in> set rows" "key r = k" by blast
    then show ?thesis using find_unique [OF assms] find_unique [OF d] by fastforce
  next
    case False
    then show ?thesis by (metis (mono_tags, lifting) find_None_iff set_sort)
  qed
qed

end
