(* ===== verification/Traffic.thy ===== *)
theory Traffic
  imports Sql_Table "HOL-Library.Product_Lexorder"
begin

text \<open>
  The usage statistics of \<open>core/rules/store.go\<close>: byte counters per minute, domain and proxy,
  their queries, retention and the roll-up of old minutes into hours. Byte counts and times are
  integers; the sums stay far below the range of \<open>int64\<close>. SQL leaves the order of the groups of
  one bucket open, and no property depends on the order taken here.
\<close>

section \<open>The table\<close>

record TrafficStat =
  tr_BucketTS :: int
  tr_Domain :: string
  tr_Proxy :: string
  tr_GroupKey :: string
  tr_BytesSent :: int
  tr_BytesRecv :: int

text \<open>Integer division of Go and of SQLite, which truncates, by a positive divisor.\<close>

definition trunc_div :: "int \<Rightarrow> int \<Rightarrow> int" where
  "trunc_div a b = (if a < 0 then - ((- a) div b) else a div b)"

text \<open>\<open>Time.Unix\<close>: seconds since 1970, for a time in nanoseconds since year 1.\<close>

definition unix_seconds :: "time \<Rightarrow> int" where
  "unix_seconds t = t div second - 62135596800"

definition TrafficBucketSeconds :: int where "TrafficBucketSeconds = 60"
definition TrafficRetention :: duration where "TrafficRetention = 90 * 24 * hour"
definition TrafficRollupAge :: duration where "TrafficRollupAge = 48 * hour"
definition TrafficRollupSeconds :: int where "TrafficRollupSeconds = 3600"

definition FloorBucket :: "time \<Rightarrow> int" where
  "FloorBucket t = trunc_div (unix_seconds t) TrafficBucketSeconds * TrafficBucketSeconds"

definition tr_key :: "TrafficStat \<Rightarrow> int \<times> string \<times> string" where
  "tr_key r = (tr_BucketTS r, tr_Domain r, tr_Proxy r)"

text \<open>An insert that adds its bytes to the row of the same key when there is one.\<close>

definition upsert :: "(string \<Rightarrow> string \<Rightarrow> string) \<Rightarrow> TrafficStat \<Rightarrow> TrafficStat list \<Rightarrow> TrafficStat list" where
  "upsert grp row rows =
     (if list_ex (\<lambda>r. tr_key r = tr_key row) rows
      then update_where (\<lambda>r. tr_key r = tr_key row)
        (\<lambda>r. r\<lparr>tr_BytesSent := tr_BytesSent r + tr_BytesSent row, tr_BytesRecv := tr_BytesRecv r + tr_BytesRecv row,
               tr_GroupKey := grp (tr_GroupKey r) (tr_GroupKey row)\<rparr>) rows
      else rows @ [row])"

definition addTraffic :: "string option \<Rightarrow> TrafficStat \<Rightarrow> TrafficStat list \<Rightarrow> string + TrafficStat list" where
  "addTraffic fault row rows =
     (if tr_BytesSent row = 0 \<and> tr_BytesRecv row = 0 then Inr rows
      else sql_write fault (\<lambda>_. True) (upsert (\<lambda>_ new. new) row rows))"

definition AddTraffic :: "sql_fault \<Rightarrow> int \<Rightarrow> string \<Rightarrow> string \<Rightarrow> string \<Rightarrow> int \<Rightarrow> int \<Rightarrow> TrafficStat list \<Rightarrow> string option \<times> TrafficStat list" where
  "AddTraffic db bucketTS domain proxy groupKey sent recv rows =
     (case addTraffic (db 0) \<lparr>tr_BucketTS = bucketTS, tr_Domain = domain, tr_Proxy = proxy, tr_GroupKey = groupKey,
                              tr_BytesSent = sent, tr_BytesRecv = recv\<rparr> rows of
        Inl e \<Rightarrow> (Some e, rows) | Inr rows' \<Rightarrow> (None, rows'))"

text \<open>The transaction of \<open>AddTrafficBatch\<close>: the first error rolls everything back.\<close>

fun traffic_batch :: "sql_fault \<Rightarrow> nat \<Rightarrow> TrafficStat list \<Rightarrow> TrafficStat list \<Rightarrow> string + TrafficStat list" where
  "traffic_batch db k [] rows = Inr rows"
| "traffic_batch db k (r # rs) rows =
     (case addTraffic (db k) r rows of Inl e \<Rightarrow> Inl e | Inr rows' \<Rightarrow> traffic_batch db (Suc k) rs rows')"

definition AddTrafficBatch :: "sql_fault \<Rightarrow> TrafficStat list \<Rightarrow> TrafficStat list \<Rightarrow> string option \<times> TrafficStat list" where
  "AddTrafficBatch db rs rows = (case traffic_batch db 0 rs rows of Inl e \<Rightarrow> (Some e, rows) | Inr rows' \<Rightarrow> (None, rows'))"

record TrafficPoint =
  tp_BucketTS :: int
  tp_Key :: string
  tp_BytesSent :: int
  tp_BytesRecv :: int

definition dim_key :: "string \<Rightarrow> TrafficStat \<Rightarrow> string" where
  "dim_key dim r =
     (if dim = ''group'' then (if tr_GroupKey r = [] then ''ungrouped'' else tr_GroupKey r)
      else if dim = ''proxy'' then tr_Proxy r else tr_Domain r)"

definition sum_where :: "(TrafficStat \<Rightarrow> int) \<Rightarrow> (TrafficStat \<Rightarrow> bool) \<Rightarrow> TrafficStat list \<Rightarrow> int" where
  "sum_where f P rows = sum_list (map f (filter P rows))"

definition QueryTraffic :: "sql_fault \<Rightarrow> int \<Rightarrow> int \<Rightarrow> string \<Rightarrow> int \<Rightarrow> TrafficStat list \<Rightarrow> string + TrafficPoint list" where
  "QueryTraffic db from till dim bucketSec0 rows =
     (let bucketSec = (if bucketSec0 < TrafficBucketSeconds then TrafficBucketSeconds else bucketSec0);
          sel = filter (\<lambda>r. from \<le> tr_BucketTS r \<and> tr_BucketTS r \<le> till) rows;
          gkey = (\<lambda>r. (trunc_div (tr_BucketTS r) bucketSec * bucketSec, dim_key dim r))
      in case db 0 of
           Some e \<Rightarrow> Inl e
         | None \<Rightarrow> Inr (map (\<lambda>g. \<lparr>tp_BucketTS = fst g, tp_Key = snd g,
                tp_BytesSent = sum_where tr_BytesSent (\<lambda>r. gkey r = g) sel, tp_BytesRecv = sum_where tr_BytesRecv (\<lambda>r. gkey r = g) sel\<rparr>)
              (sort_key fst (remdups (map gkey sel)))))"

definition SweepTraffic :: "sql_fault \<Rightarrow> time \<Rightarrow> TrafficStat list \<Rightarrow> string option \<times> TrafficStat list" where
  "SweepTraffic db before rows =
     (case sql_write (db 0) (\<lambda>_. True) (delete_where (\<lambda>r. tr_BucketTS r < unix_seconds before) rows) of
        Inl e \<Rightarrow> (Some e, rows) | Inr rows' \<Rightarrow> (None, rows'))"

text \<open>The rows a roll-up folds, the aggregates it inserts, and the two statements of its transaction.\<close>

definition roll_source :: "int \<Rightarrow> TrafficStat \<Rightarrow> bool" where
  "roll_source cutoff r \<longleftrightarrow> tr_BucketTS r < cutoff \<and> tr_BucketTS r mod TrafficRollupSeconds \<noteq> 0"

definition roll_key :: "TrafficStat \<Rightarrow> int \<times> string \<times> string" where
  "roll_key r = (trunc_div (tr_BucketTS r) TrafficRollupSeconds * TrafficRollupSeconds, tr_Domain r, tr_Proxy r)"

definition roll_row :: "TrafficStat list \<Rightarrow> int \<times> string \<times> string \<Rightarrow> TrafficStat" where
  "roll_row src g =
     \<lparr>tr_BucketTS = fst g, tr_Domain = fst (snd g), tr_Proxy = snd (snd g),
      tr_GroupKey = foldr max (map tr_GroupKey (filter (\<lambda>r. roll_key r = g) src)) [],
      tr_BytesSent = sum_where tr_BytesSent (\<lambda>r. roll_key r = g) src,
      tr_BytesRecv = sum_where tr_BytesRecv (\<lambda>r. roll_key r = g) src\<rparr>"

definition roll_up :: "int \<Rightarrow> TrafficStat list \<Rightarrow> TrafficStat list" where
  "roll_up cutoff rows =
     (let src = filter (roll_source cutoff) rows
      in fold (upsert (\<lambda>old new. if new \<noteq> [] then new else old)) (map (roll_row src) (remdups (map roll_key src))) rows)"

definition CompactTraffic :: "sql_fault \<Rightarrow> time \<Rightarrow> TrafficStat list \<Rightarrow> string option \<times> TrafficStat list" where
  "CompactTraffic db before rows =
     (let cutoff = trunc_div (unix_seconds before) TrafficRollupSeconds * TrafficRollupSeconds in
      case sql_write (db 0) (\<lambda>_. True) (roll_up cutoff rows) of
        Inl e \<Rightarrow> (Some (''roll up traffic: '' @ e), rows)
      | Inr rows1 \<Rightarrow>
          (case sql_write (db 1) (\<lambda>_. True) (delete_where (roll_source cutoff) rows1) of
             Inl e \<Rightarrow> (Some e, rows)
           | Inr rows2 \<Rightarrow> (None, rows2)))"

section \<open>Sums over the table\<close>

definition traffic_ok :: "TrafficStat list \<Rightarrow> bool" where
  "traffic_ok rows \<longleftrightarrow> distinct (map tr_key rows)"

text \<open>A selection by key: it does not read the counters.\<close>

definition by_key :: "(TrafficStat \<Rightarrow> bool) \<Rightarrow> bool" where
  "by_key P \<longleftrightarrow> (\<forall>r r'. tr_key r = tr_key r' \<longrightarrow> P r = P r')"

lemma sum_where_simps [simp]:
  "sum_where f P [] = 0" "sum_where f P (r # rs) = (if P r then f r else 0) + sum_where f P rs"
  "sum_where f P (xs @ ys) = sum_where f P xs + sum_where f P ys"
  by (simp_all add: sum_where_def)

lemma upsert_keys: "map tr_key (upsert grp row rows) = (if tr_key row \<in> tr_key ` set rows then map tr_key rows else map tr_key rows @ [tr_key row])"
proof -
  have key: "tr_key (r\<lparr>tr_BytesSent := s, tr_BytesRecv := v, tr_GroupKey := g\<rparr>) = tr_key r" for r s v g by (simp add: tr_key_def)
  have "map tr_key (update_where P (\<lambda>r. r\<lparr>tr_BytesSent := s r, tr_BytesRecv := v r, tr_GroupKey := g r\<rparr>) rows) = map tr_key rows" for P s v g
    by (simp add: update_where_def key)
  moreover have "list_ex (\<lambda>r. tr_key r = tr_key row) rows \<longleftrightarrow> tr_key row \<in> tr_key ` set rows"
    by (simp add: list_ex_iff image_iff) metis
  ultimately show ?thesis by (simp add: upsert_def)
qed

lemma upsert_ok: "traffic_ok rows \<Longrightarrow> traffic_ok (upsert grp row rows)"
  by (auto simp: traffic_ok_def upsert_keys)

lemma upsert_sum:
  assumes "traffic_ok rows" "by_key P"
  shows "sum_where tr_BytesSent P (upsert grp row rows) = sum_where tr_BytesSent P rows + (if P row then tr_BytesSent row else 0)"
    "sum_where tr_BytesRecv P (upsert grp row rows) = sum_where tr_BytesRecv P rows + (if P row then tr_BytesRecv row else 0)"
proof -
  let ?g = "\<lambda>r. r\<lparr>tr_BytesSent := tr_BytesSent r + tr_BytesSent row, tr_BytesRecv := tr_BytesRecv r + tr_BytesRecv row,
               tr_GroupKey := grp (tr_GroupKey r) (tr_GroupKey row)\<rparr>"
  let ?K = "\<lambda>r. tr_key r = tr_key row"
  have key: "tr_key (?g r) = tr_key r" for r by (simp add: tr_key_def)
  have P: "P (?g r) = P r" "?K r \<Longrightarrow> P r = P row" for r using assms(2) key unfolding by_key_def by blast+
  have none: "\<forall>r\<in>set rs. \<not> ?K r \<Longrightarrow> update_where ?K ?g rs = rs" for rs by (induction rs) (auto simp: update_where_def)
  have one: "distinct (map tr_key rs) \<Longrightarrow> \<exists>r\<in>set rs. ?K r \<Longrightarrow>
    sum_where tr_BytesSent P (update_where ?K ?g rs) = sum_where tr_BytesSent P rs + (if P row then tr_BytesSent row else 0)
    \<and> sum_where tr_BytesRecv P (update_where ?K ?g rs) = sum_where tr_BytesRecv P rs + (if P row then tr_BytesRecv row else 0)" for rs
  proof (induction rs)
    case (Cons r rs)
    show ?case
    proof (cases "?K r")
      case True
      then have "\<forall>x\<in>set rs. \<not> ?K x" using Cons.prems(1) by simp (metis image_eqI)
      then show ?thesis using none [of rs] True P [of r] by (simp add: update_where_def)
    next
      case False
      then show ?thesis using Cons by (simp add: update_where_def)
    qed
  qed simp
  show "sum_where tr_BytesSent P (upsert grp row rows) = sum_where tr_BytesSent P rows + (if P row then tr_BytesSent row else 0)"
    "sum_where tr_BytesRecv P (upsert grp row rows) = sum_where tr_BytesRecv P rows + (if P row then tr_BytesRecv row else 0)"
    using one [of rows] assms(1) by (auto simp: upsert_def traffic_ok_def list_ex_iff)
qed

lemma fold_upsert_sum:
  assumes "traffic_ok rows" "by_key P"
  shows "traffic_ok (fold (upsert grp) rs rows)"
    "sum_where tr_BytesSent P (fold (upsert grp) rs rows) = sum_where tr_BytesSent P rows + sum_where tr_BytesSent P rs"
    "sum_where tr_BytesRecv P (fold (upsert grp) rs rows) = sum_where tr_BytesRecv P rows + sum_where tr_BytesRecv P rs"
  using assms(1)
proof (induction rs arbitrary: rows)
  case (Cons r rs)
  { case 1 then show ?case using Cons(1) upsert_ok by simp
  next
    case 2 then show ?case using Cons(2) [OF upsert_ok [OF 2]] upsert_sum [OF 2 assms(2)] by simp
  next
    case 3 then show ?case using Cons(3) [OF upsert_ok [OF 3]] upsert_sum [OF 3 assms(2)] by simp }
qed simp_all

text \<open>Summing by groups and then over the groups is summing.\<close>

lemma sum_groups:
  fixes f :: "'a \<Rightarrow> int"
  assumes "distinct gs" "k ` set src \<subseteq> set gs"
  shows "sum_list (map (\<lambda>g. sum_list (map f (filter (\<lambda>r. k r = g) src))) gs) = sum_list (map f src)"
  using assms(2)
proof (induction src)
  case (Cons r src)
  have "sum_list (map (\<lambda>g. sum_list (map f (filter (\<lambda>x. k x = g) (r # src)))) gs)
      = sum_list (map (\<lambda>g. (if k r = g then f r else 0) + sum_list (map f (filter (\<lambda>x. k x = g) src))) gs)"
    by (intro arg_cong [where f = sum_list] map_cong) auto
  also have "\<dots> = sum_list (map (\<lambda>g. if k r = g then f r else 0) gs) + sum_list (map f src)"
    using Cons by (simp add: sum_list_addf)
  also have "sum_list (map (\<lambda>g. if k r = g then f r else 0) gs) = f r"
    using assms(1) Cons.prems by (simp add: sum_list_distinct_conv_sum_set sum.delta)
  finally show ?case by simp
qed simp

lemma sum_groups_where:
  fixes f :: "'a \<Rightarrow> int"
  shows "sum_list (map (\<lambda>g. sum_list (map f (filter (\<lambda>r. k r = g) src))) (filter Q (remdups (map k src))))
    = sum_list (map f (filter (\<lambda>r. Q (k r)) src))"
proof -
  have "filter (\<lambda>r. k r = g) src = filter (\<lambda>r. k r = g) (filter (\<lambda>r. Q (k r)) src)" if "Q g" for g
    using that by (induction src) auto
  then have "map (\<lambda>g. sum_list (map f (filter (\<lambda>r. k r = g) src))) (filter Q (remdups (map k src)))
    = map (\<lambda>g. sum_list (map f (filter (\<lambda>r. k r = g) (filter (\<lambda>r. Q (k r)) src)))) (filter Q (remdups (map k src)))"
    by (intro map_cong) auto
  also have "sum_list \<dots> = sum_list (map f (filter (\<lambda>r. Q (k r)) src))"
    by (rule sum_groups) auto
  finally show ?thesis .
qed

definition rolled :: "TrafficStat \<Rightarrow> TrafficStat" where
  "rolled r = r\<lparr>tr_BucketTS := trunc_div (tr_BucketTS r) TrafficRollupSeconds * TrafficRollupSeconds\<rparr>"

lemma tr_key_rolled: "tr_key (rolled r) = roll_key r"
  by (simp add: tr_key_def rolled_def roll_key_def)

lemma tr_key_roll_row: "tr_key (roll_row src g) = g"
  by (simp add: tr_key_def roll_row_def)

lemma roll_rows_sum:
  assumes "by_key P"
  shows "sum_where tr_BytesSent P (map (roll_row src) (remdups (map roll_key src))) = sum_where tr_BytesSent (\<lambda>r. P (rolled r)) src"
    "sum_where tr_BytesRecv P (map (roll_row src) (remdups (map roll_key src))) = sum_where tr_BytesRecv (\<lambda>r. P (rolled r)) src"
proof -
  have Q: "P (rolled r) = P (roll_row src (roll_key r))" for r
    using assms tr_key_rolled tr_key_roll_row unfolding by_key_def by metis
  show "sum_where tr_BytesSent P (map (roll_row src) (remdups (map roll_key src))) = sum_where tr_BytesSent (\<lambda>r. P (rolled r)) src"
    using sum_groups_where [of tr_BytesSent roll_key src "\<lambda>g. P (roll_row src g)"]
    by (simp add: sum_where_def filter_map comp_def Q) (simp add: roll_row_def sum_where_def)
  show "sum_where tr_BytesRecv P (map (roll_row src) (remdups (map roll_key src))) = sum_where tr_BytesRecv (\<lambda>r. P (rolled r)) src"
    using sum_groups_where [of tr_BytesRecv roll_key src "\<lambda>g. P (roll_row src g)"]
    by (simp add: sum_where_def filter_map comp_def Q) (simp add: roll_row_def sum_where_def)
qed

section \<open>The roll-up\<close>

lemma roll_key_aligned: "fst (roll_key r) mod TrafficRollupSeconds = 0"
  by (simp add: roll_key_def)

lemma source_by_key: "tr_key r = tr_key r' \<Longrightarrow> roll_source c r = roll_source c r'"
  by (simp add: roll_source_def tr_key_def)

text \<open>Upserts of aligned rows leave the rows to fold as they are.\<close>

lemma upsert_keeps_source:
  assumes "\<not> roll_source c row"
  shows "filter (roll_source c) (upsert grp row rows) = filter (roll_source c) rows"
proof -
  let ?g = "\<lambda>r. r\<lparr>tr_BytesSent := tr_BytesSent r + tr_BytesSent row, tr_BytesRecv := tr_BytesRecv r + tr_BytesRecv row,
               tr_GroupKey := grp (tr_GroupKey r) (tr_GroupKey row)\<rparr>"
  have "filter (roll_source c) (update_where (\<lambda>r. tr_key r = tr_key row) ?g rows) = filter (roll_source c) rows"
  proof (induction rows)
    case (Cons r rows)
    have "\<not> roll_source c r \<and> \<not> roll_source c (?g r)" if "tr_key r = tr_key row"
      using source_by_key [OF that] assms by (simp add: roll_source_def)
    then show ?case using Cons by (auto simp: update_where_def)
  qed (simp add: update_where_def)
  then show ?thesis using assms by (simp add: upsert_def)
qed

lemma fold_keeps_source:
  "\<forall>r\<in>set rs. \<not> roll_source c r \<Longrightarrow> filter (roll_source c) (fold (upsert grp) rs rows) = filter (roll_source c) rows"
  by (induction rs arbitrary: rows) (simp_all add: upsert_keeps_source)

lemma roll_rows_aligned: "\<not> roll_source c (roll_row src (roll_key r))"
  using roll_key_aligned by (simp add: roll_source_def roll_row_def)

lemma roll_up_source: "filter (roll_source c) (roll_up c rows) = filter (roll_source c) rows"
  unfolding roll_up_def Let_def by (rule fold_keeps_source) (auto simp: roll_rows_aligned)

lemma sum_split: "sum_where f P rows = sum_where f P (filter S rows) + sum_where f P (filter (\<lambda>r. \<not> S r) rows)"
  by (induction rows) auto

lemma compact_sum:
  assumes "traffic_ok rows" "by_key P" "\<And>r. r \<in> set rows \<Longrightarrow> roll_source c r \<Longrightarrow> P (rolled r) = P r"
  shows "sum_where tr_BytesSent P (delete_where (roll_source c) (roll_up c rows)) = sum_where tr_BytesSent P rows"
    "sum_where tr_BytesRecv P (delete_where (roll_source c) (roll_up c rows)) = sum_where tr_BytesRecv P rows"
proof -
  let ?src = "filter (roll_source c) rows"
  have same: "sum_where f (\<lambda>r. P (rolled r)) ?src = sum_where f P ?src" for f
  proof -
    have "filter (\<lambda>r. P (rolled r)) ?src = filter P ?src" using assms(3) by (intro filter_cong) auto
    then show ?thesis by (simp add: sum_where_def)
  qed
  have split: "sum_where f P (delete_where (roll_source c) (roll_up c rows)) = sum_where f P (roll_up c rows) - sum_where f P ?src" for f
    using sum_split [of f P "roll_up c rows" "roll_source c"] by (simp add: delete_where_def roll_up_source)
  note up = fold_upsert_sum [OF assms(1,2), of "\<lambda>old new. if new \<noteq> [] then new else old"]
  show "sum_where tr_BytesSent P (delete_where (roll_source c) (roll_up c rows)) = sum_where tr_BytesSent P rows"
    unfolding split unfolding roll_up_def Let_def up(2) roll_rows_sum(1) [OF assms(2)] same by simp
  show "sum_where tr_BytesRecv P (delete_where (roll_source c) (roll_up c rows)) = sum_where tr_BytesRecv P rows"
    unfolding split unfolding roll_up_def Let_def up(3) roll_rows_sum(2) [OF assms(2)] same by simp
qed

lemma set_key_filter: "tr_key ` set (filter (\<lambda>r. \<not> roll_source c r) rows) = {k \<in> tr_key ` set rows. \<not> (fst k < c \<and> fst k mod TrafficRollupSeconds \<noteq> 0)}"
  by (auto simp: roll_source_def tr_key_def image_iff)

lemma fold_upsert_keys: "tr_key ` set (fold (upsert grp) rs rows) = tr_key ` set rows \<union> tr_key ` set rs"
proof (induction rs arbitrary: rows)
  case (Cons r rs)
  have "tr_key ` set (upsert grp r rows) = insert (tr_key r) (tr_key ` set rows)"
    using arg_cong [OF upsert_keys [of grp r rows], of set] by auto
  then show ?case using Cons by simp
qed simp

lemma compact_keys:
  "tr_key ` set (delete_where (roll_source c) (roll_up c rows))
    = tr_key ` set (filter (\<lambda>r. \<not> roll_source c r) rows) \<union> roll_key ` set (filter (roll_source c) rows)"
proof -
  let ?src = "filter (roll_source c) rows"
  have "tr_key ` set (roll_up c rows) = tr_key ` set rows \<union> roll_key ` set ?src"
    unfolding roll_up_def Let_def fold_upsert_keys by (simp add: image_image tr_key_roll_row)
  then show ?thesis unfolding delete_where_def set_key_filter using roll_key_aligned by auto
qed

lemma compact_ok: "traffic_ok rows \<Longrightarrow> traffic_ok (delete_where (roll_source c) (roll_up c rows))"
  using fold_upsert_sum(1) [of rows "\<lambda>_. True"]
  by (auto simp: traffic_ok_def delete_where_def roll_up_def Let_def by_key_def intro: distinct_map_filter)

lemma compact_exists:
  assumes "by_key P" "\<And>r. r \<in> set rows \<Longrightarrow> roll_source c r \<Longrightarrow> P (rolled r) = P r"
  shows "(\<exists>r\<in>set (delete_where (roll_source c) (roll_up c rows)). P r) \<longleftrightarrow> (\<exists>r\<in>set rows. P r)"
proof -
  define K where "K = (\<lambda>k. P \<lparr>tr_BucketTS = fst k, tr_Domain = fst (snd k), tr_Proxy = snd (snd k), tr_GroupKey = [], tr_BytesSent = 0, tr_BytesRecv = 0\<rparr>)"
  have K: "P r = K (tr_key r)" for r
  proof -
    have "tr_key r = tr_key \<lparr>tr_BucketTS = fst (tr_key r), tr_Domain = fst (snd (tr_key r)), tr_Proxy = snd (snd (tr_key r)),
        tr_GroupKey = [], tr_BytesSent = 0, tr_BytesRecv = 0\<rparr>" by (simp add: tr_key_def)
    then show ?thesis using assms(1) unfolding by_key_def K_def by blast
  qed
  have ex: "(\<exists>r\<in>A. P r) \<longleftrightarrow> (\<exists>k\<in>tr_key ` A. K k)" for A using K by auto
  have "\<forall>r\<in>set rows. roll_source c r \<longrightarrow> K (roll_key r) = K (tr_key r)"
    using assms(2) K tr_key_rolled by metis
  then show ?thesis unfolding ex compact_keys bex_Un by simp blast
qed

text \<open>A query selects and groups by key when it does not group by group.\<close>

definition in_point :: "int \<Rightarrow> int \<Rightarrow> string \<Rightarrow> int \<Rightarrow> int \<times> string \<Rightarrow> TrafficStat \<Rightarrow> bool" where
  "in_point from till dim b g r \<longleftrightarrow> (from \<le> tr_BucketTS r \<and> tr_BucketTS r \<le> till)
     \<and> (trunc_div (tr_BucketTS r) b * b, dim_key dim r) = g"

lemma QueryTraffic_set:
  assumes "TrafficBucketSeconds \<le> b" "QueryTraffic no_fault from till dim b rows = Inr ps"
  shows "set ps = {\<lparr>tp_BucketTS = fst g, tp_Key = snd g, tp_BytesSent = sum_where tr_BytesSent (in_point from till dim b g) rows,
      tp_BytesRecv = sum_where tr_BytesRecv (in_point from till dim b g) rows\<rparr> | g. \<exists>r\<in>set rows. in_point from till dim b g r}"
proof -
  let ?sel = "filter (\<lambda>r. from \<le> tr_BucketTS r \<and> tr_BucketTS r \<le> till) rows"
  let ?k = "\<lambda>r. (trunc_div (tr_BucketTS r) b * b, dim_key dim r)"
  have s: "sum_where f (\<lambda>r. ?k r = g) ?sel = sum_where f (in_point from till dim b g) rows" for f g
    by (induction rows) (auto simp: in_point_def)
  have k: "set (map ?k ?sel) = {g. \<exists>r\<in>set rows. in_point from till dim b g r}"
    by (auto simp: in_point_def)
  have "ps = map (\<lambda>g. \<lparr>tp_BucketTS = fst g, tp_Key = snd g, tp_BytesSent = sum_where tr_BytesSent (in_point from till dim b g) rows,
      tp_BytesRecv = sum_where tr_BytesRecv (in_point from till dim b g) rows\<rparr>) (sort_key fst (remdups (map ?k ?sel)))"
    using assms by (simp add: QueryTraffic_def Let_def no_fault_def s)
  moreover have "set (sort_key fst (remdups (map ?k ?sel))) = {g. \<exists>r\<in>set rows. in_point from till dim b g r}"
    unfolding set_sort set_remdups k ..
  ultimately show ?thesis by (simp only: set_map setcompr_eq_image)
qed

lemma in_point_by_key: "dim \<noteq> ''group'' \<Longrightarrow> by_key (in_point from till dim b g)"
  by (auto simp: by_key_def in_point_def dim_key_def tr_key_def)

lemma hour_bounds:
  fixes t :: int
  shows "from mod 3600 = 0 \<Longrightarrow> from \<le> t div 3600 * 3600 \<longleftrightarrow> from \<le> t"
    and "(till + 1) mod 3600 = 0 \<Longrightarrow> t div 3600 * 3600 \<le> till \<longleftrightarrow> t \<le> till"
proof -
  have t: "t = t div 3600 * 3600 + t mod 3600" "0 \<le> t mod 3600" "t mod 3600 < 3600" by simp_all
  show "from \<le> t div 3600 * 3600 \<longleftrightarrow> from \<le> t" if f: "from mod 3600 = 0"
  proof -
    obtain q where q: "from = 3600 * q" using f by (auto elim: dvdE)
    have "q \<le> t div 3600 \<longleftrightarrow> 3600 * q \<le> t"
      using t by (cases "q \<le> t div 3600") linarith+
    then show ?thesis by (simp add: q)
  qed
  show "t div 3600 * 3600 \<le> till \<longleftrightarrow> t \<le> till" if f: "(till + 1) mod 3600 = 0"
  proof -
    obtain q where "till + 1 = 3600 * q" using f by (auto elim: dvdE)
    then have q: "till = 3600 * q - 1" by simp
    have "t div 3600 < q \<longleftrightarrow> t \<le> 3600 * q - 1"
      using t by (cases "t div 3600 < q") linarith+
    moreover have "t div 3600 * 3600 \<le> 3600 * q - 1 \<longleftrightarrow> t div 3600 < q" by linarith
    ultimately show ?thesis by (simp add: q)
  qed
qed

lemma in_point_rolled:
  assumes "0 \<le> tr_BucketTS r" "from mod 3600 = 0" "(till + 1) mod 3600 = 0" "0 < k"
  shows "in_point from till dim (3600 * k) g (rolled r) = in_point from till dim (3600 * k) g r"
proof -
  let ?t = "tr_BucketTS r" and ?h = "tr_BucketTS r div 3600 * 3600"
  have h: "tr_BucketTS (rolled r) = ?h" "dim_key dim (rolled r) = dim_key dim r" "0 \<le> ?h"
    using assms(1) by (simp_all add: rolled_def trunc_div_def TrafficRollupSeconds_def dim_key_def)
  have "?h div (3600 * k) = ?t div (3600 * k)"
    using assms(4) by (simp add: zdiv_zmult2_eq)
  then have "trunc_div ?h (3600 * k) = trunc_div ?t (3600 * k)"
    using assms(1) h(3) by (simp add: trunc_div_def)
  then show ?thesis unfolding in_point_def h(1,2) using hour_bounds(1) [OF assms(2), of ?t] hour_bounds(2) [OF assms(3), of ?t] by simp
qed

section \<open>Properties\<close>

text \<open>C25: Rolling old minutes up into hours loses nothing. On a table with unique keys a failed run changes
  nothing; a successful one keeps the keys unique, running it again changes nothing, and every
  query by domain or proxy over whole hours, at any multiple of an hour, returns the same points
  as before.\<close>
theorem compact_conserves:
  assumes "distinct (map tr_key rows)" "\<forall>r\<in>set rows. 0 \<le> tr_BucketTS r" "CompactTraffic db before rows = (err, rows')"
  shows "distinct (map tr_key rows') \<and> (err \<noteq> None \<longrightarrow> rows' = rows)
    \<and> (err = None \<longrightarrow> CompactTraffic no_fault before rows' = (None, rows')
       \<and> (\<forall>from till dim k ps ps'. dim \<noteq> ''group'' \<and> from mod 3600 = 0 \<and> (till + 1) mod 3600 = 0 \<and> 0 < k
            \<and> QueryTraffic no_fault from till dim (3600 * k) rows = Inr ps \<and> QueryTraffic no_fault from till dim (3600 * k) rows' = Inr ps'
            \<longrightarrow> set ps' = set ps))"
proof (cases err)
  case (Some e)
  then show ?thesis using assms(1,3) by (auto simp: CompactTraffic_def Let_def split: sum.splits)
next
  case None
  let ?c = "trunc_div (unix_seconds before) TrafficRollupSeconds * TrafficRollupSeconds"
  have ok: "traffic_ok rows" using assms(1) by (simp add: traffic_ok_def)
  have rows': "rows' = delete_where (roll_source ?c) (roll_up ?c rows)"
    using assms(3) None by (auto simp: CompactTraffic_def Let_def sql_write_iff split: sum.splits)
  have clean: "filter (roll_source ?c) rows' = []" by (simp add: rows' delete_where_def filter_empty_conv)
  then have "roll_up ?c rows' = rows'" by (simp add: roll_up_def)
  then have again: "CompactTraffic no_fault before rows' = (None, rows')"
    using clean by (simp add: CompactTraffic_def Let_def sql_write_def no_fault_def delete_where_def filter_empty_conv)
  have conserved: "set ps' = set ps" if q: "dim \<noteq> ''group''" "from mod 3600 = 0" "(till + 1) mod 3600 = 0" "0 < k"
      "QueryTraffic no_fault from till dim (3600 * k) rows = Inr ps" "QueryTraffic no_fault from till dim (3600 * k) rows' = Inr ps'"
    for "from" till dim k ps ps'
  proof -
    have b: "TrafficBucketSeconds \<le> 3600 * k" using q(4) by (simp add: TrafficBucketSeconds_def)
    have roll: "in_point from till dim (3600 * k) g (rolled r) = in_point from till dim (3600 * k) g r" if "r \<in> set rows" for g r
      by (rule in_point_rolled) (use q(2-4) assms(2) that in auto)
    note key = in_point_by_key [OF q(1), of "from" till "3600 * k"]
    show ?thesis
      unfolding QueryTraffic_set [OF b q(5)] QueryTraffic_set [OF b q(6)] rows'
      using compact_sum [OF ok key] compact_exists [OF key] roll by simp
  qed
  show ?thesis
  proof (intro conjI impI allI)
    show "distinct (map tr_key rows')" using compact_ok [OF ok, of ?c] by (simp add: rows' traffic_ok_def)
    show "CompactTraffic no_fault before rows' = (None, rows')" by (rule again)
  qed (use None in simp, elim conjE, rule conserved)
qed

definition demo_traffic :: "TrafficStat list" where
  "demo_traffic = snd (AddTrafficBatch no_fault
     [\<lparr>tr_BucketTS = 3660, tr_Domain = ''a'', tr_Proxy = ''p'', tr_GroupKey = [], tr_BytesSent = 5, tr_BytesRecv = 7\<rparr>,
      \<lparr>tr_BucketTS = 3720, tr_Domain = ''a'', tr_Proxy = ''p'', tr_GroupKey = ''g'', tr_BytesSent = 1, tr_BytesRecv = 2\<rparr>] [])"

theorem compact_conserves_witness:
  "\<exists>rows' ps'. CompactTraffic no_fault ((62135596800 + 9000) * second) demo_traffic = (None, rows') \<and> length rows' = 1
    \<and> QueryTraffic no_fault 0 7199 ''domain'' 3600 rows' = Inr ps'
    \<and> set ps' = {\<lparr>tp_BucketTS = 3600, tp_Key = ''a'', tp_BytesSent = 6, tp_BytesRecv = 9\<rparr>}"
proof -
  let ?t = "(62135596800 + 9000) * second"
  obtain err rows' where c: "CompactTraffic no_fault ?t demo_traffic = (err, rows')" by fastforce
  have e: "err = None \<and> length rows' = 1"
  proof -
    have "unix_seconds ?t = 9000" by (simp add: unix_seconds_def second_def)
    then have "CompactTraffic no_fault ?t demo_traffic = (None, delete_where (roll_source 7200) (roll_up 7200 demo_traffic))"
      by (simp add: CompactTraffic_def Let_def no_fault_def sql_write_def trunc_div_def TrafficRollupSeconds_def)
    moreover have "length (delete_where (roll_source 7200) (roll_up 7200 demo_traffic)) = 1" by code_simp
    ultimately have "fst (CompactTraffic no_fault ?t demo_traffic) = None \<and> length (snd (CompactTraffic no_fault ?t demo_traffic)) = 1" by simp
    then show ?thesis using c by simp
  qed
  obtain ps' where ps': "QueryTraffic no_fault 0 7199 ''domain'' 3600 rows' = Inr ps'" by (simp add: QueryTraffic_def Let_def no_fault_def)
  have ps: "QueryTraffic no_fault 0 7199 ''domain'' 3600 demo_traffic
    = Inr [\<lparr>tp_BucketTS = 3600, tp_Key = ''a'', tp_BytesSent = 6, tp_BytesRecv = 9\<rparr>]" by code_simp
  have d: "distinct (map tr_key demo_traffic)" "\<forall>r\<in>set demo_traffic. 0 \<le> tr_BucketTS r" by code_simp+
  note all = conjunct2 [OF mp [OF conjunct2 [OF conjunct2 [OF compact_conserves [OF d c]]] conjunct1 [OF e]],
    THEN spec [of _ 0], THEN spec [of _ 7199], THEN spec [of _ "''domain''"], THEN spec [of _ 1], THEN spec, THEN spec]
  have "set ps' = set [\<lparr>tp_BucketTS = 3600, tp_Key = ''a'', tp_BytesSent = 6, tp_BytesRecv = 9\<rparr>]"
    by (rule mp [OF all]) (use ps ps' in \<open>simp only: mult_1_right, simp\<close>)
  then have "set ps' = {\<lparr>tp_BucketTS = 3600, tp_Key = ''a'', tp_BytesSent = 6, tp_BytesRecv = 9\<rparr>}" by simp
  then show ?thesis using c e ps' by auto
qed

end
