(* ===== verification/Rule_Store.thy ===== *)
theory Rule_Store
  imports Decision Sql_Table Interfaces
begin

text \<open>
  \<open>core/rules/store.go\<close> (rules, settings, query log), \<open>core/rules/customgroups.go\<close> and
  \<open>core/rules/logbatch.go\<close>. Every method of \<open>Store\<close> acts on one table, which is its state
  here; the traffic table is in \<open>Traffic\<close> and the lease table in \<open>Lease_Store\<close>. The clock is
  the argument \<open>now\<close>, the identifiers of new rows come from the engine (\<open>fresh\<close>). GORM leaves a
  zero-valued field with a column default out of an insert and reads the default back, which
  \<open>Add\<close> says and repairs for \<open>Enabled\<close>.
\<close>

section \<open>Rules\<close>

datatype store_error = RuleErr rules_error | DbErr string string | PatternErr string rules_error

definition normalizeAction :: "rule \<Rightarrow> rules_error + rule" where
  "normalizeAction r =
     (if \<not> ValidAction (rl_Action r) then Inl ErrInvalidAction
      else if rl_Action r = ActionBlock \<or> rl_Action r = ActionAllow then Inr (r\<lparr>rl_Interface := []\<rparr>)
      else if rl_Interface r = [] then Inl ErrInvalidAction else Inr r)"

definition rules_uniq :: "rule list \<Rightarrow> bool" where
  "rules_uniq rows = distinct (map rl_Pattern rows)"

text \<open>The column default of \<open>enabled\<close> is true, so every inserted row is enabled.\<close>

definition insert_rule :: "(int list \<Rightarrow> int) \<Rightarrow> rule \<Rightarrow> rule list \<Rightarrow> rule" where
  "insert_rule fresh r rows = r\<lparr>rl_Enabled := True\<rparr>\<lparr>rl_ID := fresh (map rl_ID rows)\<rparr>"

definition Add :: "(int list \<Rightarrow> int) \<Rightarrow> sql_fault \<Rightarrow> time \<Rightarrow> rule \<Rightarrow> rule list \<Rightarrow> (store_error + rule) \<times> rule list" where
  "Add fresh db now r rows =
     (case Validate (rl_Pattern r) of
        Some e \<Rightarrow> (Inl (RuleErr e), rows)
      | None \<Rightarrow>
        (case normalizeAction r of
           Inl e \<Rightarrow> (Inl (RuleErr e), rows)
         | Inr r1 \<Rightarrow>
           (let row = insert_rule fresh (r1\<lparr>rl_Pattern := normalize (rl_Pattern r1), rl_CreatedAt := now, rl_UpdatedAt := now\<rparr>) rows
            in case sql_write (db 0) rules_uniq (rows @ [row]) of
                 Inl e \<Rightarrow> (Inl (if isUniqueErr e then RuleErr ErrDuplicate else DbErr ''insert rule'' e), rows)
               | Inr rows1 \<Rightarrow>
                   if rl_Enabled r1 then (Inr row, rows1)
                   else (case sql_write (db 1) rules_uniq
                            (update_where (\<lambda>x. rl_ID x = rl_ID row) (\<lambda>x. x\<lparr>rl_Enabled := False\<rparr>) rows1) of
                           Inl e \<Rightarrow> (Inl (DbErr ''insert rule (disable)'' e), rows1)
                         | Inr rows2 \<Rightarrow> (Inr (row\<lparr>rl_Enabled := False\<rparr>), rows2)))))"

definition rule_Update :: "sql_fault \<Rightarrow> time \<Rightarrow> rule \<Rightarrow> rule list \<Rightarrow> store_error option \<times> rule list" where
  "rule_Update db now r rows =
     (case Validate (rl_Pattern r) of
        Some e \<Rightarrow> (Some (RuleErr e), rows)
      | None \<Rightarrow>
        (case normalizeAction r of
           Inl e \<Rightarrow> (Some (RuleErr e), rows)
         | Inr r1 \<Rightarrow>
           (case sql_write (db 0) rules_uniq
                (update_where (\<lambda>x. rl_ID x = rl_ID r1)
                   (\<lambda>x. x\<lparr>rl_Pattern := normalize (rl_Pattern r1), rl_Action := rl_Action r1, rl_Interface := rl_Interface r1,
                          rl_Enabled := rl_Enabled r1, rl_UpdatedAt := now\<rparr>) rows) of
              Inl e \<Rightarrow> (Some (if isUniqueErr e then RuleErr ErrDuplicate else DbErr ''update rule'' e), rows)
            | Inr rows1 \<Rightarrow>
                if rows_affected (\<lambda>x. rl_ID x = rl_ID r1) rows = 0 then (Some (RuleErr ErrNotFound), rows1) else (None, rows1))))"

definition rule_Delete :: "sql_fault \<Rightarrow> int \<Rightarrow> rule list \<Rightarrow> store_error option \<times> rule list" where
  "rule_Delete db i rows =
     (case sql_write (db 0) (\<lambda>_. True) (delete_where (\<lambda>x. rl_ID x = i) rows) of
        Inl e \<Rightarrow> (Some (DbErr ''delete rule'' e), rows)
      | Inr rows1 \<Rightarrow> if rows_affected (\<lambda>x. rl_ID x = i) rows = 0 then (Some (RuleErr ErrNotFound), rows1) else (None, rows1))"

definition DeleteByInterfacePrefix :: "sql_fault \<Rightarrow> string \<Rightarrow> rule list \<Rightarrow> (store_error + int) \<times> rule list" where
  "DeleteByInterfacePrefix db prefix rows =
     (case sql_write (db 0) (\<lambda>_. True) (delete_where (\<lambda>x. sql_like (prefix @ ''%'') (rl_Interface x)) rows) of
        Inl e \<Rightarrow> (Inl (DbErr ''delete rules by interface prefix'' e), rows)
      | Inr rows1 \<Rightarrow> (Inr (int (rows_affected (\<lambda>x. sql_like (prefix @ ''%'') (rl_Interface x)) rows)), rows1))"

definition rule_Get :: "sql_fault \<Rightarrow> int \<Rightarrow> rule list \<Rightarrow> store_error + rule" where
  "rule_Get db i rows =
     (case db 0 of
        Some e \<Rightarrow> Inl (DbErr [] e)
      | None \<Rightarrow> (case find (\<lambda>x. rl_ID x = i) rows of None \<Rightarrow> Inl (RuleErr ErrNotFound) | Some r \<Rightarrow> Inr r))"

definition rule_List :: "sql_fault \<Rightarrow> rule list \<Rightarrow> store_error + rule list" where
  "rule_List db rows = (case db 0 of Some e \<Rightarrow> Inl (DbErr [] e) | None \<Rightarrow> Inr (sort_key rl_Pattern rows))"

text \<open>The data migration of \<open>Open\<close>.\<close>

definition Open_migrate :: "sql_fault \<Rightarrow> rule list \<Rightarrow> store_error + rule list" where
  "Open_migrate db rows =
     (case sql_write (db 0) (\<lambda>_. True)
          (update_where (\<lambda>x. rl_Action x = ''allow'' \<and> rl_Interface x \<noteq> []) (\<lambda>x. x\<lparr>rl_Action := ''route''\<rparr>) rows) of
        Inl e \<Rightarrow> Inl (DbErr ''migrate allow-route'' e)
      | Inr rows1 \<Rightarrow> Inr rows1)"

section \<open>Renaming an outbound\<close>

fun rewrite_loop :: "string \<Rightarrow> string \<Rightarrow> string list \<Rightarrow> string list \<Rightarrow> bool \<Rightarrow> string list \<times> bool" where
  "rewrite_loop old new [] out changed = (out, changed)"
| "rewrite_loop old new (p # ps) out changed =
     (let name = ToLower (TrimSpace p) in
      if name = [] then rewrite_loop old new ps out changed
      else
        (let name' = (if name = old then new else name); changed' = (name = old \<or> changed) in
         if name' \<in> set out then rewrite_loop old new ps out True
         else rewrite_loop old new ps (out @ [name']) changed'))"

definition rewriteMultiNameInterface :: "string \<Rightarrow> string \<Rightarrow> string \<Rightarrow> string \<Rightarrow> string \<times> bool" where
  "rewriteMultiNameInterface iface prefix old new =
     (if \<not> HasPrefix iface prefix then (iface, False)
      else (case rewrite_loop old new (Split (TrimPrefix iface prefix) CHR '','') [] False of
              (out, changed) \<Rightarrow> if \<not> changed then (iface, False) else (prefix @ Join out '','', True)))"

fun rename_loop :: "sql_fault \<Rightarrow> nat \<Rightarrow> time \<Rightarrow> string \<Rightarrow> string \<Rightarrow> string \<Rightarrow> rule list \<Rightarrow> int \<Rightarrow> rule list \<Rightarrow>
    int \<times> store_error option \<times> rule list" where
  "rename_loop db k now prefix old new [] updated rows = (updated, None, rows)"
| "rename_loop db k now prefix old new (r # rs) updated rows =
     (case rewriteMultiNameInterface (rl_Interface r) prefix old new of
        (newIface, changed) \<Rightarrow>
          if \<not> changed then rename_loop db k now prefix old new rs updated rows
          else (case sql_write (db k) (\<lambda>_. True)
                   (update_where (\<lambda>x. rl_ID x = rl_ID r) (\<lambda>x. x\<lparr>rl_Interface := newIface, rl_UpdatedAt := now\<rparr>) rows) of
                  Inl e \<Rightarrow> (updated, Some (DbErr (''update rule '' @ Itoa (rl_ID r)) e), rows)
                | Inr rows1 \<Rightarrow> rename_loop db (Suc k) now prefix old new rs
                    (updated + int (rows_affected (\<lambda>x. rl_ID x = rl_ID r) rows)) rows1))"

definition RenameInterfaceRef :: "sql_fault \<Rightarrow> time \<Rightarrow> string \<Rightarrow> string \<Rightarrow> string \<Rightarrow> rule list \<Rightarrow> int \<times> store_error option \<times> rule list" where
  "RenameInterfaceRef db now prefix0 oldName newName rows =
     (let prefix = TrimSpace prefix0; old = ToLower (TrimSpace oldName); new = ToLower (TrimSpace newName) in
      if prefix = [] \<or> old = [] \<or> new = [] \<or> old = new then (0, None, rows)
      else (case db 0 of
              Some e \<Rightarrow> (0, Some (DbErr ''list rules for rename'' e), rows)
            | None \<Rightarrow> rename_loop db 1 now prefix old new
                (filter (\<lambda>x. sql_like (prefix @ ''%'') (rl_Interface x)) rows) 0 rows))"

section \<open>Settings\<close>

type_synonym settings = "string \<rightharpoonup> string"

definition GetSetting :: "sql_fault \<Rightarrow> string \<Rightarrow> string \<Rightarrow> settings \<Rightarrow> store_error + string" where
  "GetSetting db key def s =
     (case db 0 of Some e \<Rightarrow> Inl (DbErr [] e) | None \<Rightarrow> (case s key of None \<Rightarrow> Inr def | Some v \<Rightarrow> Inr v))"

definition SetSetting :: "sql_fault \<Rightarrow> string \<Rightarrow> string \<Rightarrow> settings \<Rightarrow> store_error option \<times> settings" where
  "SetSetting db key v s = (case db 0 of Some e \<Rightarrow> (Some (DbErr [] e), s) | None \<Rightarrow> (None, s(key \<mapsto> v)))"

section \<open>The query log\<close>

record LogEntry =
  le_ID :: int
  le_Timestamp :: time
  le_QueryName :: string
  le_Action :: string
  le_RuleID :: int
  le_Interface :: string
  le_ClientIP :: string

definition MaxLogEntries :: nat where "MaxLogEntries = 500"

text \<open>The trim: everything with an identifier below that of the row at offset \<open>MaxLogEntries - 1\<close>, newest first.\<close>

definition trim_logs :: "LogEntry list \<Rightarrow> LogEntry list" where
  "trim_logs rows =
     (let ids = rev (sort (map le_ID rows)) in
      if MaxLogEntries - 1 < length ids then delete_where (\<lambda>x. le_ID x < ids ! (MaxLogEntries - 1)) rows else rows)"

definition insert_log :: "(int list \<Rightarrow> int) \<Rightarrow> time \<Rightarrow> LogEntry \<Rightarrow> LogEntry list \<Rightarrow> LogEntry list" where
  "insert_log fresh now e rows =
     rows @ [e\<lparr>le_ID := fresh (map le_ID rows), le_Timestamp := (if le_Timestamp e = 0 then now else le_Timestamp e)\<rparr>]"

definition Log :: "(int list \<Rightarrow> int) \<Rightarrow> sql_fault \<Rightarrow> time \<Rightarrow> LogEntry \<Rightarrow> LogEntry list \<Rightarrow> store_error option \<times> LogEntry list" where
  "Log fresh db now e rows =
     (case sql_write (db 0) (\<lambda>_. True) (insert_log fresh now e rows) of
        Inl err \<Rightarrow> (Some (DbErr [] err), rows)
      | Inr rows1 \<Rightarrow>
          (case sql_write (db 1) (\<lambda>_. True) (trim_logs rows1) of
             Inl err \<Rightarrow> (Some (DbErr [] err), rows1)
           | Inr rows2 \<Rightarrow> (None, rows2)))"

definition LogBatch :: "(int list \<Rightarrow> int) \<Rightarrow> sql_fault \<Rightarrow> time \<Rightarrow> LogEntry list \<Rightarrow> LogEntry list \<Rightarrow> store_error option \<times> LogEntry list" where
  "LogBatch fresh db now entries0 rows =
     (if entries0 = [] then (None, rows)
      else
        (let entries = (if MaxLogEntries < length entries0 then drop (length entries0 - MaxLogEntries) entries0 else entries0) in
         case sql_write (db 0) (\<lambda>_. True) (fold (insert_log fresh now) entries rows) of
           Inl err \<Rightarrow> (Some (DbErr [] err), rows)
         | Inr rows1 \<Rightarrow>
             (case sql_write (db 1) (\<lambda>_. True) (trim_logs rows1) of
                Inl err \<Rightarrow> (Some (DbErr [] err), rows)
              | Inr rows2 \<Rightarrow> (None, rows2))))"

definition log_matches :: "string \<Rightarrow> LogEntry \<Rightarrow> bool" where
  "log_matches flt e =
     (if flt = [] then True
      else if flt = ''unavailable'' then sql_like ''block-%'' (le_Action e) \<or> le_Action e = ''forward-failed''
      else le_Action e = flt)"

definition RecentLogs :: "sql_fault \<Rightarrow> int \<Rightarrow> string \<Rightarrow> LogEntry list \<Rightarrow> store_error + LogEntry list" where
  "RecentLogs db limit flt rows =
     (let n = (if limit \<le> 0 then 200 else nat limit) in
      case db 0 of
        Some e \<Rightarrow> Inl (DbErr [] e)
      | None \<Rightarrow> Inr (take n (sort_key (\<lambda>e. - le_Timestamp e) (rev (sort_key le_ID (filter (log_matches flt) rows))))))"

definition ClearLogs :: "sql_fault \<Rightarrow> LogEntry list \<Rightarrow> store_error option \<times> LogEntry list" where
  "ClearLogs db rows = (case db 0 of Some e \<Rightarrow> (Some (DbErr [] e), rows) | None \<Rightarrow> (None, []))"

section \<open>Custom groups\<close>

definition CustomGroupPrefix :: string where "CustomGroupPrefix = ''custom:''"

record CustomGroup =
  cg_ID :: int
  cg_Key :: string
  cg_DisplayName :: string
  cg_Description :: string
  cg_Patterns :: "string list"
  cg_Color :: string
  cg_SourceTag :: string
  cg_CreatedAt :: time
  cg_UpdatedAt :: time

fun slug_loop :: "string \<Rightarrow> bool \<Rightarrow> string" where
  "slug_loop [] lastDash = []"
| "slug_loop (r # rs) lastDash =
     (if is_alnum r then r # slug_loop rs False
      else if \<not> lastDash then CHR ''-'' # slug_loop rs True
      else slug_loop rs lastDash)"

definition SlugifyGroupKey :: "string \<Rightarrow> string" where
  "SlugifyGroupKey s0 =
     (let s = TrimSpace s0 in
      if HasPrefix s CustomGroupPrefix then s
      else CustomGroupPrefix @ Trim (slug_loop (ToLower s) False) ''-'')"

definition canonGroupKey :: "string \<Rightarrow> string" where
  "canonGroupKey key0 =
     (let key = TrimSpace key0 in
      if key = [] then [] else if HasPrefix key CustomGroupPrefix then key else CustomGroupPrefix @ key)"

fun sanitize_patterns :: "string list \<Rightarrow> string list \<Rightarrow> store_error + string list" where
  "sanitize_patterns [] out = Inr out"
| "sanitize_patterns (p # ps) out =
     (let np = normalize p in
      if np = [] then sanitize_patterns ps out
      else case Validate np of
        Some e \<Rightarrow> Inl (PatternErr p e)
      | None \<Rightarrow> if np \<in> set out then sanitize_patterns ps out else sanitize_patterns ps (out @ [np]))"

definition sanitizeGroup :: "CustomGroup \<Rightarrow> store_error + CustomGroup" where
  "sanitizeGroup g0 =
     (let g = g0\<lparr>cg_DisplayName := TrimSpace (cg_DisplayName g0), cg_SourceTag := ToUpper (TrimSpace (cg_SourceTag g0))\<rparr> in
      if cg_DisplayName g = [] then Inl (RuleErr ErrEmptyGroupName)
      else
        (let key = (if TrimSpace (cg_Key g) = [] then SlugifyGroupKey (cg_DisplayName g) else canonGroupKey (cg_Key g)) in
         if key = [] \<or> key = CustomGroupPrefix then Inl (RuleErr ErrEmptyGroupKey)
         else (case sanitize_patterns (cg_Patterns g) [] of
                 Inl e \<Rightarrow> Inl e
               | Inr out \<Rightarrow> Inr (g\<lparr>cg_Key := key, cg_Patterns := out\<rparr>))))"

definition groups_uniq :: "CustomGroup list \<Rightarrow> bool" where
  "groups_uniq rows = distinct (map cg_Key rows)"

definition AddCustomGroup :: "(int list \<Rightarrow> int) \<Rightarrow> sql_fault \<Rightarrow> time \<Rightarrow> CustomGroup \<Rightarrow> CustomGroup list \<Rightarrow> (store_error + CustomGroup) \<times> CustomGroup list" where
  "AddCustomGroup fresh db now g0 rows =
     (case sanitizeGroup g0 of
        Inl e \<Rightarrow> (Inl e, rows)
      | Inr g \<Rightarrow>
        (let row = (g\<lparr>cg_CreatedAt := now, cg_UpdatedAt := now\<rparr>)\<lparr>cg_ID := fresh (map cg_ID rows)\<rparr> in
         case sql_write (db 0) groups_uniq (rows @ [row]) of
           Inl e \<Rightarrow> (Inl (if isUniqueErr e then RuleErr ErrGroupDuplicate else DbErr ''insert custom group'' e), rows)
         | Inr rows1 \<Rightarrow> (Inr row, rows1)))"

definition UpdateCustomGroup :: "sql_fault \<Rightarrow> time \<Rightarrow> CustomGroup \<Rightarrow> CustomGroup list \<Rightarrow> store_error option \<times> CustomGroup list" where
  "UpdateCustomGroup db now g0 rows =
     (case sanitizeGroup g0 of
        Inl e \<Rightarrow> (Some e, rows)
      | Inr g \<Rightarrow>
        (case sql_write (db 0) groups_uniq
             (update_where (\<lambda>x. cg_Key x = cg_Key g)
                (\<lambda>x. x\<lparr>cg_DisplayName := cg_DisplayName g, cg_Description := cg_Description g, cg_Patterns := cg_Patterns g,
                       cg_Color := cg_Color g, cg_UpdatedAt := now\<rparr>) rows) of
           Inl e \<Rightarrow> (Some (DbErr ''update custom group'' e), rows)
         | Inr rows1 \<Rightarrow>
             if rows_affected (\<lambda>x. cg_Key x = cg_Key g) rows = 0 then (Some (RuleErr ErrGroupNotFound), rows1) else (None, rows1)))"

definition DeleteCustomGroup :: "sql_fault \<Rightarrow> string \<Rightarrow> CustomGroup list \<Rightarrow> store_error option \<times> CustomGroup list" where
  "DeleteCustomGroup db key0 rows =
     (let key = canonGroupKey key0 in
      case sql_write (db 0) (\<lambda>_. True) (delete_where (\<lambda>x. cg_Key x = key) rows) of
        Inl e \<Rightarrow> (Some (DbErr ''delete custom group'' e), rows)
      | Inr rows1 \<Rightarrow>
          if rows_affected (\<lambda>x. cg_Key x = key) rows = 0 then (Some (RuleErr ErrGroupNotFound), rows1) else (None, rows1))"

definition GetCustomGroup :: "sql_fault \<Rightarrow> string \<Rightarrow> CustomGroup list \<Rightarrow> store_error + CustomGroup" where
  "GetCustomGroup db key0 rows =
     (case db 0 of
        Some e \<Rightarrow> Inl (DbErr [] e)
      | None \<Rightarrow> (case find (\<lambda>x. cg_Key x = canonGroupKey key0) rows of None \<Rightarrow> Inl (RuleErr ErrGroupNotFound) | Some g \<Rightarrow> Inr g))"

definition ListCustomGroups :: "sql_fault \<Rightarrow> CustomGroup list \<Rightarrow> store_error + CustomGroup list" where
  "ListCustomGroups db rows = (case db 0 of Some e \<Rightarrow> Inl (DbErr [] e) | None \<Rightarrow> Inr (sort_key cg_DisplayName rows))"

section \<open>The invariant of the rule table\<close>

text \<open>What a stored rule is: a normalised accepted pattern, and an interface exactly for route rules.\<close>

definition stored_rule :: "rule \<Rightarrow> bool" where
  "stored_rule r \<longleftrightarrow> (\<exists>p. Validate p = None \<and> rl_Pattern r = normalize p) \<and> ValidAction (rl_Action r)
     \<and> (rl_Action r = ActionRoute \<longleftrightarrow> rl_Interface r \<noteq> [])"

abbreviation rules_ok :: "rule list \<Rightarrow> bool" where
  "rules_ok \<equiv> table_ok rl_ID rules_uniq stored_rule"

interpretation rules_table: unique_table rl_ID "\<lambda>i r. r\<lparr>rl_ID := i\<rparr>" rules_uniq stored_rule
  by unfold_locales (simp_all add: stored_rule_def rules_uniq_def distinct_map_filter)

lemma normalizeAction_Inr:
  "normalizeAction r = Inr r1 \<longleftrightarrow> ValidAction (rl_Action r) \<and>
     (if rl_Action r = ActionRoute then rl_Interface r \<noteq> [] \<and> r1 = r else r1 = r\<lparr>rl_Interface := []\<rparr>)"
  by (auto simp: normalizeAction_def ValidAction_def action_defs split: if_splits)

lemma normalizeAction_stored:
  assumes "Validate (rl_Pattern r) = None" "normalizeAction r = Inr r1"
    "rl_Pattern x = normalize (rl_Pattern r1)" "rl_Action x = rl_Action r1" "rl_Interface x = rl_Interface r1"
  shows "stored_rule x"
  using assms by (auto simp: stored_rule_def normalizeAction_Inr split: if_splits)

lemma uniq_map_same: "map rl_Pattern rows' = map rl_Pattern rows \<Longrightarrow> rules_uniq rows' = rules_uniq rows"
  by (simp add: rules_uniq_def)

lemma update_pattern_same:
  assumes "\<And>r. rl_Pattern (g r) = rl_Pattern r"
  shows "rules_uniq (update_where P g rows) = rules_uniq rows"
  using assms by (auto intro!: uniq_map_same simp: update_where_def)

text \<open>The outcomes of \<open>Add\<close>: the row it writes, and when it fails.\<close>

definition added_rule :: "(int list \<Rightarrow> int) \<Rightarrow> time \<Rightarrow> rule \<Rightarrow> rule list \<Rightarrow> rule" where
  "added_rule fresh now r rows =
     \<lparr>rl_ID = fresh (map rl_ID rows), rl_Pattern = normalize (rl_Pattern r), rl_Action = rl_Action r,
      rl_Interface = (if rl_Action r = ActionRoute then rl_Interface r else []), rl_Enabled = rl_Enabled r,
      rl_CreatedAt = now, rl_UpdatedAt = now\<rparr>"

lemma insert_rule_added:
  assumes "normalizeAction r = Inr r1"
  shows "insert_rule fresh (r1\<lparr>rl_Pattern := normalize (rl_Pattern r1), rl_CreatedAt := now, rl_UpdatedAt := now\<rparr>) rows
    = (added_rule fresh now r rows)\<lparr>rl_Enabled := True\<rparr>" "rl_Enabled r1 = rl_Enabled r"
  using assms by (auto simp: insert_rule_def added_rule_def normalizeAction_Inr split: if_splits)

lemma disable_added:
  assumes "fresh_ids fresh"
  shows "update_where (\<lambda>x. rl_ID x = fresh (map rl_ID rows)) (\<lambda>x. x\<lparr>rl_Enabled := False\<rparr>) (rows @ [a\<lparr>rl_ID := fresh (map rl_ID rows)\<rparr>])
    = rows @ [a\<lparr>rl_ID := fresh (map rl_ID rows), rl_Enabled := False\<rparr>]"
proof -
  have "rl_ID x \<noteq> fresh (map rl_ID rows)" if "x \<in> set rows" for x
    using assms that unfolding fresh_ids_def by (metis image_eqI less_irrefl list.set_map)
  then show ?thesis by (auto simp: update_where_def map_idI)
qed

text \<open>The same as one case distinction.\<close>

lemma Add_cases:
  assumes "fresh_ids fresh" "Add fresh db now r rows = (res, rows')"
  obtains (invalid) e where "res = Inl (RuleErr e)" "rows' = rows" "Validate (rl_Pattern r) = Some e"
    | (action) e where "res = Inl (RuleErr e)" "rows' = rows" "Validate (rl_Pattern r) = None" "normalizeAction r = Inl e"
    | (failed) e r1 where "Validate (rl_Pattern r) = None" "normalizeAction r = Inr r1" "rows' = rows" "db 0 = Some e"
        "res = Inl (if isUniqueErr e then RuleErr ErrDuplicate else DbErr ''insert rule'' e)"
    | (duplicate) r1 where "Validate (rl_Pattern r) = None" "normalizeAction r = Inr r1" "rows' = rows" "db 0 = None"
        "\<not> rules_uniq (rows @ [added_rule fresh now r rows])" "res = Inl (RuleErr ErrDuplicate)"
    | (undisabled) e r1 where "Validate (rl_Pattern r) = None" "normalizeAction r = Inr r1" "db 0 = None"
        "rules_uniq (rows @ [added_rule fresh now r rows])" "\<not> rl_Enabled r" "db 1 = Some e"
        "res = Inl (DbErr ''insert rule (disable)'' e)" "rows' = rows @ [(added_rule fresh now r rows)\<lparr>rl_Enabled := True\<rparr>]"
    | (added) r1 where "Validate (rl_Pattern r) = None" "normalizeAction r = Inr r1" "db 0 = None"
        "rules_uniq (rows @ [added_rule fresh now r rows])" "rl_Enabled r \<or> db 1 = None"
        "res = Inr (added_rule fresh now r rows)" "rows' = rows @ [added_rule fresh now r rows]"
proof (cases "Validate (rl_Pattern r)")
  case (Some e)
  then show ?thesis using assms(2) invalid [of e] by (simp add: Add_def)
next
  case v: None
  show ?thesis
  proof (cases "normalizeAction r")
    case (Inl e)
    then show ?thesis using assms(2) v action [of e] by (simp add: Add_def)
  next
    case (Inr r1)
    let ?a = "added_rule fresh now r rows"
    let ?row = "?a\<lparr>rl_Enabled := True\<rparr>"
    have u: "rules_uniq (rows @ [?row]) = rules_uniq (rows @ [?a])" by (simp add: rules_uniq_def)
    have a: "?a\<lparr>rl_Enabled := False\<rparr> = ?a" if "\<not> rl_Enabled r" using that by (simp add: added_rule_def)
    have e: "?row = ?a" if "rl_Enabled r" using that by (simp add: added_rule_def)
    have id: "rl_ID ?a = fresh (map rl_ID rows)" "?a\<lparr>rl_ID := fresh (map rl_ID rows)\<rparr> = ?a" by (simp_all add: added_rule_def)
    have upd: "update_where (\<lambda>x. rl_ID x = rl_ID ?a) (\<lambda>x. x\<lparr>rl_Enabled := False\<rparr>) (rows @ [?row]) = rows @ [?a\<lparr>rl_Enabled := False\<rparr>]"
      using disable_added [OF assms(1), of rows ?row] id by (simp add: added_rule_def)
    have A: "Add fresh db now r rows =
      (case sql_write (db 0) rules_uniq (rows @ [?row]) of
         Inl e \<Rightarrow> (Inl (if isUniqueErr e then RuleErr ErrDuplicate else DbErr ''insert rule'' e), rows)
       | Inr rows1 \<Rightarrow> if rl_Enabled r then (Inr ?row, rows1)
           else (case sql_write (db 1) rules_uniq (update_where (\<lambda>x. rl_ID x = rl_ID ?row) (\<lambda>x. x\<lparr>rl_Enabled := False\<rparr>) rows1) of
              Inl e \<Rightarrow> (Inl (DbErr ''insert rule (disable)'' e), rows1)
            | Inr rows2 \<Rightarrow> (Inr (?row\<lparr>rl_Enabled := False\<rparr>), rows2)))"
      unfolding Add_def v Inr option.case sum.case Let_def insert_rule_added [OF Inr] by (rule refl)
    show ?thesis
    proof (cases "db 0")
      case (Some e)
      then show ?thesis using A assms(2) v Inr failed by (simp add: sql_write_def)
    next
      case ok: None
      show ?thesis
      proof (cases "rules_uniq (rows @ [?a])")
        case False
        then show ?thesis using A assms(2) v Inr ok u duplicate by (simp add: sql_write_def)
      next
        case un: True
        show ?thesis
        proof (cases "rl_Enabled r")
          case True
          then show ?thesis using A assms(2) v Inr ok u un e added by (simp add: sql_write_def)
        next
          case False
          have "rules_uniq (rows @ [?a\<lparr>rl_Enabled := False\<rparr>])" using un by (simp add: rules_uniq_def)
          then show ?thesis
            using A assms(2) v Inr ok u un False upd a [OF False] added undisabled
            by (cases "db 1") (simp_all add: sql_write_def)
        qed
      qed
    qed
  qed
qed

lemma added_stored:
  "Validate (rl_Pattern r) = None \<Longrightarrow> normalizeAction r = Inr r1 \<Longrightarrow> stored_rule ((added_rule fresh now r rows)\<lparr>rl_Enabled := b\<rparr>)"
  by (rule normalizeAction_stored [of r r1]) (auto simp: added_rule_def normalizeAction_Inr split: if_splits)

lemma added_rule_enabled [simp]: "(added_rule fresh now r rows)\<lparr>rl_Enabled := rl_Enabled r\<rparr> = added_rule fresh now r rows"
  by (simp add: added_rule_def)

lemma append_added_ok:
  assumes "fresh_ids fresh" "rules_ok rows" "Validate (rl_Pattern r) = None" "normalizeAction r = Inr r1"
    "rules_uniq (rows @ [added_rule fresh now r rows])"
  shows "rules_ok (rows @ [(added_rule fresh now r rows)\<lparr>rl_Enabled := b\<rparr>])"
proof -
  let ?a = "(added_rule fresh now r rows)\<lparr>rl_Enabled := b\<rparr>"
  have "?a\<lparr>rl_ID := fresh (map rl_ID rows)\<rparr> = ?a" by (simp add: added_rule_def)
  moreover have "sql_write None rules_uniq (rows @ [?a]) = Inr (rows @ [?a])"
    using assms(5) by (simp add: sql_write_Inr rules_uniq_def)
  ultimately show ?thesis
    using rules_table.insert_ok [OF assms(1,2), where f = None and r = ?a] added_stored [OF assms(3,4)] by simp
qed

lemma Add_ok:
  assumes "fresh_ids fresh" "rules_ok rows" "Add fresh db now r rows = (res, rows')"
  shows "rules_ok rows'"
  using assms(1,3)
proof (cases rule: Add_cases)
  case (added r1)
  then show ?thesis using append_added_ok [OF assms(1,2) added(1,2,4), of "rl_Enabled r"] by simp
next
  case (undisabled e r1)
  then show ?thesis using append_added_ok [OF assms(1,2) undisabled(1,2,4)] by simp
qed (use assms(2) in simp_all)

lemma Update_ok:
  assumes "rules_ok rows" "rule_Update db now r rows = (res, rows')"
  shows "rules_ok rows'"
proof (cases "Validate (rl_Pattern r) = None \<and> (\<exists>r1. normalizeAction r = Inr r1)")
  case True
  then obtain r1 where v: "Validate (rl_Pattern r) = None" and r1: "normalizeAction r = Inr r1" by blast
  let ?g = "\<lambda>x. x\<lparr>rl_Pattern := normalize (rl_Pattern r1), rl_Action := rl_Action r1, rl_Interface := rl_Interface r1,
                          rl_Enabled := rl_Enabled r1, rl_UpdatedAt := now\<rparr>"
  let ?P = "\<lambda>x. rl_ID x = rl_ID r1"
  have "rows' = rows \<or> sql_write (db 0) rules_uniq (update_where ?P ?g rows) = Inr rows'"
    using assms(2) v r1 by (auto simp: rule_Update_def split: sum.splits if_splits)
  moreover have "rl_ID (?g x) = rl_ID x \<and> stored_rule (?g x)" for x
    using normalizeAction_stored [OF v r1] by simp
  ultimately show ?thesis using assms(1) rules_table.update_ok [of rows ?P ?g] by metis
qed (use assms in \<open>auto simp: rule_Update_def split: option.splits sum.splits\<close>)

lemma Delete_ok:
  assumes "rules_ok rows" shows "rules_ok (snd (rule_Delete db i rows))" "rules_ok (snd (DeleteByInterfacePrefix db prefix rows))"
  using assms rules_table.delete_ok [OF assms]
  by (auto simp: rule_Delete_def DeleteByInterfacePrefix_def sql_write_def split: option.splits)

lemma rewrite_changed:
  "rewriteMultiNameInterface iface prefix old new = (out, True) \<Longrightarrow> HasPrefix iface prefix \<and> HasPrefix out prefix"
  by (auto simp: rewriteMultiNameInterface_def split: if_splits prod.splits)

lemma prefix_ne: "HasPrefix s p \<Longrightarrow> p \<noteq> [] \<Longrightarrow> s \<noteq> []"
  by (auto simp: HasPrefix_iff)

text \<open>A rename rewrites, rule by rule, the rows of its snapshot up to the first statement that fails.\<close>

definition rename_row :: "time \<Rightarrow> string \<Rightarrow> string \<Rightarrow> string \<Rightarrow> rule \<Rightarrow> rule" where
  "rename_row now prefix old new r =
     (case rewriteMultiNameInterface (rl_Interface r) prefix old new of
        (newIface, changed) \<Rightarrow> if changed then r\<lparr>rl_Interface := newIface, rl_UpdatedAt := now\<rparr> else r)"

lemma rename_row_keeps [simp]:
  "rl_ID (rename_row now prefix old new r) = rl_ID r" "rl_Pattern (rename_row now prefix old new r) = rl_Pattern r"
  "rl_Action (rename_row now prefix old new r) = rl_Action r" "rl_Enabled (rename_row now prefix old new r) = rl_Enabled r"
  by (simp_all add: rename_row_def split: prod.splits)

lemma same_id: "distinct (map rl_ID rows) \<Longrightarrow> x \<in> set rows \<Longrightarrow> r \<in> set rows \<Longrightarrow> rl_ID x = rl_ID r \<Longrightarrow> x = r"
  by (meson distinct_map inj_onD)

lemma update_one:
  assumes "distinct (map rl_ID rows)" "r \<in> set rows"
  shows "update_where (\<lambda>x. rl_ID x = rl_ID r) g rows = map (\<lambda>x. if x = r then g r else x) rows"
  unfolding update_where_def by (rule map_cong [OF refl]) (use same_id [OF assms(1) _ assms(2)] in auto)

lemma rename_loop_spec:
  assumes "distinct (map rl_ID rows)" "set rs \<subseteq> set rows" "distinct (map rl_ID rs)"
    "rename_loop db k now prefix old new rs u rows = (u', err, rows')"
  shows "\<exists>S \<subseteq> rl_ID ` set rs. rows' = map (\<lambda>x. if rl_ID x \<in> S then rename_row now prefix old new x else x) rows
    \<and> (err = None \<longrightarrow> S = rl_ID ` set rs)"
  using assms
proof (induction rs arbitrary: k u rows)
  case Nil
  then show ?case by auto
next
  case (Cons r rs)
  let ?f = "rename_row now prefix old new"
  obtain i c where rw: "rewriteMultiNameInterface (rl_Interface r) prefix old new = (i, c)" by fastforce
  have sub: "set rs \<subseteq> set rows" "distinct (map rl_ID rs)" and r: "r \<in> set rows" "rl_ID r \<notin> rl_ID ` set rs"
    using Cons.prems(2,3) by auto
  show ?case
  proof (cases c)
    case False
    then have "?f r = r" using rw by (simp add: rename_row_def)
    then have noop: "?f x = x" if "x \<in> set rows" "rl_ID x = rl_ID r" for x
      using same_id [OF Cons.prems(1) that(1) r(1) that(2)] by simp
    obtain S where S: "S \<subseteq> rl_ID ` set rs" "rows' = map (\<lambda>x. if rl_ID x \<in> S then ?f x else x) rows" "err = None \<longrightarrow> S = rl_ID ` set rs"
      using Cons.IH [OF Cons.prems(1) sub, of k u] Cons.prems(4) rw False by auto
    have "rows' = map (\<lambda>x. if rl_ID x \<in> insert (rl_ID r) S then ?f x else x) rows"
      unfolding S(2) using noop by auto
    then show ?thesis using S(1,3) by (intro exI [of _ "insert (rl_ID r) S"]) auto
  next
    case True
    show ?thesis
    proof (cases "db k")
      case (Some e)
      then show ?thesis using Cons.prems(4) rw True by (intro exI [of _ "{}"]) (auto simp: sql_write_def)
    next
      case None
      let ?rows1 = "map (\<lambda>x. if x = r then ?f r else x) rows"
      have upd: "update_where (\<lambda>x. rl_ID x = rl_ID r) (\<lambda>x. x\<lparr>rl_Interface := i, rl_UpdatedAt := now\<rparr>) rows = ?rows1"
        using rw True by (simp add: update_one [OF Cons.prems(1) r(1)] rename_row_def)
      have d1: "distinct (map rl_ID ?rows1)" 
      proof -
        have "rl_ID \<circ> (\<lambda>x. if x = r then ?f r else x) = rl_ID" by auto
        then show ?thesis using Cons.prems(1) by (simp only: map_map)
      qed
      have s1: "set rs \<subseteq> set ?rows1" using sub(1) r(2) by force
      obtain S where S: "S \<subseteq> rl_ID ` set rs" "rows' = map (\<lambda>x. if rl_ID x \<in> S then ?f x else x) ?rows1" "err = None \<longrightarrow> S = rl_ID ` set rs"
        using Cons.IH [OF d1 s1 sub(2), of "Suc k" "u + int (rows_affected (\<lambda>x. rl_ID x = rl_ID r) rows)"] Cons.prems(4) rw True None upd
        by (auto simp: sql_write_def)
      have "rl_ID r \<notin> S" using S(1) r(2) by blast
      then have "rows' = map (\<lambda>x. if rl_ID x \<in> insert (rl_ID r) S then ?f x else x) rows"
        unfolding S(2) using same_id [OF Cons.prems(1) _ r(1)] by auto
      then show ?thesis using S(1,3) by (intro exI [of _ "insert (rl_ID r) S"]) auto
    qed
  qed
qed

lemma rename_row_stored:
  assumes "stored_rule r" "prefix \<noteq> []"
  shows "stored_rule (rename_row now prefix old new r)"
proof -
  have "(rl_Interface r \<noteq> []) = (rl_Interface (rename_row now prefix old new r) \<noteq> [])"
    using rewrite_changed [of "rl_Interface r" prefix old new] prefix_ne assms(2)
    by (auto simp: rename_row_def split: prod.splits)
  then show ?thesis using assms(1) by (simp add: stored_rule_def)
qed

lemma Rename_ok:
  assumes "rules_ok rows" "RenameInterfaceRef db now prefix old new rows = (u, err, rows')"
  shows "rules_ok rows'"
proof -
  have ok: "rules_ok (map (\<lambda>x. if rl_ID x \<in> S then rename_row now p o1 n1 x else x) rows)" if "p \<noteq> []" for S p o1 n1
  proof -
    let ?f = "\<lambda>x. if rl_ID x \<in> S then rename_row now p o1 n1 x else x"
    have "rl_ID \<circ> ?f = rl_ID" "rl_Pattern \<circ> ?f = rl_Pattern" by auto
    then have eq: "map rl_ID (map ?f rows) = map rl_ID rows" "map rl_Pattern (map ?f rows) = map rl_Pattern rows" by (simp_all only: map_map)
    have "\<forall>r\<in>set (map ?f rows). stored_rule r" using assms(1) rename_row_stored [OF _ that] by (auto simp: table_ok_def)
    then show ?thesis using assms(1) unfolding table_ok_def rules_uniq_def eq by blast
  qed
  have d: "distinct (map rl_ID rows)" using assms(1) by (simp add: table_ok_def)
  show ?thesis
  proof (cases "rows' = rows")
    case False
    let ?rs = "filter (\<lambda>x. sql_like (TrimSpace prefix @ ''%'') (rl_Interface x)) rows"
    have l: "rename_loop db 1 now (TrimSpace prefix) (ToLower (TrimSpace old)) (ToLower (TrimSpace new)) ?rs 0 rows = (u, err, rows')"
      and p: "TrimSpace prefix \<noteq> []"
      using assms(2) False by (auto simp: RenameInterfaceRef_def Let_def split: if_splits option.splits)
    from rename_loop_spec [OF d _ _ l] d ok [OF p] show ?thesis by (auto simp: distinct_map_filter)
  qed (use assms(1) in simp)
qed

text \<open>Every table the methods of the store can leave behind, whichever statements fail.\<close>

inductive rules_reach :: "(int list \<Rightarrow> int) \<Rightarrow> rule list \<Rightarrow> bool" for fresh where
  reach_empty: "rules_reach fresh []"
| reach_add: "rules_reach fresh rows \<Longrightarrow> Add fresh db now r rows = (res, rows') \<Longrightarrow> rules_reach fresh rows'"
| reach_update: "rules_reach fresh rows \<Longrightarrow> rule_Update db now r rows = (err, rows') \<Longrightarrow> rules_reach fresh rows'"
| reach_delete: "rules_reach fresh rows \<Longrightarrow> rule_Delete db i rows = (err, rows') \<Longrightarrow> rules_reach fresh rows'"
| reach_purge: "rules_reach fresh rows \<Longrightarrow> DeleteByInterfacePrefix db prefix rows = (res, rows') \<Longrightarrow> rules_reach fresh rows'"
| reach_rename: "rules_reach fresh rows \<Longrightarrow> RenameInterfaceRef db now prefix old new rows = (n, err', rows') \<Longrightarrow> rules_reach fresh rows'"

lemma rules_reach_ok: "rules_reach fresh rows \<Longrightarrow> fresh_ids fresh \<Longrightarrow> rules_ok rows"
proof (induction rule: rules_reach.induct)
  case (reach_delete rows db i err rows')
  then show ?case using Delete_ok(1) [of rows db i] by simp
next
  case (reach_purge rows db prefix res rows')
  then show ?case using Delete_ok(2) [of rows db prefix] by simp
next
  case (reach_rename rows db now prefix old new n err' rows')
  then show ?case using Rename_ok by simp
qed (use rules_table.empty_ok Add_ok Update_ok in blast)+

section \<open>What a rename does to the names of a rule\<close>

definition uniq_names :: "string list \<Rightarrow> string list" where "uniq_names xs = rev (remdups (rev xs))"

definition iface_names :: "string \<Rightarrow> string \<Rightarrow> string list" where
  "iface_names prefix iface = map ToLower (split_names (TrimPrefix iface prefix))"

definition part_names :: "string list \<Rightarrow> string list" where
  "part_names ps = filter (\<lambda>n. n \<noteq> []) (map (\<lambda>p. ToLower (TrimSpace p)) ps)"

abbreviation rename_name :: "string \<Rightarrow> string \<Rightarrow> string \<Rightarrow> string" where
  "rename_name old new x \<equiv> (if x = old then new else x)"

lemma ToLower_eq_Nil [simp]: "ToLower s = [] \<longleftrightarrow> s = []"
  by (simp add: ToLower_def)

lemma iface_names_parts: "iface_names prefix iface = part_names (Split (TrimPrefix iface prefix) CHR '','')"
  by (simp add: iface_names_def split_names_def part_names_def filter_map comp_def)

lemma uniq_names_snoc: "uniq_names (xs @ [x]) = (if x \<in> set xs then uniq_names xs else uniq_names xs @ [x])"
  by (simp add: uniq_names_def)

lemma set_uniq_names [simp]: "set (uniq_names xs) = set xs"
  by (simp add: uniq_names_def)

lemma distinct_uniq_names [simp]: "distinct (uniq_names xs)"
  by (simp add: uniq_names_def)

lemma uniq_names_id: "distinct xs \<Longrightarrow> uniq_names xs = xs"
  by (simp add: uniq_names_def distinct_remdups_id)

lemma rewrite_loop_out:
  assumes "rewrite_loop old new ps (uniq_names xs) ch = (out, ch')"
  shows "out = uniq_names (xs @ map (rename_name old new) (part_names ps))"
  using assms
proof (induction ps arbitrary: xs ch)
  case (Cons p ps)
  let ?n' = "rename_name old new (ToLower (TrimSpace p))"
  have step: "uniq_names ((xs @ [?n']) @ ys) = uniq_names (xs @ ys)" if "?n' \<in> set xs" for ys
    using that by (induction ys rule: rev_induct) (auto simp: uniq_names_snoc simp flip: append_assoc)
  show ?case
    using Cons.prems Cons.IH [of xs ch] Cons.IH [of xs True] Cons.IH [of "xs @ [?n']"] step
    by (auto simp: part_names_def Let_def uniq_names_snoc split: if_splits)
qed (simp add: part_names_def)

lemma rewrite_loop_unchanged:
  assumes "rewrite_loop old new ps out ch = (out', False)"
  shows "\<not> ch \<and> old \<notin> set (part_names ps) \<and> out' = out @ part_names ps"
  using assms
proof (induction ps arbitrary: out ch)
  case (Cons p ps)
  then show ?case
    using Cons.IH [of "out @ [ToLower (TrimSpace p)]" ch] by (fastforce simp: part_names_def Let_def split: if_splits)
qed (simp add: part_names_def)

lemma part_names_clean:
  assumes "n \<in> set (part_names (Split s CHR '',''))"
  shows "n \<noteq> [] \<and> TrimSpace n = n \<and> ToLower n = n \<and> CHR '','' \<notin> set n"
proof -
  obtain p where p: "p \<in> set (Split s CHR '','')" "n = ToLower (TrimSpace p)" "n \<noteq> []" using assms by (auto simp: part_names_def)
  have "CHR '','' \<notin> set (TrimSpace p)" using Split_no_sep [OF p(1)] set_TrimSpace by blast
  moreover have "lower c = CHR '','' \<Longrightarrow> c = CHR '',''" for c
  proof (cases "is_upper c")
    case True
    assume "lower c = CHR '',''"
    then have "ord (lower c) = 44" by (simp add: ord_def)
    then show ?thesis using True ord_char_of [of "ord c + 32"] by (auto simp: lower_def is_upper_def in_range_def ord_def)
  qed (simp add: lower_id)
  ultimately have "CHR '','' \<notin> set n" unfolding p(2) ToLower_def by fastforce
  moreover have "ToLower n = n" by (simp add: p(2) ToLower_def)
  ultimately show ?thesis using p(2,3) by (simp add: TrimSpace_ToLower)
qed

lemma rewrite_loop_nonempty:
  assumes "rewrite_loop old new ps out False = (out', True)"
  shows "part_names ps \<noteq> []"
  using assms by (induction ps) (auto simp: part_names_def Let_def split: if_splits)

lemma rewrite_names:
  assumes "HasPrefix iface prefix" "stored_name new" "rewriteMultiNameInterface iface prefix old new = (out, ch)"
  shows "HasPrefix out prefix \<and> iface_names prefix out = uniq_names (map (rename_name old new) (iface_names prefix iface))"
proof -
  let ?ps = "Split (TrimPrefix iface prefix) CHR '',''"
  obtain ns c where l: "rewrite_loop old new ?ps [] False = (ns, c)" by fastforce
  then have ns: "ns = uniq_names (map (rename_name old new) (part_names ?ps))"
    using rewrite_loop_out [of old new ?ps "[]" False] by (simp add: uniq_names_def)
  show ?thesis
  proof (cases c)
    case False
    then have u: "old \<notin> set (part_names ?ps)" "ns = part_names ?ps" using rewrite_loop_unchanged l by fastforce+
    then have "map (rename_name old new) (part_names ?ps) = part_names ?ps" by (intro map_idI) auto
    then show ?thesis using assms(1,3) l False u ns by (simp add: rewriteMultiNameInterface_def iface_names_parts)
  next
    case True
    have clean: "n \<noteq> [] \<and> TrimSpace n = n \<and> ToLower n = n \<and> CHR '','' \<notin> set n" if n: "n \<in> set ns" for n
    proof -
      consider "n = new" | "n \<in> set (part_names ?ps)" using n ns by (auto split: if_splits)
      then show ?thesis
      proof cases
        case 1
        have "ToLower new = new" using assms(2) normalizeName_stored [OF assms(2)] by (simp add: normalizeName_def)
        then show ?thesis using 1 assms(2) stored_name_no_sep by (auto simp: stored_name_def)
      qed (rule part_names_clean)
    qed
    have "part_names ?ps \<noteq> []" using rewrite_loop_nonempty [of old new ?ps "[]" ns] l True by simp
    then have "set ns \<noteq> {}" unfolding ns set_uniq_names set_map image_is_empty set_empty .
    then have ne: "ns \<noteq> []" by simp
    have sp: "split_names (Join ns '','') = ns" using clean by (intro split_names_Join [OF ne]) blast
    have lo: "map ToLower ns = ns" using clean by (simp add: map_idI)
    have out: "out = prefix @ Join ns '',''" using assms(1,3) l True by (simp add: rewriteMultiNameInterface_def)
    have names: "iface_names prefix out = ns" unfolding iface_names_def out by (simp add: sp lo)
    show ?thesis unfolding names unfolding iface_names_parts ns [symmetric] by (simp add: out)
  qed
qed

section \<open>Properties of the rule store\<close>

text \<open>C22: In every table the methods of the rule store can leave behind, whichever of their statements
  fail, identifiers and patterns are unique, every pattern is the normal form of an accepted one,
  every action is valid, and a rule has an interface exactly when it routes.\<close>
theorem rules_store_invariant:
  assumes "fresh_ids fresh" "rules_reach fresh rows"
  shows "distinct (map rl_ID rows) \<and> distinct (map rl_Pattern rows)
    \<and> (\<forall>r\<in>set rows. (\<exists>p. Validate p = None \<and> rl_Pattern r = normalize p) \<and> ValidAction (rl_Action r)
         \<and> (rl_Action r = ActionRoute \<longleftrightarrow> rl_Interface r \<noteq> []))"
  using rules_reach_ok [OF assms(2,1)] by (simp add: table_ok_def rules_uniq_def stored_rule_def)

text \<open>The table after an accepted insert, a duplicate, and an insert whose disabling statement fails.\<close>

definition demo_rule :: "string \<Rightarrow> bool \<Rightarrow> rule" where
  "demo_rule p en = \<lparr>rl_ID = 0, rl_Pattern = p, rl_Action = ''block'', rl_Interface = ''utun4'', rl_Enabled = en, rl_CreatedAt = 0, rl_UpdatedAt = 0\<rparr>"

definition demo_rows :: "rule list" where
  "demo_rows = snd (Add next_rowid no_fault 7 (demo_rule ''*.Example.com'' False) [])"

lemma demo_rows_reach: "rules_reach next_rowid demo_rows"
  unfolding demo_rows_def by (rule reach_add [OF reach_empty prod.collapse [symmetric]])

lemma demo_rows_eq: "demo_rows = [\<lparr>rl_ID = 1, rl_Pattern = ''*.example.com'', rl_Action = ''block'', rl_Interface = [],
    rl_Enabled = False, rl_CreatedAt = 7, rl_UpdatedAt = 7\<rparr>]"
  by code_simp

theorem rules_store_invariant_witness:
  "rl_Pattern (demo_rows ! 0) = ''*.example.com'' \<and> ValidAction (rl_Action (demo_rows ! 0))"
proof -
  have "\<forall>r\<in>set demo_rows. ValidAction (rl_Action r)"
    using rules_store_invariant [OF fresh_next_rowid demo_rows_reach] by blast
  then show ?thesis by (simp add: demo_rows_eq)
qed

text \<open>C23: How \<open>Add\<close> fails. An invalid pattern or action is reported as such, a stored pattern as a
  duplicate; with any error the table is unchanged, except when the row was written and the
  statement that disables it failed. A success appends exactly the row it returns, with a new
  identifier and the enabled flag the caller asked for.\<close>
theorem Add_outcome:
  assumes "fresh_ids fresh" "rules_reach fresh rows" "Add fresh db now r rows = (res, rows')"
  shows "case res of
      Inr r' \<Rightarrow> rows' = rows @ [r'] \<and> rl_ID r' \<notin> rl_ID ` set rows \<and> rl_Pattern r' = normalize (rl_Pattern r)
        \<and> rl_Pattern r' \<notin> rl_Pattern ` set rows \<and> rl_Enabled r' = rl_Enabled r \<and> rl_Action r' = rl_Action r
        \<and> rule_Get no_fault (rl_ID r') rows' = Inr r'
    | Inl e \<Rightarrow> (rows' = rows \<or> \<not> rl_Enabled r \<and> db 0 = None \<and> db 1 \<noteq> None)
        \<and> (db = no_fault \<longrightarrow> rows' = rows \<and>
            (case Validate (rl_Pattern r) of Some v \<Rightarrow> e = RuleErr v
             | None \<Rightarrow> if \<not> ValidAction (rl_Action r) \<or> rl_Action r = ActionRoute \<and> rl_Interface r = [] then e = RuleErr ErrInvalidAction
                       else e = RuleErr ErrDuplicate \<and> normalize (rl_Pattern r) \<in> rl_Pattern ` set rows))"
  using assms(1,3)
proof (cases rule: Add_cases)
  case (added r1)
  have fid: "fresh (map rl_ID rows) \<notin> rl_ID ` set rows" using assms(1) unfolding fresh_ids_def by (metis list.set_map less_irrefl)
  then have "find (\<lambda>x. rl_ID x = fresh (map rl_ID rows)) rows = None" by (auto simp: find_None_iff image_iff)
  then show ?thesis using added fid by (auto simp: added_rule_def rules_uniq_def rule_Get_def no_fault_def find_snoc)
next
  case (action e)
  then show ?thesis by (auto simp: normalizeAction_def action_defs ValidAction_def split: if_splits)
next
  case (duplicate r1)
  have "rules_uniq rows" using rules_reach_ok [OF assms(2,1)] by (simp add: table_ok_def)
  then show ?thesis using duplicate by (auto simp: rules_uniq_def added_rule_def normalizeAction_Inr split: if_splits)
qed (auto simp: no_fault_def)

theorem Add_outcome_witness:
  "Add next_rowid no_fault 9 (demo_rule '' *.EXAMPLE.com.'' True) demo_rows = (Inl (RuleErr ErrDuplicate), demo_rows)"
proof -
  obtain res rows' where a: "Add next_rowid no_fault 9 (demo_rule '' *.EXAMPLE.com.'' True) demo_rows = (res, rows')" by fastforce
  have v: "Validate '' *.EXAMPLE.com.'' = None" by code_simp
  have n: "normalize '' *.EXAMPLE.com.'' = ''*.example.com''" by code_simp
  show ?thesis using Add_outcome [OF fresh_next_rowid demo_rows_reach a] a v n
    by (cases res) (auto simp: demo_rule_def demo_rows_eq ValidAction_def action_defs)
qed

text \<open>The scan over the stored rules does not depend on the order in which the table lists them.\<close>

lemma better_total:
  "rl_ID x \<noteq> rl_ID y \<Longrightarrow> by_name.better x y \<or> by_name.better y x"
  by (auto simp: by_name.better_def)

lemma MostSpecific_set:
  assumes "distinct (map rl_ID rs)" "set rs' = set rs"
  shows "MostSpecific rs' name = MostSpecific rs name"
proof (cases "MostSpecific rs name")
  case None
  then show ?thesis using by_name.loop_None [of name rs] by_name.loop_None [of name rs'] assms(2) by (simp add: MostSpecific_def)
next
  case (Some b)
  have b: "b \<in> set rs" "name_cand name b" "\<forall>r\<in>set rs. name_cand name r \<longrightarrow> \<not> by_name.better r b"
    using by_name.loop_best Some by (auto simp: MostSpecific_def)
  have "MostSpecific rs' name \<noteq> None" using by_name.loop_None [of name rs'] b assms(2) by (auto simp: MostSpecific_def)
  then obtain c where c: "MostSpecific rs' name = Some c" by blast
  have c': "c \<in> set rs" "name_cand name c" "\<forall>r\<in>set rs. name_cand name r \<longrightarrow> \<not> by_name.better r c"
    using by_name.loop_best c assms(2) by (auto simp: MostSpecific_def)
  have "rl_ID b = rl_ID c" using b c' better_total by blast
  then show ?thesis using same_id [OF assms(1) b(1) c'(1)] c Some by simp
qed

lemma stored_not_star:
  assumes "Validate p = None" shows "normalize (normalize p) \<noteq> ''*.''"
proof (cases "IsIPRule (normalize p)")
  case True
  show ?thesis
  proof
    assume "normalize (normalize p) = ''*.''"
    moreover have "ParseIP ''*.'' = None" "net_ParseCIDR ''*.'' = None" by code_simp+
    ultimately show False using True by (simp add: IsIPRule_def ParseCIDR_def)
  qed
next
  case False
  then show ?thesis using Validate_domain [OF assms] Validate_not_star [OF assms] by simp
qed

lemma stored_decides:
  assumes "rules_ok rows" "rule_List no_fault rows = Inr l" "Reload (Inr l) (Some (Inr m)) e = (err, e')"
  shows "err = None \<and> Decide e' name = decision_of (map_option (rewrite_iface m) (MostSpecific rows name))"
proof -
  have l: "set l = set rows" using assms(2) by (auto simp: rule_List_def no_fault_def)
  have d: "distinct (map rl_ID rows)" and s: "\<forall>r\<in>set rows. stored_rule r" using assms(1) by (auto simp: table_ok_def)
  have "normalize (rl_Pattern r) \<noteq> ''*.''" if "r \<in> set (map (rewrite_iface m) l)" for r
    using that s l stored_not_star by (auto simp: stored_rule_def)
  then have "Index_MostSpecific (NewIndex (map (rewrite_iface m) l)) name = map_option (rewrite_iface m) (MostSpecific l name)"
    using Index_MostSpecific_eq MostSpecific_rewrite by metis
  moreover have "MostSpecific l name = MostSpecific rows name" using MostSpecific_set [OF d l] .
  ultimately show ?thesis using assms(3) by (auto simp: Reload_def Decide_def)
qed

lemma MostSpecific_snoc_disabled:
  assumes "\<not> rl_Enabled r"
  shows "MostSpecific (rows @ [r]) name = MostSpecific rows name"
proof -
  have "MostSpecific_loop name (rows @ [r]) b s = MostSpecific_loop name rows b s" for b s
    using assms by (induction rows arbitrary: b s) (auto simp: Let_def)
  then show ?thesis by (simp add: MostSpecific_def)
qed

text \<open>A rule for an exact name outranks every other rule that matches the name.\<close>

lemma exact_rule_wins:
  assumes "rules_ok rows" "r \<in> set rows" "rl_Enabled r" "\<not> IsIPRule (rl_Pattern r)" "\<not> HasPrefix (rl_Pattern r) ''*.''"
    "normalize name = rl_Pattern r" "normalize (rl_Pattern r) = rl_Pattern r" "rl_Pattern r \<noteq> []"
  shows "MostSpecific rows name = Some r"
proof -
  have d: "distinct (map rl_ID rows)" "distinct (map rl_Pattern rows)" and s: "\<forall>r\<in>set rows. stored_rule r"
    using assms(1) by (auto simp: table_ok_def rules_uniq_def)
  have r: "exact_cand (normalize name) r" using assms(3-8) by (auto simp: exact_cand_def IsIPRule_def)
  have ns: "normalize (rl_Pattern x) \<noteq> ''*.''" if "x \<in> set rows" for x using that s stored_not_star by (auto simp: stored_rule_def)
  have ne: "normalize name \<noteq> []" using assms(6,8) by simp
  have cand: "name_cand name r" using name_cand_slots [OF ns [OF assms(2)] ne] r by simp
  have "by_name.better r x" if x: "x \<in> set rows" "name_cand name x" "x \<noteq> r" for x
  proof -
    have "\<not> exact_cand (normalize name) x"
    proof
      assume e: "exact_cand (normalize name) x"
      obtain p where p: "Validate p = None" "rl_Pattern x = normalize p" using s x(1) by (auto simp: stored_rule_def)
      have "\<not> IsIPRule (normalize p)" using e p(2) by (simp add: exact_cand_def IsIPRule_def)
      then have "normalize (rl_Pattern x) = rl_Pattern x" using Validate_domain [OF p(1)] p(2) by simp
      then have "rl_Pattern x = rl_Pattern r" using e assms(6) by (simp add: exact_cand_def)
      then show False using d(2) x assms(2) by (metis distinct_map inj_onD)
    qed
    then obtain k where "k \<in> set (dot_tails (normalize name))" "wild_cand k x" using name_cand_slots [OF ns [OF x(1)] ne] x(2) by blast
    then have "rule_score x < rule_score r" using wild_score exact_score [OF r] labels_dot_tails [of k "normalize name"] by fastforce
    then show ?thesis by (simp add: by_name.better_def)
  qed
  then have best: "\<not> by_name.better x r" if "x \<in> set rows" "name_cand name x" for x
    using that by_name.better_asym by_name.better_irrefl by metis
  have "MostSpecific rows name \<noteq> None" using by_name.loop_None [of name rows] cand assms(2) by (auto simp: MostSpecific_def)
  then obtain c where c: "MostSpecific rows name = Some c" by blast
  have "c \<in> set rows" "name_cand name c" "\<not> by_name.better r c" using by_name.loop_best c cand assms(2) by (auto simp: MostSpecific_def)
  then show ?thesis using c \<open>\<And>x. _ \<Longrightarrow> _ \<Longrightarrow> x \<noteq> r \<Longrightarrow> by_name.better r x\<close> by metis
qed





lemma rename_loop_no_fault: "rename_loop no_fault k now prefix old new rs u rows = (n, err, rows') \<Longrightarrow> err = None"
  by (induction rs arbitrary: k u rows) (auto simp: sql_write_def no_fault_def split: prod.splits if_splits)

lemma rename_row_names:
  assumes "stored_name new"
  shows "let r' = rename_row now prefix old new r in r' = r\<lparr>rl_Interface := rl_Interface r', rl_UpdatedAt := rl_UpdatedAt r'\<rparr>
    \<and> (if HasPrefix (rl_Interface r) prefix
       then HasPrefix (rl_Interface r') prefix
         \<and> iface_names prefix (rl_Interface r') = uniq_names (map (rename_name old new) (iface_names prefix (rl_Interface r)))
       else r' = r)"
proof (cases "HasPrefix (rl_Interface r) prefix")
  case True
  obtain out ch where o: "rewriteMultiNameInterface (rl_Interface r) prefix old new = (out, ch)" by fastforce
  then have "\<not> ch \<Longrightarrow> out = rl_Interface r" by (auto simp: rewriteMultiNameInterface_def split: prod.splits if_splits)
  then show ?thesis using True rewrite_names [OF True assms o] o by (auto simp: rename_row_def Let_def)
qed (simp add: rename_row_def rewriteMultiNameInterface_def Let_def)

definition demo_routes :: "rule list" where
  "demo_routes = snd (Add next_rowid no_fault 7 ((demo_rule ''x.com'' True)\<lparr>rl_Action := ''route'', rl_Interface := ''proxy:A, b,c''\<rparr>) [])"

lemma demo_routes_reach: "rules_reach next_rowid demo_routes"
  unfolding demo_routes_def by (rule reach_add [OF reach_empty prod.collapse [symmetric]])

lemma demo_routes_eq: "demo_routes = [\<lparr>rl_ID = 1, rl_Pattern = ''x.com'', rl_Action = ''route'', rl_Interface = ''proxy:A, b,c'',
    rl_Enabled = True, rl_CreatedAt = 7, rl_UpdatedAt = 7\<rparr>]"
  by code_simp

lemma demo_routes_count: "fst (RenameInterfaceRef no_fault 9 ''proxy:'' ''a'' ''b'' demo_routes) = 1"
  unfolding demo_routes_eq by code_simp

text \<open>Renaming an outbound. With a working database every rule of the prefix keeps its place and its
  other fields, and its list of names becomes the old list with the name replaced and repetitions
  dropped, the first one staying; all other rules are untouched.\<close>
lemma rename_cascade:
  assumes "fresh_ids fresh" "rules_reach fresh rows" "TrimSpace prefix = prefix" "prefix \<noteq> []"
    "stored_name old" "stored_name new" "old \<noteq> new" "RenameInterfaceRef no_fault now prefix old new rows = (n, err, rows')"
  shows "err = None \<and> length rows' = length rows \<and> (\<forall>i < length rows.
    let r = rows ! i; r' = rows' ! i in
      r' = r\<lparr>rl_Interface := rl_Interface r', rl_UpdatedAt := rl_UpdatedAt r'\<rparr>
      \<and> (if HasPrefix (rl_Interface r) prefix
         then HasPrefix (rl_Interface r') prefix
           \<and> iface_names prefix (rl_Interface r') = uniq_names (map (\<lambda>x. if x = old then new else x) (iface_names prefix (rl_Interface r)))
         else r' = r))"
proof -
  let ?rs = "filter (\<lambda>x. sql_like (prefix @ ''%'') (rl_Interface x)) rows"
  have d: "distinct (map rl_ID rows)" using rules_reach_ok [OF assms(2,1)] by (simp add: table_ok_def)
  have names: "ToLower (TrimSpace old) = old" "ToLower (TrimSpace new) = new" "old \<noteq> []" "new \<noteq> []"
    using normalizeName_stored assms(5,6) by (auto simp: normalizeName_def stored_name_def)
  have l: "rename_loop no_fault 1 now prefix old new ?rs 0 rows = (n, err, rows')"
    using assms(3,4,7,8) names by (simp add: RenameInterfaceRef_def Let_def no_fault_def)
  have err: "err = None" using rename_loop_no_fault l by metis
  obtain S where S: "S = rl_ID ` set ?rs" "rows' = map (\<lambda>x. if rl_ID x \<in> S then rename_row now prefix old new x else x) rows"
    using rename_loop_spec [OF d _ _ l] d err by (auto simp: distinct_map_filter)
  have row: "rows' ! i = rename_row now prefix old new (rows ! i)" if i: "i < length rows" for i
  proof (cases "rows ! i \<in> set ?rs")
    case True
    then show ?thesis using S i by simp
  next
    case False
    then have "\<not> HasPrefix (rl_Interface (rows ! i)) prefix" using i sql_like_prefix by (auto simp: HasPrefix_iff)
    then have "rename_row now prefix old new (rows ! i) = rows ! i" by (simp add: rename_row_def rewriteMultiNameInterface_def)
    then show ?thesis using S i by simp
  qed
  show ?thesis using err S(2) row rename_row_names [OF assms(6)] by (auto simp: Let_def)
qed

lemma rename_cascade_witness:
  "\<exists>rows'. RenameInterfaceRef no_fault 9 ''proxy:'' ''a'' ''b'' demo_routes = (1, None, rows')
    \<and> iface_names ''proxy:'' (rl_Interface (rows' ! 0)) = [''b'', ''c'']"
proof -
  obtain n err rows' where r: "RenameInterfaceRef no_fault 9 ''proxy:'' ''a'' ''b'' demo_routes = (n, err, rows')" by (metis prod_cases3)
  have n: "n = 1" using r demo_routes_count by simp
  have "stored_name ''a''" "stored_name ''b''" "TrimSpace ''proxy:'' = ''proxy:''" by code_simp+
  from rename_cascade [OF fresh_next_rowid demo_routes_reach this(3) _ this(1,2) _ r]
  have "err = None \<and> HasPrefix (rl_Interface (rows' ! 0)) ''proxy:'' \<and>
    iface_names ''proxy:'' (rl_Interface (rows' ! 0)) = uniq_names (map (\<lambda>x. if x = ''a'' then ''b'' else x) (iface_names ''proxy:'' ''proxy:A, b,c''))"
    by (simp add: demo_routes_eq Let_def)
  moreover have "uniq_names (map (\<lambda>x. if x = ''a'' then ''b'' else x) (iface_names ''proxy:'' ''proxy:A, b,c'')) = [''b'', ''c'']" by code_simp
  ultimately show ?thesis using r n by auto
qed

section \<open>The query log\<close>

text \<open>In a log whose identifiers increase, the trim keeps the newest rows.\<close>

definition log_ok :: "LogEntry list \<Rightarrow> bool" where
  "log_ok rows \<longleftrightarrow> sorted_wrt (<) (map le_ID rows)"

lemma trim_logs_take:
  assumes "log_ok rows"
  shows "trim_logs rows = drop (length rows - MaxLogEntries) rows"
proof (cases "MaxLogEntries - 1 < length rows")
  case True
  have "sorted (map le_ID rows)" using assms strict_sorted_imp_sorted unfolding log_ok_def by blast
  then have srt: "sort (map le_ID rows) = map le_ID rows" by (rule sorted_sort_id)
  let ?k = "length rows - MaxLogEntries"
  have nth: "rev (map le_ID rows) ! (MaxLogEntries - 1) = le_ID (rows ! ?k)"
    using True by (simp add: rev_nth MaxLogEntries_def)
  have k: "?k < length rows" using True by (simp add: MaxLogEntries_def)
  have mono: "i < j \<Longrightarrow> j < length rows \<Longrightarrow> le_ID (rows ! i) < le_ID (rows ! j)" for i j
    using assms by (simp add: log_ok_def sorted_wrt_iff_nth_less)
  have "filter (\<lambda>x. \<not> le_ID x < le_ID (rows ! ?k)) rows = drop ?k rows"
  proof -
    have lo: "filter (\<lambda>x. \<not> le_ID x < le_ID (rows ! ?k)) (take ?k rows) = []"
      using mono k by (auto simp: filter_empty_conv in_set_conv_nth)
    have hi: "filter (\<lambda>x. \<not> le_ID x < le_ID (rows ! ?k)) (drop ?k rows) = drop ?k rows"
    proof (rule filter_True, rule ballI)
      fix x assume "x \<in> set (drop ?k rows)"
      then obtain j where j: "?k + j < length rows" "x = rows ! (?k + j)"
        by (auto simp: in_set_conv_nth) (metis less_diff_conv add.commute)
      then show "\<not> le_ID x < le_ID (rows ! ?k)" using mono [of ?k "?k + j"] by (cases "j = 0") auto
    qed
    show ?thesis using lo hi filter_append [of "\<lambda>x. \<not> le_ID x < le_ID (rows ! ?k)" "take ?k rows" "drop ?k rows"] by simp
  qed
  then show ?thesis using True by (simp add: trim_logs_def Let_def srt nth [simplified] delete_where_def)
qed (simp add: trim_logs_def Let_def)

lemma insert_log_ok: "fresh_ids fresh \<Longrightarrow> log_ok rows \<Longrightarrow> log_ok (insert_log fresh now e rows)"
  by (simp add: log_ok_def insert_log_def sorted_wrt_append fresh_ids_def)

lemma fold_insert_ok: "fresh_ids fresh \<Longrightarrow> log_ok rows \<Longrightarrow> log_ok (fold (insert_log fresh now) es rows)"
  by (induction es arbitrary: rows) (simp_all add: insert_log_ok)

lemma log_ok_drop: "log_ok rows \<Longrightarrow> log_ok (drop n rows)"
  by (simp add: log_ok_def drop_map [symmetric] sorted_wrt_drop)

definition lastn :: "nat \<Rightarrow> 'a list \<Rightarrow> 'a list" where "lastn n xs = drop (length xs - n) xs"

lemma lastn_append: "lastn n (lastn n xs @ ys) = lastn n (xs @ ys)"
proof (cases "length xs \<le> n")
  case False
  have "drop (n + length ys - n) (drop (length xs - n) xs) @ drop (n + length ys - n - n) ys = drop (length xs + length ys - n) (xs @ ys)"
    if "length ys \<le> n" using False that by (simp add: add.commute)
  moreover have "drop (length ys) (drop (length xs - n) xs @ ys) = drop (length xs + length ys - n) (xs @ ys)"
    using False by (simp add: add.commute)
  ultimately show ?thesis using False by (simp add: lastn_def)
qed (simp add: lastn_def)

lemma lastn_suffix: "lastn n (xs @ lastn n ys) = lastn n (xs @ ys)"
proof (cases "length ys \<le> n")
  case False
  then show ?thesis by (simp add: lastn_def)
qed (simp add: lastn_def)

lemma map_lastn: "map f (lastn n xs) = lastn n (map f xs)"
  by (simp add: lastn_def drop_map)

lemma length_lastn: "length (lastn n xs) \<le> n"
  by (simp add: lastn_def)

text \<open>The content of an entry, without the identifier the table gives it.\<close>

definition log_body :: "LogEntry \<Rightarrow> LogEntry" where "log_body e = e\<lparr>le_ID := 0\<rparr>"

definition log_stamp :: "time \<Rightarrow> LogEntry \<Rightarrow> LogEntry" where
  "log_stamp now e = log_body (e\<lparr>le_Timestamp := (if le_Timestamp e = 0 then now else le_Timestamp e)\<rparr>)"

lemma insert_log_body: "map log_body (insert_log fresh now e rows) = map log_body rows @ [log_stamp now e]"
  by (simp add: insert_log_def log_body_def log_stamp_def)

lemma fold_insert_body: "map log_body (fold (insert_log fresh now) es rows) = map log_body rows @ map (log_stamp now) es"
  by (induction es arbitrary: rows) (simp_all add: insert_log_body)

lemma trim_lastn: "log_ok rows \<Longrightarrow> trim_logs rows = lastn MaxLogEntries rows"
  by (simp add: trim_logs_take lastn_def)

inductive log_reach :: "(int list \<Rightarrow> int) \<Rightarrow> LogEntry list \<Rightarrow> bool" for fresh where
  log_empty: "log_reach fresh []"
| log_one: "log_reach fresh rows \<Longrightarrow> Log fresh db now e rows = (err, rows') \<Longrightarrow> log_reach fresh rows'"
| log_many: "log_reach fresh rows \<Longrightarrow> LogBatch fresh db now es rows = (err, rows') \<Longrightarrow> log_reach fresh rows'"
| log_clear: "log_reach fresh rows \<Longrightarrow> ClearLogs db rows = (err, rows') \<Longrightarrow> log_reach fresh rows'"

lemma log_reach_ok: "log_reach fresh rows \<Longrightarrow> fresh_ids fresh \<Longrightarrow> log_ok rows"
proof (induction rule: log_reach.induct)
  case (log_one rows db now e err rows')
  then have "log_ok (insert_log fresh now e rows)" by (simp add: insert_log_ok)
  then show ?case using log_one trim_lastn log_ok_drop
    by (auto simp: Log_def lastn_def split: sum.splits simp: sql_write_iff)
next
  case (log_many rows db now es err rows')
  then have "log_ok (fold (insert_log fresh now) es' rows)" for es' by (simp add: fold_insert_ok)
  then show ?case using log_many trim_lastn log_ok_drop
    by (auto simp: LogBatch_def lastn_def Let_def split: sum.splits if_splits simp: sql_write_iff)
next
  case (log_clear rows db err rows')
  then show ?case by (auto simp: ClearLogs_def log_ok_def split: option.splits)
qed (simp add: log_ok_def)

definition log_each :: "(int list \<Rightarrow> int) \<Rightarrow> time \<Rightarrow> LogEntry list \<Rightarrow> LogEntry list \<Rightarrow> LogEntry list" where
  "log_each fresh now es rows = fold (\<lambda>e rows. snd (Log fresh no_fault now e rows)) es rows"

lemma Log_body:
  assumes "fresh_ids fresh" "log_ok rows"
  shows "log_ok (snd (Log fresh no_fault now e rows))"
    "map log_body (snd (Log fresh no_fault now e rows)) = lastn MaxLogEntries (map log_body rows @ [log_stamp now e])"
proof -
  have r: "snd (Log fresh no_fault now e rows) = lastn MaxLogEntries (insert_log fresh now e rows)"
    using trim_lastn [OF insert_log_ok [OF assms]] by (simp add: Log_def sql_write_def no_fault_def)
  show "log_ok (snd (Log fresh no_fault now e rows))" unfolding r lastn_def by (intro log_ok_drop insert_log_ok assms)
  show "map log_body (snd (Log fresh no_fault now e rows)) = lastn MaxLogEntries (map log_body rows @ [log_stamp now e])"
    unfolding r map_lastn insert_log_body ..
qed

lemma log_each_body:
  assumes "fresh_ids fresh" "log_ok rows" "es \<noteq> []"
  shows "map log_body (log_each fresh now es rows) = lastn MaxLogEntries (map log_body rows @ map (log_stamp now) es)"
  using assms(2,3)
proof (induction es arbitrary: rows)
  case (Cons e es)
  note one = Log_body [OF assms(1) Cons.prems(1), of now e]
  show ?case
  proof (cases "es = []")
    case True
    then show ?thesis using one by (simp add: log_each_def)
  next
    case False
    have "map log_body (log_each fresh now (e # es) rows) = lastn MaxLogEntries (map log_body (snd (Log fresh no_fault now e rows)) @ map (log_stamp now) es)"
      using Cons.IH [OF one(1) False] by (simp add: log_each_def)
    then show ?thesis by (simp add: one(2) lastn_append)
  qed
qed simp

text \<open>C24: Writing queries in batches leaves the same log as writing them one by one. In every log the store
  can reach, a successful batch yields the contents that logging each entry in turn yields: the
  newest \<open>MaxLogEntries\<close> of the old contents followed by the batch, time stamps filled in.\<close>
theorem LogBatch_equiv:
  assumes "fresh_ids fresh" "log_reach fresh rows" "es \<noteq> []" "LogBatch fresh no_fault now es rows = (err, rows')"
  shows "err = None \<and> length rows' \<le> MaxLogEntries
    \<and> map log_body rows' = map log_body (log_each fresh now es rows)
    \<and> map log_body rows' = lastn MaxLogEntries (map log_body rows @ map (log_stamp now) es)"
proof -
  have ok: "log_ok rows" by (rule log_reach_ok) fact+
  have es': "(if MaxLogEntries < length es then drop (length es - MaxLogEntries) es else es) = lastn MaxLogEntries es"
    by (simp add: lastn_def)
  have r: "err = None" "rows' = lastn MaxLogEntries (fold (insert_log fresh now) (lastn MaxLogEntries es) rows)"
    using assms(3,4) trim_lastn [OF fold_insert_ok [OF assms(1) ok]] unfolding LogBatch_def es'
    by (auto simp: sql_write_def no_fault_def Let_def)
  have "map log_body rows' = lastn MaxLogEntries (map log_body rows @ map (log_stamp now) es)"
    unfolding r map_lastn fold_insert_body lastn_suffix ..
  then show ?thesis using r length_lastn log_each_body [OF assms(1) ok assms(3)] by metis
qed

theorem LogBatch_equiv_witness:
  "\<exists>rows'. LogBatch next_rowid no_fault 5 [\<lparr>le_ID = 3, le_Timestamp = 0, le_QueryName = ''x.com'', le_Action = ''block'', le_RuleID = 1, le_Interface = [], le_ClientIP = []\<rparr>] [] = (None, rows')
    \<and> length rows' \<le> MaxLogEntries \<and> map le_Timestamp (map log_body rows') = [5]"
proof -
  let ?e = "\<lparr>le_ID = 3, le_Timestamp = 0, le_QueryName = ''x.com'', le_Action = ''block'', le_RuleID = 1, le_Interface = [], le_ClientIP = []\<rparr>"
  obtain err rows' where b: "LogBatch next_rowid no_fault 5 [?e] [] = (err, rows')" by fastforce
  have "map log_body rows' = [log_stamp 5 ?e]" "err = None" "length rows' \<le> MaxLogEntries"
    using LogBatch_equiv [OF fresh_next_rowid log_empty _ b] by (auto simp: lastn_def MaxLogEntries_def)
  moreover have "map le_Timestamp [log_stamp 5 ?e] = [5]" by (simp add: log_stamp_def log_body_def)
  ultimately show ?thesis using b by metis
qed

section \<open>Custom groups\<close>

text \<open>What is stored of a group: a prefixed key, a name, and distinct accepted patterns.\<close>

definition stored_group :: "CustomGroup \<Rightarrow> bool" where
  "stored_group g \<longleftrightarrow> HasPrefix (cg_Key g) CustomGroupPrefix \<and> cg_Key g \<noteq> CustomGroupPrefix \<and> cg_DisplayName g \<noteq> []
     \<and> distinct (cg_Patterns g) \<and> list_all (\<lambda>p. Validate p = None) (cg_Patterns g)"

interpretation groups_table: unique_table cg_ID "\<lambda>i g. g\<lparr>cg_ID := i\<rparr>" groups_uniq stored_group
  by unfold_locales (simp_all add: stored_group_def groups_uniq_def distinct_map_filter)

lemma sanitize_patterns_ok:
  "sanitize_patterns ps out = Inr out' \<Longrightarrow> distinct out \<and> list_all (\<lambda>p. Validate p = None) out
    \<Longrightarrow> distinct out' \<and> list_all (\<lambda>p. Validate p = None) out'"
  by (induction ps arbitrary: out) (auto simp: Let_def split: if_splits option.splits)

lemma group_key_prefix: "HasPrefix (SlugifyGroupKey s) CustomGroupPrefix" "canonGroupKey k \<noteq> [] \<Longrightarrow> HasPrefix (canonGroupKey k) CustomGroupPrefix"
  by (auto simp: SlugifyGroupKey_def canonGroupKey_def Let_def)

lemma sanitizeGroup_stored: "sanitizeGroup g0 = Inr g \<Longrightarrow> stored_group g"
  using sanitize_patterns_ok group_key_prefix
  by (fastforce simp: sanitizeGroup_def stored_group_def Let_def split: if_splits sum.splits)

lemma groups_ops_ok:
  assumes "table_ok cg_ID groups_uniq stored_group rows" "fresh_ids fresh"
  shows "table_ok cg_ID groups_uniq stored_group (snd (AddCustomGroup fresh db now g0 rows))"
    "table_ok cg_ID groups_uniq stored_group (snd (UpdateCustomGroup db now g0 rows))"
    "table_ok cg_ID groups_uniq stored_group (snd (DeleteCustomGroup db key rows))"
proof -
  show "table_ok cg_ID groups_uniq stored_group (snd (AddCustomGroup fresh db now g0 rows))"
  proof (cases "sanitizeGroup g0")
    case (Inr g)
    have "stored_group (g\<lparr>cg_CreatedAt := now, cg_UpdatedAt := now\<rparr>)" using sanitizeGroup_stored [OF Inr] by (simp add: stored_group_def)
    then show ?thesis using groups_table.insert_ok [OF assms(2,1), where f = "db 0" and r = "g\<lparr>cg_CreatedAt := now, cg_UpdatedAt := now\<rparr>"] assms(1) Inr
      by (auto simp: AddCustomGroup_def Let_def split: sum.splits)
  qed (use assms(1) in \<open>simp add: AddCustomGroup_def\<close>)
  show "table_ok cg_ID groups_uniq stored_group (snd (UpdateCustomGroup db now g0 rows))"
  proof (cases "sanitizeGroup g0")
    case (Inr g)
    let ?P = "\<lambda>x. cg_Key x = cg_Key g"
    let ?g = "\<lambda>x. x\<lparr>cg_DisplayName := cg_DisplayName g, cg_Description := cg_Description g, cg_Patterns := cg_Patterns g,
                       cg_Color := cg_Color g, cg_UpdatedAt := now\<rparr>"
    have "cg_ID (?g x) = cg_ID x \<and> stored_group (?g x)" if "?P x" for x
      using sanitizeGroup_stored [OF Inr] that by (simp add: stored_group_def)
    then have "table_ok cg_ID groups_uniq stored_group rows'" if "sql_write (db 0) groups_uniq (update_where ?P ?g rows) = Inr rows'" for rows'
      using groups_table.update_ok [OF assms(1) _ that] by blast
    then show ?thesis using assms(1) Inr by (auto simp: UpdateCustomGroup_def split: sum.splits)
  qed (use assms(1) in \<open>simp add: UpdateCustomGroup_def\<close>)
  show "table_ok cg_ID groups_uniq stored_group (snd (DeleteCustomGroup db key rows))"
    using assms(1) groups_table.delete_ok [OF assms(1)] by (auto simp: DeleteCustomGroup_def Let_def sql_write_iff split: sum.splits)
qed

end
