(* ===== verification/Proxy_Store.thy ===== *)
theory Proxy_Store
  imports Interfaces Sql_Table
begin

text \<open>
  \<open>core/proxy/store.go\<close>: the table of upstream proxies and its cache by name. The state holds
  the rows, the cache (\<open>byName\<close>, none when it is not loaded), the reload that holds \<open>fillMu\<close> (with
  the rows it has read, once it has), and the number of writes between their statement and
  their invalidation. The operations run alone are definitions of this state; \<open>proxies_step\<close> is the
  interleaving of their atomic parts, of which each operation is one run. In every reachable state
  with no write in flight a lookup returns what the table holds.
\<close>

record Proxy =
  px_ID :: int
  px_Name :: string
  px_Protocol :: string
  px_Host :: string
  px_Port :: int
  px_Username :: string
  px_Password :: string
  px_CreatedAt :: time
  px_UpdatedAt :: time

datatype proxy_error =
    PxInvalidName | PxInvalidProtocol | PxInvalidHost | PxInvalidPort | PxNotFound | PxDuplicate
  | PxDb string string

definition ProtocolSOCKS5 :: string where "ProtocolSOCKS5 = ''socks5''"
definition ProtocolHTTP :: string where "ProtocolHTTP = ''http''"

definition ValidProtocol :: "string \<Rightarrow> bool" where
  "ValidProtocol v \<longleftrightarrow> v = ProtocolSOCKS5 \<or> v = ProtocolHTTP"

definition proxy_validate :: "Proxy \<Rightarrow> proxy_error + Proxy" where
  "proxy_validate p0 =
     (let p = p0\<lparr>px_Name := normalizeName (px_Name p0)\<rparr> in
      if \<not> ValidName (px_Name p) then Inl PxInvalidName
      else if \<not> ValidProtocol (px_Protocol p) then Inl PxInvalidProtocol
      else
        (let p1 = p\<lparr>px_Host := TrimSpace (px_Host p)\<rparr> in
         if px_Host p1 = [] then Inl PxInvalidHost
         else if px_Port p1 < 1 \<or> 65535 < px_Port p1 then Inl PxInvalidPort
         else Inr p1))"

definition proxies_uniq :: "Proxy list \<Rightarrow> bool" where
  "proxies_uniq rows \<longleftrightarrow> distinct (map px_Name rows)"

record proxy_store =
  ps_rows :: "Proxy list"
  ps_byName :: "(string \<rightharpoonup> Proxy) option"
  ps_fill :: "Proxy list option option"
  ps_writes :: nat

definition new_store :: "Proxy list \<Rightarrow> proxy_store" where
  "new_store rows = \<lparr>ps_rows = rows, ps_byName = None, ps_fill = None, ps_writes = 0\<rparr>"

definition invalidate :: "proxy_store \<Rightarrow> proxy_store" where
  "invalidate st = st\<lparr>ps_byName := None\<rparr>"

definition name_map :: "Proxy list \<Rightarrow> (string \<rightharpoonup> Proxy)" where
  "name_map rows = fold (\<lambda>p m. m(px_Name p \<mapsto> p)) rows Map.empty"

definition names :: "sql_fault \<Rightarrow> proxy_store \<Rightarrow> (proxy_error + (string \<rightharpoonup> Proxy)) \<times> proxy_store" where
  "names db st =
     (case ps_byName st of
        Some m \<Rightarrow> (Inr m, st)
      | None \<Rightarrow>
          (case db 0 of
             Some e \<Rightarrow> (Inl (PxDb [] e), st)
           | None \<Rightarrow> (Inr (name_map (ps_rows st)), st\<lparr>ps_byName := Some (name_map (ps_rows st))\<rparr>)))"

text \<open>The statement of each write, on the rows.\<close>

definition insert_proxy :: "(int list \<Rightarrow> int) \<Rightarrow> sql_fault \<Rightarrow> time \<Rightarrow> Proxy \<Rightarrow> Proxy list \<Rightarrow> (proxy_error + Proxy) \<times> Proxy list" where
  "insert_proxy fresh db now p rows =
     (let row = p\<lparr>px_CreatedAt := now, px_UpdatedAt := now\<rparr>\<lparr>px_ID := fresh (map px_ID rows)\<rparr> in
      case sql_write (db 0) proxies_uniq (rows @ [row]) of
        Inl e \<Rightarrow> (Inl (if isUniqueErr e then PxDuplicate else PxDb ''insert proxy'' e), rows)
      | Inr rows' \<Rightarrow> (Inr row, rows'))"

definition update_fields :: "time \<Rightarrow> Proxy \<Rightarrow> Proxy \<Rightarrow> Proxy" where
  "update_fields now p x =
     x\<lparr>px_Name := px_Name p, px_Protocol := px_Protocol p, px_Host := px_Host p, px_Port := px_Port p,
       px_Username := px_Username p, px_UpdatedAt := now,
       px_Password := (if px_Password p \<noteq> [] then px_Password p else px_Password x)\<rparr>"

definition update_proxy :: "sql_fault \<Rightarrow> time \<Rightarrow> Proxy \<Rightarrow> Proxy list \<Rightarrow> proxy_error option \<times> Proxy list" where
  "update_proxy db now p rows =
     (case sql_write (db 0) proxies_uniq (update_where (\<lambda>x. px_ID x = px_ID p) (update_fields now p) rows) of
        Inl e \<Rightarrow> (Some (if isUniqueErr e then PxDuplicate else PxDb ''update proxy'' e), rows)
      | Inr rows' \<Rightarrow> (if rows_affected (\<lambda>x. px_ID x = px_ID p) rows = 0 then Some PxNotFound else None, rows'))"

definition delete_proxy :: "sql_fault \<Rightarrow> int \<Rightarrow> Proxy list \<Rightarrow> proxy_error option \<times> Proxy list" where
  "delete_proxy db i rows =
     (case db 0 of
        Some e \<Rightarrow> (Some (PxDb ''delete proxy'' e), rows)
      | None \<Rightarrow> (if rows_affected (\<lambda>x. px_ID x = i) rows = 0 then Some PxNotFound else None, delete_where (\<lambda>x. px_ID x = i) rows))"

definition proxy_Add :: "(int list \<Rightarrow> int) \<Rightarrow> sql_fault \<Rightarrow> time \<Rightarrow> Proxy \<Rightarrow> proxy_store \<Rightarrow> (proxy_error + Proxy) \<times> proxy_store" where
  "proxy_Add fresh db now p st =
     (case proxy_validate p of
        Inl e \<Rightarrow> (Inl e, st)
      | Inr p1 \<Rightarrow>
          (case insert_proxy fresh db now p1 (ps_rows st) of
             (Inl e, _) \<Rightarrow> (Inl e, st)
           | (Inr row, rows') \<Rightarrow> (Inr row, invalidate (st\<lparr>ps_rows := rows'\<rparr>))))"

definition proxy_Update :: "sql_fault \<Rightarrow> time \<Rightarrow> Proxy \<Rightarrow> proxy_store \<Rightarrow> proxy_error option \<times> proxy_store" where
  "proxy_Update db now p st =
     (case proxy_validate p of
        Inl e \<Rightarrow> (Some e, st)
      | Inr p1 \<Rightarrow> (case update_proxy db now p1 (ps_rows st) of (res, rows') \<Rightarrow> (res, invalidate (st\<lparr>ps_rows := rows'\<rparr>))))"

definition proxy_Delete :: "sql_fault \<Rightarrow> int \<Rightarrow> proxy_store \<Rightarrow> proxy_error option \<times> proxy_store" where
  "proxy_Delete db i st =
     (case delete_proxy db i (ps_rows st) of (res, rows') \<Rightarrow> (res, invalidate (st\<lparr>ps_rows := rows'\<rparr>)))"

definition proxy_Get :: "sql_fault \<Rightarrow> int \<Rightarrow> proxy_store \<Rightarrow> proxy_error + Proxy" where
  "proxy_Get db i st =
     (case db 0 of
        Some e \<Rightarrow> Inl (PxDb [] e)
      | None \<Rightarrow> (case find (\<lambda>x. px_ID x = i) (ps_rows st) of None \<Rightarrow> Inl PxNotFound | Some p \<Rightarrow> Inr p))"

definition GetByName :: "sql_fault \<Rightarrow> string \<Rightarrow> proxy_store \<Rightarrow> (proxy_error + Proxy) \<times> proxy_store" where
  "GetByName db name st =
     (let n = normalizeName name in
      if n = [] then (Inl PxNotFound, st)
      else case names db st of
        (Inl e, st') \<Rightarrow> (Inl e, st')
      | (Inr m, st') \<Rightarrow> (case m n of None \<Rightarrow> (Inl PxNotFound, st') | Some p \<Rightarrow> (Inr p, st')))"

definition proxy_List :: "sql_fault \<Rightarrow> proxy_store \<Rightarrow> proxy_error + Proxy list" where
  "proxy_List db st = (case db 0 of Some e \<Rightarrow> Inl (PxDb [] e) | None \<Rightarrow> Inr (sort_key px_Name (ps_rows st)))"

text \<open>The names of a rule checked against a table; the three stores share these loops.\<close>

fun canon_names :: "string list \<Rightarrow> string list \<Rightarrow> string list" where
  "canon_names seen [] = []"
| "canon_names seen (n0 # ns) =
     (let n = normalizeName n0 in
      if n = [] \<or> n \<in> set seen then canon_names seen ns else n # canon_names (n # seen) ns)"

definition missing_names :: "string list \<Rightarrow> string list \<Rightarrow> string list" where
  "missing_names canon have = filter (\<lambda>n. n \<notin> set have) canon"

definition NamesExist :: "sql_fault \<Rightarrow> string list \<Rightarrow> proxy_store \<Rightarrow> proxy_error + string list" where
  "NamesExist db ns st =
     (if ns = [] then Inr []
      else
        (let canon = canon_names [] ns in
         case db 0 of
           Some e \<Rightarrow> Inl (PxDb ''lookup proxies'' e)
         | None \<Rightarrow> Inr (missing_names canon (filter (\<lambda>n. n \<in> set canon) (map px_Name (ps_rows st))))))"

section \<open>The table\<close>

definition stored_proxy :: "Proxy \<Rightarrow> bool" where
  "stored_proxy p \<longleftrightarrow> stored_name (px_Name p) \<and> ValidProtocol (px_Protocol p) \<and> px_Host p \<noteq> []
     \<and> TrimSpace (px_Host p) = px_Host p \<and> 1 \<le> px_Port p \<and> px_Port p \<le> 65535"

abbreviation proxies_ok :: "Proxy list \<Rightarrow> bool" where
  "proxies_ok \<equiv> table_ok px_ID proxies_uniq stored_proxy"

interpretation proxies_table: unique_table px_ID "\<lambda>i p. p\<lparr>px_ID := i\<rparr>" proxies_uniq stored_proxy
  by unfold_locales (simp_all add: stored_proxy_def proxies_uniq_def distinct_map_filter)

lemma proxy_validate_stored:
  assumes "proxy_validate p = Inr p1"
  shows "stored_proxy p1" "px_Name p1 = normalizeName (px_Name p)"
proof -
  have p1: "p1 = p\<lparr>px_Name := normalizeName (px_Name p), px_Host := TrimSpace (px_Host p)\<rparr>"
    and v: "ValidName (normalizeName (px_Name p))" "ValidProtocol (px_Protocol p)" "TrimSpace (px_Host p) \<noteq> []"
      "1 \<le> px_Port p" "px_Port p \<le> 65535"
    using assms by (auto simp: proxy_validate_def Let_def split: if_splits)
  show "stored_proxy p1" using v by (simp add: p1 stored_proxy_def ValidName_normal)
  show "px_Name p1 = normalizeName (px_Name p)" by (simp add: p1)
qed

lemma insert_proxy_ok:
  assumes "fresh_ids fresh" "proxies_ok rows" "stored_proxy p" "insert_proxy fresh db now p rows = (res, rows')"
  shows "proxies_ok rows'"
proof (cases res)
  case (Inl e)
  then show ?thesis using assms(2,4) by (auto simp: insert_proxy_def Let_def split: sum.splits)
next
  case (Inr row)
  have "stored_proxy (p\<lparr>px_CreatedAt := now, px_UpdatedAt := now\<rparr>)" using assms(3) by (simp add: stored_proxy_def)
  moreover have "sql_write (db 0) proxies_uniq (rows @ [p\<lparr>px_CreatedAt := now, px_UpdatedAt := now\<rparr>\<lparr>px_ID := fresh (map px_ID rows)\<rparr>]) = Inr rows'"
    using assms(4) Inr by (auto simp: insert_proxy_def Let_def split: sum.splits)
  ultimately show ?thesis by (rule proxies_table.insert_ok [OF assms(1,2)])
qed

lemma update_proxy_ok:
  assumes "proxies_ok rows" "stored_proxy p" "update_proxy db now p rows = (res, rows')"
  shows "proxies_ok rows'"
proof (cases "sql_write (db 0) proxies_uniq (update_where (\<lambda>x. px_ID x = px_ID p) (update_fields now p) rows)")
  case (Inr rows1)
  then have "rows' = rows1" using assms(3) by (simp add: update_proxy_def)
  moreover have "px_ID (update_fields now p r) = px_ID r \<and> stored_proxy (update_fields now p r)" if "px_ID r = px_ID p" for r
    using assms(2) that by (simp add: update_fields_def stored_proxy_def)
  ultimately show ?thesis using proxies_table.update_ok [OF assms(1) _ Inr] by blast
qed (use assms(1,3) in \<open>simp add: update_proxy_def\<close>)

lemma delete_proxy_ok:
  assumes "proxies_ok rows" "delete_proxy db i rows = (res, rows')"
  shows "proxies_ok rows'"
  using assms proxies_table.delete_ok [OF assms(1)] by (auto simp: delete_proxy_def split: option.splits)

section \<open>Interleaving\<close>

text \<open>
  A write runs its statement and then, under \<open>fillMu\<close>, drops the cache; a lookup that found no cache
  takes \<open>fillMu\<close>, looks again, reads the rows and stores the map. Any number of these run at once.
\<close>

inductive proxies_step :: "(int list \<Rightarrow> int) \<Rightarrow> proxy_store \<Rightarrow> proxy_store \<Rightarrow> bool" for fresh where
  step_add: "proxy_validate p = Inr p1 \<Longrightarrow> insert_proxy fresh db now p1 (ps_rows st) = (Inr row, rows') \<Longrightarrow>
    proxies_step fresh st (st\<lparr>ps_rows := rows', ps_writes := Suc (ps_writes st)\<rparr>)"
| step_update: "proxy_validate p = Inr p1 \<Longrightarrow> update_proxy db now p1 (ps_rows st) = (res, rows') \<Longrightarrow>
    proxies_step fresh st (st\<lparr>ps_rows := rows', ps_writes := Suc (ps_writes st)\<rparr>)"
| step_delete: "delete_proxy db i (ps_rows st) = (res, rows') \<Longrightarrow>
    proxies_step fresh st (st\<lparr>ps_rows := rows', ps_writes := Suc (ps_writes st)\<rparr>)"
| step_invalidate: "ps_fill st = None \<Longrightarrow> ps_writes st = Suc n \<Longrightarrow>
    proxies_step fresh st (invalidate (st\<lparr>ps_writes := n\<rparr>))"
| step_lock: "ps_fill st = None \<Longrightarrow> proxies_step fresh st (st\<lparr>ps_fill := Some None\<rparr>)"
| step_unlock: "ps_fill st = Some None \<Longrightarrow> proxies_step fresh st (st\<lparr>ps_fill := None\<rparr>)"
| step_read: "ps_fill st = Some None \<Longrightarrow> ps_byName st = None \<Longrightarrow>
    proxies_step fresh st (st\<lparr>ps_fill := Some (Some (ps_rows st))\<rparr>)"
| step_store: "ps_fill st = Some (Some rows) \<Longrightarrow>
    proxies_step fresh st (st\<lparr>ps_byName := Some (name_map rows), ps_fill := None\<rparr>)"

inductive proxies_reach :: "(int list \<Rightarrow> int) \<Rightarrow> proxy_store \<Rightarrow> bool" for fresh where
  reach_open: "proxies_reach fresh (new_store [])"
| reach_step: "proxies_reach fresh st \<Longrightarrow> proxies_step fresh st st' \<Longrightarrow> proxies_reach fresh st'"

definition coherent :: "proxy_store \<Rightarrow> bool" where
  "coherent st \<longleftrightarrow> proxies_ok (ps_rows st)
     \<and> (\<forall>m. ps_byName st = Some m \<longrightarrow> m = name_map (ps_rows st) \<or> 0 < ps_writes st)
     \<and> (\<forall>rows. ps_fill st = Some (Some rows) \<longrightarrow> rows = ps_rows st \<or> 0 < ps_writes st)"

lemma coherent_step:
  assumes "fresh_ids fresh" "proxies_step fresh st st'" "coherent st"
  shows "coherent st'"
  using assms(2,3)
proof cases
  case (step_add p p1 db now row rows')
  then show ?thesis using assms(3) insert_proxy_ok [OF assms(1) _ proxy_validate_stored(1)] by (fastforce simp: coherent_def)
next
  case (step_update p p1 db now res rows')
  then show ?thesis using assms(3) update_proxy_ok [OF _ proxy_validate_stored(1)] by (fastforce simp: coherent_def)
next
  case (step_delete db i res rows')
  then show ?thesis using assms(3) delete_proxy_ok by (fastforce simp: coherent_def)
qed (auto simp: coherent_def invalidate_def)

lemma coherent_reach:
  assumes "fresh_ids fresh" "proxies_reach fresh st"
  shows "coherent st"
  using assms(2)
proof induction
  case reach_open
  show ?case by (simp add: coherent_def new_store_def proxies_table.empty_ok)
qed (rule coherent_step [OF assms(1)])

text \<open>Each operation run alone is a run of steps.\<close>

lemma run_write:
  assumes "proxies_step fresh st (st\<lparr>ps_rows := rows', ps_writes := Suc (ps_writes st)\<rparr>)" "ps_fill st = None"
  shows "(proxies_step fresh)\<^sup>*\<^sup>* st (invalidate (st\<lparr>ps_rows := rows'\<rparr>))"
proof -
  let ?mid = "st\<lparr>ps_rows := rows', ps_writes := Suc (ps_writes st)\<rparr>"
  have "proxies_step fresh ?mid (invalidate (?mid\<lparr>ps_writes := ps_writes st\<rparr>))"
    by (rule step_invalidate) (use assms(2) in simp_all)
  moreover have "?mid\<lparr>ps_writes := ps_writes st\<rparr> = st\<lparr>ps_rows := rows'\<rparr>" by simp
  ultimately show ?thesis using assms(1) by (metis (no_types) converse_rtranclp_into_rtranclp r_into_rtranclp)
qed

lemma run_ops:
  assumes "ps_fill st = None"
  shows "proxy_Add fresh db now p st = (r1, st1) \<Longrightarrow> (proxies_step fresh)\<^sup>*\<^sup>* st st1"
    and "proxy_Update db now p st = (r2, st2) \<Longrightarrow> (proxies_step fresh)\<^sup>*\<^sup>* st st2"
    and "proxy_Delete db i st = (r3, st3) \<Longrightarrow> (proxies_step fresh)\<^sup>*\<^sup>* st st3"
    and "names db st = (r4, st4) \<Longrightarrow> (proxies_step fresh)\<^sup>*\<^sup>* st st4"
proof -
  show "(proxies_step fresh)\<^sup>*\<^sup>* st st1" if "proxy_Add fresh db now p st = (r1, st1)"
    using that run_write [OF step_add assms] by (auto simp: proxy_Add_def split: sum.splits prod.splits)
  show "(proxies_step fresh)\<^sup>*\<^sup>* st st2" if "proxy_Update db now p st = (r2, st2)"
    using that run_write [OF step_update assms] by (auto simp: proxy_Update_def split: sum.splits prod.splits)
  show "(proxies_step fresh)\<^sup>*\<^sup>* st st3" if "proxy_Delete db i st = (r3, st3)"
    using that run_write [OF step_delete assms] by (auto simp: proxy_Delete_def split: prod.splits)
  show "(proxies_step fresh)\<^sup>*\<^sup>* st st4" if n: "names db st = (r4, st4)"
  proof (cases "ps_byName st = None \<and> db 0 = None")
    case True
    let ?a = "st\<lparr>ps_fill := Some None\<rparr>" and ?b = "st\<lparr>ps_fill := Some (Some (ps_rows st))\<rparr>"
    have "proxies_step fresh st ?a" by (rule step_lock [OF assms])
    moreover have "proxies_step fresh ?a ?b" using step_read [of ?a] True by simp
    moreover have "st4 = ?b\<lparr>ps_byName := Some (name_map (ps_rows st)), ps_fill := None\<rparr>"
      using n True assms by (auto simp: names_def)
    then have "proxies_step fresh ?b st4" using step_store [of ?b "ps_rows st"] by simp
    ultimately show ?thesis by (meson r_into_rtranclp rtranclp.rtrancl_into_rtrancl)
  next
    case False
    then have "st4 = st" using n by (auto simp: names_def split: option.splits)
    then show ?thesis by simp
  qed
qed

section \<open>Lookups\<close>

lemma name_map_find_acc:
  "distinct (map px_Name rows) \<Longrightarrow>
    fold (\<lambda>p m. m(px_Name p \<mapsto> p)) rows m n = (case find (\<lambda>p. px_Name p = n) rows of Some p \<Rightarrow> Some p | None \<Rightarrow> m n)"
proof (induction rows arbitrary: m)
  case (Cons p rows)
  have "find (\<lambda>q. px_Name q = n) rows = None" if "px_Name p = n"
    using that Cons(2) by (simp add: find_None_iff) (metis imageI)
  then show ?case using Cons by (auto split: option.splits)
qed simp

lemma name_map_find: "distinct (map px_Name rows) \<Longrightarrow> name_map rows n = find (\<lambda>p. px_Name p = n) rows"
  by (simp add: name_map_def name_map_find_acc split: option.split)

lemma GetByName_settled:
  assumes "coherent st" "ps_writes st = 0"
  shows "fst (GetByName no_fault name st) =
    (case find (\<lambda>p. px_Name p = normalizeName name) (ps_rows st) of Some p \<Rightarrow> Inr p | None \<Rightarrow> Inl PxNotFound)"
proof -
  have d: "distinct (map px_Name (ps_rows st))" and ok: "\<forall>p\<in>set (ps_rows st). px_Name p \<noteq> []"
    using assms(1) by (auto simp: coherent_def table_ok_def proxies_uniq_def stored_proxy_def stored_name_def)
  have "find (\<lambda>p. px_Name p = []) (ps_rows st) = None" using ok by (auto simp: find_None_iff)
  moreover have "fst (names no_fault st) = Inr (name_map (ps_rows st))"
    using assms by (auto simp: names_def no_fault_def coherent_def split: option.splits)
  ultimately show ?thesis using name_map_find [OF d]
    by (auto simp: GetByName_def Let_def split: option.splits prod.splits)
qed

lemma canon_names_spec:
  "distinct (canon_names seen ns) \<and> set (canon_names seen ns) = normalizeName ` set ns - {[]} - set seen"
  by (induction seen ns rule: canon_names.induct) (auto simp: Let_def)

lemma NamesExist_missing:
  "NamesExist no_fault ns st = Inr missing \<Longrightarrow> distinct missing
    \<and> set missing = {n \<in> normalizeName ` set ns. n \<noteq> [] \<and> n \<notin> px_Name ` set (ps_rows st)}"
  using canon_names_spec [of "[]" ns]
  by (auto simp: NamesExist_def Let_def no_fault_def missing_names_def split: if_splits)

section \<open>Properties\<close>

text \<open>C27: The name cache never serves what the table no longer holds. Whatever writes, reloads and
  lookups were interleaved, the table keeps its invariant, and once no write is between its
  statement and its invalidation a lookup returns the row the table holds for the canonical name,
  or not found; in particular a proxy just added is found and one just deleted is not.\<close>
theorem names_coherent:
  assumes "fresh_ids fresh" "proxies_reach fresh st" "ps_writes st = 0" "ps_fill st = None"
  shows "distinct (map px_Name (ps_rows st)) \<and> (\<forall>p\<in>set (ps_rows st). stored_proxy p)
    \<and> fst (GetByName no_fault name st) =
        (case find (\<lambda>p. px_Name p = normalizeName name) (ps_rows st) of Some p \<Rightarrow> Inr p | None \<Rightarrow> Inl PxNotFound)
    \<and> (proxy_Add fresh db now p st = (Inr row, st1) \<longrightarrow> fst (GetByName no_fault (px_Name p) st1) = Inr row)
    \<and> (proxy_Get no_fault i st = Inr q \<and> proxy_Delete no_fault i st = (None, st2) \<longrightarrow>
        fst (GetByName no_fault (px_Name q) st2) = Inl PxNotFound)"
proof -
  note c = coherent_reach [OF assms(1,2)]
  have t: "distinct (map px_Name (ps_rows st))" "\<forall>p\<in>set (ps_rows st). stored_proxy p"
    using c by (simp_all add: coherent_def table_ok_def proxies_uniq_def)
  have settled: "coherent st'" if "(proxies_step fresh)\<^sup>*\<^sup>* st st'" for st'
    using that c by (induction) (auto intro: coherent_step [OF assms(1)])
  have added: "fst (GetByName no_fault (px_Name p) st1) = Inr row" if a: "proxy_Add fresh db now p st = (Inr row, st1)"
  proof -
    obtain p1 where p1: "proxy_validate p = Inr p1" "insert_proxy fresh db now p1 (ps_rows st) = (Inr row, ps_rows st1)"
        "ps_writes st1 = 0"
      using a assms(3) by (auto simp: proxy_Add_def invalidate_def split: sum.splits prod.splits)
    then have r: "ps_rows st1 = ps_rows st @ [row]" "px_Name row = normalizeName (px_Name p)"
      using proxy_validate_stored(2) [OF p1(1)] by (auto simp: insert_proxy_def Let_def sql_write_Inr split: sum.splits)
    have c1: "coherent st1" by (rule settled) (rule run_ops(1) [OF assms(4) a])
    then have "distinct (map px_Name (ps_rows st1))" by (simp add: coherent_def table_ok_def proxies_uniq_def)
    then have "find (\<lambda>x. px_Name x = px_Name row) (ps_rows st1) = Some row" by (rule find_unique) (simp add: r)
    then show ?thesis using GetByName_settled [OF c1 p1(3), of "px_Name p"] r(2) by simp
  qed
  have gone: "fst (GetByName no_fault (px_Name q) st2) = Inl PxNotFound"
    if g: "proxy_Get no_fault i st = Inr q" and d: "proxy_Delete no_fault i st = (None, st2)"
  proof -
    have q: "q \<in> set (ps_rows st)" "px_ID q = i"
      using g by (auto simp: proxy_Get_def no_fault_def find_Some_iff split: option.splits)
    have st2: "ps_rows st2 = delete_where (\<lambda>x. px_ID x = i) (ps_rows st)" "ps_writes st2 = 0"
      using d assms(3) by (auto simp: proxy_Delete_def delete_proxy_def no_fault_def invalidate_def)
    have "px_Name x \<noteq> px_Name q" if "x \<in> set (ps_rows st2)" for x
      using that q t(1) by (auto simp: st2(1) delete_where_def distinct_map inj_on_def)
    then have "find (\<lambda>x. px_Name x = px_Name q) (ps_rows st2) = None" by (auto simp: find_None_iff)
    moreover have "normalizeName (px_Name q) = px_Name q" using t(2) q(1) by (simp add: stored_proxy_def)
    moreover have "coherent st2" by (rule settled) (rule run_ops(3) [OF assms(4) d])
    ultimately show ?thesis using GetByName_settled [of st2 "px_Name q"] st2(2) by simp
  qed
  show ?thesis using t GetByName_settled [OF c assms(3)] added gone by blast
qed

definition demo_proxy :: Proxy where
  "demo_proxy = \<lparr>px_ID = 7, px_Name = '' Tokyo'', px_Protocol = ''socks5'', px_Host = ''127.0.0.1 '', px_Port = 1080,
     px_Username = [], px_Password = [], px_CreatedAt = 0, px_UpdatedAt = 0\<rparr>"

theorem names_coherent_witness:
  "\<exists>row st1. proxy_Add next_rowid no_fault 5 demo_proxy (snd (names no_fault (new_store []))) = (Inr row, st1)
    \<and> fst (GetByName no_fault '' Tokyo'' st1) = Inr row \<and> px_Name row = ''tokyo''"
proof -
  let ?st = "snd (names no_fault (new_store []))"
  have s: "(proxies_step next_rowid)\<^sup>*\<^sup>* (new_store []) ?st"
    by (rule run_ops(4) [of _ no_fault "fst (names no_fault (new_store []))"]) (simp_all add: new_store_def)
  have r: "proxies_reach next_rowid ?st"
    using s by (induction rule: rtranclp_induct) (auto intro: reach_open reach_step)
  have w: "ps_writes ?st = 0" "ps_fill ?st = None" by (simp_all add: names_def no_fault_def new_store_def)
  have v: "proxy_validate demo_proxy = Inr (demo_proxy\<lparr>px_Name := ''tokyo'', px_Host := ''127.0.0.1''\<rparr>)" by code_simp
  obtain row st1 where a: "proxy_Add next_rowid no_fault 5 demo_proxy ?st = (Inr row, st1)" "px_Name row = ''tokyo''"
    using v by (simp add: proxy_Add_def insert_proxy_def Let_def sql_write_def no_fault_def proxies_uniq_def names_def new_store_def)
  then have "fst (GetByName no_fault (px_Name demo_proxy) st1) = Inr row"
    using names_coherent [OF fresh_next_rowid r w] by blast
  then show ?thesis using a by (auto simp: demo_proxy_def)
qed

end
