(* ===== verification/Xray_Store.thy ===== *)
theory Xray_Store
  imports Dns_Proxy Rule_Store Proxy_Store Dialer_Graph "HOL-Library.AList"
begin

text \<open>
  \<open>core/xray/store.go\<close>, \<open>set_store.go\<close> and the settings of \<open>fragment.go\<close>: the tables of xray entries
  and of outbound sets, and the expansion of sets that the decision engine reads. The text form of
  JSON (package encoding/json) is an argument, \<open>json_codec\<close>. Composed with the engine and the DNS
  handler: a rule bound to a set follows its enabled members, and one whose set is disabled, deleted
  or left without members answers NXDOMAIN.
\<close>

record json_codec =
  jc_Unmarshal :: "string \<Rightarrow> string + json"
  jc_MarshalIndent :: "json \<Rightarrow> string + string"

datatype xray_error =
    XInvalidName | XInvalidOutbound string | XMarshal string | XNotFound | XDuplicate | XNoPortFree
  | XDialer dialer_error | XDialerCycle | XInvalidFragment string | XSet set_error | XDb string string

section \<open>Fragment settings\<close>

record Fragment =
  fr_Packets :: string
  fr_Length :: string
  fr_Interval :: string

definition DefaultFragment :: Fragment where
  "DefaultFragment = \<lparr>fr_Packets = ''tlshello'', fr_Length = ''100-200'', fr_Interval = ''10-20''\<rparr>"

text \<open>\<open>strconv.Atoi\<close> on a 64-bit machine.\<close>

definition Atoi :: "string \<Rightarrow> int option" where
  "Atoi s =
     (let neg = HasPrefix s ''-'';
          ds = (if neg \<or> HasPrefix s ''+'' then tl s else s);
          v = (if neg then - int (dec_val ds) else int (dec_val ds))
      in if ds = [] \<or> \<not> list_all is_digit ds \<or> v < - (2 ^ 63) \<or> 2 ^ 63 \<le> v then None else Some v)"

definition parseRange :: "string \<Rightarrow> (int \<times> int) option" where
  "parseRange s =
     (let (a, b) = (case Cut s CHR ''-'' of Some (a, b) \<Rightarrow> (a, Some b) | None \<Rightarrow> (s, None)) in
      case Atoi a of
        None \<Rightarrow> None
      | Some lo \<Rightarrow>
          if lo < 0 then None
          else (case b of
                  None \<Rightarrow> Some (lo, lo)
                | Some t \<Rightarrow> (case Atoi t of None \<Rightarrow> None | Some hi \<Rightarrow> if hi < lo then None else Some (lo, hi))))"

definition strip_blanks :: "string \<Rightarrow> string" where
  "strip_blanks s = filter (\<lambda>c. c \<noteq> CHR '' '') s"

definition range_from :: "int \<Rightarrow> string \<Rightarrow> bool" where
  "range_from low s \<longleftrightarrow> (case parseRange s of Some (lo, hi) \<Rightarrow> low \<le> lo | None \<Rightarrow> False)"

definition fragment_Normalize :: "Fragment \<Rightarrow> xray_error + Fragment" where
  "fragment_Normalize f0 =
     (let p = ToLower (strip_blanks (fr_Packets f0)); l = strip_blanks (fr_Length f0); i = strip_blanks (fr_Interval f0);
          f = \<lparr>fr_Packets = (if p = [] then fr_Packets DefaultFragment else p),
               fr_Length = (if l = [] then fr_Length DefaultFragment else l),
               fr_Interval = (if i = [] then fr_Interval DefaultFragment else i)\<rparr>
      in if fr_Packets f \<noteq> ''tlshello'' \<and> \<not> range_from 1 (fr_Packets f) then Inl (XInvalidFragment ''packets'')
         else if \<not> range_from 1 (fr_Length f) then Inl (XInvalidFragment ''length'')
         else if parseRange (fr_Interval f) = None then Inl (XInvalidFragment ''interval'')
         else Inr f)"

record fragment_codec =
  fc_Unmarshal :: "string \<Rightarrow> Fragment option"
  fc_Encode :: "Fragment \<Rightarrow> string"

definition ParseFragment :: "fragment_codec \<Rightarrow> string \<Rightarrow> Fragment option" where
  "ParseFragment fc s0 = (let s = TrimSpace s0 in if s = [] then None else fc_Unmarshal fc s)"

section \<open>Entries\<close>

record ConfigRow = Config +
  cf_Outbound :: string
  cf_SocksPort :: int
  cf_Enabled :: bool
  cf_Mux :: bool
  cf_Fragment :: string
  cf_SubID :: int
  cf_SubFingerprint :: string
  cf_CreatedAt :: time
  cf_UpdatedAt :: time

text \<open>Setting a member of an object; a null document is the empty map.\<close>

definition obj_set :: "string \<Rightarrow> json \<Rightarrow> json \<Rightarrow> json" where
  "obj_set k v j = (case j of JObj ms \<Rightarrow> JObj (AList.update k v ms) | _ \<Rightarrow> j)"

definition normalizeOutboundJSON :: "json_codec \<Rightarrow> string \<Rightarrow> string \<Rightarrow> xray_error + string" where
  "normalizeOutboundJSON jc raw forceTag =
     (if raw = [] then Inl (XInvalidOutbound [])
      else case jc_Unmarshal jc raw of
        Inl e \<Rightarrow> Inl (XInvalidOutbound e)
      | Inr j \<Rightarrow>
          if \<not> (case j of JObj _ \<Rightarrow> True | JNull \<Rightarrow> True | _ \<Rightarrow> False) then Inl (XInvalidOutbound ''cannot unmarshal into map'')
          else if TrimSpace (as_string (obj_get j ''protocol'')) = [] then Inl (XInvalidOutbound [])
          else (case jc_MarshalIndent jc (obj_set ''tag'' (JStr forceTag) j) of
                  Inl e \<Rightarrow> Inl (XMarshal e)
                | Inr out \<Rightarrow> Inr out))"

definition xray_validate :: "json_codec \<Rightarrow> fragment_codec \<Rightarrow> ConfigRow \<Rightarrow> xray_error + ConfigRow" where
  "xray_validate jc fc c0 =
     (let c = c0\<lparr>cf_Name := normalizeName (cf_Name c0)\<rparr> in
      if \<not> ValidName (cf_Name c) then Inl XInvalidName
      else case normalizeOutboundJSON jc (TrimSpace (cf_Outbound c)) (OutboundTag (cf_Name c)) of
        Inl e \<Rightarrow> Inl e
      | Inr rewritten \<Rightarrow>
          (case ParseDialer (cf_Dialer c) of
             Inl e \<Rightarrow> Inl (XDialer e)
           | Inr refs \<Rightarrow>
               if \<exists>r\<in>set refs. ref_Kind r = DialerKindXray \<and> ref_Name r = cf_Name c then Inl XDialerCycle
               else
                 (let c1 = c\<lparr>cf_Outbound := rewritten, cf_Dialer := FormatDialer refs\<rparr> in
                  case ParseFragment fc (cf_Fragment c1) of
                    Some f \<Rightarrow>
                      (case fragment_Normalize f of
                         Inl e \<Rightarrow> Inl e
                       | Inr f1 \<Rightarrow> Inr (c1\<lparr>cf_Fragment := fc_Encode fc f1\<rparr>))
                  | None \<Rightarrow>
                      if TrimSpace (cf_Fragment c1) \<noteq> [] then Inl (XInvalidFragment [])
                      else Inr (c1\<lparr>cf_Fragment := []\<rparr>))))"

definition configs_uniq :: "ConfigRow list \<Rightarrow> bool" where
  "configs_uniq rows \<longleftrightarrow> distinct (map cf_Name rows) \<and> distinct (map cf_SocksPort rows)"

definition usedPorts :: "ConfigRow list \<Rightarrow> int \<Rightarrow> bool" where
  "usedPorts rows p \<longleftrightarrow> (\<exists>c\<in>set rows. cf_SocksPort c = p)"

text \<open>
  The column \<open>enabled\<close> has a default of true, and the object mapper leaves zero values of such columns
  to the default: a new row is enabled whatever the caller asked for (as in \<open>Rule_Store.insert_rule\<close>).
\<close>

definition insert_config :: "(int list \<Rightarrow> int) \<Rightarrow> ConfigRow \<Rightarrow> ConfigRow list \<Rightarrow> ConfigRow" where
  "insert_config fresh c rows = c\<lparr>cf_Enabled := True\<rparr>\<lparr>cf_ID := fresh (map cf_ID rows)\<rparr>"

definition xray_Add :: "json_codec \<Rightarrow> fragment_codec \<Rightarrow> (int list \<Rightarrow> int) \<Rightarrow> sql_fault \<Rightarrow> time \<Rightarrow> ConfigRow \<Rightarrow> ConfigRow list \<Rightarrow>
    (xray_error + ConfigRow) \<times> ConfigRow list" where
  "xray_Add jc fc fresh db now c0 rows =
     (case xray_validate jc fc c0 of
        Inl e \<Rightarrow> (Inl e, rows)
      | Inr c1 \<Rightarrow>
          (case (if cf_SocksPort c1 \<noteq> 0 then Inr (cf_SocksPort c1)
                 else case db 0 of
                   Some e \<Rightarrow> Inl (XDb [] e)
                 | None \<Rightarrow> (case nextFreePort (usedPorts rows) of None \<Rightarrow> Inl XNoPortFree | Some p \<Rightarrow> Inr p)) of
             Inl e \<Rightarrow> (Inl e, rows)
           | Inr port \<Rightarrow>
               (let row = insert_config fresh (c1\<lparr>cf_CreatedAt := now, cf_UpdatedAt := now, cf_SocksPort := port\<rparr>) rows in
                case sql_write (db 1) configs_uniq (rows @ [row]) of
                  Inl e \<Rightarrow> (Inl (if isUniqueErr e then XDuplicate else XDb ''insert xray config'' e), rows)
                | Inr rows' \<Rightarrow> (Inr row, rows'))))"

definition config_fields :: "time \<Rightarrow> ConfigRow \<Rightarrow> ConfigRow \<Rightarrow> ConfigRow" where
  "config_fields now c x = x\<lparr>cf_Name := cf_Name c, cf_Outbound := cf_Outbound c, cf_Enabled := cf_Enabled c, cf_Dialer := cf_Dialer c,
     cf_Mux := cf_Mux c, cf_Fragment := cf_Fragment c, cf_UpdatedAt := now\<rparr>"

definition xray_Update :: "json_codec \<Rightarrow> fragment_codec \<Rightarrow> sql_fault \<Rightarrow> time \<Rightarrow> ConfigRow \<Rightarrow> ConfigRow list \<Rightarrow>
    xray_error option \<times> ConfigRow list" where
  "xray_Update jc fc db now c0 rows =
     (case xray_validate jc fc c0 of
        Inl e \<Rightarrow> (Some e, rows)
      | Inr c \<Rightarrow>
          (case sql_write (db 0) configs_uniq (update_where (\<lambda>x. cf_ID x = cf_ID c) (config_fields now c) rows) of
             Inl e \<Rightarrow> (Some (if isUniqueErr e then XDuplicate else XDb ''update xray config'' e), rows)
           | Inr rows' \<Rightarrow> (if rows_affected (\<lambda>x. cf_ID x = cf_ID c) rows = 0 then Some XNotFound else None, rows')))"

definition xray_Delete :: "sql_fault \<Rightarrow> int \<Rightarrow> ConfigRow list \<Rightarrow> xray_error option \<times> ConfigRow list" where
  "xray_Delete db i rows =
     (case db 0 of
        Some e \<Rightarrow> (Some (XDb ''delete xray config'' e), rows)
      | None \<Rightarrow> (if rows_affected (\<lambda>x. cf_ID x = i) rows = 0 then Some XNotFound else None, delete_where (\<lambda>x. cf_ID x = i) rows))"

definition xray_Get :: "sql_fault \<Rightarrow> int \<Rightarrow> ConfigRow list \<Rightarrow> xray_error + ConfigRow" where
  "xray_Get db i rows =
     (case db 0 of
        Some e \<Rightarrow> Inl (XDb [] e)
      | None \<Rightarrow> (case find (\<lambda>x. cf_ID x = i) rows of None \<Rightarrow> Inl XNotFound | Some c \<Rightarrow> Inr c))"

definition xray_GetByName :: "sql_fault \<Rightarrow> string \<Rightarrow> ConfigRow list \<Rightarrow> xray_error + ConfigRow" where
  "xray_GetByName db name rows =
     (let n = normalizeName name in
      if n = [] then Inl XNotFound
      else case db 0 of
        Some e \<Rightarrow> Inl (XDb [] e)
      | None \<Rightarrow> (case find (\<lambda>x. cf_Name x = n) rows of None \<Rightarrow> Inl XNotFound | Some c \<Rightarrow> Inr c))"

definition xray_List :: "string option \<Rightarrow> ConfigRow list \<Rightarrow> xray_error + ConfigRow list" where
  "xray_List fault rows = (case fault of Some e \<Rightarrow> Inl (XDb [] e) | None \<Rightarrow> Inr (sort_key cf_Name rows))"

definition xray_NamesExist :: "sql_fault \<Rightarrow> string list \<Rightarrow> ConfigRow list \<Rightarrow> xray_error + string list" where
  "xray_NamesExist db ns rows =
     (if ns = [] then Inr []
      else
        (let canon = canon_names [] ns in
         case db 0 of
           Some e \<Rightarrow> Inl (XDb ''lookup xray configs'' e)
         | None \<Rightarrow> Inr (missing_names canon (filter (\<lambda>n. n \<in> set canon) (map cf_Name rows)))))"

section \<open>Outbound sets\<close>

record SetRow = XraySet +
  set_CreatedAt :: time
  set_UpdatedAt :: time

definition validateSet :: "SetRow \<Rightarrow> xray_error + SetRow" where
  "validateSet s0 =
     (let s = s0\<lparr>set_Name := normalizeName (set_Name s0)\<rparr> in
      if \<not> ValidName (set_Name s) then Inl XInvalidName
      else case ParseSetMembers (set_Members s) of
        Inl e \<Rightarrow> Inl (XSet e)
      | Inr refs \<Rightarrow> Inr (s\<lparr>set_Members := FormatSetMembers refs\<rparr>))"

definition sets_uniq :: "SetRow list \<Rightarrow> bool" where
  "sets_uniq rows \<longleftrightarrow> distinct (map set_Name rows)"

definition insert_set :: "(int list \<Rightarrow> int) \<Rightarrow> SetRow \<Rightarrow> SetRow list \<Rightarrow> SetRow" where
  "insert_set fresh s rows = s\<lparr>set_Enabled := True\<rparr>\<lparr>set_ID := fresh (map set_ID rows)\<rparr>"

definition AddSet :: "(int list \<Rightarrow> int) \<Rightarrow> sql_fault \<Rightarrow> time \<Rightarrow> SetRow \<Rightarrow> SetRow list \<Rightarrow> (xray_error + SetRow) \<times> SetRow list" where
  "AddSet fresh db now s0 rows =
     (case validateSet s0 of
        Inl e \<Rightarrow> (Inl e, rows)
      | Inr s \<Rightarrow>
          (let row = insert_set fresh (s\<lparr>set_CreatedAt := now, set_UpdatedAt := now\<rparr>) rows in
           case sql_write (db 0) sets_uniq (rows @ [row]) of
             Inl e \<Rightarrow> (Inl (if isUniqueErr e then XDuplicate else XDb ''insert xray set'' e), rows)
           | Inr rows' \<Rightarrow> (Inr row, rows')))"

definition set_fields :: "time \<Rightarrow> SetRow \<Rightarrow> SetRow \<Rightarrow> SetRow" where
  "set_fields now s x = x\<lparr>set_Name := set_Name s, set_Members := set_Members s, set_Enabled := set_Enabled s, set_UpdatedAt := now\<rparr>"

definition UpdateSet :: "sql_fault \<Rightarrow> time \<Rightarrow> SetRow \<Rightarrow> SetRow list \<Rightarrow> xray_error option \<times> SetRow list" where
  "UpdateSet db now s0 rows =
     (case validateSet s0 of
        Inl e \<Rightarrow> (Some e, rows)
      | Inr s \<Rightarrow>
          (case sql_write (db 0) sets_uniq (update_where (\<lambda>x. set_ID x = set_ID s) (set_fields now s) rows) of
             Inl e \<Rightarrow> (Some (if isUniqueErr e then XDuplicate else XDb ''update xray set'' e), rows)
           | Inr rows' \<Rightarrow> (if rows_affected (\<lambda>x. set_ID x = set_ID s) rows = 0 then Some XNotFound else None, rows')))"

definition DeleteSet :: "sql_fault \<Rightarrow> int \<Rightarrow> SetRow list \<Rightarrow> xray_error option \<times> SetRow list" where
  "DeleteSet db i rows =
     (case db 0 of
        Some e \<Rightarrow> (Some (XDb ''delete xray set'' e), rows)
      | None \<Rightarrow> (if rows_affected (\<lambda>x. set_ID x = i) rows = 0 then Some XNotFound else None, delete_where (\<lambda>x. set_ID x = i) rows))"

definition GetSet :: "sql_fault \<Rightarrow> int \<Rightarrow> SetRow list \<Rightarrow> xray_error + SetRow" where
  "GetSet db i rows =
     (case db 0 of
        Some e \<Rightarrow> Inl (XDb [] e)
      | None \<Rightarrow> (case find (\<lambda>x. set_ID x = i) rows of None \<Rightarrow> Inl XNotFound | Some s \<Rightarrow> Inr s))"

definition GetSetByName :: "sql_fault \<Rightarrow> string \<Rightarrow> SetRow list \<Rightarrow> xray_error + SetRow" where
  "GetSetByName db name rows =
     (let n = normalizeName name in
      if n = [] then Inl XNotFound
      else case db 0 of
        Some e \<Rightarrow> Inl (XDb [] e)
      | None \<Rightarrow> (case find (\<lambda>x. set_Name x = n) rows of None \<Rightarrow> Inl XNotFound | Some s \<Rightarrow> Inr s))"

definition ListSets :: "string option \<Rightarrow> SetRow list \<Rightarrow> xray_error + SetRow list" where
  "ListSets fault rows = (case fault of Some e \<Rightarrow> Inl (XDb [] e) | None \<Rightarrow> Inr (sort_key set_Name rows))"

definition SetNamesExist :: "sql_fault \<Rightarrow> string list \<Rightarrow> SetRow list \<Rightarrow> xray_error + string list" where
  "SetNamesExist db ns rows =
     (if ns = [] then Inr []
      else
        (let canon = canon_names [] ns in
         case db 0 of
           Some e \<Rightarrow> Inl (XDb ''lookup xray sets'' e)
         | None \<Rightarrow> Inr (missing_names canon (filter (\<lambda>n. n \<in> set canon) (map set_Name rows)))))"

definition enabled_map :: "ConfigRow list \<Rightarrow> (string \<rightharpoonup> bool)" where
  "enabled_map entries = fold (\<lambda>e m. m(cf_Name e \<mapsto> cf_Enabled e)) entries Map.empty"

definition live_members :: "(string \<rightharpoonup> bool) \<Rightarrow> DialerRef list \<Rightarrow> DialerRef list" where
  "live_members enabled refs = filter (\<lambda>r. \<not> (ref_Kind r = DialerKindXray \<and> enabled (ref_Name r) = Some False)) refs"

fun expand_sets :: "(string \<rightharpoonup> bool) \<Rightarrow> SetRow list \<Rightarrow> (string \<rightharpoonup> string) \<Rightarrow> (string \<rightharpoonup> string)" where
  "expand_sets enabled [] out = out"
| "expand_sets enabled (s # ss) out =
     (if \<not> set_Enabled s then expand_sets enabled ss out
      else case ParseSetMembers (set_Members s) of
        Inl _ \<Rightarrow> expand_sets enabled ss out
      | Inr refs \<Rightarrow>
          (let live = live_members enabled refs in
           if live = [] then expand_sets enabled ss out
           else expand_sets enabled ss (out(set_Name s \<mapsto> ExpandMembers live))))"

definition SetExpansions :: "sql_fault \<Rightarrow> SetRow list \<Rightarrow> ConfigRow list \<Rightarrow> xray_error + (string \<rightharpoonup> string)" where
  "SetExpansions db sets entries =
     (case ListSets (db 0) sets of
        Inl e \<Rightarrow> Inl e
      | Inr ss \<Rightarrow>
          (case xray_List (db 1) entries of
             Inl e \<Rightarrow> Inl e
           | Inr es \<Rightarrow> Inr (expand_sets (enabled_map es) ss Map.empty)))"

definition Expansions :: "sql_fault \<Rightarrow> SetRow list \<Rightarrow> ConfigRow list \<Rightarrow> xray_error + (string \<rightharpoonup> string)" where
  "Expansions db sets entries =
     (case SetExpansions db sets entries of
        Inl e \<Rightarrow> Inl e
      | Inr byName \<Rightarrow> Inr (\<lambda>k. if HasPrefix k SetPrefix then byName (TrimPrefix k SetPrefix) else None))"

definition SetsReferencing :: "sql_fault \<Rightarrow> DialerKind \<Rightarrow> string \<Rightarrow> SetRow list \<Rightarrow> xray_error + string list" where
  "SetsReferencing db kind name rows =
     (case ListSets (db 0) rows of
        Inl e \<Rightarrow> Inl e
      | Inr sets \<Rightarrow>
          (let want = \<lparr>ref_Kind = kind, ref_Name = normalizeName name\<rparr> in
           Inr (map set_Name (filter (\<lambda>s. case ParseSetMembers (set_Members s) of Inl _ \<Rightarrow> False | Inr refs \<Rightarrow> want \<in> set refs) sets))))"

text \<open>The members of a set after a rename, none when the set does not change.\<close>

definition renamed_members :: "DialerRef \<Rightarrow> DialerRef \<Rightarrow> string \<Rightarrow> string option" where
  "renamed_members old new members =
     (case ParseSetMembers members of
        Inl _ \<Rightarrow> None
      | Inr refs \<Rightarrow>
          if old \<notin> set refs then None
          else (case ParseSetMembers (FormatSetMembers (map (\<lambda>r. if r = old then new else r) refs)) of
                  Inl _ \<Rightarrow> None
                | Inr deduped \<Rightarrow> Some (FormatSetMembers deduped)))"

fun rename_sets :: "sql_fault \<Rightarrow> nat \<Rightarrow> time \<Rightarrow> DialerRef \<Rightarrow> DialerRef \<Rightarrow> SetRow list \<Rightarrow> nat \<Rightarrow> SetRow list \<Rightarrow>
    nat \<times> xray_error option \<times> SetRow list" where
  "rename_sets db k now old new [] changed rows = (changed, None, rows)"
| "rename_sets db k now old new (s # ss) changed rows =
     (case renamed_members old new (set_Members s) of
        None \<Rightarrow> rename_sets db k now old new ss changed rows
      | Some ms \<Rightarrow>
          (case sql_write (db k) sets_uniq (update_where (\<lambda>x. set_ID x = set_ID s) (\<lambda>x. x\<lparr>set_Members := ms, set_UpdatedAt := now\<rparr>) rows) of
             Inl e \<Rightarrow> (changed, Some (XDb ''rename set member'' e), rows)
           | Inr rows' \<Rightarrow> rename_sets db (Suc k) now old new ss (changed + rows_affected (\<lambda>x. set_ID x = set_ID s) rows) rows'))"

definition RenameSetMember :: "sql_fault \<Rightarrow> time \<Rightarrow> DialerKind \<Rightarrow> string \<Rightarrow> string \<Rightarrow> SetRow list \<Rightarrow> nat \<times> xray_error option \<times> SetRow list" where
  "RenameSetMember db now kind oldName newName rows =
     (case ListSets (db 0) rows of
        Inl e \<Rightarrow> (0, Some e, rows)
      | Inr sets \<Rightarrow>
          (let old = \<lparr>ref_Kind = kind, ref_Name = normalizeName oldName\<rparr>;
               new = \<lparr>ref_Kind = kind, ref_Name = normalizeName newName\<rparr>
           in if old = new \<or> \<not> ValidName (ref_Name new) then (0, None, rows)
              else rename_sets db 1 now old new sets 0 rows))"

section \<open>Canonical member lists\<close>

definition set_refs :: "DialerRef list \<Rightarrow> bool" where
  "set_refs refs \<longleftrightarrow> refs \<noteq> [] \<and> distinct refs \<and> list_all valid_ref refs \<and> (\<forall>r\<in>set refs. ref_Kind r \<noteq> DialerKindXraysub)"

lemma ParseSetMembers_refs: "ParseSetMembers s = Inr refs \<Longrightarrow> set_refs refs"
  using ParseSetMembers_valid by (auto simp: set_refs_def)

lemma set_members_distinct:
  "distinct rs \<Longrightarrow> set rs \<inter> set seen = {} \<Longrightarrow> \<forall>r\<in>set rs. ref_Kind r \<noteq> DialerKindXraysub \<Longrightarrow> set_members seen rs = Inr rs"
  by (induction seen rs rule: set_members.induct) auto

lemma ParseSetMembers_Format: "set_refs refs \<Longrightarrow> ParseSetMembers (FormatSetMembers refs) = Inr refs"
  using ParseDialer_FormatDialer set_members_distinct [of refs "[]"]
  by (simp add: set_refs_def ParseSetMembers_def FormatSetMembers_def)

section \<open>The tables\<close>

definition stored_set :: "SetRow \<Rightarrow> bool" where
  "stored_set s \<longleftrightarrow> stored_name (set_Name s) \<and> (\<exists>refs. set_refs refs \<and> set_Members s = FormatSetMembers refs)"

definition stored_config :: "ConfigRow \<Rightarrow> bool" where
  "stored_config c \<longleftrightarrow> stored_name (cf_Name c) \<and>
     (\<exists>refs. list_all valid_ref refs \<and> cf_Dialer c = FormatDialer refs \<and> \<lparr>ref_Kind = DialerKindXray, ref_Name = cf_Name c\<rparr> \<notin> set refs)"

abbreviation sets_ok :: "SetRow list \<Rightarrow> bool" where "sets_ok \<equiv> table_ok set_ID sets_uniq stored_set"
abbreviation configs_ok :: "ConfigRow list \<Rightarrow> bool" where "configs_ok \<equiv> table_ok cf_ID configs_uniq stored_config"

interpretation sets_table: unique_table set_ID "\<lambda>i s. s\<lparr>set_ID := i\<rparr>" sets_uniq stored_set
  by unfold_locales (simp_all add: stored_set_def sets_uniq_def distinct_map_filter)

interpretation configs_table: unique_table cf_ID "\<lambda>i c. c\<lparr>cf_ID := i\<rparr>" configs_uniq stored_config
  by unfold_locales (simp_all add: stored_config_def configs_uniq_def distinct_map_filter)

lemma validateSet_stored:
  assumes "validateSet s0 = Inr s"
  shows "stored_set s"
proof -
  obtain refs where "ValidName (normalizeName (set_Name s0))" "ParseSetMembers (set_Members s0) = Inr refs"
      "s = s0\<lparr>set_Name := normalizeName (set_Name s0), set_Members := FormatSetMembers refs\<rparr>"
    using assms by (auto simp: validateSet_def Let_def split: if_splits sum.splits)
  then show ?thesis using ParseSetMembers_refs by (auto simp: stored_set_def ValidName_normal)
qed

lemma ref_eq: "\<lparr>ref_Kind = k, ref_Name = n\<rparr> = r \<longleftrightarrow> ref_Kind r = k \<and> ref_Name r = n"
  by (cases r) auto

lemma xray_validate_stored:
  assumes "xray_validate jc fc c0 = Inr c"
  shows "stored_config c" "cf_ID c = cf_ID c0" "cf_SocksPort c = cf_SocksPort c0"
proof -
  obtain refs out frag where c: "ValidName (normalizeName (cf_Name c0))" "ParseDialer (cf_Dialer c0) = Inr refs"
      "\<not> (\<exists>r\<in>set refs. ref_Kind r = DialerKindXray \<and> ref_Name r = normalizeName (cf_Name c0))"
      "c = c0\<lparr>cf_Name := normalizeName (cf_Name c0), cf_Outbound := out, cf_Dialer := FormatDialer refs, cf_Fragment := frag\<rparr>"
    using assms by (auto simp: xray_validate_def Let_def split: if_splits sum.splits option.splits)
  have "\<lparr>ref_Kind = DialerKindXray, ref_Name = normalizeName (cf_Name c0)\<rparr> \<notin> set refs" using c(3) by auto
  then show "stored_config c" using c(1) ParseDialer_valid [OF c(2)]
    by (auto simp: c(4) stored_config_def ValidName_normal)
  show "cf_ID c = cf_ID c0" "cf_SocksPort c = cf_SocksPort c0" by (simp_all add: c(4))
qed

lemma AddSet_ok:
  assumes "fresh_ids fresh" "sets_ok rows" "AddSet fresh db now s0 rows = (res, rows')"
  shows "sets_ok rows'"
proof (cases "rows' = rows")
  case False
  then obtain s where s: "validateSet s0 = Inr s"
      "sql_write (db 0) sets_uniq (rows @ [insert_set fresh (s\<lparr>set_CreatedAt := now, set_UpdatedAt := now\<rparr>) rows]) = Inr rows'"
    using assms(3) by (auto simp: AddSet_def Let_def split: sum.splits)
  have "stored_set (s\<lparr>set_CreatedAt := now, set_UpdatedAt := now\<rparr>\<lparr>set_Enabled := True\<rparr>)"
    using validateSet_stored [OF s(1)] by (simp add: stored_set_def)
  then show ?thesis using sets_table.insert_ok [OF assms(1,2) _ s(2) [unfolded insert_set_def]] by simp
qed (use assms(2) in simp)

lemma UpdateSet_ok:
  assumes "sets_ok rows" "UpdateSet db now s0 rows = (res, rows')"
  shows "sets_ok rows'"
proof (cases "rows' = rows")
  case False
  then obtain s where s: "validateSet s0 = Inr s"
      "sql_write (db 0) sets_uniq (update_where (\<lambda>x. set_ID x = set_ID s) (set_fields now s) rows) = Inr rows'"
    using assms(2) by (auto simp: UpdateSet_def split: sum.splits)
  show ?thesis
    by (rule sets_table.update_ok [OF assms(1) _ s(2)])
      (use validateSet_stored [OF s(1)] in \<open>simp add: set_fields_def stored_set_def\<close>)
qed (use assms(1) in simp)

lemma DeleteSet_ok: "sets_ok rows \<Longrightarrow> DeleteSet db i rows = (res, rows') \<Longrightarrow> sets_ok rows'"
  using sets_table.delete_ok by (auto simp: DeleteSet_def split: option.splits)

lemma renamed_members_stored:
  assumes "renamed_members old new ms = Some ms'"
  shows "\<exists>refs. set_refs refs \<and> ms' = FormatSetMembers refs"
  using assms ParseSetMembers_refs by (auto simp: renamed_members_def split: sum.splits if_splits)

lemma rename_sets_ok:
  "sets_ok rows \<Longrightarrow> rename_sets db k now old new ss n rows = (n', res, rows') \<Longrightarrow> sets_ok rows'"
proof (induction ss arbitrary: k n rows)
  case (Cons s ss)
  show ?case
  proof (cases "renamed_members old new (set_Members s)")
    case None
    then show ?thesis using Cons by simp
  next
    case (Some ms)
    let ?w = "sql_write (db k) sets_uniq (update_where (\<lambda>x. set_ID x = set_ID s) (\<lambda>x. x\<lparr>set_Members := ms, set_UpdatedAt := now\<rparr>) rows)"
    show ?thesis
    proof (cases ?w)
      case (Inr rows1)
      have "sets_ok rows1"
        by (rule sets_table.update_ok [OF Cons(2) _ Inr])
          (use Cons(2) renamed_members_stored [OF Some] in \<open>auto simp: stored_set_def table_ok_def\<close>)
      then show ?thesis using Cons(1,3) Some Inr by simp
    qed (use Cons(2,3) Some in simp)
  qed
qed simp

lemma RenameSetMember_ok:
  assumes "sets_ok rows" "RenameSetMember db now kind a b rows = (n, res, rows')"
  shows "sets_ok rows'"
  using assms rename_sets_ok [OF assms(1)] by (auto simp: RenameSetMember_def ListSets_def Let_def split: sum.splits option.splits if_splits)

lemma xray_Add_ok:
  assumes "fresh_ids fresh" "configs_ok rows" "xray_Add jc fc fresh db now c0 rows = (res, rows')"
  shows "configs_ok rows'"
proof (cases "rows' = rows")
  case False
  then obtain c port where c: "xray_validate jc fc c0 = Inr c"
      "sql_write (db 1) configs_uniq (rows @ [insert_config fresh (c\<lparr>cf_CreatedAt := now, cf_UpdatedAt := now, cf_SocksPort := port\<rparr>) rows]) = Inr rows'"
    using assms(3) by (auto simp: xray_Add_def Let_def split: sum.splits)
  have "stored_config (c\<lparr>cf_CreatedAt := now, cf_UpdatedAt := now, cf_SocksPort := port\<rparr>\<lparr>cf_Enabled := True\<rparr>)"
    using xray_validate_stored(1) [OF c(1)] by (simp add: stored_config_def)
  then show ?thesis using configs_table.insert_ok [OF assms(1,2) _ c(2) [unfolded insert_config_def]] by simp
qed (use assms(2) in simp)

lemma xray_Update_ok:
  assumes "configs_ok rows" "xray_Update jc fc db now c0 rows = (res, rows')"
  shows "configs_ok rows'"
proof (cases "rows' = rows")
  case False
  then obtain c where c: "xray_validate jc fc c0 = Inr c"
      "sql_write (db 0) configs_uniq (update_where (\<lambda>x. cf_ID x = cf_ID c) (config_fields now c) rows) = Inr rows'"
    using assms(2) by (auto simp: xray_Update_def split: sum.splits)
  show ?thesis
    by (rule configs_table.update_ok [OF assms(1) _ c(2)])
      (use xray_validate_stored(1) [OF c(1)] in \<open>simp add: config_fields_def stored_config_def\<close>)
qed (use assms(1) in simp)

lemma xray_Delete_ok: "configs_ok rows \<Longrightarrow> xray_Delete db i rows = (res, rows') \<Longrightarrow> configs_ok rows'"
  using configs_table.delete_ok by (auto simp: xray_Delete_def split: option.splits)

inductive xray_reach :: "json_codec \<Rightarrow> fragment_codec \<Rightarrow> (int list \<Rightarrow> int) \<Rightarrow> SetRow list \<Rightarrow> ConfigRow list \<Rightarrow> bool"
  for jc fc fresh where
  reach_open: "xray_reach jc fc fresh [] []"
| reach_AddSet: "xray_reach jc fc fresh sets es \<Longrightarrow> AddSet fresh db now s sets = (r, sets') \<Longrightarrow> xray_reach jc fc fresh sets' es"
| reach_UpdateSet: "xray_reach jc fc fresh sets es \<Longrightarrow> UpdateSet db now s sets = (u, sets') \<Longrightarrow> xray_reach jc fc fresh sets' es"
| reach_DeleteSet: "xray_reach jc fc fresh sets es \<Longrightarrow> DeleteSet db i sets = (u, sets') \<Longrightarrow> xray_reach jc fc fresh sets' es"
| reach_RenameSetMember: "xray_reach jc fc fresh sets es \<Longrightarrow> RenameSetMember db now kind a b sets = (n, u, sets') \<Longrightarrow>
    xray_reach jc fc fresh sets' es"
| reach_Add: "xray_reach jc fc fresh sets es \<Longrightarrow> xray_Add jc fc fresh db now c es = (q, es') \<Longrightarrow> xray_reach jc fc fresh sets es'"
| reach_Update: "xray_reach jc fc fresh sets es \<Longrightarrow> xray_Update jc fc db now c es = (u, es') \<Longrightarrow> xray_reach jc fc fresh sets es'"
| reach_Delete: "xray_reach jc fc fresh sets es \<Longrightarrow> xray_Delete db i es = (u, es') \<Longrightarrow> xray_reach jc fc fresh sets es'"

lemma xray_reach_ok:
  assumes "fresh_ids fresh" "xray_reach jc fc fresh sets es"
  shows "sets_ok sets \<and> configs_ok es"
  using assms(2)
proof induction
  case reach_open
  then show ?case by (simp add: sets_table.empty_ok configs_table.empty_ok)
qed (auto intro: AddSet_ok [OF assms(1)] UpdateSet_ok DeleteSet_ok RenameSetMember_ok xray_Add_ok [OF assms(1)] xray_Update_ok xray_Delete_ok)

section \<open>Expansion\<close>

lemma enabled_map_acc:
  "distinct (map cf_Name es) \<Longrightarrow> fold (\<lambda>e m. m(cf_Name e \<mapsto> cf_Enabled e)) es m n =
    (case find (\<lambda>e. cf_Name e = n) es of Some e \<Rightarrow> Some (cf_Enabled e) | None \<Rightarrow> m n)"
proof (induction es arbitrary: m)
  case (Cons e es)
  have "find (\<lambda>x. cf_Name x = n) es = None" if "cf_Name e = n"
    using that Cons(2) by (simp add: find_None_iff) (metis imageI)
  then show ?case using Cons by (auto split: option.splits)
qed simp

definition switched_off :: "ConfigRow list \<Rightarrow> DialerRef \<Rightarrow> bool" where
  "switched_off es r \<longleftrightarrow> ref_Kind r = DialerKindXray \<and> (\<exists>e\<in>set es. cf_Name e = ref_Name r \<and> \<not> cf_Enabled e)"

lemma live_members_off:
  assumes "distinct (map cf_Name es)"
  shows "live_members (enabled_map es) refs = filter (\<lambda>r. \<not> switched_off es r) refs"
proof -
  have "(enabled_map es n = Some False) = (\<exists>e\<in>set es. cf_Name e = n \<and> \<not> cf_Enabled e)" for n
  proof -
    have "enabled_map es n = map_option cf_Enabled (find (\<lambda>e. cf_Name e = n) es)"
      by (simp add: enabled_map_def enabled_map_acc [OF assms] split: option.split)
    moreover have "find (\<lambda>e. cf_Name e = n) es = Some e \<longleftrightarrow> e \<in> set es \<and> cf_Name e = n" for e
      using find_unique [OF assms, of e] by (auto simp: find_Some_iff)
    ultimately show ?thesis by (auto simp del: find_Some_iff)
  qed
  then show ?thesis by (simp add: live_members_def switched_off_def)
qed

definition usable_members :: "SetRow list \<Rightarrow> ConfigRow list \<Rightarrow> string \<Rightarrow> DialerRef list" where
  "usable_members sets es n =
     (case find (\<lambda>s. set_Name s = n) sets of
        None \<Rightarrow> []
      | Some s \<Rightarrow>
          if \<not> set_Enabled s then []
          else (case ParseSetMembers (set_Members s) of Inl _ \<Rightarrow> [] | Inr refs \<Rightarrow> filter (\<lambda>r. \<not> switched_off es r) refs))"

lemma expand_sets_find:
  assumes "distinct (map cf_Name es)"
  shows "distinct (map set_Name ss) \<Longrightarrow>
    expand_sets (enabled_map es) ss out n =
     (if usable_members ss es n = [] then out n else Some (ExpandMembers (usable_members ss es n)))"
proof (induction ss arbitrary: out)
  case (Cons s ss)
  have "find (\<lambda>x. set_Name x = n) ss = None" if "set_Name s = n"
    using that Cons(2) by (simp add: find_None_iff) (metis imageI)
  then have "usable_members ss es n = []" if "set_Name s = n" using that by (simp add: usable_members_def)
  moreover have "usable_members (s # ss) es n = usable_members ss es n" if "set_Name s \<noteq> n"
    using that by (simp add: usable_members_def)
  ultimately show ?case using Cons
    by (auto simp: Let_def usable_members_def live_members_off [OF assms] split: sum.splits)
qed (simp add: usable_members_def)

lemma usable_members_sort:
  "distinct (map set_Name sets) \<Longrightarrow> usable_members (sort_key set_Name sets) es n = usable_members sets es n"
  using sort_key_find [of set_Name sets n set_Name] by (simp add: usable_members_def)

lemma switched_off_set: "set es' = set es \<Longrightarrow> switched_off es' = switched_off es"
  by (rule ext) (simp add: switched_off_def)

lemma Expansions_lookup:
  assumes "sets_ok sets" "configs_ok es" "Expansions no_fault sets es = Inr m"
  shows "m (SetPrefix @ n) = (if usable_members sets es n = [] then None else Some (ExpandMembers (usable_members sets es n)))"
proof -
  have d: "distinct (map set_Name sets)" "distinct (map cf_Name es)"
    using assms(1,2) by (simp_all add: table_ok_def sets_uniq_def configs_uniq_def)
  have d': "distinct (map set_Name (sort_key set_Name sets))" "distinct (map cf_Name (sort_key cf_Name es))"
    using d by (simp_all add: distinct_map)
  have "usable_members (sort_key set_Name sets) (sort_key cf_Name es) n = usable_members sets es n"
    using usable_members_sort [OF d(1)] unfolding usable_members_def switched_off_set [OF set_sort] .
  moreover have "m (SetPrefix @ n) = expand_sets (enabled_map (sort_key cf_Name es)) (sort_key set_Name sets) Map.empty n"
    using assms(3) by (auto simp: Expansions_def SetExpansions_def ListSets_def xray_List_def no_fault_def HasPrefix_def TrimPrefix_def)
  ultimately show ?thesis using expand_sets_find [OF d'(2) d'(1), of Map.empty n] by simp
qed

lemma usable_refs:
  assumes "usable_members sets es n \<noteq> []"
  shows "set_refs (usable_members sets es n)"
  using assms ParseSetMembers_refs by (fastforce simp: usable_members_def set_refs_def list_all_iff split: option.splits if_splits sum.splits)

lemma translate_expansion:
  assumes "set_refs refs"
  shows "proxy_ParseInterface (translateXrayInterface (ExpandMembers refs)) = map member_proxy refs"
    "is_tunnelled (ExpandMembers refs)"
proof -
  have ne: "refs \<noteq> []" and v: "\<And>r. r \<in> set refs \<Longrightarrow> stored_name (ref_Name r)"
    using assms by (auto simp: set_refs_def list_all_iff valid_ref_def)
  note p = ExpandMembers_parses [OF ParseSetMembers_Format [OF assms]]
  have "split_names (Join (map InternalProxyName (map ref_Name refs)) '','') = map InternalProxyName (map ref_Name refs)"
    using ne v stored_internal by (intro split_names_Join) auto
  then have "proxy_ParseInterface (proxy_InterfacePrefix @ Join (map InternalProxyName (map ref_Name refs)) '','') =
      map InternalProxyName (map ref_Name refs)"
    by (simp add: proxy_ParseInterface_def IsProxyInterface_def)
  moreover have "IsXrayInterface (ExpandMembers refs)" if "list_all (\<lambda>r. ref_Kind r = DialerKindXray) refs"
    using that ne by (simp add: ExpandMembers_def IsXrayInterface_def)
  moreover have "IsProxyInterface (ExpandMembers refs) \<and> \<not> IsXrayInterface (ExpandMembers refs)"
    if "\<not> list_all (\<lambda>r. ref_Kind r = DialerKindXray) refs"
    using that ne by (simp add: ExpandMembers_def IsProxyInterface_def IsXrayInterface_def proxy_InterfacePrefix_def xray_InterfacePrefix_def)
  ultimately show "proxy_ParseInterface (translateXrayInterface (ExpandMembers refs)) = map member_proxy refs"
    "is_tunnelled (ExpandMembers refs)"
    using p by (auto simp: translateXrayInterface_def is_tunnelled_def member_proxy_def [abs_def] list_all_iff split: if_splits)
qed

lemma handle_iface_down:
  assumes "dnslib_ok lib" "msg_Question req = q # qs" "name = TrimSuffix (ToLower (qu_Name q)) ''.''"
    "Decide (ds_engine st) name = d" "dc_Outcome d = OutcomeRoute" "\<not> is_tunnelled (dc_Interface d)"
    "cfg_Interfaces cfg = Some isUp" "\<not> isUp (dc_Interface d)"
  shows "\<exists>m. replied m st (handle lib run cancelled cfg now up clientIP req st) \<and> msg_Rcode m = RcodeNameError \<and> refusal req m"
  using refusals(1) [OF assms(1)] assms(2-8)
  by (simp add: handle_def handle_route_def resolveIface_def translateXrayInterface_def is_tunnelled_def Let_def)

section \<open>Properties\<close>

text \<open>C26: Rules bound to an outbound set follow the set. Whatever happened to the tables of rules, sets and
  entries before the reload, a name decided by a rule bound to a set is routed to the proxies of the
  members that are not switched off, in their order; and when the set is disabled, deleted or left
  without such a member the query is answered with NXDOMAIN and nothing is routed, mapped or leased,
  as long as no network interface has the name of the set reference.\<close>
theorem set_rules_follow:
  assumes "fresh_ids fresh" "xray_reach jc fc fresh sets es" "rules_reach fresh rows"
    "Expansions no_fault sets es = Inr m" "rule_List no_fault rows = Inr l" "Reload (Inr l) (Some (Inr m)) e = (err, ds_engine st)"
    "dnslib_ok lib" "msg_Question req = q # qs" "name = TrimSuffix (ToLower (qu_Name q)) ''.''"
    "MostSpecific rows name = Some r" "rl_Interface r = SetInterface n" "stored_name n"
    "cfg_Interfaces cfg = Some isUp" "\<not> isUp (SetInterface n)"
  shows "if usable_members sets es n = []
    then \<exists>resp. replied resp st (handle lib run cancelled cfg now up clientIP req st)
        \<and> msg_Rcode resp = RcodeNameError \<and> refusal req resp
    else dc_Outcome (Decide (ds_engine st) name) = OutcomeRoute
        \<and> proxy_ParseInterface (translateXrayInterface (dc_Interface (Decide (ds_engine st) name)))
          = map member_proxy (usable_members sets es n)"
proof -
  have t: "sets_ok sets" "configs_ok es" using xray_reach_ok [OF assms(1,2)] by auto
  have rok: "rules_ok rows" by (rule rules_reach_ok [OF assms(3,1)])
  have "r \<in> set rows" using assms(10) by_name.loop_best by (auto simp: MostSpecific_def)
  then have "stored_rule r" using rok by (auto simp: table_ok_def)
  then have act: "rl_Action r = ActionRoute" using assms(11) by (auto simp: stored_rule_def SetInterface_def SetPrefix_def)
  have si: "SetInterface n = SetPrefix @ n" using assms(12) by (simp add: SetInterface_def)
  note lk = Expansions_lookup [OF t assms(4), of n]
  have d: "Decide (ds_engine st) name = decision_of (Some (rewrite_iface m r))"
    using stored_decides [OF rok assms(5,6)] assms(10) by simp
  show ?thesis
  proof (cases "usable_members sets es n = []")
    case True
    then have "Decide (ds_engine st) name = decision_of (Some r)"
      using d lk si assms(11) by (simp add: rewrite_iface_def)
    then have dd: "dc_Outcome (Decide (ds_engine st) name) = OutcomeRoute" "dc_Interface (Decide (ds_engine st) name) = SetInterface n"
      using act assms(11) by (simp_all add: decision_of_def action_defs)
    have "\<not> is_tunnelled (SetInterface n)"
      by (simp add: is_tunnelled_def IsXrayInterface_def IsProxyInterface_def SetInterface_def SetPrefix_def
          xray_InterfacePrefix_def proxy_InterfacePrefix_def)
    then show ?thesis using True handle_iface_down [OF assms(7-9) refl dd(1) _ assms(13)] dd(2) assms(14) by simp
  next
    case False
    then have "rewrite_iface m r = r\<lparr>rl_Interface := ExpandMembers (usable_members sets es n)\<rparr>"
      using lk si assms(11) by (simp add: rewrite_iface_def)
    then show ?thesis using False d act translate_expansion(1) [OF usable_refs [OF False]]
      by (simp add: decision_of_def action_defs)
  qed
qed

definition demo_set :: SetRow where
  "demo_set = \<lparr>set_ID = 1, set_Name = ''Fast'', set_Members = ''xray:tokyo, proxy:home,xray:tokyo'', set_Enabled = False, set_CreatedAt = 0, set_UpdatedAt = 0\<rparr>"

definition demo_sets :: "SetRow list" where
  "demo_sets = snd (UpdateSet no_fault 3 demo_set (snd (AddSet next_rowid no_fault 2 demo_set [])))"

definition demo_bound :: "rule list" where
  "demo_bound = snd (Add next_rowid no_fault 9 (sample_rule 0 ''api.example.com'' ''route'' ''xrayset:fast'') [])"

definition no_json :: json_codec where "no_json = \<lparr>jc_Unmarshal = (\<lambda>_. Inl []), jc_MarshalIndent = (\<lambda>_. Inl [])\<rparr>"
definition no_frag :: fragment_codec where "no_frag = \<lparr>fc_Unmarshal = (\<lambda>_. None), fc_Encode = (\<lambda>_. [])\<rparr>"

theorem set_rules_follow_witness:
  "\<exists>m st. Expansions no_fault demo_sets [] = Inr m
    \<and> (\<exists>resp. replied resp st (handle sample_lib (table_run False False) (\<lambda>_. False) sample_cfg 10 sample_up ''127.0.0.1'' (ask ''api.example.com.'') st)
        \<and> msg_Rcode resp = RcodeNameError \<and> refusal (ask ''api.example.com.'') resp)"
proof -
  have x: "xray_reach no_json no_frag next_rowid demo_sets []" unfolding demo_sets_def
    by (rule reach_UpdateSet [OF reach_AddSet [OF reach_open surjective_pairing] surjective_pairing])
  have r: "rules_reach next_rowid demo_bound" unfolding demo_bound_def
    by (rule reach_add [OF reach_empty surjective_pairing])
  obtain m where m: "Expansions no_fault demo_sets [] = Inr m"
    by (simp add: Expansions_def SetExpansions_def ListSets_def xray_List_def no_fault_def)
  obtain l where l: "rule_List no_fault demo_bound = Inr l" by (simp add: rule_List_def no_fault_def)
  define st where "st = sample_st\<lparr>ds_engine := snd (Reload (Inr l :: string + rule list) (Some (Inr m)) New_engine)\<rparr>"
  have e: "Reload (Inr l :: string + rule list) (Some (Inr m)) New_engine = (None, ds_engine st)"
    by (simp add: st_def Reload_def)
  have q: "msg_Question (ask ''api.example.com.'') = \<lparr>qu_Name = ''api.example.com.'', qu_Qtype = TypeA\<rparr> # []" by (simp add: ask_def)
  have n: "''api.example.com'' = TrimSuffix (ToLower (qu_Name \<lparr>qu_Name = ''api.example.com.'', qu_Qtype = TypeA\<rparr>)) ''.''" by code_simp
  have "map rl_Interface demo_bound = [''xrayset:fast'']" by code_simp
  then obtain rr where rr: "demo_bound = [rr]" "rl_Interface rr = ''xrayset:fast''" by auto
  have "MostSpecific demo_bound ''api.example.com'' \<noteq> None" by code_simp
  then obtain y where y: "MostSpecific demo_bound ''api.example.com'' = Some y" by blast
  then have "y \<in> set demo_bound" using by_name.loop_best by (auto simp: MostSpecific_def)
  then have ms: "MostSpecific demo_bound ''api.example.com'' = Some rr" using y rr(1) by (metis (no_types) empty_iff insert_iff list.set)
  have "SetInterface ''fast'' = ''xrayset:fast''" and n': "stored_name ''fast''" by code_simp+
  then have si: "rl_Interface rr = SetInterface ''fast''" using rr(2) by simp
  have c: "cfg_Interfaces sample_cfg = Some (\<lambda>i. i = ''utun9'')" "\<not> SetInterface ''fast'' = ''utun9''" by (simp add: sample_cfg_def New_config_def, code_simp)
  have u: "usable_members demo_sets [] ''fast'' = []" by code_simp
  have "\<exists>resp. replied resp st (handle sample_lib (table_run False False) (\<lambda>_. False) sample_cfg 10 sample_up ''127.0.0.1'' (ask ''api.example.com.'') st)
      \<and> msg_Rcode resp = RcodeNameError \<and> refusal (ask ''api.example.com.'') resp"
    using set_rules_follow [OF fresh_next_rowid x r m l e dnslib_ok_sample q n ms si n' c] u by simp
  then show ?thesis using m by blast
qed

text \<open>A set or entry that is added disabled is stored enabled: only \<open>UpdateSet\<close> and \<open>Update\<close> write the column.\<close>

lemma added_lands_enabled:
  shows "AddSet fresh db now s rows = (Inr s', rows') \<Longrightarrow> set_Enabled s' \<and> s' \<in> set rows'"
    and "xray_Add jc fc fresh db now c entries = (Inr c', entries') \<Longrightarrow> cf_Enabled c' \<and> c' \<in> set entries'"
  by (auto simp: AddSet_def xray_Add_def insert_set_def insert_config_def Let_def sql_write_Inr split: sum.splits)

end
