(* ===== verification/Xray_Config.thy ===== *)
theory Xray_Config
  imports Xray_Store "HOL-Library.Sublist" "HOL-Library.Multiset"
begin

text \<open>
  \<open>core/xray/config.go\<close> and the outbound part of \<open>fragment.go\<close>: the composite xray configuration.
  The model builds the configuration as a value; writing it out as JSON text, and reading the
  outbounds the user stored, is the codec of \<open>Xray_Store\<close>. The hash in the tags of fragment outbounds
  is an argument. What xray does with the routing section (first matching rule wins) is stated as
  \<open>xray_route\<close>, and the configuration is proved to send each entry's inbound to that entry's outbound.
\<close>

definition ApiTag :: string where "ApiTag = ''api''"
definition MetricsTag :: string where "MetricsTag = ''metrics''"
definition ProbeTag :: string where "ProbeTag = ''probe-in''"
definition ProbePassword :: string where "ProbePassword = ''em-wall''"
definition TagDirect :: string where "TagDirect = ''direct''"
definition TagBlock :: string where "TagBlock = ''block''"
definition ObservatorySelectorPrefix :: string where "ObservatorySelectorPrefix = ''slot''"
definition DefaultProbeURL :: string where "DefaultProbeURL = ''http://www.gstatic.com/generate_204''"
definition DefaultProbeInterval :: string where "DefaultProbeInterval = ''5s''"
definition DefaultProbeSampling :: int where "DefaultProbeSampling = 6"
definition DefaultProbeTimeout :: string where "DefaultProbeTimeout = ''5s''"
definition slotBalancerExpected :: int where "slotBalancerExpected = 2"
definition SlotBalancerTolerance :: json where "SlotBalancerTolerance = JDec 5 (-1)"
definition slotDemotedCost :: json where "slotDemotedCost = JDec 1 12"
definition slotBrokenCost :: json where "slotBrokenCost = JDec 1 16"

record GenerateOptions =
  go_LogDir :: string
  go_RoutingRules :: string
  go_DialerSlots :: "DialerSlot list"
  go_ObservatoryProbeURL :: string
  go_ObservatoryInterval :: string
  go_ObservatorySampling :: int
  go_ObservatoryTimeout :: string

record inbound =
  in_Tag :: string
  in_Listen :: string
  in_Port :: int
  in_Protocol :: string
  in_Settings :: json

record xray_cfg =
  xc_Log :: "json option"
  xc_API :: json
  xc_Policy :: json
  xc_Metrics :: json
  xc_Stats :: json
  xc_Inbounds :: "inbound list"
  xc_Outbounds :: "json list"
  xc_BurstObservatory :: json
  xc_DomainStrategy :: string
  xc_Rules :: "json list"
  xc_Balancers :: "json list"

section \<open>Outbound objects\<close>

definition obj_delete :: "string \<Rightarrow> json \<Rightarrow> json" where
  "obj_delete k j = (case j of JObj ms \<Rightarrow> JObj (AList.delete k ms) | _ \<Rightarrow> j)"

definition as_object :: "json \<Rightarrow> json" where
  "as_object j = (case j of JObj ms \<Rightarrow> JObj ms | _ \<Rightarrow> JObj [])"

definition injectDialerProxy :: "string \<Rightarrow> json \<Rightarrow> json" where
  "injectDialerProxy dialerTag ob =
     (let ss = as_object (obj_get ob ''streamSettings''); sock = as_object (obj_get ss ''sockopt'')
      in obj_set ''streamSettings'' (obj_set ''sockopt'' (obj_set ''dialerProxy'' (JStr dialerTag) sock) ss) ob)"

definition is_object :: "json \<Rightarrow> bool" where
  "is_object j \<longleftrightarrow> (case j of JObj _ \<Rightarrow> True | _ \<Rightarrow> False)"

text \<open>\<open>json.Unmarshal\<close> into a map: an object, the nil map for null, an error otherwise.\<close>

definition unmarshal_map :: "json_codec \<Rightarrow> string \<Rightarrow> string + json" where
  "unmarshal_map jc raw =
     (case jc_Unmarshal jc raw of
        Inl e \<Rightarrow> Inl e
      | Inr j \<Rightarrow> if is_object j \<or> j = JNull then Inr j else Inl ''cannot unmarshal into map'')"

definition healXHTTPExtra :: "json_codec \<Rightarrow> json \<Rightarrow> json" where
  "healXHTTPExtra jc ob =
     (let ss = obj_get ob ''streamSettings''; xh = obj_get ss ''xhttpSettings'' in
      if \<not> is_object ss \<or> \<not> is_object xh then ob
      else
        (let put = (\<lambda>x. obj_set ''streamSettings'' (obj_set ''xhttpSettings'' x ss) ob) in
         case obj_get xh ''extra'' of
           JStr e \<Rightarrow>
             if e = [] then put (obj_delete ''extra'' xh)
             else (case unmarshal_map jc e of
                     Inr decoded \<Rightarrow> put (obj_set ''extra'' decoded xh)
                   | Inl _ \<Rightarrow> put (obj_delete ''extra'' xh))
         | _ \<Rightarrow> ob))"

text \<open>\<open>fragmentSupport\<close>; none when fragmentation can be applied, the reason otherwise.\<close>

definition fragmentSupport :: "json \<Rightarrow> Fragment \<Rightarrow> string option" where
  "fragmentSupport ob f =
     (let proto = as_string (obj_get ob ''protocol''); ss = obj_get ob ''streamSettings'';
          network = as_string (obj_get ss ''network'') in
      if ToLower proto \<in> {''freedom'', ''blackhole'', ''dns'', ''loopback''} then Some (''a '' @ proto @ '' outbound has no server connection'')
      else if ToLower proto \<in> {''wireguard'', ''hysteria''} then Some (proto @ '' runs over UDP'')
      else if TrimSpace (as_string (obj_get (obj_get ss ''sockopt'') ''dialerProxy'')) \<noteq> [] then Some ''own dialerProxy''
      else if ToLower network \<in> {''kcp'', ''mkcp'', ''quic'', ''hysteria''} then Some (''transport '' @ network @ '' runs over UDP'')
      else if fr_Packets f = ''tlshello'' \<and> ToLower (as_string (obj_get ss ''security'')) \<notin> {''tls'', ''reality''}
      then Some ''no TLS on this outbound''
      else None)"

definition FragmentOutboundTag :: "(string \<Rightarrow> string) \<Rightarrow> fragment_codec \<Rightarrow> Fragment \<Rightarrow> string" where
  "FragmentOutboundTag hash fc f = ''frag-'' @ hash (fc_Encode fc f)"

definition fragment_json :: "Fragment \<Rightarrow> json" where
  "fragment_json f = JObj [(''packets'', JStr (fr_Packets f)), (''length'', JStr (fr_Length f)), (''interval'', JStr (fr_Interval f))]"

definition fragmentOutbound :: "(string \<Rightarrow> string) \<Rightarrow> fragment_codec \<Rightarrow> Fragment \<Rightarrow> json" where
  "fragmentOutbound hash fc f = JObj [(''tag'', JStr (FragmentOutboundTag hash fc f)), (''protocol'', JStr ''freedom''),
     (''settings'', JObj [(''fragment'', fragment_json f)])]"

definition applyFragment :: "(string \<Rightarrow> string) \<Rightarrow> fragment_codec \<Rightarrow> json \<Rightarrow> Fragment \<Rightarrow> bool \<times> json" where
  "applyFragment hash fc ob f =
     (if fragmentSupport ob f \<noteq> None then (False, ob) else (True, injectDialerProxy (FragmentOutboundTag hash fc f) ob))"

section \<open>Rules, inbounds and balancers\<close>

definition field_rule :: "string \<Rightarrow> (string \<times> json) list \<Rightarrow> json" where
  "field_rule inTag extra = JObj ([(''type'', JStr ''field''), (''inboundTag'', JArr [JStr inTag])] @ extra)"

definition socks_settings :: json where
  "socks_settings = JObj [(''auth'', JStr ''noauth''), (''udp'', JBool True), (''ip'', JStr ''127.0.0.1'')]"

definition loopback_inbound :: "string \<Rightarrow> int \<Rightarrow> string \<Rightarrow> json \<Rightarrow> inbound" where
  "loopback_inbound tag port proto settings =
     \<lparr>in_Tag = tag, in_Listen = ''127.0.0.1'', in_Port = port, in_Protocol = proto, in_Settings = settings\<rparr>"

text \<open>\<open>regexp.QuoteMeta\<close>.\<close>

definition QuoteMeta :: "string \<Rightarrow> string" where
  "QuoteMeta s = concat (map (\<lambda>c. if c \<in> set ''.+*?()|[]{}^$'' \<or> c = CHR 0x5C then [CHR 0x5C, c] else [c]) s)"

definition exact_cost :: "nat \<Rightarrow> string \<Rightarrow> json \<Rightarrow> json" where
  "exact_cost i k v = JObj [(''regexp'', JBool True), (''match'', JStr (''^'' @ QuoteMeta (SlotMemberTag i k) @ ''$'')), (''value'', v)]"

definition slot_broken :: "DialerSlot \<Rightarrow> string set" where
  "slot_broken s = (if length (sl_Members s) \<le> card (brokenSet s) then {} else brokenSet s)"

definition slot_costs :: "DialerSlot \<Rightarrow> json list" where
  "slot_costs s =
     map (\<lambda>m. exact_cost (sl_Index s) (mem_Key m) slotBrokenCost) (filter (\<lambda>m. mem_Key m \<in> slot_broken s) (sl_Members s)) @
     (let pref = presentPreferred s in
      if pref = [] then []
      else map (\<lambda>k. exact_cost (sl_Index s) k (JNum 1)) pref @
        [JObj [(''regexp'', JBool False), (''match'', JStr (SlotOutboundPrefix (sl_Index s))), (''value'', slotDemotedCost)]])"

text \<open>The member named as fallback, as the three loops leave it.\<close>

definition slot_fallback :: "DialerSlot \<Rightarrow> string" where
  "slot_fallback s =
     (let usable = (\<lambda>k. k \<notin> slot_broken s);
          f1 = (case find (\<lambda>m. usable (mem_Key m)) (sl_Members s) of Some m \<Rightarrow> mem_Key m | None \<Rightarrow> []);
          f2 = (case find usable (presentPreferred s) of Some k \<Rightarrow> k | None \<Rightarrow> f1)
      in if sl_Fallback s \<noteq> [] \<and> usable (sl_Fallback s) \<and> sl_Fallback s \<in> mem_Key ` set (sl_Members s) then sl_Fallback s else f2)"

definition slot_balancer :: "DialerSlot \<Rightarrow> json" where
  "slot_balancer s =
     JObj ([(''tag'', JStr (SlotBalancerTag (sl_Index s))), (''selector'', JArr [JStr (SlotOutboundPrefix (sl_Index s))]),
       (''strategy'', JObj [(''type'', JStr ''leastLoad''),
          (''settings'', JObj ([(''expected'', JNum (if 0 < sl_Expected s then sl_Expected s else slotBalancerExpected)),
              (''tolerance'', SlotBalancerTolerance)] @ (if slot_costs s = [] then [] else [(''costs'', JArr (slot_costs s))])))])] @
       (if slot_fallback s \<noteq> [] then [(''fallbackTag'', JStr (SlotMemberTag (sl_Index s) (slot_fallback s)))] else []))"

definition dialer_outbound :: "nat \<Rightarrow> string \<Rightarrow> json" where
  "dialer_outbound i m = JObj [(''tag'', JStr (DialerOutboundTag m)), (''protocol'', JStr ''socks''),
     (''settings'', JObj [(''servers'', JArr [JObj [(''address'', JStr ''127.0.0.1''), (''port'', JNum (SlotPort (int i)))]])])]"

definition observatory :: "GenerateOptions \<Rightarrow> json" where
  "observatory opt =
     (let dflt = (\<lambda>s d. if TrimSpace s = [] then d else TrimSpace s) in
      JObj [(''subjectSelector'', JArr [JStr ObservatorySelectorPrefix]),
        (''pingConfig'', JObj [(''destination'', JStr (dflt (go_ObservatoryProbeURL opt) DefaultProbeURL)),
           (''interval'', JStr (dflt (go_ObservatoryInterval opt) DefaultProbeInterval)),
           (''sampling'', JNum (if go_ObservatorySampling opt \<le> 0 then DefaultProbeSampling else go_ObservatorySampling opt)),
           (''timeout'', JStr (dflt (go_ObservatoryTimeout opt) DefaultProbeTimeout))])])"

section \<open>Generate\<close>

datatype gen_error = GenUserRules string | GenEntry string string | GenMember nat string string | NilMap string

record gen =
  g_inbounds :: "inbound list"
  g_outbounds :: "json list"
  g_rules :: "json list"
  g_balancers :: "json list"
  g_usedFrags :: "(string \<times> Fragment) list"
  g_masterObs :: "string \<rightharpoonup> json"

definition frag_map :: "fragment_codec \<Rightarrow> ConfigRow list \<Rightarrow> (string \<rightharpoonup> Fragment)" where
  "frag_map fc es = fold (\<lambda>e m. case ParseFragment fc (cf_Fragment e) of Some f \<Rightarrow> m(normalizeName (cf_Name e) \<mapsto> f) | None \<Rightarrow> m) es Map.empty"

definition is_master :: "DialerSlot list \<Rightarrow> string \<Rightarrow> bool" where
  "is_master slots n \<longleftrightarrow> (\<exists>s\<in>set slots. \<exists>m\<in>set (SlotMasters s). normalizeName m = n)"

definition entry_outbound :: "json_codec \<Rightarrow> (string \<Rightarrow> string) \<Rightarrow> fragment_codec \<Rightarrow> DialerSlot list \<Rightarrow> (string \<rightharpoonup> Fragment) \<Rightarrow> ConfigRow \<Rightarrow> json \<Rightarrow> gen \<Rightarrow> gen" where
  "entry_outbound jc hash fc slots frags e ob g =
     (let n = normalizeName (cf_Name e);
          ob1 = obj_set ''tag'' (JStr (OutboundTag (cf_Name e))) ob;
          ob2 = (if cf_Mux e then applyMux ob1 else ob1)
      in if is_master slots n then
           g\<lparr>g_masterObs := (g_masterObs g)(n \<mapsto> ob2),
             g_outbounds := g_outbounds g @ [healXHTTPExtra jc (injectDialerProxy (DialerOutboundTag (cf_Name e)) ob2)]\<rparr>
         else
           (case frags n of
              None \<Rightarrow> g\<lparr>g_outbounds := g_outbounds g @ [healXHTTPExtra jc ob2]\<rparr>
            | Some f \<Rightarrow>
                (case applyFragment hash fc ob2 f of
                   (True, ob3) \<Rightarrow> g\<lparr>g_usedFrags := AList.update (FragmentOutboundTag hash fc f) f (g_usedFrags g),
                       g_outbounds := g_outbounds g @ [healXHTTPExtra jc ob3]\<rparr>
                 | (False, ob3) \<Rightarrow> g\<lparr>g_outbounds := g_outbounds g @ [healXHTTPExtra jc ob3]\<rparr>)))"

definition entry_inbound :: "ConfigRow \<Rightarrow> inbound" where
  "entry_inbound e = loopback_inbound (InboundTag (cf_Name e)) (cf_SocksPort e) ''socks'' socks_settings"

definition pair_rule :: "ConfigRow \<Rightarrow> json" where
  "pair_rule e = field_rule (InboundTag (cf_Name e)) [(''outboundTag'', JStr (OutboundTag (cf_Name e)))]"

fun gen_entries :: "json_codec \<Rightarrow> (string \<Rightarrow> string) \<Rightarrow> fragment_codec \<Rightarrow> DialerSlot list \<Rightarrow> (string \<rightharpoonup> Fragment) \<Rightarrow> ConfigRow list \<Rightarrow> gen \<Rightarrow> gen_error + gen" where
  "gen_entries jc hash fc slots frags [] g = Inr g"
| "gen_entries jc hash fc slots frags (e # es) g =
     (case unmarshal_map jc (cf_Outbound e) of
        Inl err \<Rightarrow> Inl (GenEntry (cf_Name e) err)
      | Inr JNull \<Rightarrow> Inl (NilMap (cf_Name e))
      | Inr ob \<Rightarrow>
          gen_entries jc hash fc slots frags es
            ((entry_outbound jc hash fc slots frags e ob g)\<lparr>g_inbounds := g_inbounds g @ [entry_inbound e], g_rules := g_rules g @ [pair_rule e]\<rparr>))"

definition slot_frag :: "(string \<rightharpoonup> Fragment) \<Rightarrow> DialerSlot \<Rightarrow> Fragment option" where
  "slot_frag frags s = (case find (\<lambda>m. frags (normalizeName m) \<noteq> None) (SlotMasters s) of Some m \<Rightarrow> frags (normalizeName m) | None \<Rightarrow> None)"

fun gen_members :: "json_codec \<Rightarrow> (string \<Rightarrow> string) \<Rightarrow> fragment_codec \<Rightarrow> nat \<Rightarrow> Fragment option \<Rightarrow> DialerMember list \<Rightarrow> gen \<Rightarrow> gen_error + gen" where
  "gen_members jc hash fc i frag [] g = Inr g"
| "gen_members jc hash fc i frag (m # ms) g =
     (case unmarshal_map jc (mem_Outbound m) of
        Inl err \<Rightarrow> Inl (GenMember i (mem_Key m) err)
      | Inr JNull \<Rightarrow> Inl (NilMap (mem_Key m))
      | Inr ob \<Rightarrow>
          (let mob = obj_set ''tag'' (JStr (SlotMemberTag i (mem_Key m))) ob;
               (used, mob1) = (case frag of Some f \<Rightarrow> applyFragment hash fc mob f | None \<Rightarrow> (False, mob))
           in gen_members jc hash fc i frag ms
                (g\<lparr>g_usedFrags := (case frag of Some f \<Rightarrow> if used then AList.update (FragmentOutboundTag hash fc f) f (g_usedFrags g) else g_usedFrags g
                                   | None \<Rightarrow> g_usedFrags g),
                   g_outbounds := g_outbounds g @ [healXHTTPExtra jc mob1]\<rparr>)))"

definition slot_inbound :: "DialerSlot \<Rightarrow> inbound" where
  "slot_inbound s = loopback_inbound (SlotInboundTag (sl_Index s)) (SlotPort (int (sl_Index s))) ''socks'' socks_settings"

definition slot_rule :: "DialerSlot \<Rightarrow> json" where
  "slot_rule s = field_rule (SlotInboundTag (sl_Index s)) [(''balancerTag'', JStr (SlotBalancerTag (sl_Index s)))]"

fun gen_slots :: "json_codec \<Rightarrow> (string \<Rightarrow> string) \<Rightarrow> fragment_codec \<Rightarrow> (string \<rightharpoonup> Fragment) \<Rightarrow> DialerSlot list \<Rightarrow> gen \<Rightarrow> gen_error + gen" where
  "gen_slots jc hash fc frags [] g = Inr g"
| "gen_slots jc hash fc frags (s # ss) g =
     (case gen_members jc hash fc (sl_Index s) (slot_frag frags s) (sl_Members s)
             (g\<lparr>g_inbounds := g_inbounds g @ [slot_inbound s],
                g_outbounds := g_outbounds g @ map (dialer_outbound (sl_Index s)) (SlotMasters s)\<rparr>) of
        Inl err \<Rightarrow> Inl err
      | Inr g1 \<Rightarrow> gen_slots jc hash fc frags ss
          (g1\<lparr>g_balancers := g_balancers g1 @ [slot_balancer s], g_rules := g_rules g1 @ [slot_rule s]\<rparr>))"

text \<open>The probe inbound: the outbounds of the chains, and the users with the outbound each selects.\<close>

definition chain_outbound :: "json_codec \<Rightarrow> nat \<Rightarrow> string \<Rightarrow> json \<Rightarrow> DialerMember \<Rightarrow> json" where
  "chain_outbound jc i master ob m =
     healXHTTPExtra jc (injectDialerProxy (SlotMemberTag i (mem_Key m)) (obj_set ''tag'' (JStr (ChainProbeTag i master (mem_Key m))) ob))"

definition slot_chains :: "json_codec \<Rightarrow> (string \<rightharpoonup> json) \<Rightarrow> DialerSlot \<Rightarrow> (string \<times> json) list" where
  "slot_chains jc masterObs s =
     concat (map (\<lambda>master. case masterObs (normalizeName master) of
        None \<Rightarrow> []
      | Some ob \<Rightarrow> map (\<lambda>m. (ChainProbeTag (sl_Index s) master (mem_Key m), chain_outbound jc (sl_Index s) master ob m)) (sl_Members s))
      (SlotMasters s))"

definition probe_users :: "json_codec \<Rightarrow> (string \<rightharpoonup> json) \<Rightarrow> DialerSlot list \<Rightarrow> string list" where
  "probe_users jc masterObs slots =
     concat (map (\<lambda>s. map (\<lambda>m. SlotMemberTag (sl_Index s) (mem_Key m)) (sl_Members s) @ map fst (slot_chains jc masterObs s)) slots)"

definition probe_rule :: "string \<Rightarrow> json" where
  "probe_rule tag = field_rule ProbeTag [(''user'', JArr [JStr tag]), (''outboundTag'', JStr tag)]"

definition probe_catch :: json where
  "probe_catch = field_rule ProbeTag [(''outboundTag'', JStr TagBlock)]"

definition probe_inbound :: "string list \<Rightarrow> inbound" where
  "probe_inbound users = loopback_inbound ProbeTag ProbePort ''socks''
     (JObj [(''auth'', JStr ''password''),
       (''accounts'', JArr (map (\<lambda>u. JObj [(''user'', JStr u), (''pass'', JStr ProbePassword)]) users)), (''udp'', JBool False)])"

definition gen_probe :: "json_codec \<Rightarrow> DialerSlot list \<Rightarrow> gen \<Rightarrow> gen" where
  "gen_probe jc slots g =
     (if slots = [] then g
      else
        (let users = probe_users jc (g_masterObs g) slots in
         g\<lparr>g_outbounds := g_outbounds g @ map snd (concat (map (slot_chains jc (g_masterObs g)) slots)),
           g_inbounds := g_inbounds g @ [probe_inbound users],
           g_rules := hd (g_rules g) # map probe_rule users @ [probe_catch] @ tl (g_rules g)\<rparr>))"

definition api_rule :: json where "api_rule = field_rule ApiTag [(''outboundTag'', JStr ApiTag)]"

definition block_outbound :: json where "block_outbound = JObj [(''tag'', JStr TagBlock), (''protocol'', JStr ''blackhole'')]"
definition direct_outbound :: json where "direct_outbound = JObj [(''tag'', JStr TagDirect), (''protocol'', JStr ''freedom'')]"

definition user_rules :: "json_codec \<Rightarrow> string \<Rightarrow> gen_error + json list" where
  "user_rules jc raw =
     (let r = TrimSpace raw in
      if r = [] \<or> r = ''[]'' then Inr []
      else case jc_Unmarshal jc r of
        Inl e \<Rightarrow> Inl (GenUserRules e)
      | Inr (JArr rs) \<Rightarrow> Inr rs
      | Inr JNull \<Rightarrow> Inr []
      | Inr _ \<Rightarrow> Inl (GenUserRules ''cannot unmarshal into slice''))"

definition gen_start :: "json list \<Rightarrow> gen" where
  "gen_start urules =
     \<lparr>g_inbounds = [loopback_inbound ApiTag ApiPort ''dokodemo-door'' (JObj [(''address'', JStr ''127.0.0.1'')])],
       g_outbounds = [block_outbound], g_rules = api_rule # urules, g_balancers = [], g_usedFrags = [], g_masterObs = Map.empty\<rparr>"

definition gen_result :: "(string \<Rightarrow> string) \<Rightarrow> fragment_codec \<Rightarrow> GenerateOptions \<Rightarrow> gen \<Rightarrow> xray_cfg" where
  "gen_result hash fc opt g =
     \<lparr>xc_Log = (if go_LogDir opt = [] then None
         else Some (JObj [(''loglevel'', JStr ''warning''), (''access'', JStr (go_LogDir opt @ ''/em-wall-xray-access.log'')),
           (''error'', JStr (go_LogDir opt @ ''/em-wall-xray-error.log''))])),
       xc_API = JObj [(''tag'', JStr ApiTag),
         (''services'', JArr (map JStr [''HandlerService'', ''RoutingService'', ''ObservatoryService'', ''StatsService'']))],
       xc_Policy = JObj [(''levels'', JObj [(''0'', JObj [(''handshake'', JNum 8), (''connIdle'', JNum 1800), (''uplinkOnly'', JNum 2), (''downlinkOnly'', JNum 5)])]),
         (''system'', JObj [(''statsOutboundUplink'', JBool True), (''statsOutboundDownlink'', JBool True)])],
       xc_Metrics = JObj [(''tag'', JStr MetricsTag), (''listen'', JStr (''127.0.0.1:'' @ Itoa MetricsPort))],
       xc_Stats = JObj [],
       xc_Inbounds = g_inbounds g,
       xc_Outbounds = g_outbounds g @ map (\<lambda>t. fragmentOutbound hash fc (the (map_of (g_usedFrags g) t))) (sort (map fst (g_usedFrags g))) @ [direct_outbound],
       xc_BurstObservatory = observatory opt,
       xc_DomainStrategy = ''AsIs'', xc_Rules = g_rules g, xc_Balancers = g_balancers g\<rparr>"

definition Generate :: "json_codec \<Rightarrow> (string \<Rightarrow> string) \<Rightarrow> fragment_codec \<Rightarrow> ConfigRow list \<Rightarrow> GenerateOptions \<Rightarrow> gen_error + xray_cfg" where
  "Generate jc hash fc entries opt =
     (let es = sort_key cf_Name (filter cf_Enabled entries);
          frags = frag_map fc es;
          slots = sort_key sl_Index (go_DialerSlots opt)
      in case user_rules jc (go_RoutingRules opt) of
           Inl e \<Rightarrow> Inl e
         | Inr urules \<Rightarrow>
             (case gen_entries jc hash fc (go_DialerSlots opt) frags es (gen_start urules) of
                Inl e \<Rightarrow> Inl e
              | Inr g1 \<Rightarrow>
                  (case gen_slots jc hash fc frags slots g1 of
                     Inl e \<Rightarrow> Inl e
                   | Inr g2 \<Rightarrow> Inr (gen_result hash fc opt (gen_probe jc slots g2)))))"

section \<open>Objects\<close>

named_theorems obj_simps

lemma obj_get_set [obj_simps]: "is_object ob \<Longrightarrow> obj_get (obj_set k v ob) k' = (if k = k' then v else obj_get ob k')"
  by (cases ob) (auto simp: obj_get_def obj_set_def is_object_def update_conv')

lemma is_object_set [obj_simps]: "is_object (obj_set k v ob) = is_object ob"
  by (cases ob) (auto simp: obj_set_def is_object_def)

lemma is_object_as [obj_simps]: "is_object (as_object j)"
  by (cases j) (auto simp: as_object_def is_object_def)

lemma applyMux_object [obj_simps]: "is_object ob \<Longrightarrow> is_object (applyMux ob)"
  by (cases ob) (auto simp: applyMux_def is_object_def split: option.split)

lemma inject_object [obj_simps]: "is_object ob \<Longrightarrow> is_object (injectDialerProxy t ob)"
  by (simp add: injectDialerProxy_def obj_simps Let_def)

lemma inject_get [obj_simps]: "is_object ob \<Longrightarrow> k \<noteq> ''streamSettings'' \<Longrightarrow> obj_get (injectDialerProxy t ob) k = obj_get ob k"
  by (simp add: injectDialerProxy_def obj_simps Let_def)

lemma heal_get [obj_simps]: "is_object ob \<Longrightarrow> k \<noteq> ''streamSettings'' \<Longrightarrow> obj_get (healXHTTPExtra jc ob) k = obj_get ob k"
  by (simp add: healXHTTPExtra_def Let_def obj_simps split: json.split sum.split)

lemma mux_get [obj_simps]: "k \<noteq> ''mux'' \<Longrightarrow> obj_get (applyMux ob) k = obj_get ob k"
  by (auto simp: applyMux_def obj_get_def split: json.split option.split)

definition ob_tag :: "json \<Rightarrow> string" where "ob_tag j = as_string (obj_get j ''tag'')"

lemma ob_tag_heal [simp]: "is_object ob \<Longrightarrow> ob_tag (healXHTTPExtra jc ob) = ob_tag ob"
  and ob_tag_inject [simp]: "is_object ob \<Longrightarrow> ob_tag (injectDialerProxy t ob) = ob_tag ob"
  and ob_tag_mux [simp]: "ob_tag (applyMux ob) = ob_tag ob"
  and ob_tag_set [simp]: "is_object ob \<Longrightarrow> ob_tag (obj_set ''tag'' (JStr t) ob) = t"
  by (simp_all add: ob_tag_def obj_simps as_string_def)

text \<open>The dialer an outbound connects through, after healing.\<close>

definition dialer_proxy :: "json \<Rightarrow> string" where
  "dialer_proxy j = as_string (obj_get (obj_get (obj_get j ''streamSettings'') ''sockopt'') ''dialerProxy'')"

lemma dialer_inject [simp]: "is_object ob \<Longrightarrow> dialer_proxy (injectDialerProxy t ob) = t"
  by (simp add: dialer_proxy_def injectDialerProxy_def Let_def obj_simps as_string_def)

lemma dialer_heal [simp]: "is_object ob \<Longrightarrow> dialer_proxy (healXHTTPExtra jc ob) = dialer_proxy ob"
  by (auto simp: dialer_proxy_def healXHTTPExtra_def Let_def obj_simps split: json.split sum.split)

section \<open>What Generate builds\<close>

definition used_ok :: "(string \<Rightarrow> string) \<Rightarrow> fragment_codec \<Rightarrow> (string \<times> Fragment) list \<Rightarrow> bool" where
  "used_ok hash fc used \<longleftrightarrow> distinct (map fst used) \<and> (\<forall>t f. map_of used t = Some f \<longrightarrow> t = FragmentOutboundTag hash fc f)"

lemma used_ok_update: "used_ok hash fc used \<Longrightarrow> used_ok hash fc (AList.update (FragmentOutboundTag hash fc f) f used)"
  by (auto simp: used_ok_def distinct_update update_conv' split: if_splits)

lemma entry_outbound_spec:
  fixes g :: gen
  assumes "is_object ob"
  shows "\<exists>o1. g_outbounds (entry_outbound jc hash fc slots frags e ob g) = g_outbounds g @ [o1] \<and> ob_tag o1 = OutboundTag (cf_Name e)
      \<and> obj_get o1 ''protocol'' = obj_get ob ''protocol''
      \<and> (is_master slots (normalizeName (cf_Name e)) \<longrightarrow> dialer_proxy o1 = DialerOutboundTag (cf_Name e))"
    and "g_inbounds (entry_outbound jc hash fc slots frags e ob g) = g_inbounds g"
    and "g_rules (entry_outbound jc hash fc slots frags e ob g) = g_rules g"
    and "g_balancers (entry_outbound jc hash fc slots frags e ob g) = g_balancers g"
    and "used_ok hash fc (g_usedFrags g) \<Longrightarrow> used_ok hash fc (g_usedFrags (entry_outbound jc hash fc slots frags e ob g))"
    and "dom (g_masterObs (entry_outbound jc hash fc slots frags e ob g)) =
      dom (g_masterObs g) \<union> (if is_master slots (normalizeName (cf_Name e)) then {normalizeName (cf_Name e)} else {})"
    and "(\<forall>o1\<in>ran (g_masterObs g). is_object o1) \<Longrightarrow> \<forall>o1\<in>ran (g_masterObs (entry_outbound jc hash fc slots frags e ob g)). is_object o1"
proof -
  show "\<exists>o1. g_outbounds (entry_outbound jc hash fc slots frags e ob g) = g_outbounds g @ [o1] \<and> ob_tag o1 = OutboundTag (cf_Name e)
      \<and> obj_get o1 ''protocol'' = obj_get ob ''protocol''
      \<and> (is_master slots (normalizeName (cf_Name e)) \<longrightarrow> dialer_proxy o1 = DialerOutboundTag (cf_Name e))"
    using assms by (simp add: entry_outbound_def applyFragment_def Let_def obj_simps split: option.split)
  have "g_masterObs (entry_outbound jc hash fc slots frags e ob g) =
      (if is_master slots (normalizeName (cf_Name e))
       then (g_masterObs g)(normalizeName (cf_Name e) \<mapsto> (let o1 = obj_set ''tag'' (JStr (OutboundTag (cf_Name e))) ob in if cf_Mux e then applyMux o1 else o1))
       else g_masterObs g)"
    by (simp add: entry_outbound_def applyFragment_def Let_def split: option.split)
  then show "\<forall>o1\<in>ran (g_masterObs (entry_outbound jc hash fc slots frags e ob g)). is_object o1" if "\<forall>o1\<in>ran (g_masterObs g). is_object o1"
    using that assms by (auto simp: ran_def Let_def obj_simps)
qed (simp_all add: entry_outbound_def applyFragment_def Let_def used_ok_update split: option.split)

definition entry_ob :: "json_codec \<Rightarrow> DialerSlot list \<Rightarrow> ConfigRow \<Rightarrow> json \<Rightarrow> bool" where
  "entry_ob jc slots e o1 \<longleftrightarrow> ob_tag o1 = OutboundTag (cf_Name e)
     \<and> (\<exists>ob. unmarshal_map jc (cf_Outbound e) = Inr ob \<and> obj_get o1 ''protocol'' = obj_get ob ''protocol'')
     \<and> (is_master slots (normalizeName (cf_Name e)) \<longrightarrow> dialer_proxy o1 = DialerOutboundTag (cf_Name e))"

definition gen_ok :: "(string \<Rightarrow> string) \<Rightarrow> fragment_codec \<Rightarrow> gen \<Rightarrow> bool" where
  "gen_ok hash fc g \<longleftrightarrow> used_ok hash fc (g_usedFrags g) \<and> (\<forall>o1\<in>ran (g_masterObs g). is_object o1)"

lemma unmarshal_object: "unmarshal_map jc raw = Inr ob \<Longrightarrow> ob \<noteq> JNull \<Longrightarrow> is_object ob"
  by (auto simp: unmarshal_map_def split: sum.splits if_splits)

lemma gen_entries_step:
  assumes "gen_entries jc hash fc slots frags (e # es) g = Inr g'"
  obtains ob where "unmarshal_map jc (cf_Outbound e) = Inr ob" "is_object ob"
    "gen_entries jc hash fc slots frags es
       ((entry_outbound jc hash fc slots frags e ob g)\<lparr>g_inbounds := g_inbounds g @ [entry_inbound e], g_rules := g_rules g @ [pair_rule e]\<rparr>) = Inr g'"
proof -
  obtain ob where u: "unmarshal_map jc (cf_Outbound e) = Inr ob" using assms by (auto split: sum.splits)
  moreover have "ob \<noteq> JNull" using assms u by auto
  ultimately show thesis using that [OF u] unmarshal_object [OF u] assms by (cases ob) auto
qed

lemma gen_entries_spec:
  "gen_entries jc hash fc slots frags es g = Inr g' \<Longrightarrow>
    g_inbounds g' = g_inbounds g @ map entry_inbound es \<and> g_rules g' = g_rules g @ map pair_rule es \<and> g_balancers g' = g_balancers g
    \<and> (\<exists>os. g_outbounds g' = g_outbounds g @ os \<and> list_all2 (entry_ob jc slots) es os)
    \<and> dom (g_masterObs g') = dom (g_masterObs g) \<union> {n \<in> (normalizeName \<circ> cf_Name) ` set es. is_master slots n}
    \<and> (gen_ok hash fc g \<longrightarrow> gen_ok hash fc g')"
proof (induction es arbitrary: g)
  case (Cons e es)
  obtain ob where ob: "unmarshal_map jc (cf_Outbound e) = Inr ob" "is_object ob"
    "gen_entries jc hash fc slots frags es
       ((entry_outbound jc hash fc slots frags e ob g)\<lparr>g_inbounds := g_inbounds g @ [entry_inbound e], g_rules := g_rules g @ [pair_rule e]\<rparr>) = Inr g'"
    using gen_entries_step [OF Cons(2)] by blast
  note ih = Cons(1) [OF ob(3)] and sp = entry_outbound_spec [OF ob(2), where jc = jc and hash = hash and fc = fc and slots = slots and frags = frags and e = e and g = g]
  obtain o1 where o1: "g_outbounds (entry_outbound jc hash fc slots frags e ob g) = g_outbounds g @ [o1]" "entry_ob jc slots e o1"
    using sp(1) ob(1) unfolding entry_ob_def by blast
  moreover obtain os where "g_outbounds g' = g_outbounds (entry_outbound jc hash fc slots frags e ob g) @ os" "list_all2 (entry_ob jc slots) es os"
    using ih by auto
  ultimately have o: "g_outbounds g' = (g_outbounds g @ [o1]) @ os" "entry_ob jc slots e o1" "list_all2 (entry_ob jc slots) es os" by simp_all
  have "\<exists>os. g_outbounds g' = g_outbounds g @ os \<and> list_all2 (entry_ob jc slots) (e # es) os"
    by (rule exI [of _ "o1 # os"]) (use o in simp)
  moreover have "dom (g_masterObs g') = dom (g_masterObs g) \<union> {n \<in> (normalizeName \<circ> cf_Name) ` set (e # es). is_master slots n}"
    using ih sp(6) by auto
  moreover have "gen_ok hash fc g \<longrightarrow> gen_ok hash fc g'"
  proof
    assume "gen_ok hash fc g"
    then have "gen_ok hash fc ((entry_outbound jc hash fc slots frags e ob g)\<lparr>g_inbounds := g_inbounds g @ [entry_inbound e], g_rules := g_rules g @ [pair_rule e]\<rparr>)"
      using sp(5,7) by (simp add: gen_ok_def)
    then show "gen_ok hash fc g'" using ih by blast
  qed
  ultimately show ?case using ih sp(4) by simp
qed auto

lemma gen_members_step:
  assumes "gen_members jc hash fc i frag (m # ms) g = Inr g'"
  obtains o1 used where "ob_tag o1 = SlotMemberTag i (mem_Key m)" "used_ok hash fc (g_usedFrags g) \<Longrightarrow> used_ok hash fc used"
    "gen_members jc hash fc i frag ms (g\<lparr>g_usedFrags := used, g_outbounds := g_outbounds g @ [o1]\<rparr>) = Inr g'"
proof -
  obtain ob where u: "unmarshal_map jc (mem_Outbound m) = Inr ob" using assms by (auto split: sum.splits)
  have nn: "ob \<noteq> JNull" using assms u by auto
  then have o: "is_object ob" using unmarshal_object [OF u] by blast
  then obtain kv where kv: "ob = JObj kv" by (cases ob) (auto simp: is_object_def)
  let ?mob = "obj_set ''tag'' (JStr (SlotMemberTag i (mem_Key m))) ob"
  obtain used mob1 where p: "(case frag of Some f \<Rightarrow> applyFragment hash fc ?mob f | None \<Rightarrow> (False, ?mob)) = (used, mob1)" by fastforce
  have t: "ob_tag (healXHTTPExtra jc mob1) = SlotMemberTag i (mem_Key m)"
    using p o by (auto simp: applyFragment_def obj_simps split: option.splits if_splits)
  let ?u = "case frag of Some f \<Rightarrow> if used then AList.update (FragmentOutboundTag hash fc f) f (g_usedFrags g) else g_usedFrags g | None \<Rightarrow> g_usedFrags g"
  have "used_ok hash fc ?u" if "used_ok hash fc (g_usedFrags g)" using that by (simp add: used_ok_update split: option.split)
  moreover have "gen_members jc hash fc i frag ms (g\<lparr>g_usedFrags := ?u, g_outbounds := g_outbounds g @ [healXHTTPExtra jc mob1]\<rparr>) = Inr g'"
    using assms u p [unfolded kv] by (simp add: kv Let_def)
  ultimately show thesis using that [OF t] by blast
qed

lemma gen_members_spec:
  "gen_members jc hash fc i frag ms g = Inr g' \<Longrightarrow>
    g_inbounds g' = g_inbounds g \<and> g_rules g' = g_rules g \<and> g_balancers g' = g_balancers g \<and> g_masterObs g' = g_masterObs g
    \<and> (\<exists>os. g_outbounds g' = g_outbounds g @ os \<and> map ob_tag os = map (\<lambda>m. SlotMemberTag i (mem_Key m)) ms)
    \<and> (gen_ok hash fc g \<longrightarrow> gen_ok hash fc g')"
proof (induction ms arbitrary: g)
  case (Cons m ms)
  obtain o1 used where o: "ob_tag o1 = SlotMemberTag i (mem_Key m)" "used_ok hash fc (g_usedFrags g) \<Longrightarrow> used_ok hash fc used"
    "gen_members jc hash fc i frag ms (g\<lparr>g_usedFrags := used, g_outbounds := g_outbounds g @ [o1]\<rparr>) = Inr g'"
    using gen_members_step [OF Cons(2)] by blast
  note ih = Cons(1) [OF o(3)]
  then obtain os where os: "g_outbounds g' = (g_outbounds g @ [o1]) @ os" "map ob_tag os = map (\<lambda>m. SlotMemberTag i (mem_Key m)) ms" by auto
  have "\<exists>os. g_outbounds g' = g_outbounds g @ os \<and> map ob_tag os = map (\<lambda>m. SlotMemberTag i (mem_Key m)) (m # ms)"
    by (rule exI [of _ "o1 # os"]) (use os o(1) in simp)
  then show ?case using ih o(2) by (simp add: gen_ok_def)
qed auto

definition slot_tags :: "DialerSlot \<Rightarrow> string list" where
  "slot_tags s = map DialerOutboundTag (SlotMasters s) @ map (\<lambda>m. SlotMemberTag (sl_Index s) (mem_Key m)) (sl_Members s)"

lemma dialer_tags: "map ob_tag (map (dialer_outbound i) ms) = map DialerOutboundTag ms"
  by (simp add: dialer_outbound_def ob_tag_def obj_get_def as_string_def)

lemma gen_slots_spec:
  "gen_slots jc hash fc frags ss g = Inr g' \<Longrightarrow>
    g_inbounds g' = g_inbounds g @ map slot_inbound ss \<and> g_rules g' = g_rules g @ map slot_rule ss
    \<and> g_balancers g' = g_balancers g @ map slot_balancer ss \<and> g_masterObs g' = g_masterObs g
    \<and> (\<exists>os. g_outbounds g' = g_outbounds g @ os \<and> map ob_tag os = concat (map slot_tags ss)) \<and> (gen_ok hash fc g \<longrightarrow> gen_ok hash fc g')"
proof (induction ss arbitrary: g)
  case (Cons s ss)
  let ?g0 = "g\<lparr>g_inbounds := g_inbounds g @ [slot_inbound s], g_outbounds := g_outbounds g @ map (dialer_outbound (sl_Index s)) (SlotMasters s)\<rparr>"
  obtain g1 where g1: "gen_members jc hash fc (sl_Index s) (slot_frag frags s) (sl_Members s) ?g0 = Inr g1"
      "gen_slots jc hash fc frags ss (g1\<lparr>g_balancers := g_balancers g1 @ [slot_balancer s], g_rules := g_rules g1 @ [slot_rule s]\<rparr>) = Inr g'"
    using Cons(2) by (auto split: sum.splits)
  note m = gen_members_spec [OF g1(1)] and ih = Cons(1) [OF g1(2)]
  obtain ms where ms: "g_outbounds g1 = g_outbounds ?g0 @ ms" "map ob_tag ms = map (\<lambda>m. SlotMemberTag (sl_Index s) (mem_Key m)) (sl_Members s)"
    using m by auto
  obtain os where os: "g_outbounds g' = g_outbounds g1 @ os" "map ob_tag os = concat (map slot_tags ss)" using ih by auto
  have "\<exists>os. g_outbounds g' = g_outbounds g @ os \<and> map ob_tag os = concat (map slot_tags (s # ss))"
  proof (intro exI conjI)
    show "g_outbounds g' = g_outbounds g @ map (dialer_outbound (sl_Index s)) (SlotMasters s) @ ms @ os" by (simp add: os(1) ms(1))
    show "map ob_tag (map (dialer_outbound (sl_Index s)) (SlotMasters s) @ ms @ os) = concat (map slot_tags (s # ss))"
      by (simp only: map_append dialer_tags os(2) ms(2) slot_tags_def list.map concat.simps append_assoc)
  qed
  moreover have "gen_ok hash fc ?g0 = gen_ok hash fc g" "gen_ok hash fc (g1\<lparr>g_balancers := bs, g_rules := rs\<rparr>) = gen_ok hash fc g1" for bs rs by (simp_all add: gen_ok_def)
  then have "gen_ok hash fc g \<longrightarrow> gen_ok hash fc g'" using m ih by blast
  moreover have "g_inbounds g' = g_inbounds g1 @ map slot_inbound ss" "g_rules g' = g_rules g1 @ slot_rule s # map slot_rule ss"
    "g_balancers g' = g_balancers g1 @ slot_balancer s # map slot_balancer ss" "g_masterObs g' = g_masterObs g1" using ih by simp_all
  moreover have "g_inbounds g1 = g_inbounds g @ [slot_inbound s]" "g_rules g1 = g_rules g" "g_balancers g1 = g_balancers g" "g_masterObs g1 = g_masterObs g"
    using m by simp_all
  ultimately show ?case by simp
qed auto

section \<open>The finished configuration\<close>

text \<open>How xray routes a connection by the rules generated here: the first rule that lists the inbound, and the
  user where the rule names users.\<close>

definition rule_matches :: "string \<Rightarrow> string \<Rightarrow> json \<Rightarrow> bool" where
  "rule_matches tag user r \<longleftrightarrow> JStr tag \<in> set (as_array (obj_get r ''inboundTag''))
     \<and> (has_key r ''user'' \<longrightarrow> JStr user \<in> set (as_array (obj_get r ''user'')))"

definition xray_route :: "json list \<Rightarrow> string \<Rightarrow> string \<Rightarrow> json option" where
  "xray_route rules tag user = find (rule_matches tag user) rules"

lemma matches_field:
  "rule_matches t u (field_rule t' [(''outboundTag'', v)]) \<longleftrightarrow> t = t'" "rule_matches t u (field_rule t' [(''balancerTag'', v)]) \<longleftrightarrow> t = t'"
  "rule_matches t u (probe_rule tag) \<longleftrightarrow> t = ProbeTag \<and> u = tag"
  by (auto simp: rule_matches_def field_rule_def probe_rule_def obj_get_def as_array_def has_key_def)

lemma matches_rules:
  "rule_matches t u (pair_rule e) \<longleftrightarrow> t = InboundTag (cf_Name e)" "rule_matches t u (slot_rule s) \<longleftrightarrow> t = SlotInboundTag (sl_Index s)"
  "rule_matches t u api_rule \<longleftrightarrow> t = ApiTag" "rule_matches t u probe_catch \<longleftrightarrow> t = ProbeTag"
  by (simp_all add: pair_rule_def slot_rule_def api_rule_def probe_catch_def matches_field)

lemma inbound_tags_differ:
  "InboundTag n \<noteq> ApiTag" "InboundTag n \<noteq> ProbeTag" "InboundTag n \<noteq> SlotInboundTag i" "ApiTag \<noteq> ProbeTag"
  "SlotInboundTag i \<noteq> ApiTag" "SlotInboundTag i \<noteq> ProbeTag"
  by (simp_all add: InboundTag_def ApiTag_def ProbeTag_def SlotInboundTag_def)

lemma find_uniqueI:
  assumes "r \<in> set rs" "P r" "\<And>x. x \<in> set rs \<Longrightarrow> P x \<Longrightarrow> x = r"
  shows "find P rs = Some r"
proof -
  obtain x where x: "find P rs = Some x" using assms(1,2) by (cases "find P rs") (auto simp: find_None_iff)
  then have "x \<in> set rs" "P x" by (auto simp: find_Some_iff)
  then show ?thesis using x assms(3) by simp
qed

lemma SlotInboundTag_inj: "SlotInboundTag i = SlotInboundTag j \<Longrightarrow> i = j"
  by (auto simp: SlotInboundTag_def dest: dec_inj)

lemma slot_rule_eq: "SlotInboundTag (sl_Index b) = SlotInboundTag (sl_Index a) \<Longrightarrow> slot_rule a = slot_rule b"
  using SlotInboundTag_inj by (fastforce simp: slot_rule_def)

lemma pair_rule_eq: "InboundTag (cf_Name b) = InboundTag (cf_Name a) \<Longrightarrow> pair_rule a = pair_rule b"
  by (simp add: InboundTag_def OutboundTag_def pair_rule_def)

lemma find_append_or: "find P (xs @ ys) = (case find P xs of Some x \<Rightarrow> Some x | None \<Rightarrow> find P ys)"
  by (induction xs) auto

definition sorted_entries :: "ConfigRow list \<Rightarrow> ConfigRow list" where
  "sorted_entries entries = sort_key cf_Name (filter cf_Enabled entries)"

definition sorted_slots :: "GenerateOptions \<Rightarrow> DialerSlot list" where
  "sorted_slots opt = sort_key sl_Index (go_DialerSlots opt)"

lemma Generate_form:
  assumes "Generate jc hash fc entries opt = Inr cfg"
  obtains urules mo obs os and used :: "(string \<times> Fragment) list" where
    "user_rules jc (go_RoutingRules opt) = Inr urules"
    "xc_Inbounds cfg = loopback_inbound ApiTag ApiPort ''dokodemo-door'' (JObj [(''address'', JStr ''127.0.0.1'')])
       # map entry_inbound (sorted_entries entries) @ map slot_inbound (sorted_slots opt)
       @ (if sorted_slots opt = [] then [] else [probe_inbound (probe_users jc mo (sorted_slots opt))])"
    "xc_Rules cfg = api_rule
       # (if sorted_slots opt = [] then [] else map probe_rule (probe_users jc mo (sorted_slots opt)) @ [probe_catch])
       @ urules @ map pair_rule (sorted_entries entries) @ map slot_rule (sorted_slots opt)"
    "xc_Balancers cfg = map slot_balancer (sorted_slots opt)"
    "xc_Outbounds cfg = block_outbound # obs @ os @ map snd (concat (map (slot_chains jc mo) (sorted_slots opt)))
       @ map (\<lambda>t. fragmentOutbound hash fc (the (map_of used t))) (sort (map fst used)) @ [direct_outbound]"
    "list_all2 (entry_ob jc (go_DialerSlots opt)) (sorted_entries entries) obs"
    "map ob_tag os = concat (map slot_tags (sorted_slots opt))" "used_ok hash fc used"
    "dom mo = {n \<in> (normalizeName \<circ> cf_Name) ` set (sorted_entries entries). is_master (go_DialerSlots opt) n}" "\<forall>o1\<in>ran mo. is_object o1"
proof -
  obtain urules g1 g2 where g: "user_rules jc (go_RoutingRules opt) = Inr urules"
      "gen_entries jc hash fc (go_DialerSlots opt) (frag_map fc (sorted_entries entries)) (sorted_entries entries) (gen_start urules) = Inr g1"
      "gen_slots jc hash fc (frag_map fc (sorted_entries entries)) (sorted_slots opt) g1 = Inr g2"
      "cfg = gen_result hash fc opt (gen_probe jc (sorted_slots opt) g2)"
    using assms by (auto simp: Generate_def Let_def sorted_entries_def sorted_slots_def split: sum.splits)
  note e = gen_entries_spec [OF g(2)] and s = gen_slots_spec [OF g(3)]
  obtain obs where obs: "g_outbounds g1 = g_outbounds (gen_start urules) @ obs" "list_all2 (entry_ob jc (go_DialerSlots opt)) (sorted_entries entries) obs"
    using e by blast
  obtain os where os: "g_outbounds g2 = g_outbounds g1 @ os" "map ob_tag os = concat (map slot_tags (sorted_slots opt))" using s by blast
  have ok: "gen_ok hash fc g2" using e s by (simp add: gen_ok_def [of hash fc "gen_start urules"]) (simp add: gen_start_def used_ok_def)
  have dm: "dom (g_masterObs g2) = {n \<in> (normalizeName \<circ> cf_Name) ` set (sorted_entries entries). is_master (go_DialerSlots opt) n}"
    using e s by (simp add: gen_start_def)
  have i: "g_inbounds g2 = g_inbounds (gen_start urules) @ map entry_inbound (sorted_entries entries) @ map slot_inbound (sorted_slots opt)"
    and r: "g_rules g2 = g_rules (gen_start urules) @ map pair_rule (sorted_entries entries) @ map slot_rule (sorted_slots opt)"
    and b: "g_balancers g2 = map slot_balancer (sorted_slots opt)"
    using e s by (simp_all add: gen_start_def)
  show thesis
  proof (rule that [of urules "g_masterObs g2" obs os "g_usedFrags g2"])
    show "xc_Inbounds cfg = loopback_inbound ApiTag ApiPort ''dokodemo-door'' (JObj [(''address'', JStr ''127.0.0.1'')])
       # map entry_inbound (sorted_entries entries) @ map slot_inbound (sorted_slots opt)
       @ (if sorted_slots opt = [] then [] else [probe_inbound (probe_users jc (g_masterObs g2) (sorted_slots opt))])"
      by (simp add: g(4) gen_result_def gen_probe_def i gen_start_def Let_def)
    show "xc_Rules cfg = api_rule
       # (if sorted_slots opt = [] then [] else map probe_rule (probe_users jc (g_masterObs g2) (sorted_slots opt)) @ [probe_catch])
       @ urules @ map pair_rule (sorted_entries entries) @ map slot_rule (sorted_slots opt)"
      by (simp add: g(4) gen_result_def gen_probe_def r gen_start_def Let_def)
    show "xc_Balancers cfg = map slot_balancer (sorted_slots opt)" by (simp add: g(4) gen_result_def gen_probe_def b Let_def)
    show "xc_Outbounds cfg = block_outbound # obs @ os @ map snd (concat (map (slot_chains jc (g_masterObs g2)) (sorted_slots opt)))
       @ map (\<lambda>t. fragmentOutbound hash fc (the (map_of (g_usedFrags g2) t))) (sort (map fst (g_usedFrags g2))) @ [direct_outbound]"
      by (simp add: g(4) gen_result_def gen_probe_def obs(1) os(1) gen_start_def Let_def)
    show "used_ok hash fc (g_usedFrags g2)" "\<forall>o1\<in>ran (g_masterObs g2). is_object o1" using ok by (simp_all add: gen_ok_def)
  qed (rule g(1), rule obs(2), rule os(2), rule dm)
qed

section \<open>Properties\<close>

definition generated_rules :: "string list \<Rightarrow> ConfigRow list \<Rightarrow> DialerSlot list \<Rightarrow> json list" where
  "generated_rules users es ss = api_rule # (if ss = [] then [] else map probe_rule users @ [probe_catch]) @ map pair_rule es @ map slot_rule ss"

lemmas tags_differ = inbound_tags_differ inbound_tags_differ [symmetric]

lemma route_entry:
  assumes "e \<in> set es"
  shows "xray_route (generated_rules users es ss) (InboundTag (cf_Name e)) user = Some (pair_rule e)"
  unfolding xray_route_def
proof (rule find_uniqueI)
  show "pair_rule e \<in> set (generated_rules users es ss)" using assms by (simp add: generated_rules_def)
  show "rule_matches (InboundTag (cf_Name e)) user (pair_rule e)" by (simp add: matches_rules)
  fix x assume "x \<in> set (generated_rules users es ss)" "rule_matches (InboundTag (cf_Name e)) user x"
  then show "x = pair_rule e"
    by (auto simp: generated_rules_def matches_rules matches_field tags_differ split: if_splits intro: pair_rule_eq)
qed

lemma route_slot:
  assumes "s \<in> set ss"
  shows "xray_route (generated_rules users es ss) (SlotInboundTag (sl_Index s)) user = Some (slot_rule s)"
  unfolding xray_route_def
proof (rule find_uniqueI)
  show "slot_rule s \<in> set (generated_rules users es ss)" using assms by (simp add: generated_rules_def)
  show "rule_matches (SlotInboundTag (sl_Index s)) user (slot_rule s)" by (simp add: matches_rules)
  fix x assume "x \<in> set (generated_rules users es ss)" "rule_matches (SlotInboundTag (sl_Index s)) user x"
  then show "x = slot_rule s"
    by (auto simp: generated_rules_def matches_rules matches_field tags_differ split: if_splits intro: slot_rule_eq)
qed

lemma probe_routed:
  "xray_route (api_rule # (map probe_rule users @ [probe_catch]) @ rest) ProbeTag user
    = Some (if user \<in> set users then probe_rule user else probe_catch)"
proof -
  have "find (rule_matches ProbeTag user) (map probe_rule users) = (if user \<in> set users then Some (probe_rule user) else None)"
  proof (cases "user \<in> set users")
    case True
    have "find (rule_matches ProbeTag user) (map probe_rule users) = Some (probe_rule user)"
      by (rule find_uniqueI) (use True in \<open>auto simp: matches_field\<close>)
    then show ?thesis using True by simp
  qed (auto simp: find_None_iff matches_field)
  then show ?thesis by (auto simp: xray_route_def find_append_or matches_rules tags_differ split: option.splits)
qed

lemma route_probe:
  "ss \<noteq> [] \<Longrightarrow> xray_route (generated_rules users es ss) ProbeTag user = Some (if user \<in> set users then probe_rule user else probe_catch)"
  unfolding generated_rules_def by (simp only: if_False probe_routed)


definition demo_codec :: json_codec where
  "demo_codec = \<lparr>jc_Unmarshal = (\<lambda>_. Inr (JObj [(''protocol'', JStr ''vmess'')])), jc_MarshalIndent = (\<lambda>_. Inr [])\<rparr>"

definition demo_config :: "string \<Rightarrow> int \<Rightarrow> bool \<Rightarrow> ConfigRow" where
  "demo_config n port en = \<lparr>cf_ID = port, cf_Name = n, cf_Dialer = [], cf_Outbound = ''{}'', cf_SocksPort = port, cf_Enabled = en, cf_Mux = False,
     cf_Fragment = [], cf_SubID = 0, cf_SubFingerprint = [], cf_CreatedAt = 0, cf_UpdatedAt = 0\<rparr>"

definition demo_slot :: DialerSlot where
  "demo_slot = \<lparr>sl_Master = ''tokyo'', sl_Aliases = [], sl_Index = 1, sl_Members = [\<lparr>mem_Key = ''xray-a'', mem_Outbound = ''{}''\<rparr>],
     sl_Preferred = [], sl_PoolKey = [], sl_Strategy = [], sl_Auto = False, sl_Pinned = [], sl_Expected = 0, sl_Fallback = [], sl_Broken = []\<rparr>"

definition demo_options :: GenerateOptions where
  "demo_options = \<lparr>go_LogDir = [], go_RoutingRules = '' [] '', go_DialerSlots = [demo_slot], go_ObservatoryProbeURL = [], go_ObservatoryInterval = [],
     go_ObservatorySampling = 0, go_ObservatoryTimeout = []\<rparr>"

definition demo_entries :: "ConfigRow list" where
  "demo_entries = [demo_config ''tokyo'' 11800 True, demo_config ''paris'' 11801 False]"

lemma demo_entries_ok: "configs_ok demo_entries"
proof -
  have "stored_name ''tokyo''" "stored_name ''paris''" by code_simp+
  then show ?thesis
    by (auto simp: demo_entries_def demo_config_def table_ok_def configs_uniq_def stored_config_def intro!: exI [of _ "[]"])
      (simp_all add: FormatDialer_def)
qed

lemma demo_generates: "\<exists>cfg. Generate demo_codec (\<lambda>_. []) no_frag demo_entries demo_options = Inr cfg"
proof -
  have "case Generate demo_codec (\<lambda>_. []) no_frag demo_entries demo_options of Inl _ \<Rightarrow> False | Inr _ \<Rightarrow> True" by code_simp
  then show ?thesis by (auto split: sum.splits)
qed


section \<open>Unique tags, no dangling references\<close>

lemma sep_split:
  assumes "a @ c # x = b @ c # y" "\<And>d. d \<in> set a \<Longrightarrow> P d" "\<And>d. d \<in> set b \<Longrightarrow> P d" "\<not> P c"
  shows "a = b \<and> x = y"
proof -
  have "takeWhile P (a @ c # x) = a" "takeWhile P (b @ c # y) = b" using assms(2-4) by (simp_all add: takeWhile_append2)
  then have "a = b" using assms(1) by metis
  then show ?thesis using assms(1) by simp
qed

lemma dec_split: "dec i @ c # x = dec j @ c # y \<Longrightarrow> \<not> is_digit c \<Longrightarrow> i = j \<and> x = y"
  using sep_split [of "dec i" c x "dec j" y is_digit] dec_digits dec_inj by blast

lemma not_digits: "\<not> is_digit CHR ''-''" "\<not> is_digit CHR ''.''"
  by (simp_all add: is_digit_def in_range_def ord_def)

lemma SlotMemberTag_inj: "SlotMemberTag i k = SlotMemberTag j l \<longleftrightarrow> i = j \<and> sanitizeTag k = sanitizeTag l"
  using dec_split [OF _ not_digits(1), of i "''out-'' @ sanitizeTag k" j "''out-'' @ sanitizeTag l"]
  by (auto simp: SlotMemberTag_def SlotOutboundPrefix_def)

lemma slot_prefix_iff: "prefix (SlotOutboundPrefix i) (SlotMemberTag j k) \<longleftrightarrow> i = j"
proof
  assume "prefix (SlotOutboundPrefix i) (SlotMemberTag j k)"
  then obtain z where "SlotMemberTag j k = SlotOutboundPrefix i @ z" by (auto elim: prefixE)
  then show "i = j" using dec_split [OF _ not_digits(1), of j "''out-'' @ sanitizeTag k" i "''out-'' @ z"]
    by (auto simp: SlotMemberTag_def SlotOutboundPrefix_def)
qed (simp add: SlotMemberTag_def)

lemma sanitize_no_dot: "CHR ''.'' \<notin> set (sanitizeTag k)"
  using sanitize_chars [of "CHR ''.''" k] by (auto simp: name_char_def is_alnum_def is_lower_def is_digit_def in_range_def ord_def)

lemma dot_split: "a @ CHR ''.'' # x = b @ CHR ''.'' # y \<Longrightarrow> CHR ''.'' \<notin> set a \<Longrightarrow> CHR ''.'' \<notin> set b \<Longrightarrow> a = b \<and> x = y"
  using sep_split [of a "CHR ''.''" x b y "\<lambda>c. c \<noteq> CHR ''.''"] by blast

lemma ChainProbeTag_inj:
  "ChainProbeTag i m k = ChainProbeTag j n l \<longleftrightarrow> i = j \<and> sanitizeTag m = sanitizeTag n \<and> sanitizeTag k = sanitizeTag l"
proof
  assume "ChainProbeTag i m k = ChainProbeTag j n l"
  then have "dec i @ CHR ''.'' # sanitizeTag m @ CHR ''.'' # sanitizeTag k = dec j @ CHR ''.'' # sanitizeTag n @ CHR ''.'' # sanitizeTag l"
    by (simp add: ChainProbeTag_def)
  then have "i = j" "sanitizeTag m @ CHR ''.'' # sanitizeTag k = sanitizeTag n @ CHR ''.'' # sanitizeTag l"
    using dec_split [OF _ not_digits(2)] by blast+
  then show "i = j \<and> sanitizeTag m = sanitizeTag n \<and> sanitizeTag k = sanitizeTag l" using dot_split sanitize_no_dot by blast
qed (simp add: ChainProbeTag_def)

lemma sanitize_stored: "stored_name n \<Longrightarrow> sanitizeTag n = n"
proof -
  assume n: "stored_name n"
  then have "ToLower (TrimSpace n) = n" using normalizeName_stored by (simp add: normalizeName_def)
  then show ?thesis using n by (simp add: sanitizeTag_def stored_name_def list_all_iff map_idI)
qed

definition slots_ok :: "DialerSlot list \<Rightarrow> bool" where
  "slots_ok slots \<longleftrightarrow> distinct (map sl_Index slots) \<and> distinct (concat (map SlotMasters slots))
     \<and> (\<forall>s\<in>set slots. (\<forall>m\<in>set (SlotMasters s). stored_name m) \<and> distinct (map (\<lambda>m. sanitizeTag (mem_Key m)) (sl_Members s)))"

lemma slots_ok_Cons: "slots_ok (s # ss) \<Longrightarrow> slots_ok ss"
  by (auto simp: slots_ok_def)

lemma DialerOutboundTag_inj: "stored_name m \<Longrightarrow> stored_name n \<Longrightarrow> DialerOutboundTag m = DialerOutboundTag n \<longleftrightarrow> m = n"
  by (simp add: DialerOutboundTag_def)

lemma dialer_slot_differ: "DialerOutboundTag m \<noteq> SlotMemberTag i k"
  by (simp add: DialerOutboundTag_def SlotMemberTag_def SlotOutboundPrefix_def)

lemma member_tags_distinct:
  "distinct (map (\<lambda>m. sanitizeTag (mem_Key m)) ms) \<Longrightarrow> distinct (map (\<lambda>m. SlotMemberTag i (mem_Key m)) ms)"
  by (auto simp: distinct_map inj_on_def SlotMemberTag_inj)

lemma slot_tags_distinct: "slots_ok slots \<Longrightarrow> distinct (concat (map slot_tags slots))"
proof (induction slots)
  case (Cons s ss)
  have ms: "distinct (map DialerOutboundTag (SlotMasters s))"
    using Cons(2) DialerOutboundTag_inj by (auto simp: slots_ok_def distinct_map inj_on_def)
  have one: "distinct (slot_tags s)" using ms Cons(2) member_tags_distinct
    by (auto simp: slot_tags_def slots_ok_def DialerOutboundTag_def SlotMemberTag_def SlotOutboundPrefix_def)
  have "t \<notin> set (slot_tags s')" if t: "t \<in> set (slot_tags s)" and s': "s' \<in> set ss" for t s'
  proof -
    have "sl_Index s \<notin> sl_Index ` set ss" using Cons(2) by (simp add: slots_ok_def)
    then have "sl_Index s' \<noteq> sl_Index s" using s' by (metis imageI)
    moreover have "m \<noteq> m'" if "m \<in> set (SlotMasters s)" "m' \<in> set (SlotMasters s')" for m m'
      using Cons(2) s' that by (auto simp: slots_ok_def)
    moreover have "stored_name m" if "m \<in> set (SlotMasters s) \<union> set (SlotMasters s')" for m
      using Cons(2) s' that by (auto simp: slots_ok_def)
    ultimately have "DialerOutboundTag m \<noteq> DialerOutboundTag m'" if "m \<in> set (SlotMasters s)" "m' \<in> set (SlotMasters s')" for m m'
      using that DialerOutboundTag_inj [of m m'] by blast
    then show ?thesis using t \<open>sl_Index s' \<noteq> sl_Index s\<close> by (auto simp: slot_tags_def SlotMemberTag_inj dialer_slot_differ dialer_slot_differ [symmetric])
  qed
  then show ?case using one Cons slots_ok_Cons by fastforce
qed simp

text \<open>The tags of the probe chains.\<close>

definition chain_tags :: "(string \<rightharpoonup> json) \<Rightarrow> DialerSlot \<Rightarrow> string list" where
  "chain_tags mo s = concat (map (\<lambda>m. map (\<lambda>x. ChainProbeTag (sl_Index s) m (mem_Key x)) (sl_Members s))
     (filter (\<lambda>m. mo (normalizeName m) \<noteq> None) (SlotMasters s)))"

lemma chain_tags_fst: "map fst (slot_chains jc mo s) = chain_tags mo s"
proof -
  have "map fst (concat (map (\<lambda>m. case mo (normalizeName m) of None \<Rightarrow> []
      | Some ob \<Rightarrow> map (\<lambda>x. (ChainProbeTag i m (mem_Key x), chain_outbound jc i m ob x)) xs) ms)) =
    concat (map (\<lambda>m. map (\<lambda>x. ChainProbeTag i m (mem_Key x)) xs) (filter (\<lambda>m. mo (normalizeName m) \<noteq> None) ms))" for i xs ms
    by (induction ms) (auto simp: comp_def split: option.split)
  then show ?thesis by (simp add: slot_chains_def chain_tags_def)
qed

lemma chain_tags_snd: "\<forall>o1\<in>ran mo. is_object o1 \<Longrightarrow> map ob_tag (map snd (slot_chains jc mo s)) = chain_tags mo s"
proof -
  assume o: "\<forall>o1\<in>ran mo. is_object o1"
  have "ob_tag (snd p) = fst p" if p: "p \<in> set (slot_chains jc mo s)" for p
  proof -
    obtain m where m: "p \<in> set (case mo (normalizeName m) of None \<Rightarrow> []
        | Some ob \<Rightarrow> map (\<lambda>x. (ChainProbeTag (sl_Index s) m (mem_Key x), chain_outbound jc (sl_Index s) m ob x)) (sl_Members s))"
      using p unfolding slot_chains_def set_concat set_map by blast
    obtain ob where "mo (normalizeName m) = Some ob" using m by (cases "mo (normalizeName m)") auto
    moreover obtain x where "p = (ChainProbeTag (sl_Index s) m (mem_Key x), chain_outbound jc (sl_Index s) m ob x)" using m calculation by auto
    moreover have "is_object ob" using o calculation(1) by (blast intro: ranI)
    ultimately show ?thesis by (simp add: chain_outbound_def obj_simps)
  qed
  then have "map ob_tag (map snd (slot_chains jc mo s)) = map fst (slot_chains jc mo s)" by simp
  then show ?thesis using chain_tags_fst by simp
qed

lemma chain_tags_one:
  assumes "\<forall>m\<in>set ms. stored_name m" "distinct ms" "distinct (map (\<lambda>x. sanitizeTag (mem_Key x)) xs)"
  shows "distinct (concat (map (\<lambda>m. map (\<lambda>x. ChainProbeTag i m (mem_Key x)) xs) ms))"
  using assms(1,2)
proof (induction ms)
  case (Cons m ms)
  have "distinct (map (\<lambda>x. ChainProbeTag i m (mem_Key x)) xs)" using assms(3) by (auto simp: distinct_map inj_on_def ChainProbeTag_inj)
  moreover have "sanitizeTag m \<noteq> sanitizeTag m'" if "m' \<in> set ms" for m' using Cons(2,3) that sanitize_stored by auto
  ultimately show ?case using Cons by (auto simp: ChainProbeTag_inj)
qed simp

lemma chain_tags_distinct: "slots_ok slots \<Longrightarrow> distinct (concat (map (chain_tags mo) slots))"
proof (induction slots)
  case (Cons s ss)
  have "distinct (chain_tags mo s)" unfolding chain_tags_def
    by (rule chain_tags_one) (use Cons(2) in \<open>auto simp: slots_ok_def\<close>)
  moreover have "set (chain_tags mo s) \<inter> set (chain_tags mo s') = {}" if "s' \<in> set ss" for s'
  proof -
    have "sl_Index s \<notin> sl_Index ` set ss" using Cons(2) by (simp add: slots_ok_def)
    then have "sl_Index s' \<noteq> sl_Index s" using that by (metis imageI)
    then show ?thesis by (auto simp: chain_tags_def ChainProbeTag_inj)
  qed
  ultimately show ?case using Cons slots_ok_Cons by fastforce
qed simp

lemma frag_tags:
  assumes "used_ok hash fc used"
  shows "map ob_tag (map (\<lambda>t. fragmentOutbound hash fc (the (map_of used t))) (sort (map fst used))) = sort (map fst used)"
proof -
  have "ob_tag (fragmentOutbound hash fc (the (map_of used t))) = t" if t: "t \<in> fst ` set used" for t
  proof -
    obtain f where "map_of used t = Some f" using t by (cases "map_of used t") (auto simp: map_of_eq_None_iff)
    then show ?thesis using assms by (simp add: used_ok_def fragmentOutbound_def ob_tag_def obj_get_def as_string_def)
  qed
  then show ?thesis unfolding map_map by (intro map_idI) simp
qed

lemma slots_ok_perm: "slots_ok (go_DialerSlots opt) \<Longrightarrow> slots_ok (sorted_slots opt)"
proof -
  assume a: "slots_ok (go_DialerSlots opt)"
  have "mset (concat (map SlotMasters (sorted_slots opt))) = mset (concat (map SlotMasters (go_DialerSlots opt)))"
    by (simp add: sorted_slots_def mset_concat sum_mset_sum_list [symmetric])
  then have "distinct (concat (map SlotMasters (sorted_slots opt)))" using a by (metis mset_eq_imp_distinct_iff slots_ok_def)
  then show ?thesis using a by (simp add: slots_ok_def sorted_slots_def distinct_map)
qed

lemma outbound_families:
  "TagBlock \<noteq> OutboundTag n" "TagBlock \<noteq> DialerOutboundTag m" "TagBlock \<noteq> SlotMemberTag i k" "TagBlock \<noteq> ChainProbeTag i m k"
  "TagBlock \<noteq> FragmentOutboundTag hash fc f" "TagBlock \<noteq> TagDirect" "TagDirect \<noteq> OutboundTag n" "TagDirect \<noteq> DialerOutboundTag m"
  "TagDirect \<noteq> SlotMemberTag i k" "TagDirect \<noteq> ChainProbeTag i m k" "TagDirect \<noteq> FragmentOutboundTag hash fc f"
  "OutboundTag n \<noteq> DialerOutboundTag m" "OutboundTag n \<noteq> SlotMemberTag i k" "OutboundTag n \<noteq> ChainProbeTag i m k"
  "OutboundTag n \<noteq> FragmentOutboundTag hash fc f" "DialerOutboundTag m' \<noteq> ChainProbeTag i m k" "DialerOutboundTag m \<noteq> FragmentOutboundTag hash fc f"
  "SlotMemberTag j l \<noteq> ChainProbeTag i m k" "SlotMemberTag j l \<noteq> FragmentOutboundTag hash fc f" "ChainProbeTag i m k \<noteq> FragmentOutboundTag hash fc f"
  by (simp_all add: TagBlock_def TagDirect_def OutboundTag_def DialerOutboundTag_def SlotMemberTag_def SlotOutboundPrefix_def ChainProbeTag_def
      FragmentOutboundTag_def)

lemma Generate_tags:
  assumes "Generate jc hash fc entries opt = Inr cfg"
  obtains urules mo and used :: "(string \<times> Fragment) list" where
    "user_rules jc (go_RoutingRules opt) = Inr urules" "used_ok hash fc used"
    "map ob_tag (xc_Outbounds cfg) = TagBlock # map (\<lambda>e. OutboundTag (cf_Name e)) (sorted_entries entries)
       @ concat (map slot_tags (sorted_slots opt)) @ concat (map (chain_tags mo) (sorted_slots opt)) @ sort (map fst used) @ [TagDirect]"
    "xc_Rules cfg = api_rule
       # (if sorted_slots opt = [] then [] else map probe_rule (probe_users jc mo (sorted_slots opt)) @ [probe_catch])
       @ urules @ map pair_rule (sorted_entries entries) @ map slot_rule (sorted_slots opt)"
    "xc_Balancers cfg = map slot_balancer (sorted_slots opt)"
proof -
  obtain urules mo obs os and used :: "(string \<times> Fragment) list" where f: "user_rules jc (go_RoutingRules opt) = Inr urules"
    "xc_Rules cfg = api_rule
       # (if sorted_slots opt = [] then [] else map probe_rule (probe_users jc mo (sorted_slots opt)) @ [probe_catch])
       @ urules @ map pair_rule (sorted_entries entries) @ map slot_rule (sorted_slots opt)"
    "xc_Balancers cfg = map slot_balancer (sorted_slots opt)"
    "xc_Outbounds cfg = block_outbound # obs @ os @ map snd (concat (map (slot_chains jc mo) (sorted_slots opt)))
       @ map (\<lambda>t. fragmentOutbound hash fc (the (map_of used t))) (sort (map fst used)) @ [direct_outbound]"
    "list_all2 (entry_ob jc (go_DialerSlots opt)) (sorted_entries entries) obs"
    "map ob_tag os = concat (map slot_tags (sorted_slots opt))" "used_ok hash fc used" "\<forall>o1\<in>ran mo. is_object o1"
    by (rule Generate_form [OF assms]) blast
  have o: "map ob_tag obs = map (\<lambda>e. OutboundTag (cf_Name e)) (sorted_entries entries)"
    using f(5) by (induction rule: list_all2_induct) (auto simp: entry_ob_def)
  have c: "map ob_tag (map snd (concat (map (slot_chains jc mo) ss))) = concat (map (chain_tags mo) ss)" for ss
    using chain_tags_snd [OF f(8)] by (induction ss) (simp_all add: map_concat)
  have "ob_tag block_outbound = TagBlock" "ob_tag direct_outbound = TagDirect"
    by (simp_all add: block_outbound_def direct_outbound_def ob_tag_def obj_get_def as_string_def)
  then have "map ob_tag (xc_Outbounds cfg) = TagBlock # map (\<lambda>e. OutboundTag (cf_Name e)) (sorted_entries entries)
       @ concat (map slot_tags (sorted_slots opt)) @ concat (map (chain_tags mo) (sorted_slots opt)) @ sort (map fst used) @ [TagDirect]"
    unfolding f(4) by (simp only: list.map map_append o f(6) c frag_tags [OF f(7)])
  then show thesis by (rule that [OF f(1,7) _ f(2,3)])
qed

lemma slot_fallback_member: "slot_fallback s \<noteq> [] \<Longrightarrow> slot_fallback s \<in> mem_Key ` set (sl_Members s)"
proof -
  assume ne: "slot_fallback s \<noteq> []"
  have f: "find P xs = Some x \<Longrightarrow> x \<in> set xs" for P and xs :: "'b list" and x by (auto simp: find_Some_iff)
  define f1 where "f1 = (case find (\<lambda>m. mem_Key m \<notin> slot_broken s) (sl_Members s) of Some m \<Rightarrow> mem_Key m | None \<Rightarrow> [])"
  have f1: "f1 = [] \<or> f1 \<in> mem_Key ` set (sl_Members s)" by (auto simp: f1_def split: option.split dest: f)
  have "slot_fallback s = sl_Fallback s \<and> sl_Fallback s \<in> mem_Key ` set (sl_Members s)
      \<or> slot_fallback s = (case find (\<lambda>k. k \<notin> slot_broken s) (presentPreferred s) of Some k \<Rightarrow> k | None \<Rightarrow> f1)"
  proof (cases "sl_Fallback s \<noteq> [] \<and> sl_Fallback s \<notin> slot_broken s \<and> sl_Fallback s \<in> mem_Key ` set (sl_Members s)")
    case False
    then show ?thesis unfolding slot_fallback_def f1_def Let_def by (simp only: if_False simp_thms)
  qed (simp add: slot_fallback_def)
  moreover have "k \<in> mem_Key ` set (sl_Members s)" if "find (\<lambda>k. k \<notin> slot_broken s) (presentPreferred s) = Some k" for k
    using f [OF that] by (simp add: presentPreferred_def)
  ultimately show ?thesis using f1 ne by (auto split: option.splits)
qed

lemma probe_users_set:
  "set (probe_users jc mo slots) = {SlotMemberTag (sl_Index s) (mem_Key m) |s m. s \<in> set slots \<and> m \<in> set (sl_Members s)}
     \<union> (\<Union>s\<in>set slots. set (chain_tags mo s))"
proof -
  have "fst ` set (slot_chains jc mo s) = set (chain_tags mo s)" for s using chain_tags_fst [of jc mo s] by (metis list.set_map)
  then show ?thesis by (auto simp: probe_users_def)
qed

lemma rule_targets:
  "as_string (obj_get (pair_rule e) ''outboundTag'') = OutboundTag (cf_Name e)" "as_string (obj_get (probe_rule t) ''outboundTag'') = t"
  "as_string (obj_get probe_catch ''outboundTag'') = TagBlock" "as_string (obj_get api_rule ''outboundTag'') = ApiTag"
  "as_string (obj_get (slot_rule s) ''balancerTag'') = SlotBalancerTag (sl_Index s)" "ob_tag (slot_balancer s) = SlotBalancerTag (sl_Index s)"
  by (simp_all add: pair_rule_def probe_rule_def probe_catch_def api_rule_def slot_rule_def field_rule_def obj_get_def as_string_def
      slot_balancer_def ob_tag_def)

lemma not_slot_prefix:
  "\<not> prefix (SlotOutboundPrefix i) (OutboundTag n)" "\<not> prefix (SlotOutboundPrefix i) (DialerOutboundTag n)"
  "\<not> prefix (SlotOutboundPrefix i) (ChainProbeTag j n k)" "\<not> prefix (SlotOutboundPrefix i) (FragmentOutboundTag hash fc fr)"
  "\<not> prefix (SlotOutboundPrefix i) TagBlock" "\<not> prefix (SlotOutboundPrefix i) TagDirect"
  by (simp_all add: SlotOutboundPrefix_def OutboundTag_def DialerOutboundTag_def ChainProbeTag_def FragmentOutboundTag_def TagBlock_def TagDirect_def)

lemma chain_tag_no_slot_prefix:
  assumes "t \<in> set (chain_tags mo s')"
  shows "\<not> prefix (SlotOutboundPrefix i) t"
proof -
  obtain j n k where "t = ChainProbeTag j n k" using assms unfolding chain_tags_def by auto
  then show ?thesis by (simp add: not_slot_prefix(3))
qed

lemma slot_tag_prefix:
  assumes "t \<in> set (slot_tags s')" "prefix (SlotOutboundPrefix i) t"
  obtains m where "m \<in> set (sl_Members s')" "t = SlotMemberTag (sl_Index s') (mem_Key m)" "sl_Index s' = i"
proof -
  have "t \<in> DialerOutboundTag ` set (SlotMasters s') \<or> t \<in> (\<lambda>m. SlotMemberTag (sl_Index s') (mem_Key m)) ` set (sl_Members s')"
    using assms(1) unfolding slot_tags_def set_append set_map by blast
  then show ?thesis
  proof
    assume "t \<in> DialerOutboundTag ` set (SlotMasters s')"
    then show ?thesis using assms(2) not_slot_prefix(2) by blast
  next
    assume "t \<in> (\<lambda>m. SlotMemberTag (sl_Index s') (mem_Key m)) ` set (sl_Members s')"
    then obtain m where m: "m \<in> set (sl_Members s')" "t = SlotMemberTag (sl_Index s') (mem_Key m)" by blast
    moreover have "i = sl_Index s'" using assms(2) unfolding m(2) slot_prefix_iff .
    ultimately show ?thesis using that by blast
  qed
qed

lemma slot_selector_exact:
  assumes T: "tags = insert TagBlock (insert TagDirect ((\<lambda>e. OutboundTag (cf_Name e)) ` es
      \<union> (\<Union>s\<in>ss. set (slot_tags s)) \<union> (\<Union>s\<in>ss. set (chain_tags mo s)) \<union> frs))"
    and frag: "\<And>t. t \<in> frs \<Longrightarrow> \<exists>f. t = FragmentOutboundTag hash fc f"
    and s: "s \<in> ss" and same: "\<And>s'. s' \<in> ss \<Longrightarrow> sl_Index s' = sl_Index s \<Longrightarrow> s' = s"
  shows "{t \<in> tags. prefix (SlotOutboundPrefix (sl_Index s)) t} = (SlotMemberTag (sl_Index s) \<circ> mem_Key) ` set (sl_Members s)"
proof (rule set_eqI, rule iffI)
  fix t assume "t \<in> {t \<in> tags. prefix (SlotOutboundPrefix (sl_Index s)) t}"
  then have t: "t \<in> tags" and p: "prefix (SlotOutboundPrefix (sl_Index s)) t" by simp_all
  have "t \<notin> frs"
  proof
    assume "t \<in> frs"
    then obtain f where "t = FragmentOutboundTag hash fc f" using frag by blast
    then show False using p by (simp add: not_slot_prefix(4))
  qed
  moreover have "t \<noteq> TagBlock" "t \<noteq> TagDirect" using p not_slot_prefix(5,6) by metis+
  moreover have "t \<notin> (\<lambda>e. OutboundTag (cf_Name e)) ` es" using p not_slot_prefix(1) by blast
  moreover have "t \<notin> (\<Union>s\<in>ss. set (chain_tags mo s))" using p chain_tag_no_slot_prefix by blast
  ultimately have "t \<in> (\<Union>s\<in>ss. set (slot_tags s))" using t unfolding T by simp
  then obtain s' where s': "s' \<in> ss" "t \<in> set (slot_tags s')" by blast
  obtain m where m: "m \<in> set (sl_Members s')" "t = SlotMemberTag (sl_Index s') (mem_Key m)" "sl_Index s' = sl_Index s"
    by (rule slot_tag_prefix [OF s'(2) p])
  then show "t \<in> (SlotMemberTag (sl_Index s) \<circ> mem_Key) ` set (sl_Members s)" using same [OF s'(1) m(3)] by simp
next
  fix t assume "t \<in> (SlotMemberTag (sl_Index s) \<circ> mem_Key) ` set (sl_Members s)"
  then obtain m where m: "m \<in> set (sl_Members s)" "t = SlotMemberTag (sl_Index s) (mem_Key m)" by auto
  then have "t \<in> set (slot_tags s)" by (simp add: slot_tags_def)
  then show "t \<in> {t \<in> tags. prefix (SlotOutboundPrefix (sl_Index s)) t}" using s m(2) unfolding T by (auto simp: slot_prefix_iff)
qed

lemma slot_references:
  assumes T: "tags = insert TagBlock (insert TagDirect ((\<lambda>e. OutboundTag (cf_Name e)) ` es
      \<union> (\<Union>s\<in>ss. set (slot_tags s)) \<union> (\<Union>s\<in>ss. set (chain_tags mo s)) \<union> frs))" and s: "s \<in> ss"
  shows "slot_fallback s \<noteq> [] \<Longrightarrow> SlotMemberTag (sl_Index s) (slot_fallback s) \<in> tags"
    and "m \<in> set (SlotMasters s) \<Longrightarrow> DialerOutboundTag m \<in> tags"
proof -
  have mem: "t \<in> tags" if "t \<in> set (slot_tags s)" for t using s that unfolding T by blast
  show "SlotMemberTag (sl_Index s) (slot_fallback s) \<in> tags" if ne: "slot_fallback s \<noteq> []"
  proof -
    obtain x where x: "x \<in> set (sl_Members s)" "slot_fallback s = mem_Key x" using slot_fallback_member [OF ne] by blast
    have "SlotMemberTag (sl_Index s) (mem_Key x) \<in> set (slot_tags s)" unfolding slot_tags_def set_append set_map using x(1) by blast
    then show ?thesis unfolding x(2) by (rule mem)
  qed
  show "DialerOutboundTag m \<in> tags" if "m \<in> set (SlotMasters s)"
    by (rule mem) (use that in \<open>unfold slot_tags_def set_append set_map, blast\<close>)
qed

lemma used_frag:
  assumes "used_ok hash fc used" "t \<in> fst ` set used"
  shows "\<exists>f. t = FragmentOutboundTag hash fc f"
proof (cases "map_of used t")
  case (Some fr)
  then show ?thesis using assms(1) unfolding used_ok_def by blast
qed (use assms(2) in \<open>auto simp: map_of_eq_None_iff\<close>)



end
