(* ===== verification/Path_Probe.thy ===== *)
theory Path_Probe
  imports Node_Pool Xray_Config
begin

text \<open>
  \<open>daemon/xray_pathprobe.go\<close>: the verdicts on the members of a dialer slot by transfers through
  a member and by a master chained over a member. The results of the tests, the health of the
  members and their score (\<open>nodeScore\<close>, a floating-point function) are arguments. \<open>None\<close> is the nil
  prober. A record is written by one entry of one map only, so the maps hold records.
\<close>

section \<open>State and operations\<close>

definition pathProbeCandidates :: nat where "pathProbeCandidates = 4"
definition pathStrikes :: nat where "pathStrikes = 2"
definition pathGoodTTL :: duration where "pathGoodTTL = 10 * minute"
definition pathBadRecheck :: duration where "pathBadRecheck = 5 * minute"

record pathRecord =
  pr_strikes :: nat
  pr_bad :: bool
  pr_lastProbe :: time

definition fresh_record :: pathRecord where "fresh_record = \<lparr>pr_strikes = 0, pr_bad = False, pr_lastProbe = 0\<rparr>"

definition path_due :: "time \<Rightarrow> pathRecord option \<Rightarrow> bool" where
  "path_due now ro =
     (case ro of
        None \<Rightarrow> True
      | Some r \<Rightarrow>
          if pr_lastProbe r = 0 then True
          else if pr_bad r then pathBadRecheck \<le> time_Sub now (pr_lastProbe r)
          else if 0 < pr_strikes r then True
          else pathGoodTTL \<le> time_Sub now (pr_lastProbe r))"

record pathProber =
  pp_node :: "string \<rightharpoonup> pathRecord"
  pp_chain :: "string \<rightharpoonup> string \<rightharpoonup> pathRecord"

definition newPathProber :: pathProber where "newPathProber = \<lparr>pp_node = Map.empty, pp_chain = Map.empty\<rparr>"

definition chain_record :: "pathProber \<Rightarrow> string \<Rightarrow> string \<Rightarrow> pathRecord option" where
  "chain_record p master key = Option.bind (pp_chain p master) (\<lambda>recs. recs key)"

record pathJob =
  pj_user :: string
  pj_key :: string
  pj_master :: string

record pathResult = pathJob +
  pj_ok :: bool

record pathEdge =
  pg_key :: string
  pg_master :: string
  pg_bad :: bool

definition is_bad :: "pathRecord option \<Rightarrow> bool" where
  "is_bad ro = (case ro of None \<Rightarrow> False | Some r \<Rightarrow> pr_bad r)"

definition path_broken :: "DialerSlot \<Rightarrow> pathProber option \<Rightarrow> string list" where
  "path_broken slot po =
     (case po of
        None \<Rightarrow> []
      | Some p \<Rightarrow> filter (\<lambda>k. is_bad (pp_node p k) \<or> list_ex (\<lambda>m. is_bad (chain_record p (ToLower m) k)) (SlotMasters slot))
          (map mem_Key (sl_Members slot)))"

definition path_carriers :: "DialerSlot \<Rightarrow> string set" where
  "path_carriers slot =
     (let cs = set (sl_Preferred slot) \<union> (if sl_Fallback slot = [] then {} else {sl_Fallback slot})
      in if cs = {} \<and> length (sl_Members slot) \<le> SlotShortlistSize then mem_Key ` set (sl_Members slot) else cs)"

definition key_due :: "time \<Rightarrow> DialerSlot \<Rightarrow> pathProber \<Rightarrow> string \<Rightarrow> bool" where
  "key_due now slot p key \<longleftrightarrow> path_due now (pp_node p key) \<or> list_ex (\<lambda>m. path_due now (chain_record p (ToLower m) key)) (SlotMasters slot)"

definition path_cands :: "time \<Rightarrow> (nodeStatus \<Rightarrow> duration option) \<Rightarrow> (string \<rightharpoonup> nodeStatus) \<Rightarrow> DialerSlot \<Rightarrow> pathProber \<Rightarrow> (duration \<times> string) list" where
  "path_cands now score byTag slot p =
     concat (map (\<lambda>k. if k \<in> path_carriers slot then []
        else case Option.bind (slot_status byTag slot k) score of
               Some c \<Rightarrow> if key_due now slot p k then [(c, k)] else [] | None \<Rightarrow> []) (map mem_Key (sl_Members slot)))"

definition pickLocked :: "time \<Rightarrow> (nodeStatus \<Rightarrow> duration option) \<Rightarrow> (string \<rightharpoonup> nodeStatus) \<Rightarrow> DialerSlot \<Rightarrow> pathProber \<Rightarrow> string list" where
  "pickLocked now score byTag slot p =
     filter (\<lambda>k. k \<in> path_carriers slot) (map mem_Key (sl_Members slot))
     @ map snd (take pathProbeCandidates (sort (path_cands now score byTag slot p)))"

definition transfer_job :: "DialerSlot \<Rightarrow> string \<Rightarrow> pathJob" where
  "transfer_job slot key = \<lparr>pj_user = SlotMemberTag (sl_Index slot) key, pj_key = key, pj_master = []\<rparr>"

definition chain_job :: "DialerSlot \<Rightarrow> string \<Rightarrow> string \<Rightarrow> pathJob" where
  "chain_job slot key master = \<lparr>pj_user = ChainProbeTag (sl_Index slot) master key, pj_key = key, pj_master = ToLower master\<rparr>"

definition plan_key :: "DialerSlot \<Rightarrow> string \<Rightarrow> pathJob list \<times> string set \<Rightarrow> pathJob list \<times> string set" where
  "plan_key slot key = (\<lambda>(jobs, nodeSeen).
     ((if key \<in> nodeSeen then jobs else jobs @ [transfer_job slot key]) @ map (chain_job slot key) (SlotMasters slot),
      insert key nodeSeen))"

definition plan_slot :: "time \<Rightarrow> (nodeStatus \<Rightarrow> duration option) \<Rightarrow> (string \<rightharpoonup> nodeStatus) \<Rightarrow> pathProber \<Rightarrow> DialerSlot \<Rightarrow>
    pathJob list \<times> string set \<Rightarrow> pathJob list \<times> string set" where
  "plan_slot now score byTag p slot acc =
     (if length (sl_Members slot) < 2 then acc else fold (plan_key slot) (pickLocked now score byTag slot p) acc)"

definition plan_forget :: "DialerSlot list \<Rightarrow> pathProber \<Rightarrow> pathProber" where
  "plan_forget slots p =
     (let live = (\<Union>s\<in>set slots. mem_Key ` set (sl_Members s));
          liveMasters = (\<Union>s\<in>set slots. ToLower ` set (SlotMasters s))
      in p\<lparr>pp_node := (\<lambda>k. if k \<in> live then pp_node p k else None),
           pp_chain := (\<lambda>m. if m \<in> liveMasters then map_option (\<lambda>recs k. if k \<in> live then recs k else None) (pp_chain p m) else None)\<rparr>)"

definition path_plan :: "time \<Rightarrow> (nodeStatus \<Rightarrow> duration option) \<Rightarrow> (string \<rightharpoonup> nodeStatus) \<Rightarrow> DialerSlot list \<Rightarrow> pathProber option \<Rightarrow>
    pathJob list \<times> pathProber option" where
  "path_plan now score byTag slots po =
     (case po of
        None \<Rightarrow> ([], None)
      | Some p \<Rightarrow> (fst (fold (plan_slot now score byTag p) slots ([], {})), Some (plan_forget slots p)))"

text \<open>\<open>record\<close>: what the round as a whole shows, then one result after the other.\<close>

definition transfer_passed :: "pathResult list \<Rightarrow> bool" where
  "transfer_passed results = list_ex (\<lambda>r. pj_master r = [] \<and> pj_ok r) results"

definition choked :: "pathResult list \<Rightarrow> string \<Rightarrow> bool" where
  "choked results key = list_ex (\<lambda>r. pj_master r = [] \<and> \<not> pj_ok r \<and> pj_key r = key) results"

definition chain_passed :: "pathResult list \<Rightarrow> string \<Rightarrow> bool" where
  "chain_passed results master = list_ex (\<lambda>r. pj_master r \<noteq> [] \<and> pj_ok r \<and> \<not> choked results (pj_key r) \<and> pj_master r = master) results"

definition witnessed :: "pathResult list \<Rightarrow> string \<Rightarrow> bool" where
  "witnessed results master = (if master = [] then transfer_passed results else chain_passed results master)"

definition note_result :: "time \<Rightarrow> bool \<Rightarrow> bool \<Rightarrow> pathRecord \<Rightarrow> pathRecord \<times> bool option" where
  "note_result now ok wit r0 =
     (let r = r0\<lparr>pr_lastProbe := now\<rparr> in
      if ok then (r\<lparr>pr_strikes := 0, pr_bad := False\<rparr>, if pr_bad r then Some False else None)
      else if \<not> wit then (r, None)
      else (let r1 = r\<lparr>pr_strikes := pr_strikes r + 1\<rparr> in
            if pathStrikes \<le> pr_strikes r1 \<and> \<not> pr_bad r1 then (r1\<lparr>pr_bad := True\<rparr>, Some True) else (r1, None)))"

definition path_record_of :: "pathProber \<Rightarrow> string \<Rightarrow> string \<Rightarrow> pathRecord option" where
  "path_record_of p master key = (if master = [] then pp_node p key else chain_record p master key)"

definition put_record :: "string \<Rightarrow> string \<Rightarrow> pathRecord \<Rightarrow> pathProber \<Rightarrow> pathProber" where
  "put_record master key r p =
     (if master = [] then p\<lparr>pp_node := (pp_node p)(key \<mapsto> r)\<rparr>
      else p\<lparr>pp_chain := (pp_chain p)(master \<mapsto> (case pp_chain p master of Some recs \<Rightarrow> recs | None \<Rightarrow> Map.empty)(key \<mapsto> r))\<rparr>)"

definition record_one :: "time \<Rightarrow> pathResult list \<Rightarrow> pathResult \<Rightarrow> pathProber \<times> pathEdge list \<Rightarrow> pathProber \<times> pathEdge list" where
  "record_one now results r = (\<lambda>(p, es).
     case note_result now (pj_ok r) (witnessed results (pj_master r))
            (case path_record_of p (pj_master r) (pj_key r) of Some x \<Rightarrow> x | None \<Rightarrow> fresh_record) of
       (rec, edge) \<Rightarrow>
         (put_record (pj_master r) (pj_key r) rec p,
          case edge of None \<Rightarrow> es | Some b \<Rightarrow> es @ [\<lparr>pg_key = pj_key r, pg_master = pj_master r, pg_bad = b\<rparr>]))"

definition path_record :: "time \<Rightarrow> pathResult list \<Rightarrow> pathProber option \<Rightarrow> pathProber option \<times> pathEdge list" where
  "path_record now results po =
     (case po of
        None \<Rightarrow> (None, [])
      | Some p \<Rightarrow> (case fold (record_one now results) results (p, []) of (p', es) \<Rightarrow> (Some p', es)))"

text \<open>\<open>reset\<close>: whether a member was broken. The loops over the maps are existential.\<close>

definition path_reset :: "pathProber option \<Rightarrow> bool \<times> pathProber option" where
  "path_reset po =
     (case po of
        None \<Rightarrow> (False, None)
      | Some p \<Rightarrow> (Bex (ran (pp_node p)) pr_bad \<or> Bex (ran (pp_chain p)) (\<lambda>recs. Bex (ran recs) pr_bad), Some newPathProber))"

section \<open>Verdicts\<close>

lemma record_of_put:
  "path_record_of (put_record m k r p) m' k' = (if m' = m \<and> k' = k then Some r else path_record_of p m' k')"
  by (auto simp: path_record_of_def put_record_def chain_record_def split: option.splits)

text \<open>The abstract verdict: a test has failed with a witness \<open>n\<close> times since it last passed.\<close>

definition strikes_since_pass :: "(bool \<times> bool) list \<Rightarrow> nat" where
  "strikes_since_pass h = length (filter snd (takeWhile (\<lambda>t. \<not> fst t) (rev h)))"

definition tests_of :: "pathResult list \<Rightarrow> string \<Rightarrow> string \<Rightarrow> (bool \<times> bool) list" where
  "tests_of results m k = map (\<lambda>r. (pj_ok r, witnessed results m)) (filter (\<lambda>r. pj_master r = m \<and> pj_key r = k) results)"

lemma strikes_snoc:
  "strikes_since_pass (h @ [(ok, w)]) = (if ok then 0 else if w then strikes_since_pass h + 1 else strikes_since_pass h)"
  by (simp add: strikes_since_pass_def)

definition record_matches :: "pathRecord option \<Rightarrow> (bool \<times> bool) list \<Rightarrow> bool" where
  "record_matches ro h =
     (case ro of None \<Rightarrow> h = [] | Some r \<Rightarrow> pr_strikes r = strikes_since_pass h \<and> (pr_bad r \<longleftrightarrow> pathStrikes \<le> strikes_since_pass h))"

lemma note_matches:
  assumes "record_matches ro h"
  shows "record_matches (Some (fst (note_result now ok w (case ro of Some x \<Rightarrow> x | None \<Rightarrow> fresh_record)))) (h @ [(ok, w)])"
  using assms by (cases ro) (auto simp: record_matches_def note_result_def Let_def strikes_snoc fresh_record_def pathStrikes_def strikes_since_pass_def)

lemma matches_bad: "record_matches ro h \<Longrightarrow> is_bad ro \<longleftrightarrow> pathStrikes \<le> strikes_since_pass h"
  by (auto simp: record_matches_def is_bad_def strikes_since_pass_def pathStrikes_def split: option.splits)

lemma record_one_of:
  "path_record_of (fst (record_one now results r (p, es))) m k =
     (if pj_master r = m \<and> pj_key r = k
      then Some (fst (note_result now (pj_ok r) (witnessed results m) (case path_record_of p m k of Some x \<Rightarrow> x | None \<Rightarrow> fresh_record)))
      else path_record_of p m k)"
  by (auto simp: record_one_def record_of_put split: prod.splits)

lemma record_fold_matches:
  assumes "\<And>m k. record_matches (path_record_of p m k) (h m k)"
  shows "record_matches (path_record_of (fst (fold (record_one now results) rs (p, es))) m k)
    (h m k @ map (\<lambda>r. (pj_ok r, witnessed results m)) (filter (\<lambda>r. pj_master r = m \<and> pj_key r = k) rs))"
  using assms
proof (induction rs arbitrary: p es h)
  case (Cons r rs)
  obtain p1 es1 where s: "record_one now results r (p, es) = (p1, es1)" by fastforce
  let ?h = "\<lambda>m k. if pj_master r = m \<and> pj_key r = k then h m k @ [(pj_ok r, witnessed results m)] else h m k"
  have "record_matches (path_record_of p1 m k) (?h m k)" for m k
    using record_one_of [of now results r p es m k] note_matches [OF Cons(2) [of m k]] Cons(2) [of m k] by (simp add: s)
  from Cons(1) [of p1 ?h es1, OF this] show ?case by (auto simp: s split: if_splits)
qed simp

text \<open>The states a prober passes through, with the tests each verdict rests on: those since the prober was
  created, reset, or last forgot the member or the master.\<close>

definition path_live :: "DialerSlot list \<Rightarrow> string \<Rightarrow> string \<Rightarrow> bool" where
  "path_live slots m k \<longleftrightarrow> k \<in> (\<Union>s\<in>set slots. mem_Key ` set (sl_Members s)) \<and> (m = [] \<or> m \<in> (\<Union>s\<in>set slots. ToLower ` set (SlotMasters s)))"

inductive path_reach :: "pathProber \<Rightarrow> (string \<Rightarrow> string \<Rightarrow> (bool \<times> bool) list) \<Rightarrow> bool" where
  new: "path_reach newPathProber (\<lambda>_ _. [])"
| recorded: "path_reach p h \<Longrightarrow> path_record now results (Some p) = (Some p', es)
    \<Longrightarrow> path_reach p' (\<lambda>m k. h m k @ tests_of results m k)"
| planned: "path_reach p h \<Longrightarrow> path_plan now score byTag slots (Some p) = (jobs, Some p')
    \<Longrightarrow> path_reach p' (\<lambda>m k. if path_live slots m k then h m k else [])"
| was_reset: "path_reach p h \<Longrightarrow> path_reset (Some p) = (had, Some p') \<Longrightarrow> path_reach p' (\<lambda>_ _. [])"

lemma new_record: "path_record_of newPathProber m k = None"
  by (simp add: path_record_of_def newPathProber_def chain_record_def)

lemma forget_record:
  "path_record_of (plan_forget slots p) m k = (if path_live slots m k then path_record_of p m k else None)"
  by (cases "pp_chain p m") (auto simp: path_record_of_def plan_forget_def chain_record_def path_live_def Let_def)

lemma path_reach_matches: "path_reach p h \<Longrightarrow> record_matches (path_record_of p m k) (h m k)"
proof (induction arbitrary: m k rule: path_reach.induct)
  case (recorded p h now results p' es)
  then have "p' = fst (fold (record_one now results) results (p, []))" by (simp add: path_record_def split: prod.splits)
  then show ?case using record_fold_matches [OF recorded(3)] by (simp add: tests_of_def)
next
  case (planned p h now score byTag slots jobs p')
  then have "p' = plan_forget slots p" by (simp add: path_plan_def)
  then show ?case using planned(3) by (simp add: forget_record) (simp add: record_matches_def)
next
  case (was_reset p h had p')
  then have "p' = newPathProber" by (simp add: path_reset_def)
  then show ?case by (simp add: new_record record_matches_def)
qed (simp add: new_record record_matches_def)

section \<open>Planned rounds\<close>

abbreviation job_id :: "'a pathJob_scheme \<Rightarrow> string \<times> string" where
  "job_id j \<equiv> (pj_master j, pj_key j)"

lemma ToLower_stored: "stored_name n \<Longrightarrow> ToLower n = n"
  using normalizeName_stored [of n] TrimSpace_stored [of n] by (simp add: normalizeName_def)

lemma slots_masters:
  assumes "slots_ok slots" "s \<in> set slots"
  shows "map ToLower (SlotMasters s) = SlotMasters s" "[] \<notin> set (SlotMasters s)" "distinct (SlotMasters s)"
    "distinct (map mem_Key (sl_Members s))"
proof -
  have st: "\<forall>m\<in>set (SlotMasters s). stored_name m" and ms: "distinct (map (\<lambda>m. sanitizeTag (mem_Key m)) (sl_Members s))"
    using assms unfolding slots_ok_def by blast+
  show "map ToLower (SlotMasters s) = SlotMasters s" using st ToLower_stored by (simp add: map_idI)
  show "[] \<notin> set (SlotMasters s)" using st by (auto simp: stored_name_def)
  show "distinct (SlotMasters s)" using assms unfolding slots_ok_def by (auto simp: distinct_concat_iff)
  show "distinct (map mem_Key (sl_Members s))" using ms by (auto simp: distinct_map inj_on_def)
qed

lemma take_sort_set: "set (map snd (take n (sort xs))) \<subseteq> set (map snd xs)" for xs :: "(duration \<times> string) list"
proof -
  have "set (take n (sort xs)) \<subseteq> set xs" using set_take_subset [of n "sort xs"] by simp
  then show ?thesis by auto
qed

lemma cands_keys: "set (map snd (path_cands now score byTag slot p)) \<subseteq> mem_Key ` set (sl_Members slot) - path_carriers slot"
  by (auto simp: path_cands_def split: if_splits option.splits)

lemma cands_distinct:
  assumes "distinct (map mem_Key (sl_Members slot))"
  shows "distinct (map snd (path_cands now score byTag slot p))"
proof -
  have "map snd (concat (map (\<lambda>k. if k \<in> path_carriers slot then [] else case Option.bind (slot_status byTag slot k) score of
        Some c \<Rightarrow> if key_due now slot p k then [(c, k)] else [] | None \<Rightarrow> []) ks)) =
      filter (\<lambda>k. k \<notin> path_carriers slot \<and> Option.bind (slot_status byTag slot k) score \<noteq> None \<and> key_due now slot p k) ks" for ks
    by (induction ks) (auto split: option.split)
  then show ?thesis unfolding path_cands_def using assms by (simp only: distinct_filter)
qed

lemma picked_keys: "set (pickLocked now score byTag slot p) \<subseteq> mem_Key ` set (sl_Members slot)"
  using take_sort_set [of pathProbeCandidates "path_cands now score byTag slot p"] cands_keys [of now score byTag slot p]
  unfolding pickLocked_def set_append by (intro Un_least) auto

lemma picked_distinct:
  assumes "distinct (map mem_Key (sl_Members slot))"
  shows "distinct (pickLocked now score byTag slot p)"
proof -
  let ?cs = "path_cands now score byTag slot p"
  have "mset (map snd (sort ?cs)) = mset (map snd ?cs)" by simp
  then have "distinct (map snd (sort ?cs))" using cands_distinct [OF assms, of now score byTag p] by (metis mset_eq_imp_distinct_iff)
  then have "distinct (map snd (take pathProbeCandidates (sort ?cs)))" unfolding take_map [symmetric] by (rule distinct_take)
  moreover have "set (map snd (take pathProbeCandidates (sort ?cs))) \<inter> path_carriers slot = {}"
    using take_sort_set [of pathProbeCandidates ?cs] cands_keys [of now score byTag slot p] by blast
  moreover have "distinct (filter (\<lambda>k. k \<in> path_carriers slot) (map mem_Key (sl_Members slot)))" using assms by (rule distinct_filter)
  ultimately show ?thesis unfolding pickLocked_def distinct_append by auto
qed

text \<open>The tests of a plan: their identities, and that none is planned twice.\<close>

definition plan_inv :: "pathJob list \<times> string set \<Rightarrow> bool" where
  "plan_inv acc \<longleftrightarrow> distinct (map job_id (fst acc)) \<and> (\<forall>j\<in>set (fst acc). pj_master j = [] \<longrightarrow> pj_key j \<in> snd acc)"

lemma plan_key_inv:
  assumes "plan_inv acc" "map ToLower (SlotMasters s) = SlotMasters s" "[] \<notin> set (SlotMasters s)" "distinct (SlotMasters s)"
    and "\<forall>j\<in>set (fst acc). pj_master j \<in> set (SlotMasters s) \<longrightarrow> pj_key j \<noteq> key"
  shows "plan_inv (plan_key s key acc)"
    and "\<forall>j\<in>set (fst (plan_key s key acc)). j \<in> set (fst acc) \<or> pj_key j = key \<and> pj_master j \<in> insert [] (set (SlotMasters s))"
proof -
  obtain jobs seen where acc: "acc = (jobs, seen)" by fastforce
  have ml: "ToLower m \<in> set (SlotMasters s)" if "m \<in> set (SlotMasters s)" for m
    using that assms(2) by (metis in_set_conv_nth length_map nth_map)
  show "\<forall>j\<in>set (fst (plan_key s key acc)). j \<in> set (fst acc) \<or> pj_key j = key \<and> pj_master j \<in> insert [] (set (SlotMasters s))"
    by (auto simp: acc plan_key_def transfer_job_def chain_job_def ml split: if_splits)
  have ch: "map (job_id \<circ> chain_job s key) (SlotMasters s) = map (\<lambda>m. (m, key)) (SlotMasters s)"
  proof -
    have "map (job_id \<circ> chain_job s key) (SlotMasters s) = map (\<lambda>m. (m, key)) (map ToLower (SlotMasters s))" by (simp add: chain_job_def)
    then show ?thesis unfolding assms(2) .
  qed
  have dc: "distinct (map (job_id \<circ> chain_job s key) (SlotMasters s))"
    unfolding ch using assms(4) by (simp add: distinct_map inj_on_def)
  have new: "(m, key) \<notin> job_id ` set jobs" if "m \<in> set (SlotMasters s)" for m using assms(5) that by (auto simp: acc)
  have "set (map job_id jobs) \<inter> set (map (job_id \<circ> chain_job s key) (SlotMasters s)) = {}" unfolding ch using new by auto
  moreover have "([], key) \<notin> set (map (job_id \<circ> chain_job s key) (SlotMasters s))" unfolding ch using assms(3) by auto
  moreover have "([], key) \<notin> job_id ` set jobs" if "key \<notin> seen" using that assms(1) by (auto simp: acc plan_inv_def)
  ultimately show "plan_inv (plan_key s key acc)" using assms(1,3) dc ml
    by (auto simp: acc plan_inv_def plan_key_def transfer_job_def chain_job_def comp_def)
qed

lemma plan_keys_inv:
  assumes "plan_inv acc" "map ToLower (SlotMasters s) = SlotMasters s" "[] \<notin> set (SlotMasters s)" "distinct (SlotMasters s)" "distinct keys"
    and "\<forall>j\<in>set (fst acc). pj_master j \<in> set (SlotMasters s) \<longrightarrow> pj_key j \<notin> set keys"
  shows "plan_inv (fold (plan_key s) keys acc)
    \<and> (\<forall>j\<in>set (fst (fold (plan_key s) keys acc)). j \<in> set (fst acc) \<or> pj_master j \<in> insert [] (set (SlotMasters s)))"
  using assms(1,5,6)
proof (induction keys arbitrary: acc)
  case (Cons k ks)
  have "\<forall>j\<in>set (fst acc). pj_master j \<in> set (SlotMasters s) \<longrightarrow> pj_key j \<noteq> k" using Cons(4) by auto
  note step = plan_key_inv [OF Cons(2) assms(2,3,4) this]
  have "\<forall>j\<in>set (fst (plan_key s k acc)). pj_master j \<in> set (SlotMasters s) \<longrightarrow> pj_key j \<notin> set ks"
    using step(2) Cons(3,4) by auto
  moreover have "distinct ks" using Cons(3) by simp
  ultimately have "plan_inv (fold (plan_key s) ks (plan_key s k acc)) \<and> (\<forall>j\<in>set (fst (fold (plan_key s) ks (plan_key s k acc))).
      j \<in> set (fst (plan_key s k acc)) \<or> pj_master j \<in> insert [] (set (SlotMasters s)))" using Cons(1) [OF step(1)] by blast
  then show ?case using step(2) unfolding fold_simps by blast
qed simp

lemma plan_slot_inv:
  assumes "slots_ok slots" "s \<in> set slots" "plan_inv acc" "\<forall>j\<in>set (fst acc). pj_master j \<notin> set (SlotMasters s)"
  shows "plan_inv (plan_slot now score byTag p s acc)
      \<and> (\<forall>j\<in>set (fst (plan_slot now score byTag p s acc)). j \<in> set (fst acc) \<or> pj_master j \<in> insert [] (set (SlotMasters s)))"
proof (cases "length (sl_Members s) < 2")
  case True
  then show ?thesis using assms(3) by (simp add: plan_slot_def)
next
  case False
  note m = slots_masters [OF assms(1,2)]
  have "\<forall>j\<in>set (fst acc). pj_master j \<in> set (SlotMasters s) \<longrightarrow> pj_key j \<notin> set (pickLocked now score byTag s p)" using assms(4) by blast
  from plan_keys_inv [OF assms(3) m(1-3) picked_distinct [OF m(4)] this] show ?thesis using False by (simp add: plan_slot_def)
qed

lemma plan_slots_inv:
  assumes "slots_ok slots" "plan_inv acc" "\<forall>j\<in>set (fst acc). pj_master j \<notin> set (concat (map SlotMasters slots))"
  shows "plan_inv (fold (plan_slot now score byTag p) slots acc)"
  using assms
proof (induction slots arbitrary: acc)
  case (Cons s ss)
  have disj: "set (SlotMasters s) \<inter> set (concat (map SlotMasters ss)) = {}" using Cons(2) unfolding slots_ok_def by simp
  have ne: "[] \<notin> set (concat (map SlotMasters ss))" using Cons(2) by (auto simp: slots_ok_def stored_name_def)
  have "\<forall>j\<in>set (fst acc). pj_master j \<notin> set (SlotMasters s)" using Cons(4) by simp
  note st = plan_slot_inv [OF Cons(2) list.set_intros(1) Cons(3) this, of now score byTag p]
  have "\<forall>j\<in>set (fst (plan_slot now score byTag p s acc)). pj_master j \<notin> set (concat (map SlotMasters ss))"
  proof
    fix j assume "j \<in> set (fst (plan_slot now score byTag p s acc))"
    from bspec [OF conjunct2 [OF st] this] consider "j \<in> set (fst acc)" | "pj_master j = []" | "pj_master j \<in> set (SlotMasters s)" by blast
    then show "pj_master j \<notin> set (concat (map SlotMasters ss))"
    proof cases
      case 1
      then show ?thesis using Cons(4) by simp
    next
      case 2
      then show ?thesis using ne by simp
    next
      case 3
      then show ?thesis using disj by blast
    qed
  qed
  then show ?case using Cons(1) [OF slots_ok_Cons [OF Cons(2)] conjunct1 [OF st]] by simp
qed simp

lemma plan_distinct: "slots_ok slots \<Longrightarrow> distinct (map job_id (fst (path_plan now score byTag slots (Some p))))"
  using plan_slots_inv [of slots "([], {})" now score byTag p] by (simp add: path_plan_def plan_inv_def)

text \<open>A planned test is a transfer through a member of a slot, or a master of the slot chained over a member.\<close>

lemma plan_keys_jobs:
  assumes "j \<in> set (fst (fold (plan_key s) keys acc))"
  shows "j \<in> set (fst acc) \<or> (\<exists>k\<in>set keys. j = transfer_job s k \<or> (\<exists>m\<in>set (SlotMasters s). j = chain_job s k m))"
  using assms
proof (induction keys arbitrary: acc)
  case (Cons k ks)
  have "j' = transfer_job s k \<or> (\<exists>m\<in>set (SlotMasters s). j' = chain_job s k m)" if "j' \<in> set (fst (plan_key s k acc))" "j' \<notin> set (fst acc)" for j'
    using that by (cases acc) (auto simp: plan_key_def split: if_splits)
  moreover have "j \<in> set (fst (plan_key s k acc)) \<or> (\<exists>k\<in>set ks. j = transfer_job s k \<or> (\<exists>m\<in>set (SlotMasters s). j = chain_job s k m))"
    using Cons(1) [of "plan_key s k acc"] Cons(2) by simp
  ultimately show ?case by (metis list.set_intros)
qed simp

lemma plan_jobs:
  assumes "j \<in> set (fst (path_plan now score byTag slots (Some p)))"
  obtains s k where "s \<in> set slots" "k \<in> mem_Key ` set (sl_Members s)" "j = transfer_job s k \<or> (\<exists>m\<in>set (SlotMasters s). j = chain_job s k m)"
proof -
  have "j \<in> set (fst acc) \<or> (\<exists>s\<in>set slots. \<exists>k\<in>mem_Key ` set (sl_Members s). j = transfer_job s k \<or> (\<exists>m\<in>set (SlotMasters s). j = chain_job s k m))"
    if "j \<in> set (fst (fold (plan_slot now score byTag p) slots acc))" for acc
    using that
  proof (induction slots arbitrary: acc)
    case (Cons s ss)
    from Cons(1) [of "plan_slot now score byTag p s acc"] Cons(2)
    consider "j \<in> set (fst (plan_slot now score byTag p s acc))"
      | "\<exists>s\<in>set ss. \<exists>k\<in>mem_Key ` set (sl_Members s). j = transfer_job s k \<or> (\<exists>m\<in>set (SlotMasters s). j = chain_job s k m)" by auto
    then show ?case
    proof cases
      case 1
      then have "j \<in> set (fst acc) \<or> (\<exists>k\<in>set (pickLocked now score byTag s p). j = transfer_job s k \<or> (\<exists>m\<in>set (SlotMasters s). j = chain_job s k m))"
        using plan_keys_jobs [of j s "pickLocked now score byTag s p" acc] unfolding plan_slot_def by (cases "length (sl_Members s) < 2") simp_all
      then show ?thesis using picked_keys [of now score byTag s p] by (meson list.set_intros(1) subsetD)
    qed auto
  qed simp
  from this [of "([], {})"] show ?thesis using assms that by (auto simp: path_plan_def)
qed

lemma record_edges:
  assumes "e \<in> set (snd (fold (record_one now results) rs (p, es)))"
  shows "e \<in> set es \<or> (\<exists>r\<in>set rs. pj_master r = pg_master e \<and> pj_key r = pg_key e
    \<and> (if pg_bad e then \<not> pj_ok r \<and> witnessed results (pg_master e) else pj_ok r))"
  using assms
proof (induction rs arbitrary: p es)
  case (Cons r rs)
  obtain p1 es1 where s: "record_one now results r (p, es) = (p1, es1)" by fastforce
  have "e \<in> set es \<or> pj_master r = pg_master e \<and> pj_key r = pg_key e
      \<and> (if pg_bad e then \<not> pj_ok r \<and> witnessed results (pg_master e) else pj_ok r)" if "e \<in> set es1"
    using s that by (auto simp: record_one_def note_result_def Let_def split: prod.splits if_splits option.splits)
  then show ?case using Cons(1) [of p1 es1] Cons(2) by (auto simp: s)
qed simp

lemma witnessed_result:
  "witnessed results m \<Longrightarrow> \<exists>r\<in>set results. pj_master r = m \<and> pj_ok r \<and> (m \<noteq> [] \<longrightarrow> \<not> choked results (pj_key r))"
  by (auto simp: witnessed_def transfer_passed_def chain_passed_def list_ex_iff split: if_splits)

section \<open>Properties\<close>

text \<open>C32: The verdicts against their specification. In every state the prober can reach, whatever rounds were planned
  and recorded and whatever was forgotten or reset, the broken members of a slot are exactly those, in member
  order, whose transfer test, or whose chain test for some master of the slot, has failed with a witness
  \<open>pathStrikes\<close> times since it last passed.\<close>

theorem path_verdicts:
  assumes "path_reach p h" "[] \<notin> set (SlotMasters slot)"
  shows "path_broken slot (Some p) =
    filter (\<lambda>k. pathStrikes \<le> strikes_since_pass (h [] k) \<or> (\<exists>m\<in>set (SlotMasters slot). pathStrikes \<le> strikes_since_pass (h (ToLower m) k)))
      (map mem_Key (sl_Members slot))"
proof -
  have node: "is_bad (pp_node p k) \<longleftrightarrow> pathStrikes \<le> strikes_since_pass (h [] k)" for k
    using matches_bad [OF path_reach_matches [OF assms(1), of "[]" k]] by (simp add: path_record_of_def)
  have "is_bad (chain_record p (ToLower m) k) \<longleftrightarrow> pathStrikes \<le> strikes_since_pass (h (ToLower m) k)" if "m \<in> set (SlotMasters slot)" for m k
  proof -
    have "ToLower m \<noteq> []" using that assms(2) by (auto simp: ToLower_def)
    then show ?thesis using matches_bad [OF path_reach_matches [OF assms(1), of "ToLower m" k]] by (simp add: path_record_of_def)
  qed
  then show ?thesis by (auto simp: path_broken_def node list_ex_iff intro!: filter_cong)
qed

text \<open>C33: A round never blames a member for the link or for a server. When a round of planned tests turns a member
  broken, its own test failed, and the same test passed in that round through another member: a transfer, or for
  a chain the same master over a member that did not choke its own transfer. So a round never condemns every
  member it tested.\<close>

theorem path_round_spares:
  assumes "slots_ok slots" "map pathJob.truncate results = fst (path_plan now score byTag slots (Some p))"
    and "e \<in> set (snd (path_record t results (Some q)))" "pg_bad e"
  shows "(\<exists>r\<in>set results. pj_master r = pg_master e \<and> pj_key r = pg_key e \<and> \<not> pj_ok r)
    \<and> (\<exists>r\<in>set results. pj_master r = pg_master e \<and> pj_key r \<noteq> pg_key e \<and> pj_ok r \<and> (pg_master e \<noteq> [] \<longrightarrow> \<not> choked results (pj_key r)))"
proof -
  have "map job_id results = map job_id (map pathJob.truncate results)" by (simp add: pathJob.truncate_def)
  then have "distinct (map job_id results)" using plan_distinct [OF assms(1), of now score byTag p] assms(2) by simp
  then have uniq: "r = r'" if "r \<in> set results" "r' \<in> set results" "job_id r = job_id r'" for r r'
    using that by (metis (mono_tags, lifting) distinct_map inj_onD)
  have "e \<in> set (snd (fold (record_one t results) results (q, [])))" using assms(3) by (simp add: path_record_def split: prod.splits)
  then obtain r where r: "r \<in> set results" "pj_master r = pg_master e" "pj_key r = pg_key e" "\<not> pj_ok r" "witnessed results (pg_master e)"
    using record_edges [of e t results results q "[]"] assms(4) by auto
  obtain r' where r': "r' \<in> set results" "pj_master r' = pg_master e" "pj_ok r'" "pg_master e \<noteq> [] \<longrightarrow> \<not> choked results (pj_key r')"
    using witnessed_result [OF r(5)] by blast
  then have "pj_key r' \<noteq> pg_key e" using uniq [OF r(1) r'(1)] r by auto
  then show ?thesis using r r' by blast
qed

text \<open>The prober and the configuration agree. Every test planned for the loaded slots logs in with a user that the
  generated configuration routes, ahead of any rule of the user, to an outbound of that very tag, provided every
  master of the slots is an enabled entry.\<close>

lemma path_jobs_routed:
  assumes "Generate jc hash fc entries opt = Inr cfg"
    and "\<forall>s\<in>set (go_DialerSlots opt). \<forall>m\<in>set (SlotMasters s). \<exists>e\<in>set entries. cf_Enabled e \<and> normalizeName (cf_Name e) = normalizeName m"
    and "j \<in> set (fst (path_plan now score byTag (go_DialerSlots opt) (Some p)))"
  shows "xray_route (xc_Rules cfg) ProbeTag (pj_user j) = Some (probe_rule (pj_user j)) \<and> pj_user j \<in> ob_tag ` set (xc_Outbounds cfg)"
proof -
  obtain urules mo obs os and used :: "(string \<times> Fragment) list" where f:
    "xc_Rules cfg = api_rule
       # (if sorted_slots opt = [] then [] else map probe_rule (probe_users jc mo (sorted_slots opt)) @ [probe_catch])
       @ urules @ map pair_rule (sorted_entries entries) @ map slot_rule (sorted_slots opt)"
    "xc_Outbounds cfg = block_outbound # obs @ os @ map snd (concat (map (slot_chains jc mo) (sorted_slots opt)))
       @ map (\<lambda>t. fragmentOutbound hash fc (the (map_of used t))) (sort (map fst used)) @ [direct_outbound]"
    "map ob_tag os = concat (map slot_tags (sorted_slots opt))"
    "dom mo = {n \<in> (normalizeName \<circ> cf_Name) ` set (sorted_entries entries). is_master (go_DialerSlots opt) n}" "\<forall>o1\<in>ran mo. is_object o1"
    by (rule Generate_form [OF assms(1)]) (rule that; assumption)
  have ss: "set (sorted_slots opt) = set (go_DialerSlots opt)" by (simp add: sorted_slots_def)
  obtain s k where s: "s \<in> set (go_DialerSlots opt)" "k \<in> mem_Key ` set (sl_Members s)"
    "j = transfer_job s k \<or> (\<exists>m\<in>set (SlotMasters s). j = chain_job s k m)" by (rule plan_jobs [OF assms(3)])
  have master: "mo (normalizeName m) \<noteq> None" if m: "m \<in> set (SlotMasters s)" for m
  proof -
    obtain e where "e \<in> set (sorted_entries entries)" "normalizeName (cf_Name e) = normalizeName m"
      using assms(2) s(1) m by (auto simp: sorted_entries_def)
    moreover have "is_master (go_DialerSlots opt) (normalizeName m)" using s(1) m by (auto simp: is_master_def list_ex_iff)
    ultimately have "normalizeName m \<in> dom mo" unfolding f(4) by force
    then show ?thesis by (simp add: dom_def)
  qed
  have j: "pj_user j \<in> (\<lambda>x. SlotMemberTag (sl_Index s) (mem_Key x)) ` set (sl_Members s) \<or> pj_user j \<in> set (chain_tags mo s)"
    using s(3)
  proof
    assume "j = transfer_job s k"
    then show ?thesis using s(2) by (auto simp: transfer_job_def)
  next
    assume "\<exists>m\<in>set (SlotMasters s). j = chain_job s k m"
    then obtain m where m: "m \<in> set (SlotMasters s)" "j = chain_job s k m" by blast
    then have "pj_user j \<in> set (chain_tags mo s)" using s(2) master [OF m(1)] unfolding chain_tags_def by (auto simp: chain_job_def)
    then show ?thesis ..
  qed
  then have "pj_user j \<in> set (probe_users jc mo (sorted_slots opt))" unfolding probe_users_set ss using s(1) by blast
  moreover have "sorted_slots opt \<noteq> []" using s(1) ss by force
  ultimately have "xray_route (xc_Rules cfg) ProbeTag (pj_user j) = Some (probe_rule (pj_user j))"
    unfolding f(1) by (simp only: if_False probe_routed if_True)
  moreover have "pj_user j \<in> ob_tag ` set (xc_Outbounds cfg)"
    using j
  proof
    assume "pj_user j \<in> (\<lambda>x. SlotMemberTag (sl_Index s) (mem_Key x)) ` set (sl_Members s)"
    then have "pj_user j \<in> set (slot_tags s)" by (auto simp: slot_tags_def)
    then have "pj_user j \<in> ob_tag ` set os" using arg_cong [OF f(3), of set] s(1) ss by auto
    then show ?thesis unfolding f(2) by auto
  next
    assume "pj_user j \<in> set (chain_tags mo s)"
    then have "pj_user j \<in> ob_tag ` snd ` set (slot_chains jc mo s)" using chain_tags_snd [OF f(5), of jc s] by (metis list.set_map)
    moreover have "set (slot_chains jc mo s) \<subseteq> set (concat (map (slot_chains jc mo) (sorted_slots opt)))" using s(1) unfolding set_concat set_map ss by blast
    then have "snd ` set (slot_chains jc mo s) \<subseteq> set (xc_Outbounds cfg)" unfolding f(2) set_append set_simps set_map by blast
    ultimately show ?thesis by blast
  qed
  ultimately show ?thesis by blast
qed

section \<open>Examples\<close>

definition probe_slot :: DialerSlot where
  "probe_slot = demo_slot\<lparr>sl_Members := [\<lparr>mem_Key = ''xray-a'', mem_Outbound = ''{}''\<rparr>, \<lparr>mem_Key = ''xray-b'', mem_Outbound = ''{}''\<rparr>]\<rparr>"

definition probe_job :: "string \<Rightarrow> bool \<Rightarrow> bool \<Rightarrow> pathResult" where
  "probe_job k chain ok =
     \<lparr>pj_user = (if chain then ChainProbeTag 1 ''tokyo'' k else SlotMemberTag 1 k), pj_key = k, pj_master = (if chain then ''tokyo'' else []), pj_ok = ok\<rparr>"

definition probe_round :: "pathResult list" where
  "probe_round = [probe_job ''xray-a'' False False, probe_job ''xray-a'' True False, probe_job ''xray-b'' False True, probe_job ''xray-b'' True True]"

lemma probe_plan: "fst (path_plan now score byTag [probe_slot] (Some p)) = map pathJob.truncate probe_round"
proof -
  have "pickLocked now score byTag probe_slot p = [''xray-a'', ''xray-b'']"
    by (simp add: pickLocked_def path_cands_def path_carriers_def probe_slot_def demo_slot_def SlotShortlistSize_def)
  then have "fst (path_plan now score byTag [probe_slot] (Some p)) = fst (fold (plan_key probe_slot) [''xray-a'', ''xray-b''] ([], {}))"
    by (simp add: path_plan_def plan_slot_def) (simp add: probe_slot_def)
  also have "\<dots> = map pathJob.truncate probe_round" by code_simp
  finally show ?thesis .
qed

lemma probe_slots_ok: "slots_ok [probe_slot]"
proof -
  have "stored_name ''tokyo''" "sanitizeTag ''xray-a'' \<noteq> sanitizeTag ''xray-b''" by code_simp+
  then show ?thesis by (simp add: slots_ok_def probe_slot_def demo_slot_def SlotMasters_def)
qed

text \<open>Two rounds in which member \<open>xray-a\<close> fails both tests while \<open>xray-b\<close> passes.\<close>

definition probe_once :: "pathProber \<Rightarrow> pathProber" where
  "probe_once p = the (fst (path_record 1 probe_round (Some p)))"

lemma probe_reach: "path_reach p h \<Longrightarrow> path_reach (probe_once p) (\<lambda>m k. h m k @ tests_of probe_round m k)"
  by (rule path_reach.recorded [of _ _ 1 probe_round _ "snd (path_record 1 probe_round (Some p))"])
    (simp_all add: probe_once_def path_record_def split: prod.splits)

theorem path_verdicts_witness: "path_broken probe_slot (Some (probe_once (probe_once newPathProber))) = [''xray-a'']"
proof -
  have masters: "SlotMasters probe_slot = [''tokyo'']" "map mem_Key (sl_Members probe_slot) = [''xray-a'', ''xray-b'']"
    by (simp_all add: probe_slot_def demo_slot_def SlotMasters_def)
  have t: "strikes_since_pass (tests_of probe_round [] ''xray-a'' @ tests_of probe_round [] ''xray-a'') = 2"
    "strikes_since_pass (tests_of probe_round [] ''xray-b'' @ tests_of probe_round [] ''xray-b'') = 0"
    "strikes_since_pass (tests_of probe_round (ToLower ''tokyo'') ''xray-b'' @ tests_of probe_round (ToLower ''tokyo'') ''xray-b'') = 0" by code_simp+
  have "[] \<notin> set (SlotMasters probe_slot)" by (simp add: masters)
  from path_verdicts [OF probe_reach [OF probe_reach [OF path_reach.new]] this] show ?thesis
    by (simp add: masters t pathStrikes_def)
qed

theorem path_round_spares_witness:
  "\<lparr>pg_key = ''xray-a'', pg_master = [], pg_bad = True\<rparr> \<in> set (snd (path_record 2 probe_round (Some (probe_once newPathProber))))
    \<and> (\<exists>r\<in>set probe_round. pj_master r = [] \<and> pj_key r \<noteq> ''xray-a'' \<and> pj_ok r)"
proof -
  have e: "\<lparr>pg_key = ''xray-a'', pg_master = [], pg_bad = True\<rparr> \<in> set (snd (path_record 2 probe_round (Some (probe_once newPathProber))))" by code_simp
  show ?thesis using path_round_spares [OF probe_slots_ok probe_plan [symmetric] e] e by auto
qed

lemma path_jobs_routed_witness:
  "\<exists>cfg. Generate demo_codec (\<lambda>_. []) no_frag demo_entries (demo_options\<lparr>go_DialerSlots := [probe_slot]\<rparr>) = Inr cfg
    \<and> xray_route (xc_Rules cfg) ProbeTag (ChainProbeTag 1 ''tokyo'' ''xray-a'') = Some (probe_rule (ChainProbeTag 1 ''tokyo'' ''xray-a''))"
proof -
  have "case Generate demo_codec (\<lambda>_. []) no_frag demo_entries (demo_options\<lparr>go_DialerSlots := [probe_slot]\<rparr>) of Inl _ \<Rightarrow> False | Inr _ \<Rightarrow> True" by code_simp
  then obtain cfg where g: "Generate demo_codec (\<lambda>_. []) no_frag demo_entries (demo_options\<lparr>go_DialerSlots := [probe_slot]\<rparr>) = Inr cfg"
    by (auto split: sum.splits)
  have slots: "go_DialerSlots (demo_options\<lparr>go_DialerSlots := [probe_slot]\<rparr>) = [probe_slot]" by simp
  have "\<forall>s\<in>set (go_DialerSlots (demo_options\<lparr>go_DialerSlots := [probe_slot]\<rparr>)). \<forall>m\<in>set (SlotMasters s).
      \<exists>e\<in>set demo_entries. cf_Enabled e \<and> normalizeName (cf_Name e) = normalizeName m"
    by (simp add: probe_slot_def demo_slot_def SlotMasters_def demo_entries_def demo_config_def)
  note r = path_jobs_routed [OF g this, unfolded slots probe_plan, of "pathJob.truncate (probe_job ''xray-a'' True False)"]
  have "pathJob.truncate (probe_job ''xray-a'' True False) \<in> set (map pathJob.truncate probe_round)" by (simp add: probe_round_def)
  from r [OF this] have "xray_route (xc_Rules cfg) ProbeTag (ChainProbeTag 1 ''tokyo'' ''xray-a'') = Some (probe_rule (ChainProbeTag 1 ''tokyo'' ''xray-a''))"
    by (simp add: pathJob.truncate_def probe_job_def)
  then show ?thesis using g by blast
qed

end
