(* ===== verification/Pool_Timeline.thy ===== *)
theory Pool_Timeline
  imports Path_Probe Traffic "HOL-Library.AList"
begin

text \<open>
  \<open>daemon/xray_timeline.go\<close>: the recent health of every loaded pool, one sample per round, and the
  statistics rendered from a window of it. Go maps that are only looked up are maps; those that
  are also enumerated (the pools, the members of a sample) are association lists with distinct
  keys. The percentages of a rendered pool (floating point) and the order in which its members
  are displayed are left out. A master rides one pool, so the search of \<open>noteMaster\<close> and \<open>carriers\<close>
  does not depend on the enumeration.
\<close>

section \<open>Cells and samples\<close>

definition nodeTimelineInterval :: duration where "nodeTimelineInterval = 10 * second"
definition nodeTimelineSpan :: duration where "nodeTimelineSpan = 30 * minute"
definition nodeTimelineCap :: nat where "nodeTimelineCap = nat (nodeTimelineSpan div nodeTimelineInterval)"
definition nearSwapWindow :: duration where "nearSwapWindow = minute"
definition mapCarrierSamples :: nat where "mapCarrierSamples = 2"

definition PoolCellAlive :: char where "PoolCellAlive = CHR ''A''"
definition PoolCellFlaky :: char where "PoolCellFlaky = CHR ''F''"
definition PoolCellDead :: char where "PoolCellDead = CHR ''D''"
definition PoolCellUnknown :: char where "PoolCellUnknown = CHR ''?''"
definition PoolCellParked :: char where "PoolCellParked = CHR ''P''"
definition PoolCellAbsent :: char where "PoolCellAbsent = CHR '' ''"
definition PoolRoleFallback :: char where "PoolRoleFallback = CHR ''f''"
definition PoolRoleActive :: char where "PoolRoleActive = CHR ''a''"
definition PoolRoleIdle :: char where "PoolRoleIdle = CHR ''i''"
definition PoolRoleUnranked :: char where "PoolRoleUnranked = CHR ''u''"
definition PoolRoleNone :: char where "PoolRoleNone = CHR '' ''"
definition MasterCellOK :: char where "MasterCellOK = CHR ''O''"
definition MasterCellDemoted :: char where "MasterCellDemoted = CHR ''X''"
definition MasterCellDown :: char where "MasterCellDown = CHR ''D''"
definition MasterCellUnknown :: char where "MasterCellUnknown = CHR ''?''"

lemmas cell_defs = PoolCellAlive_def PoolCellFlaky_def PoolCellDead_def PoolCellUnknown_def PoolCellParked_def PoolCellAbsent_def
lemmas role_defs = PoolRoleFallback_def PoolRoleActive_def PoolRoleIdle_def PoolRoleUnranked_def PoolRoleNone_def

record nodeCell =
  nc_state :: char
  nc_role :: char
  nc_rttMs :: int
  nc_up :: int
  nc_down :: int

record poolSample =
  sm_at :: time
  sm_uplinkDown :: bool
  sm_swap :: bool
  sm_nodes :: "(string \<times> nodeCell) list"
  sm_masters :: "string \<rightharpoonup> char"

record masterEvent =
  me_at :: time
  me_master :: string
  me_demotion :: bool
  me_carrierUp :: bool
  me_nearSwap :: bool

record poolHistory =
  ph_masters :: "string list"
  ph_samples :: "poolSample list"
  ph_events :: "masterEvent list"
  ph_lastSwap :: time

record masterStanding =
  ms_down :: bool
  ms_demoted :: bool

type_synonym masterMark = masterStanding

record byteCount =
  bc_up :: int
  bc_down :: int

record poolTimeline =
  tl_pools :: "(string \<times> poolHistory) list"
  tl_last :: "string \<rightharpoonup> byteCount"
  tl_marks :: "string \<rightharpoonup> masterMark"

definition newPoolTimeline :: poolTimeline where
  "newPoolTimeline = \<lparr>tl_pools = [], tl_last = Map.empty, tl_marks = Map.empty\<rparr>"

definition new_history :: poolHistory where
  "new_history = \<lparr>ph_masters = [], ph_samples = [], ph_events = [], ph_lastSwap = 0\<rparr>"

definition counterDelta :: "int \<Rightarrow> int \<Rightarrow> int" where
  "counterDelta prev cur = (if cur < prev then cur else cur - prev)"

definition cellState :: "nodeStatus \<Rightarrow> char" where
  "cellState st =
     (if ns_All st = 0 then PoolCellUnknown else if ns_All st \<le> ns_Fail st then PoolCellDead
      else if 0 < ns_Fail st then PoolCellFlaky else PoolCellAlive)"

definition cell_up :: "char \<Rightarrow> bool" where "cell_up c \<longleftrightarrow> c = PoolCellAlive \<or> c = PoolCellFlaky"

definition carries :: "char \<Rightarrow> bool" where "carries r \<longleftrightarrow> r = PoolRoleFallback \<or> r = PoolRoleActive"

definition all_roles :: "string list \<Rightarrow> char \<Rightarrow> string \<rightharpoonup> char" where
  "all_roles ks r = (\<lambda>k. if k \<in> set ks then Some r else None)"

definition slotRoles :: "DialerSlot \<Rightarrow> string \<rightharpoonup> char" where
  "slotRoles slot =
     (let ks = map mem_Key (sl_Members slot);
          pref = filter (\<lambda>k. k \<in> set ks) (sl_Preferred slot);
          r1 = (if pref \<noteq> [] then (fold (\<lambda>k r. r(k \<mapsto> PoolRoleActive)) pref (all_roles ks PoolRoleIdle))(hd pref \<mapsto> PoolRoleFallback)
                else if length (sl_Members slot) \<le> SlotShortlistSize then all_roles ks PoolRoleActive
                else all_roles ks PoolRoleUnranked);
          r2 = (if pref = [] \<and> sl_Members slot \<noteq> [] then r1(hd ks \<mapsto> PoolRoleFallback) else r1)
      in if sl_Fallback slot \<noteq> [] \<and> sl_Fallback slot \<in> set ks
         then (\<lambda>k. map_option (\<lambda>r. if r = PoolRoleFallback then PoolRoleActive else r) (r2 k))(sl_Fallback slot \<mapsto> PoolRoleFallback)
         else r2)"

section \<open>Recording\<close>

definition master_cell :: "(string \<rightharpoonup> masterStanding) \<Rightarrow> (string \<rightharpoonup> masterMark) \<Rightarrow> string \<Rightarrow> char" where
  "master_cell standing marks m =
     (let lm = ToLower m;
          off = \<lparr>ms_down = False, ms_demoted = False\<rparr>;
          st = (case standing lm of Some x \<Rightarrow> x | None \<Rightarrow> off);
          mk = (case marks lm of Some x \<Rightarrow> x | None \<Rightarrow> off)
      in if ms_down st \<or> ms_down mk then MasterCellDown
         else if ms_demoted st \<or> ms_demoted mk then MasterCellDemoted
         else if standing lm \<noteq> None then MasterCellOK else MasterCellUnknown)"

definition cell_rtt :: "nodeStatus \<Rightarrow> int" where
  "cell_rtt st = (let ms = trunc_div (ns_Average st) millisecond in if ms \<le> 0 \<and> 0 < ns_Delay st then ns_Delay st else ms)"

definition member_cell :: "(string \<rightharpoonup> nodeStatus) \<Rightarrow> (string \<rightharpoonup> byteCount) \<Rightarrow> (string \<rightharpoonup> byteCount) \<Rightarrow> DialerSlot \<Rightarrow> string \<Rightarrow> nodeCell" where
  "member_cell byTag traffic lastSeen slot k =
     (let tag = SlotMemberTag (sl_Index slot) k;
          state = (case byTag tag of Some st \<Rightarrow> cellState st | None \<Rightarrow> PoolCellUnknown);
          rtt = (case byTag tag of Some st \<Rightarrow> if cell_up state then cell_rtt st else 0 | None \<Rightarrow> 0);
          (up, down) = (case (traffic tag, lastSeen tag) of
             (Some cur, Some prev) \<Rightarrow> (counterDelta (bc_up prev) (bc_up cur), counterDelta (bc_down prev) (bc_down cur))
           | _ \<Rightarrow> (0, 0))
      in \<lparr>nc_state = state, nc_role = (case slotRoles slot k of Some r \<Rightarrow> r | None \<Rightarrow> CHR 0x00), nc_rttMs = rtt, nc_up = up, nc_down = down\<rparr>)"

definition parked_cell :: nodeCell where
  "parked_cell = \<lparr>nc_state = PoolCellParked, nc_role = PoolRoleNone, nc_rttMs = 0, nc_up = 0, nc_down = 0\<rparr>"

text \<open>A member listed twice is written twice; \<open>AList.update\<close> keeps its last cell.\<close>

definition slot_cells :: "(string \<Rightarrow> nodeCell) \<Rightarrow> DialerSlot \<Rightarrow> (string \<times> nodeCell) list" where
  "slot_cells cell slot = fold (\<lambda>m. AList.update (mem_Key m) (cell (mem_Key m))) (sl_Members slot) []"

definition carry_parked :: "(string \<Rightarrow> bool) \<Rightarrow> poolSample list \<Rightarrow> (string \<times> nodeCell) list \<Rightarrow> (string \<times> nodeCell) list" where
  "carry_parked parked samples cells =
     (if samples = [] then cells
      else cells @ map (\<lambda>k. (k, parked_cell)) (filter (\<lambda>k. k \<notin> fst ` set cells \<and> parked k) (map fst (sm_nodes (last samples)))))"

definition take_sample :: "time \<Rightarrow> (string \<Rightarrow> nodeCell) \<Rightarrow> (string \<Rightarrow> bool) \<Rightarrow> (string \<Rightarrow> char) \<Rightarrow> DialerSlot \<Rightarrow> poolSample list \<Rightarrow> poolSample" where
  "take_sample now cell parked mcell slot samples =
     (let states = map (\<lambda>m. nc_state (cell (mem_Key m))) (sl_Members slot);
          answered = length (filter cell_up states);
          failed = length (filter (\<lambda>c. c = PoolCellDead) states)
      in \<lparr>sm_at = now, sm_uplinkDown = (answered = 0 \<and> 0 < failed), sm_swap = False,
          sm_nodes = carry_parked parked samples (slot_cells cell slot),
          sm_masters = (\<lambda>m. if m \<in> set (SlotMasters slot) then Some (mcell m) else None)\<rparr>)"

definition record_slot :: "time \<Rightarrow> (string \<rightharpoonup> nodeStatus) \<Rightarrow> (string \<rightharpoonup> byteCount) \<Rightarrow> (string \<Rightarrow> bool) \<Rightarrow> (string \<rightharpoonup> masterStanding) \<Rightarrow>
    poolTimeline \<Rightarrow> DialerSlot \<Rightarrow> (string \<times> poolHistory) list \<Rightarrow> (string \<times> poolHistory) list" where
  "record_slot now byTag traffic parked standing t slot pools =
     (let h = (case map_of pools (sl_Master slot) of Some h \<Rightarrow> h | None \<Rightarrow> new_history);
          smp = take_sample now (member_cell byTag traffic (tl_last t) slot) parked (master_cell standing (tl_marks t)) slot (ph_samples h);
          smps = ph_samples h @ [smp]
      in AList.update (sl_Master slot)
           (h\<lparr>ph_masters := SlotMasters slot, ph_samples := drop (length smps - nodeTimelineCap) smps,
              ph_events := dropWhile (\<lambda>e. nodeTimelineSpan < time_Sub now (me_at e)) (ph_events h)\<rparr>) pools)"

definition timeline_record :: "time \<Rightarrow> DialerSlot list \<Rightarrow> (string \<rightharpoonup> nodeStatus) \<Rightarrow> (string \<rightharpoonup> byteCount) \<Rightarrow> (string \<Rightarrow> bool) \<Rightarrow>
    (string \<rightharpoonup> masterStanding) \<Rightarrow> poolTimeline option \<Rightarrow> poolTimeline option" where
  "timeline_record now slots byTag traffic parked standing to =
     (case to of
        None \<Rightarrow> None
      | Some t \<Rightarrow> Some
          \<lparr>tl_pools = filter (\<lambda>(m, _). m \<in> sl_Master ` set slots) (fold (record_slot now byTag traffic parked standing t) slots (tl_pools t)),
           tl_last = (\<lambda>tag. if list_ex (\<lambda>s. list_ex (\<lambda>m. tag = SlotMemberTag (sl_Index s) (mem_Key m)) (sl_Members s)) slots then traffic tag else None),
           tl_marks = Map.empty\<rparr>)"

definition mark_last :: "poolSample list \<Rightarrow> poolSample list" where
  "mark_last smps = (if smps = [] then [] else butlast smps @ [(last smps)\<lparr>sm_swap := True\<rparr>])"

definition markSwap :: "time \<Rightarrow> string \<Rightarrow> poolTimeline option \<Rightarrow> poolTimeline option" where
  "markSwap now master to =
     map_option (\<lambda>t. case map_of (tl_pools t) master of
         None \<Rightarrow> t
       | Some h \<Rightarrow> t\<lparr>tl_pools := AList.update master (h\<lparr>ph_lastSwap := now, ph_samples := mark_last (ph_samples h)\<rparr>) (tl_pools t)\<rparr>) to"

record poolCarrier =
  pc_key :: string
  pc_state :: char
  pc_rttMs :: int

definition EqualFold :: "string \<Rightarrow> string \<Rightarrow> bool" where "EqualFold a b \<longleftrightarrow> ToLower a = ToLower b"

text \<open>The pool \<open>master\<close> rides, with the name as the pool has it.\<close>

definition find_pool :: "string \<Rightarrow> (string \<times> poolHistory) list \<Rightarrow> (string \<times> string \<times> poolHistory) option" where
  "find_pool master pools =
     (case filter (\<lambda>(o', m, h). EqualFold m master) (concat (map (\<lambda>(o', h). map (\<lambda>m. (o', m, h)) (ph_masters h)) pools)) of
        [] \<Rightarrow> None | xs \<Rightarrow> Some (last xs))"

definition carrier_cells :: "poolHistory \<Rightarrow> (string \<times> nodeCell) list" where
  "carrier_cells h = (if ph_samples h = [] then [] else filter (\<lambda>(_, c). carries (nc_role c)) (sm_nodes (last (ph_samples h))))"

definition since_swap :: "time \<Rightarrow> poolHistory \<Rightarrow> duration" where
  "since_swap now h = (if ph_lastSwap h = 0 then -1 else time_Sub now (ph_lastSwap h))"

definition master_event :: "time \<Rightarrow> string \<Rightarrow> bool \<Rightarrow> poolHistory \<Rightarrow> masterEvent" where
  "master_event now m demotion h =
     \<lparr>me_at = now, me_master = m, me_demotion = demotion, me_carrierUp = list_ex (\<lambda>(_, c). cell_up (nc_state c)) (carrier_cells h),
      me_nearSwap = (ph_lastSwap h \<noteq> 0 \<and> since_swap now h \<le> nearSwapWindow)\<rparr>"

definition noteMaster :: "time \<Rightarrow> string \<Rightarrow> bool \<Rightarrow> poolTimeline option \<Rightarrow> (poolCarrier list \<times> duration) option \<times> poolTimeline option" where
  "noteMaster now master demotion to =
     (case to of
        None \<Rightarrow> (None, None)
      | Some t \<Rightarrow>
          (let lm = ToLower master;
               mk = (case tl_marks t lm of Some x \<Rightarrow> x | None \<Rightarrow> \<lparr>ms_down = False, ms_demoted = False\<rparr>);
               t1 = t\<lparr>tl_marks := (tl_marks t)(lm \<mapsto> (if demotion then mk\<lparr>ms_demoted := True\<rparr> else mk\<lparr>ms_down := True\<rparr>))\<rparr>
           in case find_pool master (tl_pools t) of
                None \<Rightarrow> (None, Some t1)
              | Some (owner, m, h) \<Rightarrow>
                  (Some (sort_key pc_key (map (\<lambda>(k, c). \<lparr>pc_key = k, pc_state = nc_state c, pc_rttMs = nc_rttMs c\<rparr>) (carrier_cells h)), since_swap now h),
                   Some (t1\<lparr>tl_pools := AList.update owner (h\<lparr>ph_events := ph_events h @ [master_event now m demotion h]\<rparr>) (tl_pools t1)\<rparr>))))"

section \<open>Rendering\<close>

record nodeTimeline =
  nt_Key :: string
  nt_Name :: string
  nt_Role :: string
  nt_States :: string
  nt_Roles :: string
  nt_RTTMs :: "int list"
  nt_UpBytes :: "int list"
  nt_DownBytes :: "int list"
  nt_Flips :: nat
  nt_AvgRTTMs :: int
  nt_TotalUp :: int
  nt_TotalDown :: int

record masterTimeline =
  mt_Name :: string
  mt_States :: string
  mt_Outages :: nat
  mt_Demotions :: nat
  mt_OutagesCarrierUp :: nat
  mt_OutagesNearSwap :: nat

record poolTimelineDTO =
  pt_Master :: string
  pt_Masters :: "string list"
  pt_IntervalSec :: int
  pt_Times :: "int list"
  pt_UplinkDown :: "bool list"
  pt_PickLosses :: nat
  pt_Flappers :: nat
  pt_Nodes :: "nodeTimeline list"
  pt_Swaps :: "bool list"
  pt_MasterRows :: "masterTimeline list"

definition memberDisplayName :: "string \<Rightarrow> string" where
  "memberDisplayName key =
     (if HasPrefix key ''xray-'' then TrimPrefix key ''xray-'' else if HasPrefix key ''proxy-'' then TrimPrefix key ''proxy-'' else key)"

text \<open>Every carrying member is dead while another member answers.\<close>

definition pick_lost :: "poolSample \<Rightarrow> bool" where
  "pick_lost s =
     (let cs = map snd (sm_nodes s);
          carriers = filter (\<lambda>c. carries (nc_role c)) cs
      in carriers \<noteq> [] \<and> list_all (\<lambda>c. nc_state c = PoolCellDead) carriers \<and> list_ex (\<lambda>c. \<not> carries (nc_role c) \<and> cell_up (nc_state c)) cs)"

fun count_losses :: "bool \<Rightarrow> poolSample list \<Rightarrow> nat" where
  "count_losses lost [] = 0"
| "count_losses lost (s # ss) =
     (if sm_uplinkDown s then count_losses lost ss
      else (if pick_lost s \<and> \<not> lost then 1 else 0) + count_losses (pick_lost s) ss)"

definition sample_cell :: "string \<Rightarrow> poolSample \<Rightarrow> nodeCell" where
  "sample_cell k s =
     (case map_of (sm_nodes s) k of Some c \<Rightarrow> c
      | None \<Rightarrow> \<lparr>nc_state = PoolCellAbsent, nc_role = PoolRoleNone, nc_rttMs = 0, nc_up = 0, nc_down = 0\<rparr>)"

fun count_flips :: "string \<Rightarrow> bool option \<Rightarrow> poolSample list \<Rightarrow> nat" where
  "count_flips k prevUp [] = 0"
| "count_flips k prevUp (s # ss) =
     (let st = nc_state (sample_cell k s) in
      if sm_uplinkDown s \<or> \<not> (cell_up st \<or> st = PoolCellDead \<or> st = PoolCellParked) then count_flips k prevUp ss
      else (if prevUp \<noteq> None \<and> prevUp \<noteq> Some (cell_up st) then 1 else 0) + count_flips k (Some (cell_up st)) ss)"

definition render_node :: "(string \<rightharpoonup> string) \<Rightarrow> poolSample list \<Rightarrow> string \<Rightarrow> nodeTimeline" where
  "render_node nameOf smps k =
     (let cs = map (sample_cell k) smps;
          rtts = filter (\<lambda>r. 0 < r) (map nc_rttMs cs);
          name = (case nameOf k of Some n \<Rightarrow> n | None \<Rightarrow> [])
      in \<lparr>nt_Key = k, nt_Name = (if name = [] then memberDisplayName k else name),
          nt_Role = (if cs = [] then [] else [nc_role (last cs)]),
          nt_States = map nc_state cs, nt_Roles = map nc_role cs, nt_RTTMs = map nc_rttMs cs, nt_UpBytes = map nc_up cs, nt_DownBytes = map nc_down cs,
          nt_Flips = count_flips k None smps,
          nt_AvgRTTMs = (if rtts = [] then 0 else sum_list rtts div int (length rtts)),
          nt_TotalUp = sum_list (map nc_up cs), nt_TotalDown = sum_list (map nc_down cs)\<rparr>)"

definition sample_keys :: "poolSample list \<Rightarrow> string list" where
  "sample_keys smps = remdups (concat (map (map fst \<circ> sm_nodes) smps))"

definition renderPool :: "string \<Rightarrow> string list \<Rightarrow> poolSample list \<Rightarrow> (string \<rightharpoonup> string) \<Rightarrow> poolTimelineDTO" where
  "renderPool owner masters smps nameOf =
     (let nodes = map (render_node nameOf smps) (sample_keys smps)
      in \<lparr>pt_Master = owner, pt_Masters = masters, pt_IntervalSec = nodeTimelineInterval div second,
          pt_Times = map (unix_seconds \<circ> sm_at) smps, pt_UplinkDown = map sm_uplinkDown smps,
          pt_PickLosses = count_losses False smps, pt_Flappers = length (filter (\<lambda>n. 2 \<le> nt_Flips n) nodes),
          pt_Nodes = nodes, pt_Swaps = map sm_swap smps, pt_MasterRows = []\<rparr>)"

definition render_master :: "poolSample list \<Rightarrow> masterEvent list \<Rightarrow> time \<Rightarrow> string \<Rightarrow> masterTimeline" where
  "render_master smps events since m =
     (let evs = filter (\<lambda>e. me_master e = m \<and> since \<le> me_at e) events;
          outages = filter (\<lambda>e. \<not> me_demotion e) evs
      in \<lparr>mt_Name = m, mt_States = map (\<lambda>s. case sm_masters s m of Some c \<Rightarrow> c | None \<Rightarrow> MasterCellUnknown) smps,
          mt_Outages = length outages, mt_Demotions = length (filter me_demotion evs),
          mt_OutagesCarrierUp = length (filter me_carrierUp outages), mt_OutagesNearSwap = length (filter me_nearSwap outages)\<rparr>)"

definition renderMasters :: "string list \<Rightarrow> poolSample list \<Rightarrow> masterEvent list \<Rightarrow> time \<Rightarrow> masterTimeline list" where
  "renderMasters masters smps events since = map (render_master smps events since) masters"

definition snapshot_pool :: "time \<Rightarrow> (string \<rightharpoonup> string) \<Rightarrow> string \<times> poolHistory \<Rightarrow> poolTimelineDTO" where
  "snapshot_pool since nameOf = (\<lambda>(owner, h).
     let smps = filter (\<lambda>s. since \<le> sm_at s) (ph_samples h)
     in (renderPool owner (ph_masters h) smps nameOf)\<lparr>pt_MasterRows := renderMasters (ph_masters h) smps (ph_events h) since\<rparr>)"

definition snapshot :: "time \<Rightarrow> string \<Rightarrow> duration \<Rightarrow> (string \<rightharpoonup> string) \<Rightarrow> poolTimeline option \<Rightarrow> poolTimelineDTO list" where
  "snapshot now master window nameOf to =
     (case to of
        None \<Rightarrow> []
      | Some t \<Rightarrow>
          (let since = (if 0 < window then now - window else 0)
           in map (snapshot_pool since nameOf)
                (filter (\<lambda>(_, h). master = [] \<or> master \<in> set (ph_masters h)) (sort_key fst (tl_pools t)))))"

text \<open>\<open>carriers\<close>: members of the pool of a master by the bytes they moved lately.\<close>

definition recent_bytes :: "poolSample list \<Rightarrow> string \<Rightarrow> int" where
  "recent_bytes smps k =
     sum_list (map (\<lambda>s. case map_of (sm_nodes s) k of Some c \<Rightarrow> if 0 < nc_up c + nc_down c then nc_up c + nc_down c else 0 | None \<Rightarrow> 0)
       (drop (length smps - mapCarrierSamples) smps))"

definition role_rank :: "poolSample \<Rightarrow> string \<Rightarrow> nat" where
  "role_rank s k = (let r = nc_role (sample_cell k s) in if r = PoolRoleFallback then 0 else if r = PoolRoleActive then 1 else 2)"

definition pool_carriers :: "string \<Rightarrow> poolTimeline option \<Rightarrow> string list \<times> bool" where
  "pool_carriers master to =
     (case Option.bind to (\<lambda>t. find_pool master (tl_pools t)) of
        None \<Rightarrow> ([], False)
      | Some (_, _, h) \<Rightarrow>
          if ph_samples h = [] then ([], True)
          else
            (let s = last (ph_samples h);
                 ks = map fst (filter (\<lambda>(k, c). 0 < recent_bytes (ph_samples h) k \<or> carries (nc_role c)) (sm_nodes s))
             in (sort_key (\<lambda>k. (- recent_bytes (ph_samples h) k, role_rank s k, k)) ks, True)))"

section \<open>What the statistics count\<close>

definition member_verdicts :: "string \<Rightarrow> poolSample list \<Rightarrow> bool list" where
  "member_verdicts k smps =
     map (\<lambda>s. cell_up (nc_state (sample_cell k s)))
       (filter (\<lambda>s. \<not> sm_uplinkDown s \<and> (let st = nc_state (sample_cell k s) in cell_up st \<or> st = PoolCellDead \<or> st = PoolCellParked)) smps)"

definition loss_verdicts :: "poolSample list \<Rightarrow> bool list" where
  "loss_verdicts smps = map pick_lost (filter (\<lambda>s. \<not> sm_uplinkDown s) smps)"

lemma verdicts_Cons:
  "member_verdicts k (s # ss) = (let st = nc_state (sample_cell k s) in
     if sm_uplinkDown s \<or> \<not> (cell_up st \<or> st = PoolCellDead \<or> st = PoolCellParked) then member_verdicts k ss
     else cell_up st # member_verdicts k ss)"
  by (auto simp: member_verdicts_def Let_def)

lemma remdups_adj_length_Cons: "length (remdups_adj (x # y # ys)) = (if x = y then 0 else 1) + length (remdups_adj (y # ys))"
  by simp

lemma remdups_adj_pos: "0 < length (remdups_adj (x # xs))"
  by (metis length_greater_0_conv list.distinct(1) remdups_adj_Nil_iff)

lemma flips_from: "count_flips k (Some b) ss = length (remdups_adj (b # member_verdicts k ss)) - 1"
proof (induction ss arbitrary: b)
  case (Cons s ss)
  show ?case
  proof (cases "sm_uplinkDown s \<or> \<not> (cell_up (nc_state (sample_cell k s)) \<or> nc_state (sample_cell k s) = PoolCellDead \<or> nc_state (sample_cell k s) = PoolCellParked)")
    case True
    then show ?thesis using Cons [of b] by (simp only: count_flips.simps verdicts_Cons Let_def if_True)
  next
    case False
    let ?u = "cell_up (nc_state (sample_cell k s))"
    have "0 < length (remdups_adj (?u # member_verdicts k ss))" by (rule remdups_adj_pos)
    then show ?thesis using Cons [of ?u] False
      unfolding count_flips.simps verdicts_Cons Let_def by (simp add: remdups_adj_length_Cons del: remdups_adj.simps)
  qed
qed (simp add: member_verdicts_def)

lemma flips_spec: "count_flips k None ss = length (remdups_adj (member_verdicts k ss)) - 1"
proof (induction ss)
  case (Cons s ss)
  then show ?case by (simp add: verdicts_Cons Let_def flips_from del: remdups_adj.simps)
qed (simp add: member_verdicts_def)

lemma losses_from: "count_losses b ss + (if b then 1 else 0) = length (filter id (remdups_adj (b # loss_verdicts ss)))"
proof (induction ss arbitrary: b)
  case (Cons s ss)
  show ?case using Cons [of True] Cons [of False] by (cases "sm_uplinkDown s"; cases b; cases "pick_lost s") (simp_all add: loss_verdicts_def)
qed (simp add: loss_verdicts_def)

section \<open>Reachable timelines\<close>

definition history_ok :: "time \<Rightarrow> poolHistory \<Rightarrow> bool" where
  "history_ok now h \<longleftrightarrow> length (ph_samples h) \<le> nodeTimelineCap \<and> sorted (map sm_at (ph_samples h)) \<and> (\<forall>s\<in>set (ph_samples h). sm_at s \<le> now \<and> distinct (map fst (sm_nodes s)))
     \<and> sorted (map me_at (ph_events h)) \<and> (\<forall>e\<in>set (ph_events h). me_at e \<le> now)"

definition timeline_ok :: "time \<Rightarrow> poolTimeline \<Rightarrow> bool" where
  "timeline_ok now t \<longleftrightarrow> distinct (map fst (tl_pools t)) \<and> (\<forall>h\<in>snd ` set (tl_pools t). history_ok now h)"

lemma history_ok_mono: "history_ok now h \<Longrightarrow> now \<le> now' \<Longrightarrow> history_ok now' h"
  by (auto simp: history_ok_def)

lemma new_history_ok: "history_ok now new_history"
  by (simp add: history_ok_def new_history_def)

lemma sorted_snoc: "sorted (map f xs) \<Longrightarrow> \<forall>x\<in>set xs. f x \<le> f y \<Longrightarrow> sorted (map f (xs @ [y]))"
  by (simp add: sorted_append)

lemma sorted_map_drop: "sorted (map f xs) \<Longrightarrow> sorted (map f (drop n xs))"
  by (metis drop_map sorted_wrt_drop)

lemma sorted_map_dropWhile: "sorted (map f xs) \<Longrightarrow> sorted (map f (dropWhile P xs))"
  by (metis dropWhile_eq_drop sorted_map_drop)

lemma slot_cells_distinct: "distinct (map fst (slot_cells cell slot))"
proof -
  have "distinct (map fst (fold (\<lambda>m. AList.update (mem_Key m) (cell (mem_Key m))) ms xs))" if "distinct (map fst xs)" for ms xs
    using that by (induction ms arbitrary: xs) (auto simp: distinct_update)
  from this [of "[]" "sl_Members slot"] show ?thesis by (simp add: slot_cells_def)
qed

lemma carry_parked_distinct:
  assumes "distinct (map fst cells)" "samples \<noteq> [] \<longrightarrow> distinct (map fst (sm_nodes (last samples)))"
  shows "distinct (map fst (carry_parked parked samples cells))"
  using assms by (auto simp: carry_parked_def comp_def)

lemma update_pools_ok:
  assumes "timeline_ok now t" "history_ok now h"
  shows "timeline_ok now (t\<lparr>tl_pools := AList.update k h (tl_pools t)\<rparr>)"
proof -
  have "snd ` set (AList.update k h xs) \<subseteq> insert h (snd ` set xs)" for xs by (induction xs) auto
  then have "\<forall>x\<in>snd ` set (AList.update k h (tl_pools t)). history_ok now x" using assms unfolding timeline_ok_def by blast
  then show ?thesis using assms by (simp add: timeline_ok_def distinct_update)
qed

lemma pool_history_ok: "timeline_ok now t \<Longrightarrow> map_of (tl_pools t) k = Some h \<Longrightarrow> history_ok now h"
  by (force simp: timeline_ok_def dest: map_of_SomeD)

lemma trimmed_history_ok:
  assumes "sorted (map sm_at smps)" "\<forall>s\<in>set smps. sm_at s \<le> now \<and> distinct (map fst (sm_nodes s))"
    and "sorted (map me_at (ph_events h))" "\<forall>e\<in>set (ph_events h). me_at e \<le> now"
  shows "history_ok now (h\<lparr>ph_masters := ms, ph_samples := drop (length smps - nodeTimelineCap) smps, ph_events := dropWhile P (ph_events h)\<rparr>)"
proof -
  have "sorted (map me_at (dropWhile P (ph_events h)))" using assms(3) by (rule sorted_map_dropWhile)
  moreover have "\<forall>e\<in>set (dropWhile P (ph_events h)). me_at e \<le> now" using assms(4) by (auto dest: set_dropWhileD)
  moreover have "\<forall>s\<in>set (drop (length smps - nodeTimelineCap) smps). sm_at s \<le> now \<and> distinct (map fst (sm_nodes s))"
    using assms(2) in_set_dropD by fast
  ultimately show ?thesis using sorted_map_drop [OF assms(1)] by (simp add: history_ok_def)
qed

lemma record_history_ok:
  fixes h cell parked mcell slot and now :: time
  defines "smps \<equiv> ph_samples h @ [take_sample now cell parked mcell slot (ph_samples h)]"
  assumes "history_ok now h"
  shows "history_ok now (h\<lparr>ph_masters := ms, ph_samples := drop (length smps - nodeTimelineCap) smps, ph_events := dropWhile P (ph_events h)\<rparr>)"
proof (rule trimmed_history_ok)
  let ?s = "take_sample now cell parked mcell slot (ph_samples h)"
  have at: "sm_at ?s = now" by (simp add: take_sample_def Let_def)
  have "distinct (map fst (sm_nodes (last (ph_samples h))))" if "ph_samples h \<noteq> []"
    using assms(2) last_in_set [OF that] by (simp add: history_ok_def)
  then have d: "distinct (map fst (sm_nodes ?s))" using carry_parked_distinct [OF slot_cells_distinct] by (simp add: take_sample_def Let_def)
  show "sorted (map sm_at smps)" unfolding smps_def by (rule sorted_snoc) (use assms(2) at in \<open>auto simp: history_ok_def\<close>)
  show "\<forall>s\<in>set smps. sm_at s \<le> now \<and> distinct (map fst (sm_nodes s))" using assms(2) at d by (auto simp: smps_def history_ok_def)
qed (use assms(2) in \<open>simp_all add: history_ok_def\<close>)

lemma record_slot_ok:
  assumes "timeline_ok now (t\<lparr>tl_pools := pools\<rparr>)"
  shows "timeline_ok now (t\<lparr>tl_pools := record_slot now byTag traffic parked standing t slot pools\<rparr>)"
proof -
  let ?h = "case map_of pools (sl_Master slot) of Some h \<Rightarrow> h | None \<Rightarrow> new_history"
  have "history_ok now ?h" using pool_history_ok [OF assms, of "sl_Master slot"] new_history_ok by (auto split: option.split)
  from update_pools_ok [OF assms record_history_ok [OF this]] show ?thesis by (simp add: record_slot_def Let_def)
qed

lemma fold_record_ok:
  "timeline_ok now (t\<lparr>tl_pools := pools\<rparr>) \<Longrightarrow> timeline_ok now (t\<lparr>tl_pools := fold (record_slot now byTag traffic parked standing t) slots pools\<rparr>)"
  by (induction slots arbitrary: pools) (auto intro: record_slot_ok)

lemma timeline_record_ok:
  assumes "timeline_ok now t" "timeline_record now slots byTag traffic parked standing (Some t) = Some t'"
  shows "timeline_ok now t'"
proof -
  let ?ps = "fold (record_slot now byTag traffic parked standing t) slots (tl_pools t)"
  have "timeline_ok now (t\<lparr>tl_pools := ?ps\<rparr>)" using fold_record_ok [where t = t and pools = "tl_pools t"] assms(1) by simp
  moreover have "tl_pools t' = filter (\<lambda>(m, _). m \<in> sl_Master ` set slots) ?ps" using assms(2) by (auto simp: timeline_record_def)
  ultimately show ?thesis by (auto simp: timeline_ok_def distinct_map_filter)
qed

lemma mark_last_ok: "map sm_at (mark_last smps) = map sm_at smps" "length (mark_last smps) = length smps"
  "s \<in> set (mark_last smps) \<Longrightarrow> \<exists>s'\<in>set smps. sm_at s = sm_at s' \<and> sm_nodes s = sm_nodes s'"
proof -
  show "map sm_at (mark_last smps) = map sm_at smps" "length (mark_last smps) = length smps"
    by (cases smps rule: rev_cases; simp add: mark_last_def)+
  show "s \<in> set (mark_last smps) \<Longrightarrow> \<exists>s'\<in>set smps. sm_at s = sm_at s' \<and> sm_nodes s = sm_nodes s'"
    by (cases smps rule: rev_cases) (auto simp: mark_last_def)
qed

lemma markSwap_ok:
  assumes "timeline_ok now t" "markSwap now' master (Some t) = Some t'"
  shows "timeline_ok now t'"
proof (cases "map_of (tl_pools t) master")
  case (Some h)
  have h: "history_ok now h" by (rule pool_history_ok [OF assms(1) Some])
  have "history_ok now (h\<lparr>ph_lastSwap := now', ph_samples := mark_last (ph_samples h)\<rparr>)"
  proof -
    have "sm_at s \<le> now \<and> distinct (map fst (sm_nodes s))" if s: "s \<in> set (mark_last (ph_samples h))" for s
    proof -
      obtain s' where "s' \<in> set (ph_samples h)" "sm_at s = sm_at s'" "sm_nodes s = sm_nodes s'" using mark_last_ok(3) [OF s] by blast
      then show ?thesis using h by (simp add: history_ok_def)
    qed
    then show ?thesis using h by (simp add: history_ok_def mark_last_ok(1,2))
  qed
  note ok = update_pools_ok [OF assms(1) this, of master]
  have "t' = t\<lparr>tl_pools := AList.update master (h\<lparr>ph_lastSwap := now', ph_samples := mark_last (ph_samples h)\<rparr>) (tl_pools t)\<rparr>"
    using assms(2) Some by (simp add: markSwap_def)
  then show ?thesis using ok by (simp only:)
qed (use assms in \<open>simp add: markSwap_def\<close>)

lemma last_match: "(case xs of [] \<Rightarrow> None | x # l \<Rightarrow> Some (last (x # l))) = Some y \<Longrightarrow> y \<in> set xs"
  using last_in_set [of xs] by (cases xs) (auto simp del: last.simps)

lemma find_pool_mem: "find_pool master pools = Some (o', m, h) \<Longrightarrow> (o', h) \<in> set pools \<and> m \<in> set (ph_masters h)"
  unfolding find_pool_def by (drule last_match) auto

lemma noteMaster_ok:
  assumes "timeline_ok now t" "noteMaster now master demotion (Some t) = (r, Some t')"
  shows "timeline_ok now t'"
proof (cases "find_pool master (tl_pools t)")
  case None
  then have "tl_pools t' = tl_pools t" using assms(2) by (auto simp: noteMaster_def Let_def)
  then show ?thesis using assms(1) by (simp add: timeline_ok_def)
next
  case (Some x)
  then obtain o' m h where x: "find_pool master (tl_pools t) = Some (o', m, h)" by (cases x) auto
  have h: "history_ok now h" using find_pool_mem [OF x] assms(1) by (force simp: timeline_ok_def)
  have ev: "tl_pools t' = AList.update o' (h\<lparr>ph_events := ph_events h @ [master_event now m demotion h]\<rparr>) (tl_pools t)"
    using assms(2) x by (auto simp: noteMaster_def Let_def)
  have "history_ok now (h\<lparr>ph_events := ph_events h @ [master_event now m demotion h]\<rparr>)"
    using h by (simp add: history_ok_def sorted_append master_event_def)
  from update_pools_ok [OF assms(1) this, of o'] show ?thesis by (simp add: timeline_ok_def ev)
qed

inductive timeline_reach :: "time \<Rightarrow> poolTimeline \<Rightarrow> bool" where
  new: "timeline_reach now newPoolTimeline"
| recorded: "timeline_reach now t \<Longrightarrow> now \<le> now' \<Longrightarrow> timeline_record now' slots byTag traffic parked standing (Some t) = Some t' \<Longrightarrow> timeline_reach now' t'"
| swapped: "timeline_reach now t \<Longrightarrow> now \<le> now' \<Longrightarrow> markSwap now' master (Some t) = Some t' \<Longrightarrow> timeline_reach now' t'"
| noted: "timeline_reach now t \<Longrightarrow> now \<le> now' \<Longrightarrow> noteMaster now' master demotion (Some t) = (r, Some t') \<Longrightarrow> timeline_reach now' t'"

lemma timeline_ok_mono: "timeline_ok now t \<Longrightarrow> now \<le> now' \<Longrightarrow> timeline_ok now' t"
  using history_ok_mono by (auto simp: timeline_ok_def)

lemma timeline_reach_ok: "timeline_reach now t \<Longrightarrow> timeline_ok now t"
proof (induction rule: timeline_reach.induct)
  case (new now)
  show ?case by (simp add: timeline_ok_def newPoolTimeline_def)
next
  case (recorded now t now' slots byTag traffic parked standing t')
  then show ?case using timeline_record_ok timeline_ok_mono by blast
next
  case (swapped now t now' master t')
  then show ?case using markSwap_ok timeline_ok_mono by blast
next
  case (noted now t now' master demotion r t')
  then show ?case using noteMaster_ok timeline_ok_mono by blast
qed

lemma window_suffix: "sorted (map f xs) \<Longrightarrow> filter (\<lambda>x. t \<le> f x) xs = dropWhile (\<lambda>x. f x < t) xs" for t :: "'b::linorder"
proof (induction xs)
  case (Cons x xs)
  show ?case
  proof (cases "t \<le> f x")
    case True
    have "filter (\<lambda>x. t \<le> f x) (x # xs) = x # xs" by (rule filter_True) (use True Cons(2) in \<open>auto intro: order_trans\<close>)
    then show ?thesis using True by simp
  qed (use Cons in auto)
qed simp

section \<open>Properties\<close>

text \<open>What a rendered window says. In every reachable timeline a window is the newest part of a history of at most
  \<open>nodeTimelineCap\<close> samples; the pick losses are the runs of samples in which every carrying member was dead
  beside a live one, and the flips of a member are the changes of its verdict, both counted over the samples in
  which the uplink was up.\<close>

lemma pool_statistics:
  assumes "timeline_reach now t" "(owner, h) \<in> set (tl_pools t)" "smps = filter (\<lambda>s. since \<le> sm_at s) (ph_samples h)"
  shows "suffix smps (ph_samples h) \<and> length smps \<le> nodeTimelineCap
    \<and> pt_PickLosses (snapshot_pool since nameOf (owner, h)) = length (filter id (remdups_adj (False # loss_verdicts smps)))
    \<and> (\<forall>n\<in>set (pt_Nodes (snapshot_pool since nameOf (owner, h))). nt_Flips n = length (remdups_adj (member_verdicts (nt_Key n) smps)) - 1)"
proof -
  have h: "history_ok now h" using timeline_reach_ok [OF assms(1)] assms(2) by (force simp: timeline_ok_def)
  then have w: "smps = dropWhile (\<lambda>s. sm_at s < since) (ph_samples h)" unfolding assms(3) by (intro window_suffix) (simp add: history_ok_def)
  have "suffix smps (ph_samples h)" unfolding w by (rule suffix_dropWhile)
  moreover have "length smps \<le> nodeTimelineCap" using h length_filter_le [of _ "ph_samples h"] unfolding assms(3) history_ok_def by (meson order_trans)
  moreover have "pt_PickLosses (snapshot_pool since nameOf (owner, h)) = length (filter id (remdups_adj (False # loss_verdicts smps)))"
    using losses_from [of False smps] by (simp add: snapshot_pool_def Let_def renderPool_def assms(3))
  moreover have "\<forall>n\<in>set (pt_Nodes (snapshot_pool since nameOf (owner, h))). nt_Flips n = length (remdups_adj (member_verdicts (nt_Key n) smps)) - 1"
    by (auto simp: snapshot_pool_def Let_def renderPool_def render_node_def flips_spec assms(3))
  ultimately show ?thesis by blast
qed

lemma fold_active: "fold (\<lambda>k r. r(k \<mapsto> a)) ks m k = (if k \<in> set ks then Some a else m k)"
  by (induction ks arbitrary: m) auto

lemma role_values: "PoolRoleActive \<noteq> PoolRoleFallback" "PoolRoleIdle \<noteq> PoolRoleFallback" "PoolRoleUnranked \<noteq> PoolRoleFallback"
  by (simp_all add: role_defs)

text \<open>The roles shown for the members of a slot agree with the configuration of its balancer while no member is
  broken: the one member with the fallback role is the one \<open>Generate\<close> names as fallback.\<close>

lemma roles_mirror_config:
  assumes "sl_Broken s = []" "sl_Members s \<noteq> []"
  shows "slotRoles s k = Some PoolRoleFallback \<longleftrightarrow> k = slot_fallback s"
proof -
  let ?ks = "map mem_Key (sl_Members s)"
  have ub: "slot_broken s = {}" using assms by (simp add: slot_broken_def brokenSet_def)
  have f1: "(case find (\<lambda>m. True) (sl_Members s) of Some m \<Rightarrow> mem_Key m | None \<Rightarrow> []) = hd ?ks" using assms(2) by (cases "sl_Members s") auto
  have f2: "(case find (\<lambda>k. True) xs of Some k \<Rightarrow> k | None \<Rightarrow> d) = (if xs = [] then d else hd xs)" for xs and d :: string by (cases xs) auto
  have pref: "presentPreferred s = filter (\<lambda>k. k \<in> set ?ks) (sl_Preferred s)" by (simp add: presentPreferred_def)
  have fb: "slot_fallback s = (if sl_Fallback s \<noteq> [] \<and> sl_Fallback s \<in> set ?ks then sl_Fallback s
      else if presentPreferred s = [] then hd ?ks else hd (presentPreferred s))"
    unfolding slot_fallback_def Let_def ub by (simp add: f1 f2)
  show ?thesis unfolding fb unfolding slotRoles_def Let_def pref [symmetric]
    using assms(2) by (auto simp: fold_active all_roles_def role_values split: if_splits)
qed

lemma roles_mirror_config_witness: "slotRoles probe_slot ''xray-a'' = Some PoolRoleFallback"
proof -
  have "sl_Broken probe_slot = []" "sl_Members probe_slot \<noteq> []" by (simp_all add: probe_slot_def demo_slot_def)
  moreover have "''xray-a'' = slot_fallback probe_slot" by code_simp
  ultimately show ?thesis using roles_mirror_config by blast
qed

text \<open>With a broken member the two differ: the broken head keeps the fallback role although \<open>Generate\<close> avoids it.\<close>

lemma roles_ignore_broken:
  "slotRoles (probe_slot\<lparr>sl_Broken := [''xray-a'']\<rparr>) ''xray-a'' = Some PoolRoleFallback \<and> slot_fallback (probe_slot\<lparr>sl_Broken := [''xray-a'']\<rparr>) = ''xray-b''"
proof
  show "slotRoles (probe_slot\<lparr>sl_Broken := [''xray-a'']\<rparr>) ''xray-a'' = Some PoolRoleFallback" by code_simp
  show "slot_fallback (probe_slot\<lparr>sl_Broken := [''xray-a'']\<rparr>) = ''xray-b''" by code_simp
qed

end
