(* ===== verification/Pool_Strategy.thy ===== *)
theory Pool_Strategy
  imports Pool_Timeline
begin

text \<open>
  \<open>daemon/xray_strategy.go\<close>: which strategy a pool follows, the pick of an agile pool, and the
  classifier that switches pools on automatic. What the subscription store answers is an
  argument (\<open>None\<close> an error of the call). The cost of a member is a floating-point function of
  its health and of whether it was picked before, and is a parameter; the test of the failure
  rate against the tolerance of one half is exact, because both counts are far below \<open>2 ^ 53\<close>.
  Reasons for a switch, which are texts, are a datatype.
\<close>

section \<open>Strategy of a pool\<close>

record subscription_row =
  sb_Strategy :: string
  sb_Pinned :: "string set option"

text \<open>\<open>poolStrategy\<close>: the loop over the references, then the switch. \<open>autoAgile\<close> is \<open>s.auto.agile(poolKey)\<close>.\<close>

fun strategy_loop :: "(string \<Rightarrow> subscription_row option) \<Rightarrow> DialerRef list \<Rightarrow> bool \<times> bool \<times> nat \<Rightarrow> (bool \<times> bool \<times> nat) option" where
  "strategy_loop getSub [] acc = Some acc"
| "strategy_loop getSub (r # rs) (auto, agile, subs) =
     (if ref_Kind r \<noteq> DialerKindXraysub then strategy_loop getSub rs (auto, agile, subs)
      else case getSub (ref_Name r) of
             None \<Rightarrow> strategy_loop getSub rs (auto, agile, subs)
           | Some sub \<Rightarrow>
               (let st = EffectiveStrategy (sb_Strategy sub) in
                if st = StrategyManual then None
                else strategy_loop getSub rs (auto \<or> st = StrategyAuto, agile \<or> st = StrategyAgile, subs + 1)))"

definition poolStrategy :: "(string \<Rightarrow> subscription_row option) \<Rightarrow> bool \<Rightarrow> DialerRef list \<Rightarrow> string \<times> bool" where
  "poolStrategy getSub autoAgile refs =
     (case strategy_loop getSub refs (False, False, 0) of
        None \<Rightarrow> (StrategyManual, False)
      | Some (auto, agile, subs) \<Rightarrow>
          if agile then (StrategyAgile, False)
          else if 0 < subs \<and> \<not> auto then (StrategyStable, False)
          else if autoAgile then (StrategyAgile, True)
          else (StrategyStable, True))"

definition poolPins :: "(string \<Rightarrow> subscription_row option) \<Rightarrow> DialerRef list \<Rightarrow> DialerMember list \<Rightarrow> string list" where
  "poolPins getSub refs members =
     (let pinned = (\<lambda>k. list_ex (\<lambda>r. ref_Kind r = DialerKindXraysub \<and>
            (case getSub (ref_Name r) of
               None \<Rightarrow> False
             | Some sub \<Rightarrow> EffectiveStrategy (sb_Strategy sub) = StrategyManual
                 \<and> (case sb_Pinned sub of None \<Rightarrow> False | Some fps \<Rightarrow> k \<in> fps))) refs)
      in filter pinned (map mem_Key members))"

definition onlyKeys :: "DialerMember list \<Rightarrow> string list \<Rightarrow> DialerMember list" where
  "onlyKeys members keys = filter (\<lambda>m. mem_Key m \<in> set keys) members"

definition orStable :: "string \<Rightarrow> string" where
  "orStable strategy = (if strategy = [] then StrategyStable else strategy)"

section \<open>The pick of an agile pool\<close>

definition agileActiveMax :: nat where "agileActiveMax = 4"

record agilePick =
  ap_active :: "string list"
  ap_spare :: string

definition no_pick :: agilePick where "no_pick = \<lparr>ap_active = [], ap_spare = []\<rparr>"

type_synonym agilePicker = "string \<rightharpoonup> agilePick"

definition newAgilePicker :: agilePicker where "newAgilePicker = Map.empty"

record agileChange =
  ac_slot :: DialerSlot
  ac_from :: agilePick
  ac_to :: agilePick
  ac_dropped :: "string list"

definition agileAlive :: "nodeStatus \<Rightarrow> bool" where
  "agileAlive st \<longleftrightarrow> ns_Alive st \<and> 0 < ns_All st \<and> 2 * ns_Fail st \<le> ns_All st"

definition member_alive :: "(string \<rightharpoonup> nodeStatus) \<Rightarrow> DialerSlot \<Rightarrow> string \<Rightarrow> bool" where
  "member_alive byTag sl k = (case slot_status byTag sl k of Some st \<Rightarrow> agileAlive st | None \<Rightarrow> False)"

definition agile_cands :: "(bool \<Rightarrow> nodeStatus \<Rightarrow> duration) \<Rightarrow> DialerSlot \<Rightarrow> (string \<rightharpoonup> nodeStatus) \<Rightarrow> agilePick \<Rightarrow> (duration \<times> string) list" where
  "agile_cands cost sl byTag old =
     map (\<lambda>k. (cost (k \<in> set (ap_active old)) (the (slot_status byTag sl k)), k)) (filter (member_alive byTag sl) (map mem_Key (sl_Members sl)))"

definition drop_broken :: "string list \<Rightarrow> (duration \<times> string) list \<Rightarrow> (duration \<times> string) list" where
  "drop_broken broken alive =
     (let ok = filter (\<lambda>c. snd c \<notin> set broken) alive in if broken \<noteq> [] \<and> ok \<noteq> [] then ok else alive)"

definition pickAgile :: "(bool \<Rightarrow> nodeStatus \<Rightarrow> duration) \<Rightarrow> DialerSlot \<Rightarrow> (string \<rightharpoonup> nodeStatus) \<Rightarrow> agilePick \<Rightarrow> agilePick option" where
  "pickAgile cost sl byTag old =
     (if agile_cands cost sl byTag old = [] then None
      else
        (let alive = sort (drop_broken (sl_Broken sl) (agile_cands cost sl byTag old));
             n = min (length alive) agileActiveMax;
             active = sort (map snd (take n alive))
         in Some \<lparr>ap_active = active,
              ap_spare = (if n < length alive then snd (alive ! n) else if ap_spare old \<in> set active then ap_spare old else snd (hd alive))\<rparr>))"

definition agile_slot :: "(bool \<Rightarrow> nodeStatus \<Rightarrow> duration) \<Rightarrow> (string \<rightharpoonup> nodeStatus) \<Rightarrow> DialerSlot \<Rightarrow> agilePicker \<times> agileChange list \<Rightarrow> agilePicker \<times> agileChange list" where
  "agile_slot cost byTag sl = (\<lambda>(picks, changes).
     if \<not> Agile sl then (picks, changes)
     else
       (let old = (case picks (sl_PoolKey sl) of Some p \<Rightarrow> p | None \<Rightarrow> no_pick) in
        case pickAgile cost sl byTag old of
          None \<Rightarrow> (picks, changes)
        | Some nxt \<Rightarrow>
            if ap_active nxt = ap_active old \<and> ap_spare nxt = ap_spare old then (picks, changes)
            else (picks(sl_PoolKey sl \<mapsto> nxt),
                  changes @ [\<lparr>ac_slot = sl, ac_from = old, ac_to = nxt, ac_dropped = filter (\<lambda>k. \<not> member_alive byTag sl k) (ap_active old)\<rparr>])))"

definition agile_observe :: "(bool \<Rightarrow> nodeStatus \<Rightarrow> duration) \<Rightarrow> DialerSlot list \<Rightarrow> (string \<rightharpoonup> nodeStatus) \<Rightarrow> agilePicker option \<Rightarrow> agilePicker option \<times> agileChange list" where
  "agile_observe cost slots byTag po =
     (case po of
        None \<Rightarrow> (None, [])
      | Some picks \<Rightarrow>
          (case fold (agile_slot cost byTag) slots (picks, []) of
             (picks', changes) \<Rightarrow>
               (Some (\<lambda>k. if list_ex (\<lambda>sl. Agile sl \<and> sl_PoolKey sl = k) slots then picks' k else None), changes)))"

section \<open>The automatic classifier\<close>

definition autoWindow :: duration where "autoWindow = 10 * minute"
definition autoFlips :: nat where "autoFlips = 2"
definition autoFlappingPct :: nat where "autoFlappingPct = 30"
definition autoMinFlapping :: nat where "autoMinFlapping = 2"
definition autoPickLosses :: nat where "autoPickLosses = 2"
definition autoCalm :: duration where "autoCalm = 30 * minute"

datatype auto_reason = NoFlapping | PickDied nat | NodesFlipped nat nat | CalmAgain

record autoState =
  au_agile :: bool
  au_since :: time
  au_lastFlappy :: time
  au_reason :: auto_reason

type_synonym autoClassifier = "string \<rightharpoonup> autoState"

definition auto_agile :: "string \<Rightarrow> autoClassifier option \<Rightarrow> bool" where
  "auto_agile k co = (case Option.bind co (\<lambda>c. c k) of Some st \<Rightarrow> au_agile st | None \<Rightarrow> False)"

record autoEvent =
  ae_poolKey :: string
  ae_agile :: bool
  ae_reason :: auto_reason

definition node_observed :: "nodeTimeline \<Rightarrow> bool" where
  "node_observed n = list_ex (\<lambda>c. c \<in> set ''AFDP'') (nt_States n)"

definition flapping :: "poolTimelineDTO \<Rightarrow> auto_reason option" where
  "flapping p =
     (if autoPickLosses \<le> pt_PickLosses p then Some (PickDied (pt_PickLosses p))
      else
        (let observed = length (filter node_observed (pt_Nodes p));
             flappers = length (filter (\<lambda>n. node_observed n \<and> autoFlips \<le> nt_Flips n) (pt_Nodes p))
         in if autoMinFlapping \<le> flappers \<and> autoFlappingPct * observed \<le> flappers * 100 then Some (NodesFlipped flappers observed) else None))"

definition auto_step :: "time \<Rightarrow> auto_reason option \<Rightarrow> autoState option \<Rightarrow> autoState" where
  "auto_step now why sto =
     (let st = (case sto of Some st \<Rightarrow> st | None \<Rightarrow> \<lparr>au_agile = False, au_since = now, au_lastFlappy = 0, au_reason = NoFlapping\<rparr>) in
      case why of
        Some w \<Rightarrow> if au_agile st then st\<lparr>au_lastFlappy := now\<rparr> else \<lparr>au_agile = True, au_since = now, au_lastFlappy = now, au_reason = w\<rparr>
      | None \<Rightarrow> if au_agile st \<and> autoCalm \<le> time_Sub now (au_lastFlappy st)
                then st\<lparr>au_agile := False, au_since := now, au_reason := CalmAgain\<rparr> else st)"

definition evaluate_key :: "time \<Rightarrow> (string \<times> poolTimelineDTO) list \<Rightarrow> (string \<Rightarrow> bool) \<Rightarrow> string \<Rightarrow> autoClassifier \<times> autoEvent list \<Rightarrow> autoClassifier \<times> autoEvent list" where
  "evaluate_key now windows auto k = (\<lambda>(c, evs).
     if \<not> auto k then (c, evs)
     else
       (let was = (case c k of Some st \<Rightarrow> au_agile st | None \<Rightarrow> False);
            st = auto_step now (Option.bind (map_of windows k) flapping) (c k)
        in (c(k \<mapsto> st), if au_agile st = was then evs else evs @ [\<lparr>ae_poolKey = k, ae_agile = au_agile st, ae_reason = au_reason st\<rparr>])))"

definition auto_evaluate :: "time \<Rightarrow> (string \<times> poolTimelineDTO) list \<Rightarrow> (string \<Rightarrow> bool) \<Rightarrow> autoClassifier option \<Rightarrow> autoClassifier option \<times> autoEvent list" where
  "auto_evaluate now windows auto co =
     (case co of
        None \<Rightarrow> (None, [])
      | Some c \<Rightarrow>
          (case fold (evaluate_key now windows auto) (sort (map fst windows)) (\<lambda>k. if auto k then c k else None, []) of
             (c', evs) \<Rightarrow> (Some c', evs)))"

text \<open>\<open>autoSwitched\<close> without its log: the windows of the pools of the loaded slots, judged.\<close>

definition slot_of_owner :: "DialerSlot list \<Rightarrow> string \<Rightarrow> DialerSlot option" where
  "slot_of_owner slots owner = find (\<lambda>sl. sl_Master sl = owner) (rev slots)"

definition auto_windows :: "DialerSlot list \<Rightarrow> poolTimelineDTO list \<Rightarrow> (string \<times> poolTimelineDTO) list" where
  "auto_windows slots dtos =
     fold (\<lambda>p ws. case slot_of_owner slots (pt_Master p) of Some sl \<Rightarrow> AList.update (sl_PoolKey sl) p ws | None \<Rightarrow> ws) dtos []"

definition autoSwitched :: "time \<Rightarrow> DialerSlot list \<Rightarrow> poolTimeline option \<Rightarrow> autoClassifier option \<Rightarrow> bool \<times> autoClassifier option" where
  "autoSwitched now slots timeline co =
     (let auto = (\<lambda>k. list_ex (\<lambda>sl. sl_Auto sl \<and> sl_PoolKey sl = k) slots) in
      if \<not> list_ex sl_Auto slots then (False, fst (auto_evaluate now [] (\<lambda>_. False) co))
      else case auto_evaluate now (auto_windows slots (snapshot now [] autoWindow Map.empty timeline)) auto co of
             (co', evs) \<Rightarrow> (evs \<noteq> [], co'))"

section \<open>Strategy of a pool, independent of the order of its references\<close>

definition sub_strategies :: "(string \<Rightarrow> subscription_row option) \<Rightarrow> DialerRef list \<Rightarrow> string list" where
  "sub_strategies getSub refs =
     List.map_filter (\<lambda>r. if ref_Kind r = DialerKindXraysub then map_option (EffectiveStrategy \<circ> sb_Strategy) (getSub (ref_Name r)) else None) refs"

lemma sub_strategies_simps:
  "sub_strategies getSub [] = []"
  "sub_strategies getSub (r # rs) =
     (if ref_Kind r \<noteq> DialerKindXraysub then sub_strategies getSub rs
      else case getSub (ref_Name r) of None \<Rightarrow> sub_strategies getSub rs | Some s \<Rightarrow> EffectiveStrategy (sb_Strategy s) # sub_strategies getSub rs)"
  by (simp_all add: sub_strategies_def List.map_filter_simps split: option.split)

lemma strategy_loop_spec:
  "strategy_loop getSub refs (a, g, n) =
     (let S = sub_strategies getSub refs in
      if StrategyManual \<in> set S then None else Some (a \<or> StrategyAuto \<in> set S, g \<or> StrategyAgile \<in> set S, n + length S))"
  by (induction refs arbitrary: a g n) (auto simp: sub_strategies_simps Let_def split: option.split)

text \<open>The precedence among the subscriptions of a pool: a manual one decides, then an agile one; the classifier is
  asked when one is on automatic or there is none.\<close>

lemma poolStrategy_precedence:
  "poolStrategy getSub autoAgile refs =
     (let S = set (sub_strategies getSub refs) in
      if StrategyManual \<in> S then (StrategyManual, False)
      else if StrategyAgile \<in> S then (StrategyAgile, False)
      else if S = {} \<or> StrategyAuto \<in> S then (if autoAgile then StrategyAgile else StrategyStable, True)
      else (StrategyStable, False))"
  by (auto simp: poolStrategy_def strategy_loop_spec Let_def)

section \<open>The agile pick is the cheapest\<close>

definition agile_eligible :: "DialerSlot \<Rightarrow> (string \<rightharpoonup> nodeStatus) \<Rightarrow> string list" where
  "agile_eligible sl byTag =
     (let alive = filter (member_alive byTag sl) (map mem_Key (sl_Members sl));
          ok = filter (\<lambda>k. k \<notin> set (sl_Broken sl)) alive
      in if ok \<noteq> [] then ok else alive)"

definition agile_cost :: "(bool \<Rightarrow> nodeStatus \<Rightarrow> duration) \<Rightarrow> DialerSlot \<Rightarrow> (string \<rightharpoonup> nodeStatus) \<Rightarrow> agilePick \<Rightarrow> string \<Rightarrow> duration" where
  "agile_cost cost sl byTag old k = cost (k \<in> set (ap_active old)) (the (slot_status byTag sl k))"

lemma drop_broken_eligible:
  "drop_broken (sl_Broken sl) (agile_cands cost sl byTag old) = map (\<lambda>k. (agile_cost cost sl byTag old k, k)) (agile_eligible sl byTag)"
proof -
  let ?f = "\<lambda>k. (agile_cost cost sl byTag old k, k)" and ?a = "filter (member_alive byTag sl) (map mem_Key (sl_Members sl))"
  have c: "agile_cands cost sl byTag old = map ?f ?a" by (simp add: agile_cands_def agile_cost_def)
  have "filter (\<lambda>c. snd c \<notin> set (sl_Broken sl)) (map ?f ?a) = map ?f (filter (\<lambda>k. k \<notin> set (sl_Broken sl)) ?a)" by (simp add: filter_map comp_def)
  then show ?thesis unfolding drop_broken_def c Let_def agile_eligible_def by simp
qed

lemma eligible_Nil: "agile_eligible sl byTag = [] \<longleftrightarrow> agile_cands cost sl byTag old = []"
  by (auto simp: agile_eligible_def agile_cands_def Let_def filter_empty_conv)

lemma take_le_drop:
  assumes "sorted xs" "x \<in> set (take n xs)" "y \<in> set (drop n xs)"
  shows "x \<le> y"
  using assms by (metis append_take_drop_id sorted_append)

text \<open>The pick of an agile pool. There is one exactly when a member is alive; it carries at most
  \<open>agileActiveMax\<close> members, all of the eligible ones when they are no more than that; no member left out is
  cheaper than one taken; broken members are taken only when every live member is broken; the fallback is a
  member left out when there is one, and a carrying member otherwise.\<close>

lemma pickAgile_best:
  assumes "distinct (map mem_Key (sl_Members sl))"
  shows "(pickAgile cost sl byTag old = None \<longleftrightarrow> (\<forall>m\<in>set (sl_Members sl). \<not> member_alive byTag sl (mem_Key m)))
    \<and> (\<forall>p. pickAgile cost sl byTag old = Some p \<longrightarrow>
          sorted (ap_active p) \<and> distinct (ap_active p) \<and> length (ap_active p) = min (length (agile_eligible sl byTag)) agileActiveMax
        \<and> set (ap_active p) \<subseteq> set (agile_eligible sl byTag)
        \<and> (\<forall>k\<in>set (ap_active p). \<forall>k'\<in>set (agile_eligible sl byTag) - set (ap_active p).
              (agile_cost cost sl byTag old k, k) \<le> (agile_cost cost sl byTag old k', k'))
        \<and> (if agileActiveMax < length (agile_eligible sl byTag) then ap_spare p \<in> set (agile_eligible sl byTag) - set (ap_active p)
           else ap_spare p \<in> set (ap_active p)))"
proof (intro conjI allI impI)
  show "pickAgile cost sl byTag old = None \<longleftrightarrow> (\<forall>m\<in>set (sl_Members sl). \<not> member_alive byTag sl (mem_Key m))"
    by (auto simp: pickAgile_def Let_def agile_cands_def filter_empty_conv)
  fix p assume p: "pickAgile cost sl byTag old = Some p"
  let ?E = "agile_eligible sl byTag" and ?f = "\<lambda>k. (agile_cost cost sl byTag old k, k)"
  define alive where "alive = sort (map ?f ?E)"
  define n where "n = min (length alive) agileActiveMax"
  have ne: "?E \<noteq> []" using p eligible_Nil [of sl byTag cost old] by (auto simp: pickAgile_def split: if_splits)
  have len: "length alive = length ?E" by (simp add: alive_def)
  have p_eq: "p = \<lparr>ap_active = sort (map snd (take n alive)),
      ap_spare = (if n < length alive then snd (alive ! n) else if ap_spare old \<in> set (map snd (take n alive)) then ap_spare old else snd (hd alive))\<rparr>"
    using p unfolding pickAgile_def drop_broken_eligible alive_def [symmetric] n_def [symmetric] by (auto simp: Let_def n_def split: if_splits)
  have "mset (map snd alive) = mset ?E" by (simp add: alive_def image_mset.compositionality comp_def)
  moreover have "distinct ?E" using assms by (auto simp: agile_eligible_def Let_def)
  ultimately have d: "distinct (map snd alive)" "set (map snd alive) = set ?E" by (metis mset_eq_imp_distinct_iff, metis mset_eq_setD)
  have td: "set (map snd alive) = set (map snd (take n alive)) \<union> set (map snd (drop n alive))"
    by (metis append_take_drop_id map_append set_append)
  have act: "set (ap_active p) = set (map snd (take n alive))" by (simp add: p_eq)
  show "sorted (ap_active p)" by (simp add: p_eq)
  show "distinct (ap_active p)" using d(1) by (simp add: p_eq take_map [symmetric])
  show "length (ap_active p) = min (length ?E) agileActiveMax" by (simp add: p_eq n_def len)
  show "set (ap_active p) \<subseteq> set ?E" unfolding act using d(2) td by blast
  have fst_alive: "x = ?f (snd x)" if "x \<in> set alive" for x using that by (auto simp: alive_def)
  show "\<forall>k\<in>set (ap_active p). \<forall>k'\<in>set ?E - set (ap_active p). ?f k \<le> ?f k'"
  proof (intro ballI)
    fix k k' assume k: "k \<in> set (ap_active p)" "k' \<in> set ?E - set (ap_active p)"
    obtain x where x: "x \<in> set (take n alive)" "k = snd x" using k(1) unfolding act by auto
    obtain y where y: "y \<in> set (drop n alive)" "k' = snd y" using k(2) d(2) td unfolding act by auto
    have "x \<le> y" by (rule take_le_drop [OF _ x(1) y(1)]) (simp add: alive_def)
    then show "?f k \<le> ?f k'" using fst_alive [OF in_set_takeD [OF x(1)]] fst_alive [OF in_set_dropD [OF y(1)]] x(2) y(2) by simp
  qed
  show "if agileActiveMax < length ?E then ap_spare p \<in> set ?E - set (ap_active p) else ap_spare p \<in> set (ap_active p)"
  proof (cases "agileActiveMax < length ?E")
    case True
    then have n: "n < length alive" "n = agileActiveMax" by (simp_all add: n_def len)
    have "alive ! n \<in> set (drop n alive)" using n(1) by (metis Cons_nth_drop_Suc list.set_intros(1))
    moreover have "set (map snd (take n alive)) \<inter> set (map snd (drop n alive)) = {}"
      using d(1) by (metis append_take_drop_id distinct_append map_append)
    ultimately have "snd (alive ! n) \<in> set ?E - set (ap_active p)" unfolding act using td d(2) by auto
    then show ?thesis using True n(1) by (simp add: p_eq)
  next
    case False
    then have n: "n = length alive" by (simp add: n_def len)
    have "hd alive \<in> set alive" using ne len by (metis hd_in_set length_0_conv)
    then show ?thesis using False n by (auto simp: p_eq)
  qed
qed

definition up_status :: "int \<Rightarrow> nodeStatus" where
  "up_status rtt = \<lparr>ns_Alive = True, ns_Delay = rtt, ns_All = 6, ns_Fail = 0, ns_Average = rtt * millisecond, ns_Deviation = 0\<rparr>"

lemma pickAgile_best_witness:
  "pickAgile (\<lambda>_. ns_Delay) probe_slot (\<lambda>_. None) no_pick = None
    \<and> (\<forall>p. pickAgile (\<lambda>_. ns_Delay) probe_slot (\<lambda>_. Some (up_status 90)) no_pick = Some p \<longrightarrow> length (ap_active p) = 2)"
proof -
  have d: "distinct (map mem_Key (sl_Members probe_slot))" by (simp add: probe_slot_def)
  have n: "\<forall>m\<in>set (sl_Members probe_slot). \<not> member_alive (\<lambda>_. None) probe_slot (mem_Key m)" by (simp add: member_alive_def slot_status_def)
  have "length (agile_eligible probe_slot (\<lambda>_. Some (up_status 90))) = 2" by code_simp
  then show ?thesis
    using pickAgile_best [OF d, of "\<lambda>_. ns_Delay" "\<lambda>_. None" no_pick] pickAgile_best [OF d, of "\<lambda>_. ns_Delay" "\<lambda>_. Some (up_status 90)" no_pick] n
    by (simp add: agileActiveMax_def)
qed

section \<open>The classifier against its specification\<close>

lemma evaluate_fold:
  assumes "distinct ks"
  shows "fst (fold (evaluate_key now ws auto) ks (c, evs)) k =
    (if k \<in> set ks \<and> auto k then Some (auto_step now (Option.bind (map_of ws k) flapping) (c k)) else c k)"
  using assms
proof (induction ks arbitrary: c evs)
  case (Cons x xs)
  obtain c1 evs1 where s: "evaluate_key now ws auto x (c, evs) = (c1, evs1)" by fastforce
  then have "c1 k = (if k = x \<and> auto k then Some (auto_step now (Option.bind (map_of ws k) flapping) (c k)) else c k)"
    by (auto simp: evaluate_key_def Let_def split: if_splits)
  then show ?case using Cons(1) [of c1 evs1] Cons(2) by (auto simp: s)
qed simp

type_synonym auto_round = "time \<times> (string \<times> poolTimelineDTO) list \<times> (string \<Rightarrow> bool)"

definition auto_round :: "auto_round \<Rightarrow> autoClassifier \<Rightarrow> autoClassifier" where
  "auto_round = (\<lambda>(now, ws, auto) c. the (fst (auto_evaluate now ws auto (Some c))))"

definition auto_run :: "auto_round list \<Rightarrow> autoClassifier" where
  "auto_run rounds = fold auto_round rounds Map.empty"

lemma auto_round_key:
  assumes "distinct (map fst ws)" "auto k"
  shows "auto_round (now, ws, auto) c k = (case map_of ws k of None \<Rightarrow> c k | Some w \<Rightarrow> Some (auto_step now (flapping w) (c k)))"
proof -
  have "distinct (sort (map fst ws))" using assms(1) by simp
  note f = evaluate_fold [OF this, of now ws auto "\<lambda>k. if auto k then c k else None" "[]" k]
  have m: "k \<in> set (sort (map fst ws)) \<longleftrightarrow> map_of ws k \<noteq> None" by (simp add: map_of_eq_None_iff)
  have "auto_round (now, ws, auto) c k = fst (fold (evaluate_key now ws auto) (sort (map fst ws)) (\<lambda>k. if auto k then c k else None, [])) k"
    by (simp add: auto_round_def auto_evaluate_def split: prod.splits)
  then show ?thesis unfolding f m using assms(2) by (cases "map_of ws k") simp_all
qed

text \<open>The judgements of one pool: when, and whether it was flapping.\<close>

definition judgements :: "string \<Rightarrow> auto_round list \<Rightarrow> (time \<times> bool) list" where
  "judgements k rounds =
     List.map_filter (\<lambda>(now, ws, _). map_option (\<lambda>w. (now, flapping w \<noteq> None)) (map_of ws k)) rounds"

lemma judgements_snoc:
  "judgements k (rounds @ [(now, ws, auto)]) =
     judgements k rounds @ (case map_of ws k of None \<Rightarrow> [] | Some w \<Rightarrow> [(now, flapping w \<noteq> None)])"
  by (simp add: judgements_def map_filter_def split: option.split)

definition judged_agile :: "(time \<times> bool) list \<Rightarrow> bool" where
  "judged_agile h \<longleftrightarrow> (\<exists>t. (t, True) \<in> set h \<and> fst (last h) - t < autoCalm)"

definition auto_matches :: "autoState option \<Rightarrow> (time \<times> bool) list \<Rightarrow> bool" where
  "auto_matches sto h =
     (case sto of
        None \<Rightarrow> h = []
      | Some st \<Rightarrow> h \<noteq> [] \<and> (au_agile st \<longleftrightarrow> judged_agile h)
          \<and> (\<forall>t. (t, True) \<in> set h \<longrightarrow> t \<le> au_lastFlappy st \<and> (au_lastFlappy st, True) \<in> set h))"

lemma autoCalm_Sub: "autoCalm \<le> time_Sub now t \<longleftrightarrow> autoCalm \<le> now - t"
  by (rule time_Sub_ge) (simp_all add: autoCalm_def minute_def second_def)

lemma auto_step_matches:
  assumes "auto_matches sto h" "\<forall>x\<in>set h. fst x \<le> now"
  shows "auto_matches (Some (auto_step now why sto)) (h @ [(now, why \<noteq> None)])"
proof -
  have calm: "0 < autoCalm" by (simp add: autoCalm_def minute_def second_def)
  show ?thesis
  proof (cases why)
    case (Some w)
    have "judged_agile (h @ [(now, True)])" using calm by (auto simp: judged_agile_def)
    then show ?thesis using Some assms by (cases sto) (auto simp: auto_matches_def auto_step_def Let_def)
  next
    case None
    show ?thesis
    proof (cases sto)
      case None
      then show ?thesis using \<open>why = None\<close> assms by (simp add: auto_matches_def auto_step_def judged_agile_def)
    next
      case (Some st)
      then have h: "h \<noteq> []" "au_agile st \<longleftrightarrow> judged_agile h" "\<And>t. (t, True) \<in> set h \<Longrightarrow> t \<le> au_lastFlappy st \<and> (au_lastFlappy st, True) \<in> set h"
        using assms(1) by (simp_all add: auto_matches_def)
      have last: "fst (last h) \<le> now" using h(1) assms(2) last_in_set by blast
      have "judged_agile (h @ [(now, False)]) \<longleftrightarrow> au_agile st \<and> now - au_lastFlappy st < autoCalm"
      proof
        assume "judged_agile (h @ [(now, False)])"
        then obtain t where t: "(t, True) \<in> set h" "now - t < autoCalm" by (auto simp: judged_agile_def)
        then have "judged_agile h" using last unfolding judged_agile_def by (intro exI [of _ t]) simp
        then show "au_agile st \<and> now - au_lastFlappy st < autoCalm" using h(2) h(3) [OF t(1)] t(2) by simp
      next
        assume a: "au_agile st \<and> now - au_lastFlappy st < autoCalm"
        then obtain t where "(t, True) \<in> set h" using h(2) by (auto simp: judged_agile_def)
        then show "judged_agile (h @ [(now, False)])" using h(3) a by (auto simp: judged_agile_def)
      qed
      then show ?thesis using Some \<open>why = None\<close> h by (auto simp: auto_matches_def auto_step_def Let_def autoCalm_Sub not_le)
    qed
  qed
qed

lemma auto_run_matches:
  assumes "sorted (map fst rounds)" "\<forall>(now, ws, auto)\<in>set rounds. distinct (map fst ws) \<and> auto k"
  shows "auto_matches (auto_run rounds k) (judgements k rounds) \<and> set (map fst (judgements k rounds)) \<subseteq> set (map fst rounds)"
  using assms
proof (induction rounds rule: rev_induct)
  case (snoc r rounds)
  obtain now ws auto where r: "r = (now, ws, auto)" by (cases r)
  have ih: "auto_matches (auto_run rounds k) (judgements k rounds)" "set (map fst (judgements k rounds)) \<subseteq> set (map fst rounds)"
    using snoc by (auto simp: sorted_append)
  have "\<forall>x\<in>set (map fst rounds). x \<le> now" using snoc(2) by (auto simp: r sorted_append)
  then have "\<forall>x\<in>set (judgements k rounds). fst x \<le> now" using ih(2) by (metis image_eqI list.set_map subsetD)
  note step = auto_step_matches [OF ih(1) this]
  have "auto_run (rounds @ [r]) k = (case map_of ws k of None \<Rightarrow> auto_run rounds k | Some w \<Rightarrow> Some (auto_step now (flapping w) (auto_run rounds k)))"
    unfolding auto_run_def using snoc(3) by (simp add: r auto_round_key)
  then show ?case using ih step by (auto simp: r judgements_snoc split: option.split)
qed (simp add: auto_run_def judgements_def auto_matches_def map_filter_def)

text \<open>C34: The classifier implements its rule. While a pool stays on automatic and the clock does not go back, the pool is
  agile exactly when it was judged flapping within \<open>autoCalm\<close> before its latest judgement.\<close>

theorem auto_mode:
  assumes "sorted (map fst rounds)" "\<forall>(now, ws, auto)\<in>set rounds. distinct (map fst ws) \<and> auto k"
  shows "auto_agile k (Some (auto_run rounds)) \<longleftrightarrow> (\<exists>t. (t, True) \<in> set (judgements k rounds) \<and> fst (last (judgements k rounds)) - t < autoCalm)"
  using auto_run_matches [OF assms] by (auto simp: auto_agile_def auto_matches_def judged_agile_def split: option.splits)

definition lossy_window :: "nat \<Rightarrow> poolTimelineDTO" where
  "lossy_window n = (renderPool ''m'' [] [] Map.empty)\<lparr>pt_PickLosses := n\<rparr>"

theorem auto_mode_witness:
  "auto_agile ''k'' (Some (auto_run [(0, [(''k'', lossy_window 2)], \<lambda>_. True), (10 * minute, [(''k'', lossy_window 0)], \<lambda>_. True)]))
    \<and> \<not> auto_agile ''k'' (Some (auto_run [(0, [(''k'', lossy_window 2)], \<lambda>_. True), (30 * minute, [(''k'', lossy_window 0)], \<lambda>_. True)]))"
proof -
  have f: "flapping (lossy_window 2) \<noteq> None" "flapping (lossy_window 0) = None" by code_simp+
  let ?rs = "\<lambda>t. [(0, [(''k'', lossy_window 2)], \<lambda>_. True), (t, [(''k'', lossy_window 0)], \<lambda>_. True)] :: auto_round list"
  have j: "judgements ''k'' (?rs t) = [(0, True), (t, False)]" for t using f by (simp add: judgements_def List.map_filter_simps)
  have "auto_agile ''k'' (Some (auto_run (?rs t))) \<longleftrightarrow> t < autoCalm" if "0 \<le> t" for t
    using auto_mode [of "?rs t" "''k''"] that by (simp add: j)
  from this [of "10 * minute"] this [of "30 * minute"] show ?thesis by (simp add: autoCalm_def minute_def second_def)
qed

end
