(* ===== verification/Live_Apply.thy ===== *)
theory Live_Apply
  imports Xray_Config
begin

text \<open>
  \<open>daemon/xray_live.go\<close> and \<open>daemon/stalepath.go\<close>: how a changed configuration reaches the running
  xray process as API calls, which entries' paths a change touches, and the registry of open
  connections whose stalled members are closed afterwards. JSON is handled as values: \<open>canon\<close> is the
  text of a value with sorted keys, \<open>compact\<close> its text with the keys as they are, both of the JSON
  package. The API of xray is not code of the repository: \<open>xray_call\<close> states its documented effect,
  and an argument says which calls fail for other reasons. The file a document is handed over in
  is left out, and so is the decoder's tolerance of field names in another case: the generator
  writes them in lower case.
\<close>

section \<open>Configurations by their replaceable parts\<close>

record json_text =
  jt_canon :: "json \<Rightarrow> string"
  jt_compact :: "json \<Rightarrow> string"

record liveConfig =
  lc_fixed :: string
  lc_inbounds :: "(string \<times> string) list"
  lc_outbounds :: "(string \<times> string) list"
  lc_firstOut :: string
  lc_routing :: string

datatype live_error = LiveJSON string | LiveNotArray | LiveTag | LiveNoTag | LiveDuplicate string

text \<open>Decoding an element into a struct with a field for the tag.\<close>

definition decode_tag :: "json \<Rightarrow> string option" where
  "decode_tag it =
     (case it of
        JNull \<Rightarrow> Some []
      | JObj _ \<Rightarrow> (case obj_get it ''tag'' of JStr t \<Rightarrow> Some t | JNull \<Rightarrow> Some [] | _ \<Rightarrow> None)
      | _ \<Rightarrow> None)"

fun tagged_items :: "json_text \<Rightarrow> json list \<Rightarrow> (string \<times> string) list \<Rightarrow> live_error + (string \<times> string) list" where
  "tagged_items jt [] into = Inr into"
| "tagged_items jt (it # its) into =
     (case decode_tag it of
        None \<Rightarrow> Inl LiveTag
      | Some t \<Rightarrow>
          if t = [] then Inl LiveNoTag
          else if t \<in> fst ` set into then Inl (LiveDuplicate t)
          else tagged_items jt its (into @ [(t, jt_canon jt it)]))"

text \<open>\<open>taggedObjects\<close>: the tags with their objects, in array order. \<open>None\<close> is the absent field.\<close>

definition json_items :: "json option \<Rightarrow> live_error + json list" where
  "json_items raw =
     (case raw of None \<Rightarrow> Inr [] | Some JNull \<Rightarrow> Inr [] | Some (JArr its) \<Rightarrow> Inr its | Some _ \<Rightarrow> Inl LiveNotArray)"

definition taggedObjects :: "json_text \<Rightarrow> json option \<Rightarrow> live_error + (string \<times> string) list" where
  "taggedObjects jt raw = (case json_items raw of Inl e \<Rightarrow> Inl e | Inr its \<Rightarrow> tagged_items jt its [])"

definition top_field :: "json \<Rightarrow> string \<Rightarrow> json option" where
  "top_field doc k = (if has_key doc k then Some (obj_get doc k) else None)"

definition top_fixed :: "json \<Rightarrow> json" where
  "top_fixed doc = (case doc of JObj ms \<Rightarrow> JObj (filter (\<lambda>(k, _). k \<notin> {''inbounds'', ''outbounds'', ''routing''}) ms) | _ \<Rightarrow> JObj [])"

definition parseLiveConfig :: "json_codec \<Rightarrow> json_text \<Rightarrow> string \<Rightarrow> live_error + liveConfig" where
  "parseLiveConfig jc jt raw =
     (case unmarshal_map jc raw of
        Inl e \<Rightarrow> Inl (LiveJSON e)
      | Inr doc \<Rightarrow>
          (case taggedObjects jt (top_field doc ''inbounds'') of
             Inl e \<Rightarrow> Inl e
           | Inr ins \<Rightarrow>
               (case taggedObjects jt (top_field doc ''outbounds'') of
                  Inl e \<Rightarrow> Inl e
                | Inr outs \<Rightarrow>
                    Inr \<lparr>lc_fixed = jt_compact jt (top_fixed doc), lc_inbounds = ins, lc_outbounds = outs,
                         lc_firstOut = (case outs of [] \<Rightarrow> [] | (t, _) # _ \<Rightarrow> t),
                         lc_routing = (case top_field doc ''routing'' of None \<Rightarrow> [] | Some r \<Rightarrow> jt_canon jt r)\<rparr>)))"

section \<open>The plan\<close>

record livePlan =
  lp_restart :: bool
  lp_rmOut :: "string list"
  lp_addOut :: "string list"
  lp_rmIn :: "string list"
  lp_addIn :: "string list"
  lp_routing :: bool

definition no_plan :: livePlan where
  "no_plan = \<lparr>lp_restart = False, lp_rmOut = [], lp_addOut = [], lp_rmIn = [], lp_addIn = [], lp_routing = False\<rparr>"

definition plan_empty :: "livePlan \<Rightarrow> bool" where
  "plan_empty p \<longleftrightarrow> \<not> lp_restart p \<and> \<not> lp_routing p \<and> lp_rmOut p @ lp_addOut p @ lp_rmIn p @ lp_addIn p = []"

definition diffTagged :: "(string \<times> string) list \<Rightarrow> (string \<times> string) list \<Rightarrow> string list \<times> string list" where
  "diffTagged old want =
     (sort (map fst (filter (\<lambda>(t, x). map_of want t \<noteq> Some x) old)), sort (map fst (filter (\<lambda>(t, x). map_of old t \<noteq> Some x) want)))"

definition planLive :: "liveConfig \<Rightarrow> liveConfig \<Rightarrow> livePlan" where
  "planLive old want =
     (if lc_fixed old \<noteq> lc_fixed want \<or> lc_firstOut old \<noteq> lc_firstOut want then no_plan\<lparr>lp_restart := True\<rparr>
      else
        (let (rmOut, addOut) = diffTagged (lc_outbounds old) (lc_outbounds want);
             (rmIn, addIn) = diffTagged (lc_inbounds old) (lc_inbounds want)
         in \<lparr>lp_restart = False, lp_rmOut = rmOut, lp_addOut = addOut, lp_rmIn = rmIn, lp_addIn = addIn,
             lp_routing = (lc_routing old \<noteq> lc_routing want)\<rparr>))"

section \<open>The calls\<close>

datatype api_call = Rmo "string list" | Ado "(string \<times> string) list" | Rmi "string list" | Adi "(string \<times> string) list" | AdRules string

record xray_proc =
  xp_out :: "string \<rightharpoonup> string"
  xp_in :: "string \<rightharpoonup> string"
  xp_routing :: string

text \<open>The documented effect: handlers are removed and added by tag, a tag that is missing or taken is refused, and
  the rules are replaced as a whole.\<close>

definition remove_tags :: "string list \<Rightarrow> (string \<rightharpoonup> string) \<Rightarrow> (string \<rightharpoonup> string) option" where
  "remove_tags ts m = (if list_all (\<lambda>t. m t \<noteq> None) ts then Some (\<lambda>t. if t \<in> set ts then None else m t) else None)"

definition add_items :: "(string \<times> string) list \<Rightarrow> (string \<rightharpoonup> string) \<Rightarrow> (string \<rightharpoonup> string) option" where
  "add_items its m = (if distinct (map fst its) \<and> list_all (\<lambda>(t, _). m t = None) its then Some (m ++ map_of its) else None)"

fun xray_call :: "api_call \<Rightarrow> xray_proc \<Rightarrow> xray_proc option" where
  "xray_call (Rmo ts) s = map_option (\<lambda>m. s\<lparr>xp_out := m\<rparr>) (remove_tags ts (xp_out s))"
| "xray_call (Ado its) s = map_option (\<lambda>m. s\<lparr>xp_out := m\<rparr>) (add_items its (xp_out s))"
| "xray_call (Rmi ts) s = map_option (\<lambda>m. s\<lparr>xp_in := m\<rparr>) (remove_tags ts (xp_in s))"
| "xray_call (Adi its) s = map_option (\<lambda>m. s\<lparr>xp_in := m\<rparr>) (add_items its (xp_in s))"
| "xray_call (AdRules r) s = Some (s\<lparr>xp_routing := r\<rparr>)"

text \<open>\<open>pick\<close>: the elements of the wanted configuration with one of the tags.\<close>

definition live_pick :: "json_text \<Rightarrow> json list \<Rightarrow> string list \<Rightarrow> (string \<times> string) list" where
  "live_pick jt items tags =
     concat (map (\<lambda>it. case decode_tag it of Some t \<Rightarrow> if t \<in> set tags then [(t, jt_canon jt it)] else [] | None \<Rightarrow> []) items)"

definition intersect :: "string list \<Rightarrow> string list \<Rightarrow> string list" where "intersect xs set1 = filter (\<lambda>x. x \<in> set set1) xs"

definition minus_list :: "string list \<Rightarrow> string list \<Rightarrow> string list" where "minus_list xs set1 = filter (\<lambda>x. x \<notin> set set1) xs"

text \<open>The calls of \<open>applyLiveLocked\<close> in their order; a call with nothing to do is not made.\<close>

definition live_calls :: "json_text \<Rightarrow> livePlan \<Rightarrow> json list \<Rightarrow> json list \<Rightarrow> string \<Rightarrow> api_call list" where
  "live_calls jt p ins outs routing =
     (let changedOut = intersect (lp_rmOut p) (lp_addOut p); changedIn = intersect (lp_rmIn p) (lp_addIn p);
          goneIn = minus_list (lp_rmIn p) (lp_addIn p); goneOut = minus_list (lp_rmOut p) (lp_addOut p)
      in (if changedOut \<noteq> [] then [Rmo changedOut] else [])
       @ (if lp_addOut p \<noteq> [] then [Ado (live_pick jt outs (lp_addOut p))] else [])
       @ (if changedIn \<noteq> [] then [Rmi changedIn] else [])
       @ (if lp_addIn p \<noteq> [] then [Adi (live_pick jt ins (lp_addIn p))] else [])
       @ (if lp_routing p then [AdRules routing] else [])
       @ (if goneIn \<noteq> [] then [Rmi goneIn] else [])
       @ (if goneOut \<noteq> [] then [Rmo goneOut] else []))"

text \<open>One call after the other until one fails; \<open>fault i\<close> says that call \<open>i\<close> fails for a reason of its own.\<close>

fun run_calls :: "(nat \<Rightarrow> bool) \<Rightarrow> nat \<Rightarrow> api_call list \<Rightarrow> xray_proc \<Rightarrow> nat + xray_proc" where
  "run_calls fault i [] s = Inr s"
| "run_calls fault i (c # cs) s =
     (if fault i then Inl i else case xray_call c s of None \<Rightarrow> Inl i | Some s' \<Rightarrow> run_calls fault (Suc i) cs s')"

definition applyLive :: "json_codec \<Rightarrow> json_text \<Rightarrow> (nat \<Rightarrow> bool) \<Rightarrow> livePlan \<Rightarrow> string \<Rightarrow> xray_proc \<Rightarrow> (live_error + nat) + xray_proc" where
  "applyLive jc jt fault p want s =
     (case unmarshal_map jc want of
        Inl e \<Rightarrow> Inl (Inl (LiveJSON e))
      | Inr doc \<Rightarrow>
          (case (json_items (top_field doc ''inbounds''), json_items (top_field doc ''outbounds'')) of
             (Inr ins, Inr outs) \<Rightarrow>
               (case run_calls fault 0 (live_calls jt p ins outs (case top_field doc ''routing'' of None \<Rightarrow> [] | Some r \<Rightarrow> jt_canon jt r)) s of
                  Inl i \<Rightarrow> Inl (Inr i) | Inr s' \<Rightarrow> Inr s')
           | _ \<Rightarrow> Inl (Inl LiveNotArray)))"

section \<open>Entries whose path a plan changes\<close>

definition slotIndexOf :: "string \<Rightarrow> int option" where
  "slotIndexOf tag =
     (case Cut (TrimPrefix tag ''slot'') CHR ''-'' of
        None \<Rightarrow> None
      | Some (num, rest) \<Rightarrow> if HasPrefix rest ''out-'' then Atoi num else None)"

definition tag_entry :: "string \<Rightarrow> string option" where
  "tag_entry tag =
     (if HasPrefix tag ''out-'' then Some (TrimPrefix tag ''out-'')
      else if HasPrefix tag ''in-'' then Some (TrimPrefix tag ''in-'')
      else if HasPrefix tag ''dialer-'' then Some (TrimPrefix tag ''dialer-'')
      else None)"

definition tag_slot :: "string \<Rightarrow> int option" where
  "tag_slot tag = (if tag_entry tag = None \<and> HasPrefix tag ''slot'' then slotIndexOf tag else None)"

definition changedPathEntries :: "livePlan \<Rightarrow> DialerSlot list \<Rightarrow> string set" where
  "changedPathEntries p oldSlots =
     (let tags = lp_rmOut p @ lp_rmIn p;
          slotHit = List.map_filter tag_slot tags
      in set (map InternalProxyName (List.map_filter tag_entry tags
           @ concat (map SlotMasters (filter (\<lambda>s. int (sl_Index s) \<in> set slotHit) oldSlots)))))"

section \<open>One section of the configuration\<close>

lemma tagged_items_spec:
  "tagged_items jt its into = Inr res \<Longrightarrow> distinct (map fst into) \<Longrightarrow>
    distinct (map fst res) \<and> (\<forall>it\<in>set its. decode_tag it \<noteq> None) \<and> res = into @ map (\<lambda>it. (the (decode_tag it), jt_canon jt it)) its"
proof (induction its arbitrary: into)
  case (Cons it its)
  then obtain t where t: "decode_tag it = Some t" "t \<notin> fst ` set into" "tagged_items jt its (into @ [(t, jt_canon jt it)]) = Inr res"
    by (auto split: option.splits if_splits)
  have "distinct (map fst (into @ [(t, jt_canon jt it)]))" using t(2) Cons(3) by simp
  note ih = Cons(1) [OF t(3) this]
  have "res = into @ map (\<lambda>it. (the (decode_tag it), jt_canon jt it)) (it # its)" using ih by (simp add: t(1))
  moreover have "\<forall>it\<in>set (it # its). decode_tag it \<noteq> None" using ih by (simp add: t(1))
  ultimately show ?case using ih by blast
qed simp

lemma pick_filter:
  assumes "tagged_items jt its [] = Inr res"
  shows "live_pick jt its tags = filter (\<lambda>(t, _). t \<in> set tags) res"
proof -
  have d: "\<forall>it\<in>set its. decode_tag it \<noteq> None" and res: "res = map (\<lambda>it. (the (decode_tag it), jt_canon jt it)) its"
    using tagged_items_spec [OF assms] by simp_all
  show ?thesis unfolding res live_pick_def using d by (induction its) (auto split: option.splits)
qed

lemma diff_sets:
  assumes "distinct (map fst old)" "distinct (map fst want)" "diffTagged old want = (rm, add)"
  shows "t \<in> set rm \<longleftrightarrow> map_of old t \<noteq> None \<and> map_of want t \<noteq> map_of old t" "t \<in> set add \<longleftrightarrow> map_of want t \<noteq> None \<and> map_of want t \<noteq> map_of old t"
proof -
  have o: "(t, x) \<in> set old \<longleftrightarrow> map_of old t = Some x" and w: "(t, x) \<in> set want \<longleftrightarrow> map_of want t = Some x" for x
    using assms(1,2) by (simp_all add: map_of_eq_Some_iff)
  have "t \<in> set rm \<longleftrightarrow> (\<exists>x. (t, x) \<in> set old \<and> map_of want t \<noteq> Some x)" using assms(3) unfolding diffTagged_def by (force simp: image_iff)
  then show "t \<in> set rm \<longleftrightarrow> map_of old t \<noteq> None \<and> map_of want t \<noteq> map_of old t" unfolding o by auto
  have "t \<in> set add \<longleftrightarrow> (\<exists>x. (t, x) \<in> set want \<and> map_of old t \<noteq> Some x)" using assms(3) unfolding diffTagged_def by (force simp: image_iff)
  then show "t \<in> set add \<longleftrightarrow> map_of want t \<noteq> None \<and> map_of want t \<noteq> map_of old t" unfolding w by auto
qed

lemma map_of_filter_tags: "map_of (filter (\<lambda>(t, _). t \<in> T) xs) t = (if t \<in> T then map_of xs t else None)"
  by (induction xs) auto

text \<open>Removing what changed, adding what is new or changed, and later removing what is gone is never refused and
  leads from the old objects to the wanted ones.\<close>

lemma section_converges:
  assumes "distinct (map fst old)" "distinct (map fst want)" "diffTagged old want = (rm, add)"
  defines "m1 \<equiv> \<lambda>t. if t \<in> set rm \<and> t \<in> set add then None else map_of old t"
    and "m2 \<equiv> \<lambda>t. if t \<in> set add then map_of want t else map_of old t"
  shows "remove_tags (intersect rm add) (map_of old) = Some m1"
    and "add_items (filter (\<lambda>(t, _). t \<in> set add) want) m1 = Some m2"
    and "remove_tags (minus_list rm add) m2 = Some (map_of want)"
proof -
  note ds = diff_sets [OF assms(1-3)]
  show "remove_tags (intersect rm add) (map_of old) = Some m1"
    using ds by (auto simp: remove_tags_def intersect_def m1_def list_all_iff)
  have "list_all (\<lambda>(t, _). m1 t = None) (filter (\<lambda>(t, _). t \<in> set add) want)"
    using ds by (fastforce simp: list_all_iff m1_def)
  moreover have "distinct (map fst (filter (\<lambda>(t, _). t \<in> set add) want))" using assms(2) by (simp add: distinct_map_filter)
  moreover have "m1 ++ map_of (filter (\<lambda>(t, _). t \<in> set add) want) = m2"
  proof
    fix t
    show "(m1 ++ map_of (filter (\<lambda>(t, _). t \<in> set add) want)) t = m2 t"
      using ds(2) [of t] by (auto simp: map_add_def map_of_filter_tags m1_def m2_def split: option.split)
  qed
  ultimately show "add_items (filter (\<lambda>(t, _). t \<in> set add) want) m1 = Some m2" by (simp add: add_items_def)
  have "m2 t \<noteq> None" if "t \<in> set (minus_list rm add)" for t using that ds(1) by (auto simp: minus_list_def m2_def)
  moreover have "(\<lambda>t. if t \<in> set (minus_list rm add) then None else m2 t) = map_of want"
  proof
    fix t
    show "(if t \<in> set (minus_list rm add) then None else m2 t) = map_of want t"
      using ds(1) [of t] ds(2) [of t] by (auto simp: minus_list_def m2_def)
  qed
  ultimately show "remove_tags (minus_list rm add) m2 = Some (map_of want)" by (simp add: remove_tags_def list_all_iff)
qed

section \<open>Sequences of calls\<close>

fun do_calls :: "api_call list \<Rightarrow> xray_proc \<Rightarrow> xray_proc option" where
  "do_calls [] s = Some s"
| "do_calls (c # cs) s = Option.bind (xray_call c s) (do_calls cs)"

lemma do_calls_append: "do_calls (xs @ ys) s = Option.bind (do_calls xs s) (do_calls ys)"
  by (induction xs arbitrary: s) (auto split: bind_splits)

lemma run_do: "case run_calls fault i cs s of Inr s' \<Rightarrow> do_calls cs s = Some s' | Inl j \<Rightarrow> fault j \<or> do_calls cs s = None"
  by (induction fault i cs s rule: run_calls.induct) (auto split: option.splits sum.splits)

lemma call_nothing: "do_calls (if ts \<noteq> [] then [Rmo ts] else []) s = xray_call (Rmo ts) s" "do_calls (if ts \<noteq> [] then [Rmi ts] else []) s = xray_call (Rmi ts) s"
  by (cases s; auto simp: remove_tags_def split: bind_splits)+

definition loaded :: "liveConfig \<Rightarrow> xray_proc" where
  "loaded lc = \<lparr>xp_out = map_of (lc_outbounds lc), xp_in = map_of (lc_inbounds lc), xp_routing = lc_routing lc\<rparr>"

lemma parse_items:
  assumes "parseLiveConfig jc jt raw = Inr lc"
  obtains doc ins outs where "unmarshal_map jc raw = Inr doc"
    "json_items (top_field doc ''inbounds'') = Inr ins" "tagged_items jt ins [] = Inr (lc_inbounds lc)"
    "json_items (top_field doc ''outbounds'') = Inr outs" "tagged_items jt outs [] = Inr (lc_outbounds lc)"
    "lc_routing lc = (case top_field doc ''routing'' of None \<Rightarrow> [] | Some r \<Rightarrow> jt_canon jt r)"
  using assms by (auto simp: parseLiveConfig_def taggedObjects_def split: sum.splits)

lemma parsed_distinct: "tagged_items jt its [] = Inr res \<Longrightarrow> distinct (map fst res)"
  by (rule conjunct1 [OF tagged_items_spec]) (assumption, simp)

lemma pick_empty: "tagged_items jt its [] = Inr res \<Longrightarrow> live_pick jt its [] = []"
  by (simp add: pick_filter)

lemma calls_converge:
  assumes "tagged_items jt ins [] = Inr (lc_inbounds want)" "tagged_items jt outs [] = Inr (lc_outbounds want)"
    and "distinct (map fst (lc_inbounds old))" "distinct (map fst (lc_outbounds old))" "\<not> lp_restart (planLive old want)"
  shows "do_calls (live_calls jt (planLive old want) ins outs (lc_routing want)) (loaded old) = Some (loaded want)"
proof -
  obtain ro ao ri ai where d: "diffTagged (lc_outbounds old) (lc_outbounds want) = (ro, ao)" "diffTagged (lc_inbounds old) (lc_inbounds want) = (ri, ai)" by fastforce
  have p: "planLive old want = \<lparr>lp_restart = False, lp_rmOut = ro, lp_addOut = ao, lp_rmIn = ri, lp_addIn = ai, lp_routing = (lc_routing old \<noteq> lc_routing want)\<rparr>"
    using assms(5) by (auto simp: planLive_def d split: if_splits)
  note o = section_converges [OF assms(4) parsed_distinct [OF assms(2)] d(1)] and i = section_converges [OF assms(3) parsed_distinct [OF assms(1)] d(2)]
  have ado: "do_calls (if ao \<noteq> [] then [Ado (live_pick jt outs ao)] else []) s = xray_call (Ado (live_pick jt outs ao)) s"
    and adi: "do_calls (if ai \<noteq> [] then [Adi (live_pick jt ins ai)] else []) s = xray_call (Adi (live_pick jt ins ai)) s"
    and adr: "do_calls (if lc_routing old \<noteq> lc_routing want then [AdRules (lc_routing want)] else []) (s\<lparr>xp_routing := lc_routing old\<rparr>) = Some (s\<lparr>xp_routing := lc_routing want\<rparr>)" for s
    using pick_empty [OF assms(1)] pick_empty [OF assms(2)] by (cases s; auto simp: add_items_def split: bind_splits)+
  show ?thesis
    unfolding live_calls_def p Let_def livePlan.simps do_calls_append call_nothing ado adi
    unfolding pick_filter [OF assms(1)] pick_filter [OF assms(2)] loaded_def xray_call.simps
    using o i adr [of "\<lparr>xp_out = _, xp_in = _, xp_routing = lc_routing old\<rparr>"] by simp
qed

section \<open>What a plan leaves alone\<close>

fun out_tags :: "api_call \<Rightarrow> string set" where
  "out_tags (Rmo ts) = set ts" | "out_tags (Ado its) = fst ` set its" | "out_tags _ = {}"

fun in_tags :: "api_call \<Rightarrow> string set" where
  "in_tags (Rmi ts) = set ts" | "in_tags (Adi its) = fst ` set its" | "in_tags _ = {}"

lemma remove_frame: "remove_tags ts m = Some m' \<Longrightarrow> t \<notin> set ts \<Longrightarrow> m' t = m t"
  by (auto simp: remove_tags_def split: if_splits)

lemma add_frame: "add_items its m = Some m' \<Longrightarrow> t \<notin> fst ` set its \<Longrightarrow> m' t = m t"
proof -
  assume "add_items its m = Some m'" and t: "t \<notin> fst ` set its"
  then have "m' = m ++ map_of its" by (simp add: add_items_def split: if_splits)
  moreover have "map_of its t = None" using t by (simp add: map_of_eq_None_iff)
  ultimately show "m' t = m t" by (simp add: map_add_def)
qed

lemma call_frame:
  assumes "xray_call c s = Some s'"
  shows "t \<notin> out_tags c \<Longrightarrow> xp_out s' t = xp_out s t" "t \<notin> in_tags c \<Longrightarrow> xp_in s' t = xp_in s t"
  using assms by (cases c; auto dest: remove_frame add_frame)+

lemma calls_frame:
  "do_calls cs s = Some s' \<Longrightarrow> \<forall>c\<in>set cs. t \<notin> out_tags c \<Longrightarrow> xp_out s' t = xp_out s t"
  "do_calls cs s = Some s' \<Longrightarrow> \<forall>c\<in>set cs. t \<notin> in_tags c \<Longrightarrow> xp_in s' t = xp_in s t"
  by (induction cs arbitrary: s) (auto simp: call_frame split: bind_splits)

lemma pick_tags: "(t, x) \<in> set (live_pick jt its tags) \<Longrightarrow> t \<in> set tags"
  by (auto simp: live_pick_def split: option.splits if_splits)

lemma live_calls_tags:
  assumes "c \<in> set (live_calls jt p ins outs routing)"
  shows "out_tags c \<subseteq> set (lp_rmOut p) \<union> set (lp_addOut p)" "in_tags c \<subseteq> set (lp_rmIn p) \<union> set (lp_addIn p)"
  using assms pick_tags [of _ _ jt outs "lp_addOut p"] pick_tags [of _ _ jt ins "lp_addIn p"]
  by (auto simp: live_calls_def Let_def intersect_def minus_list_def split: if_splits)

lemma plan_keeps:
  assumes "distinct (map fst (lc_outbounds old))" "distinct (map fst (lc_outbounds want))" "distinct (map fst (lc_inbounds old))" "distinct (map fst (lc_inbounds want))"
  shows "map_of (lc_outbounds old) t \<noteq> None \<Longrightarrow> t \<notin> set (lp_rmOut (planLive old want)) \<Longrightarrow> t \<notin> set (lp_addOut (planLive old want))"
    and "map_of (lc_inbounds old) t \<noteq> None \<Longrightarrow> t \<notin> set (lp_rmIn (planLive old want)) \<Longrightarrow> t \<notin> set (lp_addIn (planLive old want))"
proof -
  obtain ro ao ri ai where d: "diffTagged (lc_outbounds old) (lc_outbounds want) = (ro, ao)" "diffTagged (lc_inbounds old) (lc_inbounds want) = (ri, ai)" by fastforce
  note ds = diff_sets [OF assms(1,2) d(1)] diff_sets [OF assms(3,4) d(2)]
  show "map_of (lc_outbounds old) t \<noteq> None \<Longrightarrow> t \<notin> set (lp_rmOut (planLive old want)) \<Longrightarrow> t \<notin> set (lp_addOut (planLive old want))"
    "map_of (lc_inbounds old) t \<noteq> None \<Longrightarrow> t \<notin> set (lp_rmIn (planLive old want)) \<Longrightarrow> t \<notin> set (lp_addIn (planLive old want))"
    using ds by (auto simp: planLive_def d no_plan_def split: if_splits)
qed

lemma untouched_tags:
  assumes "distinct (map fst (lc_outbounds old))" "distinct (map fst (lc_outbounds want))" "distinct (map fst (lc_inbounds old))" "distinct (map fst (lc_inbounds want))"
    and "prefix cs (live_calls jt (planLive old want) ins outs routing)" "do_calls cs (loaded old) = Some s"
  shows "map_of (lc_outbounds old) t \<noteq> None \<Longrightarrow> t \<notin> set (lp_rmOut (planLive old want)) \<Longrightarrow> xp_out s t = map_of (lc_outbounds old) t"
    and "map_of (lc_inbounds old) t \<noteq> None \<Longrightarrow> t \<notin> set (lp_rmIn (planLive old want)) \<Longrightarrow> xp_in s t = map_of (lc_inbounds old) t"
proof -
  have sub: "c \<in> set (live_calls jt (planLive old want) ins outs routing)" if "c \<in> set cs" for c using assms(5) that by (auto simp: prefix_def)
  show "xp_out s t = map_of (lc_outbounds old) t" if "map_of (lc_outbounds old) t \<noteq> None" "t \<notin> set (lp_rmOut (planLive old want))"
    using calls_frame(1) [OF assms(6), of t] live_calls_tags(1) [OF sub] plan_keeps(1) [OF assms(1-4) that] that(2) by (fastforce simp: loaded_def)
  show "xp_in s t = map_of (lc_inbounds old) t" if "map_of (lc_inbounds old) t \<noteq> None" "t \<notin> set (lp_rmIn (planLive old want))"
    using calls_frame(2) [OF assms(6), of t] live_calls_tags(2) [OF sub] plan_keeps(2) [OF assms(1-4) that] that(2) by (fastforce simp: loaded_def)
qed

lemma tag_entries: "tag_entry (OutboundTag e) = Some (normalizeName e)" "tag_entry (InboundTag e) = Some (normalizeName e)" "tag_entry (DialerOutboundTag e) = Some (normalizeName e)"
  by (simp_all add: tag_entry_def OutboundTag_def InboundTag_def DialerOutboundTag_def TrimPrefix_def)

lemma Atoi_dec: "i < 2 ^ 63 \<Longrightarrow> Atoi (dec i) = Some (int i)"
proof -
  assume "i < 2 ^ 63"
  moreover have "\<not> HasPrefix (dec i) ''-''" "\<not> HasPrefix (dec i) ''+''"
    using dec_digits [of "CHR ''-''" i] dec_digits [of "CHR ''+''" i] by (cases "dec i"; auto simp: is_digit_def in_range_def ord_def)+
  ultimately show ?thesis using dec_digits [of _ i] dec_ne [of i] by (simp add: Atoi_def Let_def list_all_iff)
qed

lemma tag_slot_member: "i < 2 ^ 63 \<Longrightarrow> tag_slot (SlotMemberTag i k) = Some (int i)"
proof -
  assume i: "i < 2 ^ 63"
  have "CHR ''-'' \<notin> set (dec i)" using dec_digits [of _ i] not_digits(1) by blast
  then have "Cut (dec i @ CHR ''-'' # ''out-'' @ sanitizeTag k) CHR ''-'' = Some (dec i, ''out-'' @ sanitizeTag k)" by (rule Cut_append)
  moreover have "SlotMemberTag i k = ''slot'' @ dec i @ CHR ''-'' # ''out-'' @ sanitizeTag k" by (simp add: SlotMemberTag_def SlotOutboundPrefix_def)
  moreover have "tag_entry (SlotMemberTag i k) = None" by (simp add: tag_entry_def SlotMemberTag_def SlotOutboundPrefix_def)
  ultimately show ?thesis using Atoi_dec [OF i] by (simp add: tag_slot_def slotIndexOf_def TrimPrefix_def)
qed

lemma set_map_filter_iff: "y \<in> set (List.map_filter f xs) \<longleftrightarrow> (\<exists>x\<in>set xs. f x = Some y)"
  by (induction xs) (auto simp: List.map_filter_simps split: option.split)

lemma changed_by_entry:
  assumes "t \<in> set (lp_rmOut p @ lp_rmIn p)" "tag_entry t = Some (normalizeName e)"
  shows "InternalProxyName e \<in> changedPathEntries p slots"
proof -
  have "normalizeName e \<in> set (List.map_filter tag_entry (lp_rmOut p @ lp_rmIn p))" unfolding set_map_filter_iff using assms by blast
  then have "InternalProxyName (normalizeName e) \<in> changedPathEntries p slots" unfolding changedPathEntries_def Let_def set_map set_append by blast
  then show ?thesis by (simp add: InternalProxyName_def normalizeName_idem)
qed

lemma changed_by_slot:
  assumes "t \<in> set (lp_rmOut p @ lp_rmIn p)" "tag_slot t = Some (int (sl_Index sl))" "sl \<in> set slots" "e \<in> set (SlotMasters sl)"
  shows "InternalProxyName e \<in> changedPathEntries p slots"
proof -
  have "int (sl_Index sl) \<in> set (List.map_filter tag_slot (lp_rmOut p @ lp_rmIn p))" unfolding set_map_filter_iff using assms by blast
  then have "e \<in> set (concat (map SlotMasters (filter (\<lambda>s. int (sl_Index s) \<in> set (List.map_filter tag_slot (lp_rmOut p @ lp_rmIn p))) slots)))"
    using assms(3,4) by auto
  then show ?thesis unfolding changedPathEntries_def Let_def set_map set_append by blast
qed

section \<open>Properties\<close>

text \<open>C35: Applying a plan brings the running process to the wanted configuration. Starting from the process that runs the
  old configuration, and unless a call fails for a reason of its own, no call is refused and the process ends
  with exactly the inbounds, outbounds and routing of a fresh start with the wanted configuration; when such a
  call fails, that is reported.\<close>

theorem live_converges:
  assumes "parseLiveConfig jc jt oldRaw = Inr old" "parseLiveConfig jc jt wantRaw = Inr want" "\<not> lp_restart (planLive old want)"
  shows "case applyLive jc jt fault (planLive old want) wantRaw (loaded old) of
      Inr s \<Rightarrow> s = loaded want | Inl (Inr i) \<Rightarrow> fault i | Inl (Inl _) \<Rightarrow> False"
proof -
  obtain doc0 ins0 outs0 where o: "tagged_items jt ins0 [] = Inr (lc_inbounds old)" "tagged_items jt outs0 [] = Inr (lc_outbounds old)"
    by (rule parse_items [OF assms(1)])
  obtain doc ins outs where w: "unmarshal_map jc wantRaw = Inr doc"
    "json_items (top_field doc ''inbounds'') = Inr ins" "tagged_items jt ins [] = Inr (lc_inbounds want)"
    "json_items (top_field doc ''outbounds'') = Inr outs" "tagged_items jt outs [] = Inr (lc_outbounds want)"
    "lc_routing want = (case top_field doc ''routing'' of None \<Rightarrow> [] | Some r \<Rightarrow> jt_canon jt r)"
    by (rule parse_items [OF assms(2)])
  note c = calls_converge [OF w(3,5) parsed_distinct [OF o(1)] parsed_distinct [OF o(2)] assms(3)]
  have "applyLive jc jt fault (planLive old want) wantRaw (loaded old) =
      (case run_calls fault 0 (live_calls jt (planLive old want) ins outs (lc_routing want)) (loaded old) of Inl i \<Rightarrow> Inl (Inr i) | Inr s' \<Rightarrow> Inr s')"
    unfolding applyLive_def w(1,2,4) w(6) [symmetric] sum.case prod.case by (simp add: w(2,4,6) [symmetric])
  then show ?thesis using run_do [where fault = fault and i = 0 and cs = "live_calls jt (planLive old want) ins outs (lc_routing want)" and s = "loaded old"] c by (auto split: sum.splits)
qed

text \<open>C36: What did not change is never touched. At every moment of applying a plan, an entry that
  \<open>changedPathEntries\<close> does not name keeps its inbound, its outbound, its dialer outbound and, as a master of a
  slot, every member of the slot, exactly as they were.\<close>

theorem untouched_entries:
  assumes "parseLiveConfig jc jt oldRaw = Inr old" "parseLiveConfig jc jt wantRaw = Inr want"
    and "prefix cs (live_calls jt (planLive old want) ins outs routing)" "do_calls cs (loaded old) = Some s"
    and "InternalProxyName e \<notin> changedPathEntries (planLive old want) slots" "\<forall>sl\<in>set slots. sl_Index sl < 2 ^ 63"
  shows "(\<forall>t\<in>{OutboundTag e, DialerOutboundTag e} \<union> {SlotMemberTag (sl_Index sl) k |sl k. sl \<in> set slots \<and> e \<in> set (SlotMasters sl)}.
            map_of (lc_outbounds old) t \<noteq> None \<longrightarrow> xp_out s t = map_of (lc_outbounds old) t)
    \<and> (map_of (lc_inbounds old) (InboundTag e) \<noteq> None \<longrightarrow> xp_in s (InboundTag e) = map_of (lc_inbounds old) (InboundTag e))"
proof -
  let ?p = "planLive old want"
  obtain doc0 ins0 outs0 where o: "tagged_items jt ins0 [] = Inr (lc_inbounds old)" "tagged_items jt outs0 [] = Inr (lc_outbounds old)"
    by (rule parse_items [OF assms(1)])
  obtain doc1 ins1 outs1 where w: "tagged_items jt ins1 [] = Inr (lc_inbounds want)" "tagged_items jt outs1 [] = Inr (lc_outbounds want)"
    by (rule parse_items [OF assms(2)])
  note keep = untouched_tags [OF parsed_distinct [OF o(2)] parsed_distinct [OF w(2)] parsed_distinct [OF o(1)] parsed_distinct [OF w(1)] assms(3,4)]
  have entry: "t \<notin> set (lp_rmOut ?p) \<and> t \<notin> set (lp_rmIn ?p)" if "tag_entry t = Some (normalizeName e)" for t
    using changed_by_entry [of t ?p e slots] that assms(5) by auto
  have slot: "SlotMemberTag (sl_Index sl) k \<notin> set (lp_rmOut ?p)" if "sl \<in> set slots" "e \<in> set (SlotMasters sl)" for sl k
    using changed_by_slot [of "SlotMemberTag (sl_Index sl) k" ?p sl slots e] tag_slot_member [of "sl_Index sl" k] that assms(5,6) by auto
  have "t \<notin> set (lp_rmOut ?p)" if "t \<in> {OutboundTag e, DialerOutboundTag e} \<union> {SlotMemberTag (sl_Index sl) k |sl k. sl \<in> set slots \<and> e \<in> set (SlotMasters sl)}" for t
    using that entry tag_entries(1,3) slot by blast
  then show ?thesis using keep entry [OF tag_entries(2)] by blast
qed

section \<open>Examples\<close>

definition live_obj :: "string \<Rightarrow> string \<Rightarrow> json" where
  "live_obj t v = JObj [(''tag'', JStr t), (''v'', JStr v)]"

definition live_doc :: "string \<Rightarrow> json" where
  "live_doc raw =
     (if raw = ''old'' then JObj [(''inbounds'', JArr [live_obj ''in-tokyo'' ''1'', live_obj ''in-paris'' ''1'']),
        (''outbounds'', JArr [live_obj ''block'' [], live_obj ''out-tokyo'' ''1'', live_obj ''out-paris'' ''1'']), (''routing'', JStr ''r1'')]
      else JObj [(''inbounds'', JArr [live_obj ''in-tokyo'' ''1'', live_obj ''in-rome'' ''1'']),
        (''outbounds'', JArr [live_obj ''block'' [], live_obj ''out-rome'' ''1'', live_obj ''out-tokyo'' ''1'']), (''routing'', JStr ''r2'')])"

definition live_codec :: json_codec where
  "live_codec = \<lparr>jc_Unmarshal = (\<lambda>raw. Inr (live_doc raw)), jc_MarshalIndent = (\<lambda>_. Inr [])\<rparr>"

definition live_text :: json_text where
  "live_text = \<lparr>jt_canon = (\<lambda>j. as_string j @ as_string (obj_get j ''tag'') @ as_string (obj_get j ''v'')), jt_compact = (\<lambda>_. [])\<rparr>"

definition live_of :: "string \<Rightarrow> liveConfig" where
  "live_of raw = (case parseLiveConfig live_codec live_text raw of Inr lc \<Rightarrow> lc | Inl _ \<Rightarrow> undefined)"

lemma live_parses: "parseLiveConfig live_codec live_text ''old'' = Inr (live_of ''old'')" "parseLiveConfig live_codec live_text ''new'' = Inr (live_of ''new'')"
proof -
  have "case parseLiveConfig live_codec live_text ''old'' of Inr _ \<Rightarrow> True | Inl _ \<Rightarrow> False"
    "case parseLiveConfig live_codec live_text ''new'' of Inr _ \<Rightarrow> True | Inl _ \<Rightarrow> False" by code_simp+
  then show "parseLiveConfig live_codec live_text ''old'' = Inr (live_of ''old'')" "parseLiveConfig live_codec live_text ''new'' = Inr (live_of ''new'')"
    by (auto simp: live_of_def split: sum.splits)
qed

lemma live_plan_example:
  "planLive (live_of ''old'') (live_of ''new'') =
     \<lparr>lp_restart = False, lp_rmOut = [''out-paris''], lp_addOut = [''out-rome''], lp_rmIn = [''in-paris''], lp_addIn = [''in-rome''], lp_routing = True\<rparr>"
  by code_simp

theorem live_converges_witness:
  "case applyLive live_codec live_text (\<lambda>_. False) (planLive (live_of ''old'') (live_of ''new'')) ''new'' (loaded (live_of ''old'')) of
      Inr s \<Rightarrow> s = loaded (live_of ''new'') | Inl _ \<Rightarrow> False"
proof -
  have "\<not> lp_restart (planLive (live_of ''old'') (live_of ''new''))" by (simp add: live_plan_example)
  from live_converges [OF live_parses this, of "\<lambda>_. False"] show ?thesis by (auto split: sum.splits)
qed

theorem untouched_entries_witness:
  "InternalProxyName ''tokyo'' \<notin> changedPathEntries (planLive (live_of ''old'') (live_of ''new'')) []
    \<and> (\<exists>s. do_calls [Ado [(''out-rome'', ''out-rome1'')]] (loaded (live_of ''old'')) = Some s \<and> xp_out s ''out-tokyo'' = Some ''out-tokyo1'')"
proof -
  have "case do_calls [Ado [(''out-rome'', ''out-rome1'')]] (loaded (live_of ''old'')) of Some _ \<Rightarrow> True | None \<Rightarrow> False" by code_simp
  then obtain s where s: "do_calls [Ado [(''out-rome'', ''out-rome1'')]] (loaded (live_of ''old'')) = Some s" by (auto split: option.splits)
  have c: "InternalProxyName ''tokyo'' \<notin> changedPathEntries (planLive (live_of ''old'') (live_of ''new'')) []" unfolding live_plan_example by code_simp
  have p: "prefix [Ado [(''out-rome'', ''out-rome1'')]] (live_calls live_text (planLive (live_of ''old'') (live_of ''new'')) [] [live_obj ''out-rome'' ''1''] [])"
    unfolding live_plan_example by code_simp
  have t: "OutboundTag ''tokyo'' = ''out-tokyo''" by code_simp
  have o: "map_of (lc_outbounds (live_of ''old'')) ''out-tokyo'' = Some ''out-tokyo1''" by code_simp
  have "xp_out s ''out-tokyo'' = Some ''out-tokyo1''"
    using untouched_entries [OF live_parses p s c] by (simp add: t o)
  then show ?thesis using c s by blast
qed

end
