(* ===== verification/Live_Conns.thy ===== *)
theory Live_Conns
  imports Live_Apply
begin

text \<open>
  \<open>daemon/stalepath.go\<close>: the registry of open connections. Connections are objects on a heap, so
  that one that has left the registry can still be read by the function that unregisters it; the
  two halves of that function are separate steps, since the second runs after the lock is
  released. Times are nanoseconds since 1970, never zero. The bytes per second shown on the map
  are floating point and left out, down to the samples they are computed from.
\<close>

section \<open>The rate window\<close>

definition rateSlots :: nat where "rateSlots = 5"
definition rateGap :: int where "rateGap = 3 * second"
definition mapWatchTTL :: duration where "mapWatchTTL = 15 * second"
definition stalePathStallTimeout :: duration where "stalePathStallTimeout = 8 * second"

record rateSample =
  ra_at :: int
  ra_up :: int
  ra_down :: int

record rateWindow =
  rw_s :: "rateSample list"
  rw_next :: nat
  rw_n :: nat

definition newRateWindow :: rateWindow where
  "newRateWindow = \<lparr>rw_s = replicate rateSlots \<lparr>ra_at = 0, ra_up = 0, ra_down = 0\<rparr>, rw_next = 0, rw_n = 0\<rparr>"

definition rate_add :: "rateSample \<Rightarrow> rateWindow \<Rightarrow> rateWindow" where
  "rate_add x w =
     (let n = (if 0 < rw_n w \<and> rateGap < ra_at x - ra_at (rw_s w ! ((rw_next w + rateSlots - 1) mod rateSlots)) then 0 else rw_n w)
      in \<lparr>rw_s = (rw_s w)[rw_next w := x], rw_next = (rw_next w + 1) mod rateSlots, rw_n = (if n < rateSlots then n + 1 else n)\<rparr>)"

definition rate_oldest :: "rateWindow \<Rightarrow> rateSample option" where
  "rate_oldest w = (if rw_n w = 0 then None else Some (rw_s w ! ((rw_next w + rateSlots - rw_n w) mod rateSlots)))"

section \<open>Connections\<close>

record connFlow =
  cn_Host :: string
  cn_DestIP :: "ip option"
  cn_Port :: nat
  cn_RuleID :: int
  cn_Sent :: int

definition no_flow :: connFlow where
  "no_flow = \<lparr>cn_Host = '''', cn_DestIP = None, cn_Port = 0, cn_RuleID = 0, cn_Sent = 0\<rparr>"

record trackedConn =
  tc_name :: string
  tc_flow :: connFlow
  tc_opened :: int
  tc_since :: int
  tc_stale :: bool
  tc_closed :: bool
  tc_up :: int
  tc_down :: int
  tc_rate :: rateWindow

record liveConns =
  lv_heap :: "nat \<rightharpoonup> trackedConn"
  lv_conns :: "nat list"
  lv_stale :: int
  lv_watchUntil :: int

definition newLiveConns :: liveConns where
  "newLiveConns = \<lparr>lv_heap = Map.empty, lv_conns = [], lv_stale = 0, lv_watchUntil = 0\<rparr>"

definition conn_Write :: "int \<Rightarrow> nat \<Rightarrow> trackedConn \<Rightarrow> trackedConn" where
  "conn_Write now n t = (if 0 < n then t\<lparr>tc_up := tc_up t + int n, tc_since := (if tc_since t = 0 then now else tc_since t)\<rparr> else t)"

definition conn_Read :: "nat \<Rightarrow> trackedConn \<Rightarrow> trackedConn" where
  "conn_Read n t = (if 0 < n then t\<lparr>tc_down := tc_down t + int n, tc_since := 0\<rparr> else t)"

definition stalledFor :: "int \<Rightarrow> trackedConn \<Rightarrow> duration" where
  "stalledFor now t = (if tc_since t = 0 then 0 else time_Sub now (tc_since t))"

definition trackFlow :: "int \<Rightarrow> nat \<Rightarrow> string \<Rightarrow> connFlow \<Rightarrow> liveConns \<Rightarrow> liveConns" where
  "trackFlow now i name flow l =
     l\<lparr>lv_heap := (lv_heap l)(i \<mapsto> \<lparr>tc_name = name, tc_flow = flow, tc_opened = now, tc_since = 0, tc_stale = False, tc_closed = False,
         tc_up = cn_Sent flow, tc_down = 0, tc_rate = newRateWindow\<rparr>),
       lv_conns := lv_conns l @ [i]\<rparr>"

definition live_track :: "int \<Rightarrow> nat \<Rightarrow> string \<Rightarrow> liveConns \<Rightarrow> liveConns" where
  "live_track now i name l = trackFlow now i name no_flow l"

definition upd_conn :: "nat \<Rightarrow> (trackedConn \<Rightarrow> trackedConn) \<Rightarrow> liveConns \<Rightarrow> liveConns" where
  "upd_conn i f l = l\<lparr>lv_heap := (lv_heap l)(i := map_option f (lv_heap l i))\<rparr>"

definition untrack_delete :: "nat \<Rightarrow> liveConns \<Rightarrow> liveConns" where
  "untrack_delete i l = l\<lparr>lv_conns := removeAll i (lv_conns l)\<rparr>"

definition untrack_drop :: "nat \<Rightarrow> liveConns \<Rightarrow> liveConns" where
  "untrack_drop i l = (case lv_heap l i of Some t \<Rightarrow> if tc_stale t then l\<lparr>lv_stale := lv_stale l - 1\<rparr> else l | None \<Rightarrow> l)"

definition conn_is :: "(trackedConn \<Rightarrow> bool) \<Rightarrow> liveConns \<Rightarrow> nat \<Rightarrow> bool" where
  "conn_is P l i = (case lv_heap l i of Some t \<Rightarrow> P t | None \<Rightarrow> False)"

definition set_conns :: "nat list \<Rightarrow> (trackedConn \<Rightarrow> trackedConn) \<Rightarrow> liveConns \<Rightarrow> liveConns" where
  "set_conns is f l = l\<lparr>lv_heap := (\<lambda>i. if i \<in> set is then map_option f (lv_heap l i) else lv_heap l i)\<rparr>"

definition markStale :: "string set \<Rightarrow> liveConns \<Rightarrow> nat \<times> liveConns" where
  "markStale marked l =
     (let hit = filter (conn_is (\<lambda>t. tc_name t \<in> marked \<and> \<not> tc_stale t) l) (lv_conns l)
      in (length hit, (set_conns hit (\<lambda>t. t\<lparr>tc_stale := True\<rparr>) l)\<lparr>lv_stale := lv_stale l + int (length hit)\<rparr>))"

definition stalled :: "int \<Rightarrow> trackedConn \<Rightarrow> bool" where
  "stalled now t \<longleftrightarrow> tc_stale t \<and> stalePathStallTimeout \<le> stalledFor now t \<and> \<not> tc_closed t"

definition live_sweep :: "int \<Rightarrow> liveConns \<Rightarrow> nat list \<times> liveConns" where
  "live_sweep now l =
     (if lv_stale l = 0 then ([], l)
      else (let victims = filter (conn_is (stalled now) l) (lv_conns l) in (victims, set_conns victims (\<lambda>t. t\<lparr>tc_closed := True\<rparr>) l)))"

definition live_watch :: "int \<Rightarrow> liveConns \<Rightarrow> liveConns" where
  "live_watch now l = l\<lparr>lv_watchUntil := now + mapWatchTTL\<rparr>"

definition sampleRates :: "int \<Rightarrow> liveConns \<Rightarrow> liveConns" where
  "sampleRates now l =
     (if lv_watchUntil l < now then l
      else set_conns (lv_conns l) (\<lambda>t. t\<lparr>tc_rate := rate_add \<lparr>ra_at = now, ra_up = tc_up t, ra_down = tc_down t\<rparr> (tc_rate t)\<rparr>) l)"

section \<open>The ring holds the latest samples\<close>

definition ring_ok :: "rateWindow \<Rightarrow> bool" where
  "ring_ok w \<longleftrightarrow> length (rw_s w) = rateSlots \<and> rw_next w < rateSlots \<and> rw_n w \<le> rateSlots"

definition held :: "rateWindow \<Rightarrow> rateSample list" where
  "held w = map (\<lambda>i. rw_s w ! ((rw_next w + rateSlots - rw_n w + i) mod rateSlots)) [0..<rw_n w]"

lemma ring_newest: "ring_ok w \<Longrightarrow> 0 < rw_n w \<Longrightarrow> rw_s w ! ((rw_next w + rateSlots - 1) mod rateSlots) = last (held w)"
  by (cases "rw_n w") (simp_all add: held_def ring_ok_def)

lemma ring_turn: "k < 5 \<Longrightarrow> d < 5 \<Longrightarrow> (k + d) mod 5 = k \<longleftrightarrow> d = (0 :: nat)"
  by (cases "k + d < 5") (auto simp: le_mod_geq)

lemma ring_index:
  "n < 5 \<Longrightarrow> (Suc k mod 5 + 5 - Suc n + i) mod 5 = (k + 5 - n + i) mod (5 :: nat)"
  "k < 5 \<Longrightarrow> n \<le> 5 \<Longrightarrow> i < n \<Longrightarrow> (k + 5 - n + i) mod 5 = k \<longleftrightarrow> n = 5 \<and> i = (0 :: nat)"
  "(Suc k mod 5 + i) mod 5 = (k + Suc i) mod (5 :: nat)"
proof -
  assume n: "n < 5"
  have "(Suc k mod 5 + 5 - Suc n + i) mod 5 = (Suc k mod 5 + (5 - Suc n + i)) mod 5" using n by (intro arg_cong2 [of _ _ _ _ "(mod)"]) simp_all
  also have "\<dots> = (Suc k + (5 - Suc n + i)) mod 5" by (rule mod_add_left_eq)
  also have "Suc k + (5 - Suc n + i) = k + 5 - n + i" using n by simp
  finally show "(Suc k mod 5 + 5 - Suc n + i) mod 5 = (k + 5 - n + i) mod 5" .
next
  assume k: "k < 5" and n: "n \<le> 5" and i: "i < n"
  have "k + 5 - n + i = k + (5 - n + i)" using n by simp
  then show "(k + 5 - n + i) mod 5 = k \<longleftrightarrow> n = 5 \<and> i = 0" using ring_turn [OF k, of "5 - n + i"] n i by auto
next
  show "(Suc k mod 5 + i) mod 5 = (k + Suc i) mod 5" by (metis add_Suc_shift mod_add_left_eq)
qed

lemma ring_push:
  assumes "length s = 5" "k < 5" "n \<le> 5"
  shows "held \<lparr>rw_s = s[k := x], rw_next = (k + 1) mod 5, rw_n = (if n < 5 then n + 1 else n)\<rparr> =
    drop (Suc n - 5) (held \<lparr>rw_s = s, rw_next = k, rw_n = n\<rparr> @ [x])"
proof (cases "n < 5")
  case True
  let ?f = "\<lambda>i. s[k := x] ! ((k + 5 - n + i) mod 5)"
  have "map ?f [0..<n] = map (\<lambda>i. s ! ((k + 5 - n + i) mod 5)) [0..<n]"
  proof (rule map_cong [OF refl])
    fix i assume "i \<in> set [0..<n]"
    then have "k \<noteq> (k + 5 - n + i) mod 5" using ring_index(2) [OF assms(2,3), of i] True by auto
    then show "?f i = s ! ((k + 5 - n + i) mod 5)" by (rule nth_list_update_neq)
  qed
  moreover have "?f n = x" using assms(1,2) True by simp
  ultimately show ?thesis using True ring_index(1) [OF True] by (simp add: held_def rateSlots_def)
next
  case False
  then have n: "n = 5" using assms(3) by simp
  have u: "[0..<5] = [0..<4] @ [4 :: nat]" "[0..<5] = 0 # map Suc [0..<4]" by (simp_all add: upt_rec)
  have "s[k := x] ! ((k + Suc i) mod 5) = s ! ((k + Suc i) mod 5)" if "i < 4" for i
    using ring_index(2) [OF assms(2), of 5 "Suc i"] that by (simp add: nth_list_update)
  then have "map (\<lambda>i. s[k := x] ! ((k + Suc i) mod 5)) [0..<4] = map (\<lambda>i. s ! ((k + Suc i) mod 5)) [0..<4]" by (intro map_cong) auto
  moreover have "s[k := x] ! ((k + 5) mod 5) = x" using assms(1,2) by simp
  moreover have "held \<lparr>rw_s = s[k := x], rw_next = (k + 1) mod 5, rw_n = 5\<rparr> = map (\<lambda>i. s[k := x] ! ((k + Suc i) mod 5)) [0..<4] @ [s[k := x] ! ((k + 5) mod 5)]"
    using ring_index(3) [of k] by (simp add: held_def rateSlots_def u(1))
  moreover have "held \<lparr>rw_s = s, rw_next = k, rw_n = 5\<rparr> = s ! (k mod 5) # map (\<lambda>i. s ! ((k + Suc i) mod 5)) [0..<4]"
    by (simp add: held_def rateSlots_def u(2))
  ultimately show ?thesis using n by simp
qed

text \<open>The ring against a list: a sample is appended and the newest \<open>rateSlots\<close> are kept; after a pause longer than
  \<open>rateGap\<close> the list starts again.\<close>

lemma rate_add_spec:
  assumes "ring_ok w"
  shows "ring_ok (rate_add x w) \<and> held (rate_add x w) =
    (let h = (if held w \<noteq> [] \<and> rateGap < ra_at x - ra_at (last (held w)) then [] else held w) in drop (Suc (length h) - rateSlots) (h @ [x]))"
proof -
  have len: "length (held w) = rw_n w" by (simp add: held_def)
  have ne: "held w \<noteq> [] \<longleftrightarrow> 0 < rw_n w" using len by (metis length_greater_0_conv)
  let ?gap = "0 < rw_n w \<and> rateGap < ra_at x - ra_at (rw_s w ! ((rw_next w + rateSlots - 1) mod rateSlots))"
  have gap: "?gap \<longleftrightarrow> held w \<noteq> [] \<and> rateGap < ra_at x - ra_at (last (held w))" using ring_newest [OF assms] ne by auto
  have r: "length (rw_s w) = 5" "rw_next w < 5" "rw_n w \<le> 5" using assms by (simp_all add: ring_ok_def rateSlots_def)
  have h0: "held \<lparr>rw_s = rw_s w, rw_next = rw_next w, rw_n = 0\<rparr> = []" by (simp add: held_def)
  have hw: "held \<lparr>rw_s = rw_s w, rw_next = rw_next w, rw_n = rw_n w\<rparr> = held w" by (simp add: held_def)
  have "held (rate_add x w) = (let h = (if ?gap then [] else held w) in drop (Suc (length h) - rateSlots) (h @ [x]))"
  proof (cases ?gap)
    case True
    then show ?thesis using ring_push [OF r(1,2), of 0 x] h0 by (simp add: rate_add_def Let_def rateSlots_def)
  next
    case False
    then have "rate_add x w = \<lparr>rw_s = (rw_s w)[rw_next w := x], rw_next = (rw_next w + 1) mod 5, rw_n = (if rw_n w < 5 then rw_n w + 1 else rw_n w)\<rparr>"
      unfolding rate_add_def Let_def rateSlots_def by (simp only: if_False)
    then show ?thesis using False ring_push [OF r, of x] unfolding hw Let_def if_not_P [OF False] len rateSlots_def by (simp only: if_False len)
  qed
  moreover have "ring_ok (rate_add x w)" using r by (simp add: ring_ok_def rate_add_def Let_def rateSlots_def)
  ultimately show ?thesis unfolding gap by blast
qed

section \<open>The registry as a state machine\<close>

text \<open>What happened to a connection, as a log: bytes went out at a time, bytes came back, its path was changed under it,
  the sweeper closed it. The specification reads only the log.\<close>

datatype conn_event = Sent int | Answered | Path_Changed | Swept

fun is_sent :: "conn_event \<Rightarrow> bool" where
  "is_sent (Sent _) = True"
| "is_sent _ = False"

definition traffic_events :: "conn_event list \<Rightarrow> conn_event list" where
  "traffic_events es = filter (\<lambda>e. is_sent e \<or> e = Answered) es"

definition unanswered :: "conn_event list \<Rightarrow> int option" where
  "unanswered es = (case takeWhile is_sent (rev (traffic_events es)) of [] \<Rightarrow> None | ws \<Rightarrow> (case last ws of Sent t \<Rightarrow> Some t | _ \<Rightarrow> None))"

definition must_close :: "int \<Rightarrow> conn_event list \<Rightarrow> bool" where
  "must_close now es \<longleftrightarrow> Path_Changed \<in> set es \<and> Swept \<notin> set es \<and>
     (case unanswered es of Some t \<Rightarrow> stalePathStallTimeout \<le> time_Sub now t | None \<Rightarrow> False)"

definition record_on :: "nat set \<Rightarrow> conn_event \<Rightarrow> (nat \<Rightarrow> conn_event list) \<Rightarrow> nat \<Rightarrow> conn_event list" where
  "record_on I e log = (\<lambda>i. if i \<in> I then log i @ [e] else log i)"

inductive lv_reach :: "liveConns \<Rightarrow> nat list \<Rightarrow> (nat \<Rightarrow> conn_event list) \<Rightarrow> bool" where
  lv_new: "lv_reach newLiveConns [] (\<lambda>_. [])"
| lv_track: "lv_reach l pend log \<Longrightarrow> lv_heap l i = None \<Longrightarrow> lv_reach (trackFlow now i name flow l) pend (log(i := []))"
| lv_write: "lv_reach l pend log \<Longrightarrow> now \<noteq> 0 \<Longrightarrow> lv_reach (upd_conn i (conn_Write now (Suc n)) l) pend (record_on {i} (Sent now) log)"
| lv_read: "lv_reach l pend log \<Longrightarrow> lv_reach (upd_conn i (conn_Read (Suc n)) l) pend (record_on {i} Answered log)"
| lv_delete: "lv_reach l pend log \<Longrightarrow> i \<in> set (lv_conns l) \<Longrightarrow> lv_reach (untrack_delete i l) (i # pend) log"
| lv_drop: "lv_reach l pend log \<Longrightarrow> i \<in> set pend \<Longrightarrow> lv_reach (untrack_drop i l) (removeAll i pend) log"
| lv_mark: "lv_reach l pend log \<Longrightarrow>
    lv_reach (snd (markStale ns l)) pend (record_on {i \<in> set (lv_conns l). conn_is (\<lambda>t. tc_name t \<in> ns) l i} Path_Changed log)"
| lv_sweep: "lv_reach l pend log \<Longrightarrow> lv_reach (snd (live_sweep now l)) pend (record_on (set (fst (live_sweep now l))) Swept log)"
| lv_watch: "lv_reach l pend log \<Longrightarrow> lv_reach (live_watch now l) pend log"
| lv_sample: "lv_reach l pend log \<Longrightarrow> lv_reach (sampleRates now l) pend log"

definition follows_log :: "trackedConn \<Rightarrow> conn_event list \<Rightarrow> bool" where
  "follows_log t es \<longleftrightarrow> Sent 0 \<notin> set es \<and> tc_since t = (case unanswered es of Some s \<Rightarrow> s | None \<Rightarrow> 0) \<and>
     tc_stale t = (Path_Changed \<in> set es) \<and> tc_closed t = (Swept \<in> set es)"

definition stale_set :: "liveConns \<Rightarrow> nat list \<Rightarrow> nat set" where
  "stale_set l pend = {i \<in> set (lv_conns l) \<union> set pend. conn_is tc_stale l i}"

definition lv_inv :: "liveConns \<Rightarrow> nat list \<Rightarrow> (nat \<Rightarrow> conn_event list) \<Rightarrow> bool" where
  "lv_inv l pend log \<longleftrightarrow> distinct (lv_conns l) \<and> set (lv_conns l) \<inter> set pend = {} \<and>
     set (lv_conns l) \<union> set pend \<subseteq> dom (lv_heap l) \<and>
     (\<forall>i t. lv_heap l i = Some t \<longrightarrow> follows_log t (log i)) \<and> lv_stale l = int (card (stale_set l pend))"

lemma finite_stale_set [simp]: "finite (stale_set l pend)"
  by (simp add: stale_set_def)

lemma unanswered_simps [simp]:
  "unanswered [] = None"
  "unanswered (es @ [Answered]) = None"
  "unanswered (es @ [Path_Changed]) = unanswered es"
  "unanswered (es @ [Swept]) = unanswered es"
  "unanswered (es @ [Sent t]) = (case unanswered es of Some s \<Rightarrow> Some s | None \<Rightarrow> Some t)"
proof -
  show "unanswered (es @ [Sent t]) = (case unanswered es of Some s \<Rightarrow> Some s | None \<Rightarrow> Some t)"
  proof (cases "takeWhile is_sent (rev (traffic_events es))")
    case Nil
    then show ?thesis by (simp add: unanswered_def traffic_events_def)
  next
    case (Cons w ws)
    then have "is_sent (last (w # ws))" by (metis last_in_set list.distinct(1) set_takeWhileD)
    then obtain s where "last (w # ws) = Sent s" by (cases "last (w # ws)") auto
    then show ?thesis using Cons by (simp add: unanswered_def traffic_events_def split: if_splits)
  qed
qed (simp_all add: unanswered_def traffic_events_def)

lemma unanswered_Sent: "unanswered es = Some s \<Longrightarrow> Sent s \<in> set es"
proof (induction es rule: rev_induct)
  case (snoc e es)
  then show ?case by (cases e) (auto split: option.splits)
qed simp

lemma follows_event:
  assumes "follows_log t es"
  shows "now \<noteq> 0 \<Longrightarrow> follows_log (conn_Write now (Suc n) t) (es @ [Sent now])"
    and "follows_log (conn_Read (Suc n) t) (es @ [Answered])"
    and "follows_log (t\<lparr>tc_stale := True\<rparr>) (es @ [Path_Changed])"
    and "follows_log (t\<lparr>tc_closed := True\<rparr>) (es @ [Swept])"
    and "follows_log (t\<lparr>tc_rate := w\<rparr>) es"
  using assms unanswered_Sent [of es 0] by (auto simp: follows_log_def conn_Write_def conn_Read_def split: option.splits)

lemma follows_marked: "follows_log t es \<Longrightarrow> tc_stale t \<Longrightarrow> follows_log t (es @ [Path_Changed])"
  by (simp add: follows_log_def)

lemma follows_stalled:
  assumes "follows_log t es"
  shows "stalled now t \<longleftrightarrow> must_close now es"
proof (cases "unanswered es")
  case (Some s)
  then have "s \<noteq> 0" using assms unanswered_Sent [OF Some] by (auto simp: follows_log_def)
  then show ?thesis using assms Some by (auto simp: follows_log_def stalled_def stalledFor_def must_close_def)
next
  case None
  then show ?thesis using assms by (simp add: follows_log_def stalled_def stalledFor_def must_close_def stalePathStallTimeout_def second_def)
qed

lemma conn_rw_stale: "tc_stale (conn_Write now n t) = tc_stale t" "tc_stale (conn_Read n t) = tc_stale t"
  by (simp_all add: conn_Write_def conn_Read_def)

lemma lv_invI:
  assumes "distinct (lv_conns l)" "set (lv_conns l) \<inter> set pend = {}" "set (lv_conns l) \<union> set pend \<subseteq> dom (lv_heap l)"
    "\<And>i t. lv_heap l i = Some t \<Longrightarrow> follows_log t (log i)" "lv_stale l = int (card (stale_set l pend))"
  shows "lv_inv l pend log"
  using assms by (simp add: lv_inv_def)

lemma lv_invD:
  assumes "lv_inv l pend log"
  shows "distinct (lv_conns l)" "set (lv_conns l) \<inter> set pend = {}" "set (lv_conns l) \<union> set pend \<subseteq> dom (lv_heap l)"
    "\<And>i t. lv_heap l i = Some t \<Longrightarrow> follows_log t (log i)" "lv_stale l = int (card (stale_set l pend))"
  using assms by (simp_all add: lv_inv_def)

text \<open>A step that touches neither the registry, nor the counter, nor a stale flag.\<close>

lemma lv_inv_quiet:
  assumes "lv_inv l pend log" "lv_conns l' = lv_conns l" "lv_stale l' = lv_stale l"
    and heap: "\<And>i. lv_heap l' i = map_option (g i) (lv_heap l i)" and stale: "\<And>i t. tc_stale (g i t) = tc_stale t"
    and log: "\<And>i t. lv_heap l i = Some t \<Longrightarrow> follows_log t (log i) \<Longrightarrow> follows_log (g i t) (log' i)"
  shows "lv_inv l' pend log'"
proof -
  note D = lv_invD [OF assms(1)]
  have "conn_is tc_stale l' i = conn_is tc_stale l i" for i using stale by (simp add: conn_is_def heap split: option.splits)
  then have "stale_set l' pend = stale_set l pend" using assms(2) by (simp add: stale_set_def)
  moreover have "dom (lv_heap l') = dom (lv_heap l)" by (auto simp: dom_def heap)
  ultimately show ?thesis using D log assms(2,3) by (intro lv_invI) (auto simp: heap)
qed

lemma lv_inv_track: "lv_inv l pend log \<Longrightarrow> lv_heap l i = None \<Longrightarrow> lv_inv (trackFlow now i name flow l) pend (log(i := []))"
proof -
  assume I: "lv_inv l pend log" and fresh: "lv_heap l i = None"
  note D = lv_invD [OF I]
  have out: "i \<notin> set (lv_conns l)" "i \<notin> set pend" using D(3) fresh by auto
  have "stale_set (trackFlow now i name flow l) pend = stale_set l pend"
    using out by (auto simp: stale_set_def trackFlow_def conn_is_def)
  then show ?thesis using D out by (intro lv_invI) (auto simp: trackFlow_def follows_log_def)
qed

lemma lv_inv_delete: "lv_inv l pend log \<Longrightarrow> i \<in> set (lv_conns l) \<Longrightarrow> lv_inv (untrack_delete i l) (i # pend) log"
proof -
  assume I: "lv_inv l pend log" and i: "i \<in> set (lv_conns l)"
  have "stale_set (untrack_delete i l) (i # pend) = stale_set l pend" using i by (auto simp: stale_set_def untrack_delete_def conn_is_def)
  then show ?thesis using lv_invD [OF I] i by (intro lv_invI) (auto simp: untrack_delete_def distinct_removeAll)
qed

lemma lv_inv_drop: "lv_inv l pend log \<Longrightarrow> i \<in> set pend \<Longrightarrow> lv_inv (untrack_drop i l) (removeAll i pend) log"
proof -
  assume I: "lv_inv l pend log" and i: "i \<in> set pend"
  note D = lv_invD [OF I]
  obtain t where t: "lv_heap l i = Some t" using D(3) i by auto
  have same: "lv_conns (untrack_drop i l) = lv_conns l" "lv_heap (untrack_drop i l) = lv_heap l"
    by (simp_all add: untrack_drop_def t)
  have S: "stale_set (untrack_drop i l) (removeAll i pend) = stale_set l pend - {i}"
    using D(2) i by (auto simp: stale_set_def same conn_is_def)
  have "i \<in> stale_set l pend \<longleftrightarrow> tc_stale t" using i t by (simp add: stale_set_def conn_is_def)
  then have "lv_stale (untrack_drop i l) = int (card (stale_set l pend - {i}))"
    using D(5) t card_gt_0_iff [of "stale_set l pend"] by (auto simp: untrack_drop_def card_Diff_singleton)
  then show ?thesis using D by (intro lv_invI) (auto simp: same S)
qed

lemma lv_inv_mark:
  assumes I: "lv_inv l pend log"
  shows "lv_inv (snd (markStale ns l)) pend (record_on {i \<in> set (lv_conns l). conn_is (\<lambda>t. tc_name t \<in> ns) l i} Path_Changed log)"
proof -
  note D = lv_invD [OF I]
  let ?hit = "filter (conn_is (\<lambda>t. tc_name t \<in> ns \<and> \<not> tc_stale t) l) (lv_conns l)"
  let ?l = "snd (markStale ns l)"
  have f: "lv_conns ?l = lv_conns l" "lv_stale ?l = lv_stale l + int (length ?hit)"
    "\<And>i. lv_heap ?l i = (if i \<in> set ?hit then map_option (\<lambda>t. t\<lparr>tc_stale := True\<rparr>) (lv_heap l i) else lv_heap l i)"
    by (simp_all add: markStale_def Let_def set_conns_def)
  have "stale_set ?l pend = stale_set l pend \<union> set ?hit"
    using D(2) by (auto simp: stale_set_def f conn_is_def split: option.splits if_splits)
  moreover have "stale_set l pend \<inter> set ?hit = {}" by (auto simp: stale_set_def conn_is_def split: option.splits)
  moreover have "card (set ?hit) = length ?hit" using D(1) by (intro distinct_card) simp
  ultimately have "card (stale_set ?l pend) = card (stale_set l pend) + length ?hit" by (simp add: card_Un_disjoint del: set_filter)
  moreover have "follows_log t (record_on {i \<in> set (lv_conns l). conn_is (\<lambda>t. tc_name t \<in> ns) l i} Path_Changed log i)"
    if "lv_heap ?l i = Some t" for i t
    using that D(4) follows_event(3) follows_marked by (auto simp: f record_on_def conn_is_def split: if_splits option.splits)
  moreover have "dom (lv_heap ?l) = dom (lv_heap l)" by (auto simp: f dom_def)
  ultimately show ?thesis using D by (intro lv_invI) (auto simp: f(1,2))
qed

lemma sweep_effect:
  "lv_conns (snd (live_sweep now l)) = lv_conns l" "lv_stale (snd (live_sweep now l)) = lv_stale l"
  "lv_heap (snd (live_sweep now l)) i = map_option (\<lambda>t. if i \<in> set (fst (live_sweep now l)) then t\<lparr>tc_closed := True\<rparr> else t) (lv_heap l i)"
  by (simp_all add: live_sweep_def Let_def set_conns_def) (cases "lv_heap l i"; simp)

lemma lv_inv_sweep: "lv_inv l pend log \<Longrightarrow> lv_inv (snd (live_sweep now l)) pend (record_on (set (fst (live_sweep now l))) Swept log)"
  by (rule lv_inv_quiet [OF _ sweep_effect]) (auto simp: record_on_def follows_event)

lemma lv_reach_inv: "lv_reach l pend log \<Longrightarrow> lv_inv l pend log"
proof (induction rule: lv_reach.induct)
  case lv_new
  then show ?case by (simp add: lv_inv_def newLiveConns_def stale_set_def)
next
  case (lv_write l pend log now i n)
  then show ?case
    by (intro lv_inv_quiet [where g = "\<lambda>j t. if j = i then conn_Write now (Suc n) t else t", OF lv_write.IH])
      (auto simp: upd_conn_def record_on_def follows_event option.map_ident conn_rw_stale)
next
  case (lv_read l pend log i n)
  then show ?case
    by (intro lv_inv_quiet [where g = "\<lambda>j t. if j = i then conn_Read (Suc n) t else t", OF lv_read.IH])
      (auto simp: upd_conn_def record_on_def follows_event option.map_ident conn_rw_stale)
next
  case (lv_watch l pend log now)
  then show ?case by (simp add: lv_inv_def live_watch_def stale_set_def conn_is_def)
next
  case (lv_sample l pend log now)
  then show ?case
    by (intro lv_inv_quiet [where g = "\<lambda>j t. if lv_watchUntil l < now \<or> j \<notin> set (lv_conns l) then t else
          t\<lparr>tc_rate := rate_add \<lparr>ra_at = now, ra_up = tc_up t, ra_down = tc_down t\<rparr> (tc_rate t)\<rparr>", OF lv_sample.IH])
      (auto simp: sampleRates_def set_conns_def follows_event option.map_ident)
qed (blast intro: lv_inv_track lv_inv_delete lv_inv_drop lv_inv_mark lv_inv_sweep)+

section \<open>Which connections the sweeper closes\<close>

lemma sweep_victims:
  assumes "lv_inv l pend log"
  shows "set (fst (live_sweep now l)) = {i \<in> set (lv_conns l). must_close now (log i)}"
proof -
  note D = lv_invD [OF assms]
  have on: "conn_is (stalled now) l i \<longleftrightarrow> must_close now (log i)" if reg: "i \<in> set (lv_conns l)" for i
  proof -
    obtain t where t: "lv_heap l i = Some t" using reg D(3) by auto
    show ?thesis using follows_stalled [OF D(4) [OF t]] by (simp add: conn_is_def t)
  qed
  have "\<not> must_close now (log i)" if z: "lv_stale l = 0" and reg: "i \<in> set (lv_conns l)" for i
  proof -
    have "i \<notin> stale_set l pend" using z D(5) by simp
    then show ?thesis using reg on [OF reg] by (auto simp: stale_set_def conn_is_def stalled_def split: option.splits)
  qed
  then show ?thesis using on by (auto simp: live_sweep_def Let_def)
qed

text \<open>
  C37: at every reachable state of the registry, whatever interleaving of opened connections, writes,
  replies, path changes, sweeps and the two halves of unregistering led there, the counter of stale
  connections equals the number of connections, still registered or half way through unregistering,
  whose log holds a path change, and a sweep closes exactly the registered connections whose
  path changed, whose oldest write since the last reply has waited for at least
  \<open>stalePathStallTimeout\<close> and that it has not closed before. The shortcut on a zero counter misses
  none, and nothing else of any connection is touched.
\<close>
theorem sweep_exact:
  assumes "lv_reach l pend log"
  shows "lv_stale l = int (card {i \<in> set (lv_conns l) \<union> set pend. Path_Changed \<in> set (log i)}) \<and>
    set (fst (live_sweep now l)) = {i \<in> set (lv_conns l). must_close now (log i)} \<and>
    (\<forall>i. lv_heap (snd (live_sweep now l)) i = (if i \<in> set (lv_conns l) \<and> must_close now (log i)
        then map_option (tc_closed_update (\<lambda>_. True)) (lv_heap l i) else lv_heap l i))"
proof -
  have I: "lv_inv l pend log" using assms by (rule lv_reach_inv)
  note D = lv_invD [OF I]
  have "conn_is tc_stale l i \<longleftrightarrow> Path_Changed \<in> set (log i)" if known: "i \<in> set (lv_conns l) \<union> set pend" for i
  proof -
    obtain t where t: "lv_heap l i = Some t" using known D(3) by auto
    show ?thesis using D(4) [OF t] by (simp add: conn_is_def t follows_log_def)
  qed
  then have "stale_set l pend = {i \<in> set (lv_conns l) \<union> set pend. Path_Changed \<in> set (log i)}" by (auto simp: stale_set_def)
  moreover have "lv_heap (snd (live_sweep now l)) i = (if i \<in> set (lv_conns l) \<and> must_close now (log i)
        then map_option (tc_closed_update (\<lambda>_. True)) (lv_heap l i) else lv_heap l i)" for i
    by (cases "lv_heap l i") (simp_all add: sweep_effect(3) sweep_victims [OF I])
  ultimately show ?thesis using D(5) sweep_victims [OF I] by simp
qed

definition two_conns :: liveConns where
  "two_conns = snd (markStale {''xray:a''} (upd_conn 1 (conn_Write 5 (Suc 9)) (upd_conn 0 (conn_Write 5 (Suc 9))
     (trackFlow 4 1 ''xray:b'' no_flow
       (trackFlow 3 0 ''xray:a'' no_flow newLiveConns)))))"

theorem sweep_exact_witness: "lv_stale two_conns = 1 \<and> set (fst (live_sweep (9 * second) two_conns)) = {0}"
proof -
  let ?l = "upd_conn 1 (conn_Write 5 (Suc 9)) (upd_conn 0 (conn_Write 5 (Suc 9))
     (trackFlow 4 1 ''xray:b'' no_flow
       (trackFlow 3 0 ''xray:a'' no_flow newLiveConns)))"
  let ?log = "record_on {1} (Sent 5) (record_on {0} (Sent 5) (((\<lambda>_. [])(0 := []))(1 := [])))"
  have "lv_reach ?l [] ?log" by (intro lv_reach.intros) (simp_all add: trackFlow_def newLiveConns_def)
  then have R: "lv_reach two_conns [] (record_on {i \<in> set (lv_conns ?l). conn_is (\<lambda>t. tc_name t \<in> {''xray:a''}) ?l i} Path_Changed ?log)"
    unfolding two_conns_def by (rule lv_reach.intros)
  have hit: "{i \<in> set (lv_conns ?l). conn_is (\<lambda>t. tc_name t \<in> {''xray:a''}) ?l i} = {0}"
    by (auto simp: trackFlow_def upd_conn_def newLiveConns_def conn_is_def conn_Write_def)
  have conns: "set (lv_conns two_conns) = {0, 1}"
    by (auto simp: two_conns_def markStale_def Let_def set_conns_def upd_conn_def trackFlow_def newLiveConns_def)
  have logs: "record_on {0} Path_Changed ?log 0 = [Sent 5, Path_Changed]" "record_on {0} Path_Changed ?log 1 = [Sent 5]"
    by (simp_all add: record_on_def)
  have mc: "must_close (9 * second) [Sent 5, Path_Changed]" "\<not> must_close (9 * second) [Sent 5]"
    by (simp_all add: must_close_def unanswered_def traffic_events_def stalePathStallTimeout_def second_def time_Sub_def)
  have "{i \<in> {0, 1 :: nat}. Path_Changed \<in> set (record_on {0} Path_Changed ?log i)} = {0}"
    "{i \<in> {0, 1 :: nat}. must_close (9 * second) (record_on {0} Path_Changed ?log i)} = {0}" using mc logs by auto
  then show ?thesis using sweep_exact [OF R [unfolded hit], of "9 * second"] by (simp add: conns)
qed

end
