(* ===== verification/Group_Match.thy ===== *)
theory Group_Match
  imports Rule_Store
begin

text \<open>
  Pattern groups: \<open>core/groups/match.go\<close> and \<open>dynamic.go\<close>, the lookup of \<open>groups.go\<close>, and of the
  daemon the pattern tests of \<open>groups_runtime.go\<close> and \<open>groups_sync.go\<close> and the feed cache of
  \<open>dynamic_groups.go\<close>. The curated registry is an argument (\<open>known\<close>), so what is proved holds for
  whatever it lists. Decoding a feed or a cached row is the JSON package, an argument too; so is
  the result of a download.
\<close>

section \<open>The registry\<close>

definition FormatGoogleIPRanges :: string where "FormatGoogleIPRanges = ''google-ipranges''"
definition DefaultDynamicInterval :: duration where "DefaultDynamicInterval = 24 * hour"

record DynamicSource =
  dy_URL :: string
  dy_ExcludeURL :: string
  dy_Format :: string
  dy_Exclude :: "string list"
  dy_IPv4Only :: bool
  dy_Interval :: duration

record Group =
  gr_Key :: string
  gr_DisplayName :: string
  gr_Patterns :: "string list"
  gr_Dynamic :: "DynamicSource option"

definition FindByKey :: "Group list \<Rightarrow> string \<Rightarrow> Group option" where
  "FindByKey known key = find (\<lambda>g. gr_Key g = key) known"

definition GroupForKey :: "Group list \<Rightarrow> string \<Rightarrow> (string \<times> string) option" where
  "GroupForKey known key =
     map_option (\<lambda>g. (gr_Key g, gr_DisplayName g)) (find (\<lambda>g. list_ex (\<lambda>pat. MatchKey pat key) (gr_Patterns g)) known)"

definition GroupForDomain :: "Group list \<Rightarrow> string \<Rightarrow> (string \<times> string) option" where
  "GroupForDomain known host = GroupForKey known host"

section \<open>Feeds\<close>

definition EffectiveInterval :: "DynamicSource option \<Rightarrow> duration" where
  "EffectiveInterval s = (case s of None \<Rightarrow> DefaultDynamicInterval | Some d \<Rightarrow> if dy_Interval d \<le> 0 then DefaultDynamicInterval else dy_Interval d)"

definition canonicalCIDR :: "string \<Rightarrow> string option" where
  "canonicalCIDR s = map_option (\<lambda>(_, n). net_String n) (net_ParseCIDR (TrimSpace s))"

text \<open>The prefixes of a decoded feed as pairs of the IPv4 and the IPv6 field.\<close>

type_synonym ipRangeFeed = "(string \<times> string) list"

definition feed_prefix :: "bool \<Rightarrow> string \<times> string \<Rightarrow> string option" where
  "feed_prefix v4Only p =
     (let raw = TrimSpace (fst p) in
      if raw = [] then (if v4Only then None else canonicalCIDR (TrimSpace (snd p))) else canonicalCIDR raw)"

fun feed_loop :: "bool \<Rightarrow> ipRangeFeed \<Rightarrow> string list \<Rightarrow> string list" where
  "feed_loop v4Only [] out = out"
| "feed_loop v4Only (p # ps) out =
     (case feed_prefix v4Only p of
        None \<Rightarrow> feed_loop v4Only ps out
      | Some c \<Rightarrow> if c \<in> set out then feed_loop v4Only ps out else feed_loop v4Only ps (out @ [c]))"

datatype feed_error = NilSource | UnknownFormat string | FeedDecode string | ExclusionFeed string | NoPrefixes

definition parseIPRangeFeed :: "(string \<Rightarrow> string + ipRangeFeed) \<Rightarrow> string \<Rightarrow> bool \<Rightarrow> string + string list" where
  "parseIPRangeFeed decode b v4Only = (case decode b of Inl e \<Rightarrow> Inl e | Inr f \<Rightarrow> Inr (feed_loop v4Only f []))"

definition feed_Parse :: "(string \<Rightarrow> string + ipRangeFeed) \<Rightarrow> DynamicSource option \<Rightarrow> string \<Rightarrow> string \<Rightarrow> feed_error + string list" where
  "feed_Parse decode src feed excludeFeed =
     (case src of
        None \<Rightarrow> Inl NilSource
      | Some s \<Rightarrow>
          if dy_Format s \<noteq> FormatGoogleIPRanges then Inl (UnknownFormat (dy_Format s))
          else
            (let drop0 = List.map_filter canonicalCIDR (dy_Exclude s) in
             case (if excludeFeed = [] then Inr [] else parseIPRangeFeed decode excludeFeed (dy_IPv4Only s)) of
               Inl e \<Rightarrow> Inl (ExclusionFeed e)
             | Inr ex \<Rightarrow>
                 (case parseIPRangeFeed decode feed (dy_IPv4Only s) of
                    Inl e \<Rightarrow> Inl (FeedDecode e)
                  | Inr all \<Rightarrow>
                      (let out = filter (\<lambda>p. p \<notin> set drop0 \<union> set ex) all
                       in if out = [] then Inl NoPrefixes else Inr (sort out)))))"

section \<open>The feed cache\<close>

definition dynGroupSettingPrefix :: string where "dynGroupSettingPrefix = ''dynamic_group:''"
definition dynGroupRetryAfter :: duration where "dynGroupRetryAfter = 10 * minute"

record dynamicGroupCache =
  dg_Patterns :: "string list"
  dg_FetchedAt :: time
  dg_Source :: string
  dg_Error :: string

definition no_cache :: dynamicGroupCache where
  "no_cache = \<lparr>dg_Patterns = [], dg_FetchedAt = 0, dg_Source = [], dg_Error = []\<rparr>"

definition cache_due :: "time \<Rightarrow> duration \<Rightarrow> dynamicGroupCache \<Rightarrow> bool" where
  "cache_due now interval c =
     (if dg_FetchedAt c = 0 \<or> dg_Patterns c = [] then True
      else if dg_Error c \<noteq> [] then dynGroupRetryAfter \<le> time_Sub now (dg_FetchedAt c)
      else interval \<le> time_Sub now (dg_FetchedAt c))"

definition dynGroupSettingKey :: "string \<Rightarrow> string" where
  "dynGroupSettingKey groupKey = dynGroupSettingPrefix @ groupKey"

record cache_codec =
  cc_Marshal :: "dynamicGroupCache \<Rightarrow> string"
  cc_Unmarshal :: "string \<Rightarrow> dynamicGroupCache option"

definition dynamicGroupCached :: "cache_codec \<Rightarrow> sql_fault \<Rightarrow> string \<Rightarrow> settings \<Rightarrow> dynamicGroupCache" where
  "dynamicGroupCached cc db groupKey s =
     (case GetSetting db (dynGroupSettingKey groupKey) [] s of
        Inl _ \<Rightarrow> no_cache
      | Inr raw \<Rightarrow> if raw = [] then no_cache else (case cc_Unmarshal cc raw of None \<Rightarrow> no_cache | Some c \<Rightarrow> c))"

definition saveDynamicGroupCache :: "cache_codec \<Rightarrow> sql_fault \<Rightarrow> string \<Rightarrow> dynamicGroupCache \<Rightarrow> settings \<Rightarrow> settings" where
  "saveDynamicGroupCache cc db groupKey c s = snd (SetSetting db (dynGroupSettingKey groupKey) (cc_Marshal cc c) s)"

definition effectiveGroupPatterns :: "cache_codec \<Rightarrow> sql_fault \<Rightarrow> Group \<Rightarrow> settings \<Rightarrow> string list" where
  "effectiveGroupPatterns cc db g s =
     (if gr_Dynamic g = None then gr_Patterns g
      else let c = dynamicGroupCached cc db (gr_Key g) s in if dg_Patterns c \<noteq> [] then dg_Patterns c else gr_Patterns g)"

section \<open>Which rules belong to a group\<close>

definition normalizeGroupPattern :: "string \<Rightarrow> string" where
  "normalizeGroupPattern s = ToLower (TrimSpace (TrimSuffix s ''.''))"

definition ruleCoveredByGroupPattern :: "string \<Rightarrow> string \<Rightarrow> bool" where
  "ruleCoveredByGroupPattern rulePat groupPat =
     (let rp = normalizeGroupPattern rulePat; gp = normalizeGroupPattern groupPat in
      if rp = [] \<or> gp = [] then False
      else if rp = gp then True
      else if \<not> HasPrefix gp ''*.'' then False
      else
        (let suff = drop 2 gp; body = (if HasPrefix rp ''*.'' then drop 2 rp else rp)
         in body = suff \<or> HasSuffix body (''.'' @ suff)))"

definition ruleBelongsToGroup :: "string \<Rightarrow> string list \<Rightarrow> bool" where
  "ruleBelongsToGroup rulePat groupPats = list_ex (ruleCoveredByGroupPattern rulePat) groupPats"

definition groupPatternApplied :: "string \<Rightarrow> rule list \<Rightarrow> bool" where
  "groupPatternApplied groupPat stored = list_ex (\<lambda>r. ruleCoveredByGroupPattern groupPat (rl_Pattern r)) stored"

definition missingGroupPatterns :: "string list \<Rightarrow> rule list \<Rightarrow> string list" where
  "missingGroupPatterns groupPats stored =
     (if \<not> list_ex (\<lambda>r. ruleBelongsToGroup (rl_Pattern r) groupPats) stored then []
      else filter (\<lambda>p. \<not> groupPatternApplied p stored) groupPats)"

text \<open>\<open>groupRuleShape\<close>: the most common combination, the first one seen on a tie.\<close>

type_synonym rule_shape = "action \<times> string \<times> bool"

definition shape_of :: "rule \<Rightarrow> rule_shape" where
  "shape_of r = (rl_Action r, rl_Interface r, rl_Enabled r)"

definition shape_order :: "rule_shape list \<Rightarrow> rule_shape list" where
  "shape_order ss = fold (\<lambda>s order. if s \<in> set order then order else order @ [s]) ss []"

definition best_shape :: "rule_shape list \<Rightarrow> rule_shape list \<Rightarrow> rule_shape \<Rightarrow> rule_shape" where
  "best_shape ss order s0 = fold (\<lambda>s best. if count_list ss best < count_list ss s then s else best) order s0"

definition groupRuleShape :: "string list \<Rightarrow> rule list \<Rightarrow> rule_shape option" where
  "groupRuleShape groupPats stored =
     (let ss = map shape_of (filter (\<lambda>r. ruleBelongsToGroup (rl_Pattern r) groupPats) stored)
      in case shape_order ss of [] \<Rightarrow> None | s # rest \<Rightarrow> Some (best_shape ss rest s))"

section \<open>Facts about feeds\<close>

lemma feed_loop_set:
  "set (feed_loop v ps out) = set out \<union> {c. \<exists>p\<in>set ps. feed_prefix v p = Some c}" "distinct out \<Longrightarrow> distinct (feed_loop v ps out)"
proof -
  show "set (feed_loop v ps out) = set out \<union> {c. \<exists>p\<in>set ps. feed_prefix v p = Some c}"
    by (induction v ps out rule: feed_loop.induct) (auto split: option.splits)
  show "distinct out \<Longrightarrow> distinct (feed_loop v ps out)"
    by (induction v ps out rule: feed_loop.induct) (auto split: option.splits)
qed

text \<open>What an accepted feed gives, with the exclusions a set.\<close>

lemma feed_Parse_spec:
  assumes "feed_Parse decode (Some s) feed excludeFeed = Inr out"
  obtains f ex where "decode feed = Inr f" "excludeFeed \<noteq> [] \<Longrightarrow> decode excludeFeed = Inr ex" "excludeFeed = [] \<Longrightarrow> ex = []"
    "out \<noteq> []" "sorted out" "distinct out"
    "set out = {c. \<exists>p\<in>set f. feed_prefix (dy_IPv4Only s) p = Some c}
       - ({c. \<exists>p\<in>set (dy_Exclude s). canonicalCIDR p = Some c} \<union> {c. \<exists>p\<in>set ex. feed_prefix (dy_IPv4Only s) p = Some c})"
proof -
  have mf: "set (List.map_filter canonicalCIDR xs) = {c. \<exists>p\<in>set xs. canonicalCIDR p = Some c}" for xs
    by (force simp: List.map_filter_def)
  obtain f where f: "decode feed = Inr f" using assms
    by (auto simp: feed_Parse_def Let_def parseIPRangeFeed_def split: sum.splits if_splits)
  obtain ex where ex: "excludeFeed \<noteq> [] \<Longrightarrow> decode excludeFeed = Inr ex" "excludeFeed = [] \<Longrightarrow> ex = []"
    using assms by (cases "excludeFeed = []") (auto simp: feed_Parse_def Let_def parseIPRangeFeed_def split: sum.splits if_splits)
  let ?all = "feed_loop (dy_IPv4Only s) f []" and ?ex = "feed_loop (dy_IPv4Only s) ex []"
  let ?out = "filter (\<lambda>p. p \<notin> set (List.map_filter canonicalCIDR (dy_Exclude s)) \<union> set ?ex) ?all"
  have o: "out = sort ?out" "?out \<noteq> []"
    using assms f ex by (cases "excludeFeed = []"; simp add: feed_Parse_def Let_def parseIPRangeFeed_def split: if_splits)+
  have "set out = {c. \<exists>p\<in>set f. feed_prefix (dy_IPv4Only s) p = Some c}
       - ({c. \<exists>p\<in>set (dy_Exclude s). canonicalCIDR p = Some c} \<union> {c. \<exists>p\<in>set ex. feed_prefix (dy_IPv4Only s) p = Some c})"
    unfolding o(1) set_sort set_filter feed_loop_set mf by auto
  moreover have "out \<noteq> []" using o by (metis length_0_conv length_sort)
  moreover have "distinct out" unfolding o(1) by (simp add: feed_loop_set(2))
  moreover have "sorted out" unfolding o(1) by simp
  ultimately show thesis using that [OF f ex] by blast
qed

section \<open>Coverage is inclusion\<close>

lemma normal_pattern:
  assumes "normalize p = p"
  shows "normalizeGroupPattern p = p"
proof -
  let ?t = "ToLower (TrimSpace p)"
  have len: "length (TrimSpace p) \<le> length p" by (simp add: TrimSpace_def trim_with_def length_dropWhile_le order_trans [OF length_dropWhile_le])
  have "\<not> HasSuffix ?t ''.''"
  proof
    assume s: "HasSuffix ?t ''.''"
    then have "?t \<noteq> []" by (auto simp: HasSuffix_iff)
    then have "0 < length (TrimSpace p)" by simp
    moreover have "p = take (length ?t - 1) ?t" using assms s by (simp add: normalize_def TrimSuffix_def)
    then have "length p = length (take (length ?t - 1) ?t)" by (rule arg_cong)
    then have "length p = length (TrimSpace p) - 1" by simp
    ultimately show False using len by linarith
  qed
  then have "p = ?t" "\<not> HasSuffix p ''.''" using assms by (simp_all add: normalize_def TrimSuffix_id)
  then show ?thesis by (simp add: normalizeGroupPattern_def TrimSuffix_id)
qed

lemma parse_addr_star: "parse_addr (CHR ''*'' # CHR ''.'' # s) = None"
proof -
  have "Split (CHR ''*'' # CHR ''.'' # s) CHR ''.'' = ''*'' # Split s CHR ''.''" using Split_append [of "''*''" "CHR ''.''" s] by (simp add: Split_def)
  moreover have "parse_octet ''*'' = None" by code_simp
  ultimately show ?thesis by (simp add: parse_addr_def parse_v4_def)
qed

lemma star_not_IP:
  assumes "normalize p = p" "HasPrefix p ''*.''"
  shows "\<not> IsIPRule p"
proof -
  obtain s where p: "p = CHR ''*'' # CHR ''.'' # s" using assms(2) by (auto simp: HasPrefix_iff)
  have "net_ParseCIDR p = None"
    unfolding p net_ParseCIDR_def by (auto simp: parse_addr_star split: option.splits)
  then show ?thesis using assms(1) parse_addr_star [of s] by (simp add: IsIPRule_def ParseCIDR_def ParseIP_def p)
qed

lemma covered_iff:
  assumes "normalize p = p" "normalize q = q" "p \<noteq> []" "q \<noteq> []"
  shows "ruleCoveredByGroupPattern p q \<longleftrightarrow> p = q \<or> HasPrefix q ''*.'' \<and>
    (let body = (if HasPrefix p ''*.'' then drop 2 p else p) in body = drop 2 q \<or> HasSuffix body (''.'' @ drop 2 q))"
  using assms by (auto simp: ruleCoveredByGroupPattern_def normal_pattern Let_def)

lemma HasSuffix_trans: "HasSuffix a b \<Longrightarrow> HasSuffix b c \<Longrightarrow> HasSuffix a c"
  by (auto simp: HasSuffix_iff)

lemma HasSuffix_dot: "HasSuffix a b \<Longrightarrow> HasSuffix (c @ a) b"
  by (auto simp: HasSuffix_iff)

text \<open>A pattern of names covered by another matches only names the other matches.\<close>

lemma cover_sound:
  assumes "normalize p = p" "normalize q = q" "\<not> IsIPRule p" "ruleCoveredByGroupPattern p q" "MatchKey p key"
  shows "MatchKey q key"
proof (cases "p = q")
  case False
  have ne: "p \<noteq> []" "q \<noteq> []" using assms(1,2,4) by (auto simp: ruleCoveredByGroupPattern_def normal_pattern Let_def)
  have q: "HasPrefix q ''*.''" using covered_iff [OF assms(1,2) ne] assms(4) False by simp
  let ?b = "if HasPrefix p ''*.'' then drop 2 p else p"
  have b: "?b = drop 2 q \<or> HasSuffix ?b (''.'' @ drop 2 q)" using covered_iff [OF assms(1,2) ne] assms(4) False by (simp add: Let_def)
  have m: "Match p key" using assms(3,5) by (simp add: MatchKey_def IsIPRule_def)
  let ?n = "normalize key"
  have n: "?n \<noteq> []" "?n = ?b \<or> HasSuffix ?n (''.'' @ ?b)" using m assms(1) by (auto simp: Match_def Let_def split: if_splits)
  have "?n = drop 2 q \<or> HasSuffix ?n (''.'' @ drop 2 q)"
    using n(2) b HasSuffix_trans [of ?n "''.'' @ ?b"] HasSuffix_dot [of ?b "''.'' @ drop 2 q" "''.''"] by auto
  then have "Match q key" using q n(1) assms(2) ne(2) by (simp add: Match_def Let_def)
  then show ?thesis using star_not_IP [OF assms(2) q] by (simp add: MatchKey_def IsIPRule_def)
qed (use assms(5) in simp)

end
