(* ===== verification/Rule_Admin.thy ===== *)
theory Rule_Admin
  imports Group_Match Xray_Store
begin

text \<open>
  The handlers of the daemon that change rules (\<open>daemon/handlers.go\<close>, \<open>groups_runtime.go\<close>,
  \<open>groups_sync.go\<close>, \<open>dynamic_groups.go\<close> and the rule side of \<open>xray_sets.go\<close>), as steps on the composed
  state: the tables of the stores, the decision engine, the route manager with the kernel, and
  the address table. A handler takes its decoded parameters and returns the stored rules themselves
  where the code returns them with formatted times. \<open>db i\<close> says which statements of its store call
  number \<open>i\<close> fail; the route manager is present, as \<open>main.go\<close> creates it.
\<close>

section \<open>State\<close>

record 'k admin_env =
  av_fresh :: "int list \<Rightarrow> int"
  av_now :: time
  av_run :: "'k runner"
  av_order :: "Manager \<Rightarrow> order"
  av_tun :: string

record 'k admin =
  ad_rows :: "rule list"
  ad_sets :: "SetRow list"
  ad_entries :: "ConfigRow list"
  ad_proxies :: proxy_store
  ad_engine :: engine
  ad_world :: "'k world"
  ad_table :: Table

type_synonym faults = "nat \<Rightarrow> sql_fault"

datatype admin_error =
    AdStore store_error | AdProxy proxy_error | AdXray xray_error
  | NoProxyNames string | UnknownProxies "string list" | NoXrayNames string | UnknownXrays "string list" | UnknownSets "string list"
  | NoRuleIDs | RouteNeedsInterface | UnknownGroup string | GroupNotApplied string

section \<open>References of a rule\<close>

definition validateProxyRefs :: "sql_fault \<Rightarrow> string \<Rightarrow> 'k admin \<Rightarrow> admin_error option" where
  "validateProxyRefs db iface st =
     (if \<not> IsProxyInterface iface then None
      else let ns = proxy_ParseInterface iface in
        if ns = [] then Some (NoProxyNames iface)
        else case NamesExist db ns (ad_proxies st) of
          Inl e \<Rightarrow> Some (AdProxy e)
        | Inr missing \<Rightarrow> if missing \<noteq> [] then Some (UnknownProxies missing) else None)"

definition validateXrayRefs :: "sql_fault \<Rightarrow> string \<Rightarrow> 'k admin \<Rightarrow> admin_error option" where
  "validateXrayRefs db iface st =
     (if \<not> IsXrayInterface iface then None
      else let ns = xray_ParseInterface iface in
        if ns = [] then Some (NoXrayNames iface)
        else case xray_NamesExist db ns (ad_entries st) of
          Inl e \<Rightarrow> Some (AdXray e)
        | Inr missing \<Rightarrow> if missing \<noteq> [] then Some (UnknownXrays missing) else None)"

definition validateSetRefs :: "sql_fault \<Rightarrow> string \<Rightarrow> 'k admin \<Rightarrow> admin_error option" where
  "validateSetRefs db iface st =
     (let name = ParseSetName iface in
      if name = [] then None
      else case SetNamesExist db [name] (ad_sets st) of
        Inl e \<Rightarrow> Some (AdXray e)
      | Inr missing \<Rightarrow> if missing \<noteq> [] then Some (UnknownSets missing) else None)"

text \<open>The checks the handlers for single rules and for a selection make, in their order.\<close>

definition check_refs :: "faults \<Rightarrow> string \<Rightarrow> 'k admin \<Rightarrow> admin_error + string" where
  "check_refs db iface st =
     (case validateProxyRefs (db 0) iface st of
        Some e \<Rightarrow> Inl e
      | None \<Rightarrow>
          (case validateXrayRefs (db 1) iface st of
             Some e \<Rightarrow> Inl e
           | None \<Rightarrow>
               (let iface' = CanonicalizeInterface iface
                in case validateSetRefs (db 2) iface' st of Some e \<Rightarrow> Inl e | None \<Rightarrow> Inr iface')))"

definition rulesReferencingSet :: "sql_fault \<Rightarrow> string \<Rightarrow> 'k admin \<Rightarrow> admin_error + int list" where
  "rulesReferencingSet db name st =
     (case rule_List db (ad_rows st) of
        Inl e \<Rightarrow> Inl (AdStore e)
      | Inr rs \<Rightarrow> Inr (map rl_ID (filter (\<lambda>r. ParseSetName (rl_Interface r) = name) rs)))"

section \<open>Reload and routes\<close>

text \<open>\<open>Engine.Reload\<close> with its two sources.\<close>

definition engine_reload :: "sql_fault \<Rightarrow> sql_fault \<Rightarrow> 'k admin \<Rightarrow> admin_error option \<times> 'k admin" where
  "engine_reload dbl dbx st =
     (case Reload (map_sum AdStore id (rule_List dbl (ad_rows st))) (Some (map_sum AdXray id (Expansions dbx (ad_sets st) (ad_entries st)))) (ad_engine st) of
        (err, e) \<Rightarrow> (err, st\<lparr>ad_engine := e\<rparr>))"

definition expandIface :: "sql_fault \<Rightarrow> string \<Rightarrow> 'k admin \<Rightarrow> string" where
  "expandIface db iface st =
     (if \<not> IsSetInterface iface then iface
      else case SetExpansions db (ad_sets st) (ad_entries st) of Inl _ \<Rightarrow> iface | Inr exp \<Rightarrow> ExpandSetInterface iface exp)"

definition expandRuleIfaces :: "sql_fault \<Rightarrow> rule list \<Rightarrow> 'k admin \<Rightarrow> rule list" where
  "expandRuleIfaces db rs st =
     (if \<not> list_ex (\<lambda>r. IsSetInterface (rl_Interface r)) rs then rs
      else case SetExpansions db (ad_sets st) (ad_entries st) of
        Inl _ \<Rightarrow> rs
      | Inr exp \<Rightarrow> map (\<lambda>r. r\<lparr>rl_Interface := ExpandSetInterface (rl_Interface r) exp\<rparr>) rs)"

definition rule_egress :: "string \<Rightarrow> string \<Rightarrow> string" where
  "rule_egress tun iface = (if IsProxyInterface iface \<or> IsXrayInterface iface then tun else iface)"

definition pin_rule :: "'k admin_env \<Rightarrow> rule \<Rightarrow> 'k world \<Rightarrow> 'k world" where
  "pin_rule env r w =
     (if rl_Action r \<noteq> ActionRoute \<or> \<not> rl_Enabled r \<or> \<not> IsIPRule (rl_Pattern r) then w
      else let iface = rule_egress (av_tun env) (rl_Interface r) in
        if iface = [] then w else snd (InstallStatic (av_run env) (rl_Pattern r) iface (rl_ID r) w))"

definition reconcileIPRoutes :: "'k admin_env \<Rightarrow> sql_fault \<Rightarrow> sql_fault \<Rightarrow> 'k admin \<Rightarrow> 'k admin" where
  "reconcileIPRoutes env dbl dbx st =
     (case rule_List dbl (ad_rows st) of
        Inl _ \<Rightarrow> st
      | Inr rs \<Rightarrow> st\<lparr>ad_world := fold (pin_rule env) (expandRuleIfaces dbx rs st) (ad_world st)\<rparr>)"

text \<open>\<open>RemoveByRule\<close> of both tables.\<close>

definition forget_rule :: "'k admin_env \<Rightarrow> int \<Rightarrow> 'k admin \<Rightarrow> 'k admin" where
  "forget_rule env i st =
     st\<lparr>ad_world := snd (RemoveRoutesByRule (av_run env) (av_order env (fst (ad_world st))) i (ad_world st)),
        ad_table := snd (RemoveByRule i (ad_table st))\<rparr>"

definition reload_and_pin :: "'k admin_env \<Rightarrow> faults \<Rightarrow> nat \<Rightarrow> 'k admin \<Rightarrow> 'k admin" where
  "reload_and_pin env db k st = reconcileIPRoutes env (db (k + 2)) (db (k + 3)) (snd (engine_reload (db k) (db (k + 1)) st))"

section \<open>Handlers for rules\<close>

definition new_rule :: "string \<Rightarrow> action \<Rightarrow> string \<Rightarrow> bool \<Rightarrow> rule" where
  "new_rule pattern act iface enabled =
     \<lparr>rl_ID = 0, rl_Pattern = pattern, rl_Action = act, rl_Interface = iface, rl_Enabled = enabled, rl_CreatedAt = 0, rl_UpdatedAt = 0\<rparr>"

definition RulesAdd :: "'k admin_env \<Rightarrow> faults \<Rightarrow> string \<Rightarrow> action \<Rightarrow> string \<Rightarrow> bool \<Rightarrow> 'k admin \<Rightarrow> (admin_error + rule) \<times> 'k admin" where
  "RulesAdd env db pattern act iface enabled st =
     (case check_refs db iface st of
        Inl e \<Rightarrow> (Inl e, st)
      | Inr iface' \<Rightarrow>
          (case Add (av_fresh env) (db 3) (av_now env) (new_rule pattern act iface' enabled) (ad_rows st) of
             (Inl e, rows) \<Rightarrow> (Inl (AdStore e), st\<lparr>ad_rows := rows\<rparr>)
           | (Inr r, rows) \<Rightarrow> (Inr r, reload_and_pin env db 4 (st\<lparr>ad_rows := rows\<rparr>))))"

definition RulesUpdate :: "'k admin_env \<Rightarrow> faults \<Rightarrow> int \<Rightarrow> string \<Rightarrow> action \<Rightarrow> string \<Rightarrow> bool \<Rightarrow> 'k admin \<Rightarrow> admin_error option \<times> 'k admin" where
  "RulesUpdate env db i pattern act iface enabled st =
     (case check_refs db iface st of
        Inl e \<Rightarrow> (Some e, st)
      | Inr iface' \<Rightarrow>
          (case rule_Update (db 3) (av_now env) ((new_rule pattern act iface' enabled)\<lparr>rl_ID := i\<rparr>) (ad_rows st) of
             (Some e, rows) \<Rightarrow> (Some (AdStore e), st\<lparr>ad_rows := rows\<rparr>)
           | (None, rows) \<Rightarrow> (None, reload_and_pin env db 4 (forget_rule env i (st\<lparr>ad_rows := rows\<rparr>)))))"

definition RulesDelete :: "'k admin_env \<Rightarrow> faults \<Rightarrow> int \<Rightarrow> 'k admin \<Rightarrow> admin_error option \<times> 'k admin" where
  "RulesDelete env db i st =
     (let st1 = forget_rule env i st in
      case rule_Delete (db 0) i (ad_rows st1) of
        (Some e, rows) \<Rightarrow> (Some (AdStore e), st1\<lparr>ad_rows := rows\<rparr>)
      | (None, rows) \<Rightarrow> (None, snd (engine_reload (db 1) (db 2) (st1\<lparr>ad_rows := rows\<rparr>))))"

fun bulk_loop :: "'k admin_env \<Rightarrow> faults \<Rightarrow> nat \<Rightarrow> action \<Rightarrow> string \<Rightarrow> int list \<Rightarrow> int list \<Rightarrow> 'k admin \<Rightarrow> (admin_error + int list) \<times> 'k admin" where
  "bulk_loop env db k act iface [] touched st = (Inr touched, st)"
| "bulk_loop env db k act iface (i # is) touched st =
     (case rule_Get (db k) i (ad_rows st) of
        Inl e \<Rightarrow> if e = RuleErr ErrNotFound then bulk_loop env db (k + 2) act iface is touched st else (Inl (AdStore e), st)
      | Inr r \<Rightarrow>
          (case rule_Update (db (k + 1)) (av_now env) (r\<lparr>rl_Action := act, rl_Interface := iface\<rparr>) (ad_rows st) of
             (Some e, rows) \<Rightarrow> (Inl (AdStore e), st\<lparr>ad_rows := rows\<rparr>)
           | (None, rows) \<Rightarrow> bulk_loop env db (k + 2) act iface is (touched @ [rl_ID r]) (forget_rule env (rl_ID r) (st\<lparr>ad_rows := rows\<rparr>))))"

definition RulesBulkUpdate :: "'k admin_env \<Rightarrow> faults \<Rightarrow> int list \<Rightarrow> action \<Rightarrow> string \<Rightarrow> 'k admin \<Rightarrow> (admin_error + int list) \<times> 'k admin" where
  "RulesBulkUpdate env db ids act iface0 st =
     (if ids = [] then (Inl NoRuleIDs, st)
      else if act = ActionRoute \<and> TrimSpace iface0 = [] then (Inl RouteNeedsInterface, st)
      else
        (let iface1 = (if act = ActionBlock then [] else iface0) in
         case check_refs db iface1 st of
           Inl e \<Rightarrow> (Inl e, st)
         | Inr iface \<Rightarrow>
             (case bulk_loop env db 7 act iface ids [] st of
                (Inl e, st1) \<Rightarrow> (Inl e, st1)
              | (Inr touched, st1) \<Rightarrow> (Inr touched, reload_and_pin env db 3 st1))))"

section \<open>Handlers for groups\<close>

definition resolveGroupPatterns :: "cache_codec \<Rightarrow> Group list \<Rightarrow> sql_fault \<Rightarrow> string \<Rightarrow> CustomGroup list \<Rightarrow> settings \<Rightarrow> admin_error + string list" where
  "resolveGroupPatterns cc known db key customs s =
     (if HasPrefix key CustomGroupPrefix
      then (case GetCustomGroup db key customs of Inl e \<Rightarrow> Inl (AdStore e) | Inr g \<Rightarrow> Inr (cg_Patterns g))
      else (case FindByKey known key of None \<Rightarrow> Inl (UnknownGroup key) | Some g \<Rightarrow> Inr (effectiveGroupPatterns cc db g s)))"

record GroupsApplyResult =
  ga_Created :: "rule list"
  ga_Skipped :: "string list"

definition no_result :: GroupsApplyResult where "no_result = \<lparr>ga_Created = [], ga_Skipped = []\<rparr>"

fun add_patterns :: "'k admin_env \<Rightarrow> faults \<Rightarrow> nat \<Rightarrow> (string \<Rightarrow> rule) \<Rightarrow> string list \<Rightarrow> GroupsApplyResult \<Rightarrow> 'k admin \<Rightarrow>
    (admin_error + GroupsApplyResult) \<times> 'k admin" where
  "add_patterns env db k mk [] out st = (Inr out, st)"
| "add_patterns env db k mk (p # ps) out st =
     (case Add (av_fresh env) (db k) (av_now env) (mk p) (ad_rows st) of
        (Inr r, rows) \<Rightarrow> add_patterns env db (k + 1) mk ps (out\<lparr>ga_Created := ga_Created out @ [r]\<rparr>) (st\<lparr>ad_rows := rows\<rparr>)
      | (Inl e, rows) \<Rightarrow>
          if e = RuleErr ErrDuplicate
          then add_patterns env db (k + 1) mk ps (out\<lparr>ga_Skipped := ga_Skipped out @ [p]\<rparr>) (st\<lparr>ad_rows := rows\<rparr>)
          else (Inl (AdStore e), st\<lparr>ad_rows := rows\<rparr>))"

text \<open>\<open>probe\<close> is a variable of the handler; \<open>store.Add\<close> takes it by value, so its \<open>ID\<close> stays zero. The result of
  \<open>resolveGroupPatterns\<close> is an argument of the group handlers.\<close>

definition apply_error :: "store_error + rule \<Rightarrow> store_error option" where
  "apply_error res = (case res of Inl e \<Rightarrow> if e = RuleErr ErrDuplicate then None else Some e | Inr _ \<Rightarrow> None)"

definition GroupsApply :: "'k admin_env \<Rightarrow> faults \<Rightarrow> admin_error + string list \<Rightarrow> action \<Rightarrow> string \<Rightarrow> bool \<Rightarrow> 'k admin \<Rightarrow>
    (admin_error + GroupsApplyResult) \<times> 'k admin" where
  "GroupsApply env db resolved act iface enabled st =
     (case resolved of
        Inl e \<Rightarrow> (Inl e, st)
      | Inr [] \<Rightarrow> (Inr no_result, st)
      | Inr (p0 # rest) \<Rightarrow>
          (let probe = new_rule p0 act iface enabled in
           case Add (av_fresh env) (db 4) (av_now env) probe (ad_rows st) of
             (res, rows) \<Rightarrow>
               (case apply_error res of
                  Some e \<Rightarrow> (Inl (AdStore e), st\<lparr>ad_rows := rows\<rparr>)
                | None \<Rightarrow>
                    (let out = (if 0 < rl_ID probe then no_result\<lparr>ga_Created := [probe]\<rparr> else no_result\<lparr>ga_Skipped := [p0]\<rparr>) in
                     case add_patterns env db 5 (\<lambda>p. new_rule p act iface enabled) rest out (st\<lparr>ad_rows := rows\<rparr>) of
                       (Inl e, st1) \<Rightarrow> (Inl e, st1)
                     | (Inr out', st1) \<Rightarrow> (Inr out', reload_and_pin env db 0 st1)))))"

definition syncGroup :: "'k admin_env \<Rightarrow> faults \<Rightarrow> string \<Rightarrow> admin_error + string list \<Rightarrow> action \<Rightarrow> string \<Rightarrow> 'k admin \<Rightarrow>
    (admin_error + GroupsApplyResult) \<times> 'k admin" where
  "syncGroup env db key resolved act iface st =
     (case resolved of
        Inl e \<Rightarrow> (Inl e, st)
      | Inr pats \<Rightarrow>
          (case rule_List (db 4) (ad_rows st) of
             Inl e \<Rightarrow> (Inl (AdStore e), st)
           | Inr stored \<Rightarrow>
               (let missing = missingGroupPatterns pats stored in
                if missing = [] then (Inr no_result, st)
                else case groupRuleShape pats stored of
                  None \<Rightarrow> (Inl (GroupNotApplied key), st)
                | Some (a0, i0, en) \<Rightarrow>
                    (let (a, i) = (if act \<noteq> [] then (act, iface) else (a0, i0)) in
                     case add_patterns env db 5 (\<lambda>p. new_rule p a i en) missing no_result st of
                       (Inl e, st1) \<Rightarrow> (Inl e, st1)
                     | (Inr out, st1) \<Rightarrow> (Inr out, if ga_Created out \<noteq> [] then reload_and_pin env db 0 st1 else st1)))))"

definition matchingRuleIDs :: "sql_fault \<Rightarrow> string list \<Rightarrow> 'k admin \<Rightarrow> admin_error + int list" where
  "matchingRuleIDs db pats st =
     (case rule_List db (ad_rows st) of
        Inl e \<Rightarrow> Inl (AdStore e)
      | Inr rs \<Rightarrow> Inr (map rl_ID (filter (\<lambda>r. ruleBelongsToGroup (rl_Pattern r) pats) rs)))"

fun delete_loop :: "'k admin_env \<Rightarrow> faults \<Rightarrow> nat \<Rightarrow> int list \<Rightarrow> int list \<Rightarrow> 'k admin \<Rightarrow> int list \<times> 'k admin" where
  "delete_loop env db k [] deleted st = (deleted, st)"
| "delete_loop env db k (i # is) deleted st =
     (let st1 = forget_rule env i st in
      case rule_Delete (db k) i (ad_rows st1) of
        (Some e, rows) \<Rightarrow> delete_loop env db (k + 1) is deleted (st1\<lparr>ad_rows := rows\<rparr>)
      | (None, rows) \<Rightarrow> delete_loop env db (k + 1) is (deleted @ [i]) (st1\<lparr>ad_rows := rows\<rparr>))"

definition GroupsDeleteRules :: "'k admin_env \<Rightarrow> faults \<Rightarrow> admin_error + string list \<Rightarrow> 'k admin \<Rightarrow> (admin_error + int list) \<times> 'k admin" where
  "GroupsDeleteRules env db resolved st =
     (case resolved of
        Inl e \<Rightarrow> (Inl e, st)
      | Inr pats \<Rightarrow>
          (case matchingRuleIDs (db 0) pats st of
             Inl e \<Rightarrow> (Inl e, st)
           | Inr ids \<Rightarrow>
               (case delete_loop env db 3 ids [] st of
                  (deleted, st1) \<Rightarrow> (Inr deleted, snd (engine_reload (db 1) (db 2) st1)))))"

fun enable_loop :: "'k admin_env \<Rightarrow> faults \<Rightarrow> nat \<Rightarrow> string list \<Rightarrow> bool \<Rightarrow> rule list \<Rightarrow> int list \<Rightarrow> 'k admin \<Rightarrow> int list \<times> 'k admin" where
  "enable_loop env db k pats en [] touched st = (touched, st)"
| "enable_loop env db k pats en (r # rs) touched st =
     (if \<not> ruleBelongsToGroup (rl_Pattern r) pats \<or> rl_Enabled r = en then enable_loop env db k pats en rs touched st
      else case rule_Update (db k) (av_now env) (r\<lparr>rl_Enabled := en\<rparr>) (ad_rows st) of
        (Some e, rows) \<Rightarrow> enable_loop env db (k + 1) pats en rs touched (st\<lparr>ad_rows := rows\<rparr>)
      | (None, rows) \<Rightarrow>
          (let st1 = st\<lparr>ad_rows := rows\<rparr>
           in enable_loop env db (k + 1) pats en rs (touched @ [rl_ID r]) (if en then st1 else forget_rule env (rl_ID r) st1)))"

definition GroupsSetEnabled :: "'k admin_env \<Rightarrow> faults \<Rightarrow> admin_error + string list \<Rightarrow> bool \<Rightarrow> 'k admin \<Rightarrow> (admin_error + int list) \<times> 'k admin" where
  "GroupsSetEnabled env db resolved en st =
     (case resolved of
        Inl e \<Rightarrow> (Inl e, st)
      | Inr pats \<Rightarrow>
          (case rule_List (db 0) (ad_rows st) of
             Inl e \<Rightarrow> (Inl (AdStore e), st)
           | Inr all \<Rightarrow>
               (case enable_loop env db 3 pats en all [] st of
                  (touched, st1) \<Rightarrow> (Inr touched, snd (engine_reload (db 1) (db 2) st1)))))"

section \<open>Refreshing a dynamic group\<close>

definition feed_members :: "string list \<Rightarrow> string list \<Rightarrow> rule list \<Rightarrow> rule list" where
  "feed_members before next_pats all =
     filter (\<lambda>r. IsIPRule (rl_Pattern r) \<and> (let p = normalizeGroupPattern (rl_Pattern r) in p \<in> set before \<or> p \<in> set next_pats)) all"

fun add_prefixes :: "'k admin_env \<Rightarrow> faults \<Rightarrow> nat \<Rightarrow> rule \<Rightarrow> string set \<Rightarrow> string list \<Rightarrow> nat \<Rightarrow> 'k admin \<Rightarrow> nat \<times> 'k admin" where
  "add_prefixes env db k tpl have1 [] added st = (added, st)"
| "add_prefixes env db k tpl have1 (p # ps) added st =
     (if p \<in> have1 then add_prefixes env db k tpl have1 ps added st
      else case Add (av_fresh env) (db k) (av_now env) (new_rule p (rl_Action tpl) (rl_Interface tpl) (rl_Enabled tpl)) (ad_rows st) of
        (Inl e, rows) \<Rightarrow> add_prefixes env db (k + 1) tpl have1 ps added (st\<lparr>ad_rows := rows\<rparr>)
      | (Inr r, rows) \<Rightarrow> add_prefixes env db (k + 1) tpl have1 ps (added + 1) (st\<lparr>ad_rows := rows\<rparr>))"

definition reconcileDynamicGroupRules :: "'k admin_env \<Rightarrow> faults \<Rightarrow> faults \<Rightarrow> string list \<Rightarrow> string list \<Rightarrow> 'k admin \<Rightarrow> (nat \<times> nat) \<times> 'k admin" where
  "reconcileDynamicGroupRules env db ddb before next_pats st =
     (case rule_List (db 4) (ad_rows st) of
        Inl _ \<Rightarrow> ((0, 0), st)
      | Inr all \<Rightarrow>
          (case feed_members before next_pats all of
             [] \<Rightarrow> ((0, 0), st)
           | tpl # rest \<Rightarrow>
               (let members = tpl # rest;
                    (added, st1) = add_prefixes env db 5 tpl (normalizeGroupPattern ` rl_Pattern ` set members) next_pats 0 st;
                    gone = map rl_ID (filter (\<lambda>r. normalizeGroupPattern (rl_Pattern r) \<notin> set next_pats) members);
                    (deleted, st2) = delete_loop env ddb 0 gone [] st1
                in ((added, length deleted), if 0 < added \<or> deleted \<noteq> [] then reload_and_pin env db 0 st2 else st2))))"

datatype refresh_error = NotDynamic string | FetchFailed string | ExcludeFailed string | ParseFailed feed_error

definition stamp_error :: "time \<Rightarrow> string \<Rightarrow> string \<Rightarrow> dynamicGroupCache \<Rightarrow> dynamicGroupCache" where
  "stamp_error now url err prev = \<lparr>dg_Patterns = dg_Patterns prev, dg_FetchedAt = now, dg_Source = url, dg_Error = err\<rparr>"

text \<open>\<open>fetch\<close> is the outcome of a download, \<open>text\<close> the message of an error.\<close>

definition refreshDynamicGroup :: "'k admin_env \<Rightarrow> faults \<Rightarrow> faults \<Rightarrow> cache_codec \<Rightarrow> (string \<Rightarrow> string + ipRangeFeed) \<Rightarrow> (string \<Rightarrow> string + string) \<Rightarrow>
    (feed_error \<Rightarrow> string) \<Rightarrow> Group \<Rightarrow> settings \<times> 'k admin \<Rightarrow> (refresh_error + nat \<times> nat) \<times> settings \<times> 'k admin" where
  "refreshDynamicGroup env db ddb cc decode fetch msg g s0 =
     (case (gr_Dynamic g, s0) of
        (None, _) \<Rightarrow> (Inl (NotDynamic (gr_Key g)), s0)
      | (Some src, s, st) \<Rightarrow>
          (let prev = dynamicGroupCached cc (ddb 0) (gr_Key g) s;
               save = (\<lambda>c. saveDynamicGroupCache cc (ddb 1) (gr_Key g) c s);
               failed = (\<lambda>err. stamp_error (av_now env) (dy_URL src) err prev)
           in case fetch (dy_URL src) of
                Inl e \<Rightarrow> (Inl (FetchFailed e), save (failed e), st)
              | Inr feed \<Rightarrow>
                  (case (if dy_ExcludeURL src \<noteq> [] then fetch (dy_ExcludeURL src) else Inr []) of
                     Inl e \<Rightarrow> (Inl (ExcludeFailed e), save (failed (''exclusion feed: '' @ e)), st)
                   | Inr exclude \<Rightarrow>
                       (case feed_Parse decode (Some src) feed exclude of
                          Inl e \<Rightarrow> (Inl (ParseFailed e), save (failed (msg e)), st)
                        | Inr next_pats \<Rightarrow>
                            (let before = (if dg_Patterns prev = [] then gr_Patterns g else dg_Patterns prev);
                                 (counts, st1) = reconcileDynamicGroupRules env db (\<lambda>i. ddb (i + 2)) before next_pats st
                             in (Inr counts,
                                 save \<lparr>dg_Patterns = next_pats, dg_FetchedAt = av_now env, dg_Source = dy_URL src, dg_Error = []\<rparr>, st1))))))"

section \<open>The engine follows the tables, and nothing is owned by a rule that is gone\<close>

definition calm :: faults where "calm = (\<lambda>_. no_fault)"

lemma calm_at [simp]: "calm k = no_fault"
  by (simp add: calm_def)

definition orders_ok :: "(Manager \<Rightarrow> order) \<Rightarrow> bool" where
  "orders_ok enum \<longleftrightarrow> (\<forall>m. finite (dom (mg_routes m)) \<longrightarrow> enumerates (enum m) (mg_routes m))"

definition row_ids :: "'k admin \<Rightarrow> int set" where "row_ids st = rl_ID ` set (ad_rows st)"

definition owned :: "int set \<Rightarrow> 'k admin \<Rightarrow> bool" where
  "owned ids st \<longleftrightarrow> finite (dom (mg_routes (fst (ad_world st)))) \<and> table_inv (ad_table st) \<and>
     (\<forall>e\<in>ran (mg_routes (fst (ad_world st))). rt_ruleID e \<in> ids) \<and> (\<forall>e\<in>ran (tb_byIP (ad_table st)). en_RuleID e \<in> ids)"

definition compiled :: "'k admin \<Rightarrow> index" where
  "compiled st = (case Expansions no_fault (ad_sets st) (ad_entries st) of
     Inr m \<Rightarrow> NewIndex (map (rewrite_iface m) (sort_key rl_Pattern (ad_rows st))) | Inl _ \<Rightarrow> NewIndex [])"

definition admin_soft :: "'k admin \<Rightarrow> bool" where
  "admin_soft st \<longleftrightarrow> rules_ok (ad_rows st) \<and> owned (row_ids st) st"

definition admin_inv :: "'k admin \<Rightarrow> bool" where
  "admin_inv st \<longleftrightarrow> admin_soft st \<and> en_cache (ad_engine st) = compiled st"

definition env_ok :: "'k admin_env \<Rightarrow> bool" where
  "env_ok env \<longleftrightarrow> fresh_ids (av_fresh env) \<and> orders_ok (av_order env)"

lemma expansions_calm: obtains m where "Expansions no_fault sets es = Inr m"
  by (simp add: Expansions_def SetExpansions_def ListSets_def xray_List_def no_fault_def)

lemma owned_mono: "owned ids st \<Longrightarrow> ids \<subseteq> ids' \<Longrightarrow> owned ids' st"
  by (auto simp: owned_def)

lemma owned_rows [simp]: "owned ids (st\<lparr>ad_rows := rows\<rparr>) = owned ids st" "owned ids (st\<lparr>ad_engine := e\<rparr>) = owned ids st"
  by (simp_all add: owned_def)

lemma row_ids_rows [simp]: "row_ids (st\<lparr>ad_rows := rows\<rparr>) = rl_ID ` set rows"
  by (simp add: row_ids_def)

lemma engine_fields [simp]: "compiled (st\<lparr>ad_engine := e\<rparr>) = compiled st" "row_ids (st\<lparr>ad_engine := e\<rparr>) = row_ids st"
  by (simp_all add: compiled_def row_ids_def split: sum.split)

lemma soft_rows: "admin_soft st \<Longrightarrow> rules_ok rows \<Longrightarrow> row_ids st \<subseteq> rl_ID ` set rows \<Longrightarrow> admin_soft (st\<lparr>ad_rows := rows\<rparr>)"
  by (auto simp: admin_soft_def intro: owned_mono)

lemma forget_fields [simp]:
  "ad_rows (forget_rule env i st) = ad_rows st" "ad_engine (forget_rule env i st) = ad_engine st"
  "compiled (forget_rule env i st) = compiled st" "row_ids (forget_rule env i st) = row_ids st"
  by (simp_all add: forget_rule_def compiled_def row_ids_def cong: sum.case_cong)

lemma owned_forget:
  assumes "orders_ok (av_order env)" "owned ids st"
  shows "owned (ids - {i}) (forget_rule env i st)"
proof -
  let ?w = "ad_world st" and ?w' = "snd (RemoveRoutesByRule (av_run env) (av_order env (fst (ad_world st))) i (ad_world st))"
  have "enumerates (av_order env (fst ?w)) (mg_routes (fst ?w))" using assms by (simp add: orders_ok_def owned_def)
  note r = routes_RemoveByRule_exact [OF this, of "av_run env" i]
  have t: "table_inv (ad_table st)" using assms(2) by (simp add: owned_def)
  have "dom (mg_routes (fst ?w')) \<subseteq> dom (mg_routes (fst ?w))" by (auto simp: r split: option.splits if_splits)
  then have "finite (dom (mg_routes (fst ?w')))" using assms(2) finite_subset by (auto simp: owned_def)
  moreover have "\<forall>e\<in>ran (mg_routes (fst ?w')). rt_ruleID e \<in> ids - {i}"
    using assms(2) by (auto simp: ran_def r owned_def split: option.splits if_splits)
  moreover have "\<forall>e\<in>ran (tb_byIP (snd (RemoveByRule i (ad_table st)))). en_RuleID e \<in> ids - {i}"
    using assms(2) by (auto simp: ran_def RemoveByRule_spec(2) [OF t] owned_def split: option.splits if_splits)
  ultimately show ?thesis using RemoveByRule_spec(1) [OF t] by (simp add: owned_def forget_rule_def)
qed

lemma soft_forget: "orders_ok (av_order env) \<Longrightarrow> admin_soft st \<Longrightarrow> admin_soft (forget_rule env i st)"
  by (auto simp: admin_soft_def intro: owned_mono [OF owned_forget])

lemma InstallStatic_tracked:
  assumes "InstallStatic run dest iface i w = (err, w')"
  obtains "mg_routes (fst w') = mg_routes (fst w)"
  | h e where "mg_routes (fst w') = (mg_routes (fst w))(h \<mapsto> e)" "rt_ruleID e = i"
  using assms by (cases w) (auto simp: InstallStatic_def Let_def track_def split: if_splits sum.splits prod.splits option.splits)

lemma owned_install:
  assumes "owned ids st" "i \<in> ids"
    and "mg_routes (fst w) = mg_routes (fst (ad_world st)) \<or> (\<exists>h e. mg_routes (fst w) = (mg_routes (fst (ad_world st)))(h \<mapsto> e) \<and> rt_ruleID e = i)"
  shows "owned ids (st\<lparr>ad_world := w\<rparr>)"
proof -
  have "e \<in> ran (mg_routes (fst (ad_world st))) \<or> rt_ruleID e = i" if "e \<in> ran (mg_routes (fst w))" for e
    using assms(3) that by (auto simp: ran_def split: if_splits)
  moreover have "finite (dom (mg_routes (fst w)))" using assms(1,3) by (auto simp: owned_def)
  ultimately show ?thesis using assms(1,2) by (auto simp: owned_def)
qed

lemma owned_pin:
  assumes "owned ids st" "rl_ID r \<in> ids"
  shows "owned ids (st\<lparr>ad_world := pin_rule env r (ad_world st)\<rparr>)"
proof -
  obtain err w' where i: "InstallStatic (av_run env) (rl_Pattern r) (rule_egress (av_tun env) (rl_Interface r)) (rl_ID r) (ad_world st) = (err, w')" by (rule prod.exhaust)
  have "owned ids (st\<lparr>ad_world := w'\<rparr>)" by (rule owned_install [OF assms]) (use i in \<open>cases rule: InstallStatic_tracked; blast\<close>)
  then show ?thesis using assms(1) i by (simp add: pin_rule_def Let_def)
qed

lemma owned_pins: "owned ids st \<Longrightarrow> rl_ID ` set rs \<subseteq> ids \<Longrightarrow> owned ids (st\<lparr>ad_world := fold (pin_rule env) rs (ad_world st)\<rparr>)"
proof (induction rs arbitrary: st)
  case (Cons r rs)
  have "owned ids (st\<lparr>ad_world := pin_rule env r (ad_world st)\<rparr>)" by (rule owned_pin) (use Cons.prems in simp_all)
  from Cons.IH [OF this] show ?case using Cons.prems by simp
qed simp

lemma expand_ids: "rl_ID ` set (expandRuleIfaces db rs st) = rl_ID ` set rs"
  by (force simp: expandRuleIfaces_def image_image split: sum.splits)

lemma reconcile_fields [simp]:
  "ad_rows (reconcileIPRoutes env dbl dbx st) = ad_rows st" "ad_engine (reconcileIPRoutes env dbl dbx st) = ad_engine st"
  "compiled (reconcileIPRoutes env dbl dbx st) = compiled st" "row_ids (reconcileIPRoutes env dbl dbx st) = row_ids st"
  by (simp_all add: reconcileIPRoutes_def compiled_def row_ids_def split: sum.split)

lemma soft_reconcile: "admin_soft st \<Longrightarrow> admin_soft (reconcileIPRoutes env dbl dbx st)"
proof -
  assume s: "admin_soft st"
  have "owned (row_ids st) (reconcileIPRoutes env dbl dbx st)"
  proof (cases "rule_List dbl (ad_rows st)")
    case (Inr rs)
    then have "rl_ID ` set rs = row_ids st" by (auto simp: rule_List_def row_ids_def split: option.splits)
    then show ?thesis using s Inr owned_pins [of "row_ids st" st "expandRuleIfaces dbx rs st" env] expand_ids [of dbx rs st]
      by (simp add: reconcileIPRoutes_def admin_soft_def)
  qed (use s in \<open>simp add: reconcileIPRoutes_def admin_soft_def\<close>)
  then show ?thesis using s by (simp add: admin_soft_def)
qed

lemma reload_calm: "snd (engine_reload no_fault no_fault st) = st\<lparr>ad_engine := (ad_engine st)\<lparr>en_cache := compiled st\<rparr>\<rparr>"
proof -
  obtain m where "Expansions no_fault (ad_sets st) (ad_entries st) = Inr m" by (rule expansions_calm)
  then show ?thesis by (simp add: engine_reload_def Reload_def rule_List_def no_fault_def compiled_def)
qed

lemma inv_reload: "admin_soft st \<Longrightarrow> admin_inv (snd (engine_reload no_fault no_fault st))"
  by (simp add: reload_calm admin_inv_def admin_soft_def)

lemma inv_reload_and_pin: "admin_soft st \<Longrightarrow> admin_inv (reload_and_pin env calm k st)"
  using inv_reload [of st] soft_reconcile by (auto simp: reload_and_pin_def calm_def admin_inv_def)

text \<open>What the store calls leave when no statement fails.\<close>

lemma Add_calm:
  assumes "fresh_ids fresh" "Add fresh no_fault now r rows = (res, rows')"
  shows "case res of Inl _ \<Rightarrow> rows' = rows | Inr r' \<Rightarrow> rows' = rows @ [r'] \<and> rl_Pattern r' = normalize (rl_Pattern r)"
  using assms by (cases rule: Add_cases) (auto simp: no_fault_def added_rule_def)

lemma Update_calm:
  assumes "rule_Update no_fault now r rows = (err, rows')"
  shows "rl_ID ` set rows' = rl_ID ` set rows" "err \<noteq> None \<Longrightarrow> rows' = rows"
proof -
  show "rows' = rows" if "err \<noteq> None"
    using assms that by (auto simp: rule_Update_def no_fault_def sql_write_def update_where_def rows_affected_def filter_empty_conv map_idI
        split: option.splits sum.splits if_splits)
  show "rl_ID ` set rows' = rl_ID ` set rows"
  proof (cases "normalizeAction r")
    case (Inr r1)
    let ?g = "\<lambda>x. x\<lparr>rl_Pattern := normalize (rl_Pattern r1), rl_Action := rl_Action r1, rl_Interface := rl_Interface r1,
             rl_Enabled := rl_Enabled r1, rl_UpdatedAt := now\<rparr>"
    have "rows' = rows \<or> rows' = update_where (\<lambda>x. rl_ID x = rl_ID r1) ?g rows"
      using assms Inr by (auto simp: rule_Update_def no_fault_def sql_write_def split: option.splits if_splits)
    moreover have "map rl_ID (update_where (\<lambda>x. rl_ID x = rl_ID r1) ?g rows) = map rl_ID rows" by (simp add: update_where_def)
    ultimately show ?thesis by (metis list.set_map)
  qed (use assms in \<open>auto simp: rule_Update_def split: option.splits\<close>)
qed

lemma Delete_calm:
  assumes "rule_Delete no_fault i rows = (err, rows')"
  shows "rl_ID ` set rows' = rl_ID ` set rows - {i}" "err \<noteq> None \<Longrightarrow> rows' = rows"
  using assms by (auto simp: rule_Delete_def no_fault_def sql_write_def delete_where_def rows_affected_def filter_empty_conv split: if_splits intro!: filter_True)

lemma soft_add:
  assumes "fresh_ids fresh" "admin_soft st" "Add fresh no_fault now r (ad_rows st) = (res, rows)"
  shows "admin_soft (st\<lparr>ad_rows := rows\<rparr>)"
proof (rule soft_rows [OF assms(2)])
  show "rules_ok rows" using Add_ok [OF assms(1) _ assms(3)] assms(2) by (simp add: admin_soft_def)
  show "row_ids st \<subseteq> rl_ID ` set rows" using Add_calm [OF assms(1,3)] by (auto simp: row_ids_def split: sum.splits)
qed

lemma soft_update:
  assumes "admin_soft st" "rule_Update no_fault now r (ad_rows st) = (err, rows)"
  shows "admin_soft (st\<lparr>ad_rows := rows\<rparr>)"
  by (rule soft_rows [OF assms(1)]) (use Update_ok [OF _ assms(2)] Update_calm(1) [OF assms(2)] assms(1) in \<open>simp_all add: admin_soft_def row_ids_def\<close>)

lemma soft_delete:
  assumes "orders_ok (av_order env)" "admin_soft st" "rule_Delete no_fault i (ad_rows st) = (err, rows)"
  shows "admin_soft ((forget_rule env i st)\<lparr>ad_rows := rows\<rparr>)"
proof -
  have "rules_ok rows" using Delete_ok(1) [of "ad_rows st" no_fault i] assms(2,3) by (simp add: admin_soft_def)
  moreover have "owned (rl_ID ` set rows) (forget_rule env i st)"
    using owned_forget [OF assms(1), of "row_ids st" st i] assms(2) Delete_calm(1) [OF assms(3)] by (simp add: admin_soft_def row_ids_def)
  ultimately show ?thesis by (simp add: admin_soft_def)
qed

lemma soft_bulk: "orders_ok (av_order env) \<Longrightarrow> admin_soft st \<Longrightarrow> bulk_loop env calm k act iface is touched st = (res, st') \<Longrightarrow> admin_soft st'"
proof (induction "is" arbitrary: k touched st)
  case (Cons i "is")
  show ?case
  proof (cases "rule_Get no_fault i (ad_rows st)")
    case (Inr r)
    obtain err rows where u: "rule_Update no_fault (av_now env) (r\<lparr>rl_Action := act, rl_Interface := iface\<rparr>) (ad_rows st) = (err, rows)"
      by (rule prod.exhaust)
    note s = soft_update [OF Cons.prems(2) u]
    show ?thesis using Cons.prems(3) Inr u s Cons.IH [OF Cons.prems(1) soft_forget [OF Cons.prems(1) s]] by (cases err) (auto simp: calm_def)
  qed (use Cons in \<open>auto simp: calm_def split: if_splits\<close>)
qed simp

lemma soft_patterns:
  "fresh_ids (av_fresh env) \<Longrightarrow> admin_soft st \<Longrightarrow> add_patterns env calm k mk ps out st = (res, st') \<Longrightarrow> admin_soft st'"
proof (induction ps arbitrary: k out st)
  case (Cons p ps)
  then show ?case by (auto simp: calm_def split: sum.splits prod.splits if_splits dest: soft_add)
qed simp

lemma soft_delete_loop: "orders_ok (av_order env) \<Longrightarrow> admin_soft st \<Longrightarrow> delete_loop env calm k is deleted st = (d, st') \<Longrightarrow> admin_soft st'"
proof (induction "is" arbitrary: k deleted st)
  case (Cons i "is")
  then show ?case by (auto simp: calm_def Let_def split: prod.splits option.splits dest: soft_delete)
qed simp

lemma soft_enable_loop:
  "orders_ok (av_order env) \<Longrightarrow> admin_soft st \<Longrightarrow> enable_loop env calm k pats en rs touched st = (d, st') \<Longrightarrow> admin_soft st'"
proof (induction rs arbitrary: k touched st)
  case (Cons r rs)
  obtain err rows where u: "rule_Update no_fault (av_now env) (r\<lparr>rl_Enabled := en\<rparr>) (ad_rows st) = (err, rows)" by (rule prod.exhaust)
  note s = soft_update [OF Cons.prems(2) u]
  show ?case using Cons.prems(2,3) u s Cons.IH [OF Cons.prems(1) soft_forget [OF Cons.prems(1) s]] Cons.IH [OF Cons.prems(1)]
    by (cases err) (auto simp: calm_def Let_def split: if_splits)
qed simp

lemma soft_prefixes:
  "fresh_ids (av_fresh env) \<Longrightarrow> admin_soft st \<Longrightarrow> add_prefixes env calm k tpl have1 ps n st = (m, st') \<Longrightarrow> admin_soft st'"
proof (induction ps arbitrary: k n st)
  case (Cons p ps)
  then show ?case by (auto simp: calm_def split: sum.splits prod.splits if_splits dest: soft_add)
qed simp

lemma Validate_no_duplicate: "Validate p \<noteq> Some ErrDuplicate"
proof -
  have "validate_labels ls \<noteq> Some ErrDuplicate" for ls by (induction ls) auto
  then show ?thesis by (auto simp: Validate_def Let_def)
qed

text \<open>Loops that change nothing when they report nothing.\<close>

lemma patterns_rows:
  assumes "fresh_ids (av_fresh env)"
  shows "rules_uniq (ad_rows st) \<Longrightarrow> add_patterns env calm k mk ps out st = (Inr out', st') \<Longrightarrow>
    \<exists>xs. ga_Created out' = ga_Created out @ xs \<and> st' = st\<lparr>ad_rows := ad_rows st @ xs\<rparr>
      \<and> (\<forall>p\<in>set ps. normalize (rl_Pattern (mk p)) \<in> rl_Pattern ` set (ad_rows st @ xs))"
proof (induction ps arbitrary: k out st)
  case Nil
  then show ?case by (intro exI [of _ "[]"]) simp
next
  case (Cons p ps)
  obtain res rows where a: "Add (av_fresh env) no_fault (av_now env) (mk p) (ad_rows st) = (res, rows)" by (rule prod.exhaust)
  let ?st = "st\<lparr>ad_rows := rows\<rparr>"
  from assms a have u: "rules_uniq rows \<and> (case res of Inr r \<Rightarrow> rows = ad_rows st @ [r] \<and> rl_Pattern r = normalize (rl_Pattern (mk p))
      | Inl e \<Rightarrow> rows = ad_rows st \<and> (e = RuleErr ErrDuplicate \<longrightarrow> normalize (rl_Pattern (mk p)) \<in> rl_Pattern ` set (ad_rows st)))"
    by (cases rule: Add_cases) (use Cons.prems(1) Validate_no_duplicate in \<open>auto simp: no_fault_def added_rule_def rules_uniq_def normalizeAction_def split: if_splits\<close>)
  obtain out1 k1 where l: "add_patterns env calm k1 mk ps out1 ?st = (Inr out', st')"
    "ga_Created out1 = ga_Created out @ (case res of Inr r \<Rightarrow> [r] | Inl _ \<Rightarrow> [])" "res = Inl e \<Longrightarrow> e = RuleErr ErrDuplicate" for e
    using Cons.prems(2) a by (auto simp: calm_def split: sum.splits if_splits)
  obtain xs where xs: "ga_Created out' = ga_Created out1 @ xs" "st' = ?st\<lparr>ad_rows := rows @ xs\<rparr>"
    "\<forall>p\<in>set ps. normalize (rl_Pattern (mk p)) \<in> rl_Pattern ` set (rows @ xs)"
    using Cons.IH [OF _ l(1)] u by auto
  show ?case
  proof (cases res)
    case (Inl e)
    then show ?thesis using xs u l(2,3) by (intro exI [of _ xs]) auto
  next
    case (Inr r)
    then show ?thesis using xs u l(2) by (intro exI [of _ "r # xs"]) auto
  qed
qed

lemma prefixes_count:
  assumes "fresh_ids (av_fresh env)"
  shows "add_prefixes env calm k tpl have1 ps n st = (m, st') \<Longrightarrow> n \<le> m \<and> ad_engine st' = ad_engine st \<and> (m = n \<longrightarrow> st' = st)"
proof (induction ps arbitrary: k n st)
  case (Cons p ps)
  obtain res rows where a: "Add (av_fresh env) no_fault (av_now env) (new_rule p (rl_Action tpl) (rl_Interface tpl) (rl_Enabled tpl)) (ad_rows st) = (res, rows)"
    by (rule prod.exhaust)
  show ?case
  proof (cases "p \<in> have1")
    case False
    then show ?thesis using Cons.prems Cons.IH a Add_calm [OF assms a] by (cases res) (fastforce simp: calm_def)+
  qed (use Cons in auto)
qed simp

lemma delete_loop_count:
  "delete_loop env calm k is deleted st = (d, st') \<Longrightarrow>
    length deleted \<le> length d \<and> ad_engine st' = ad_engine st \<and> ad_sets st' = ad_sets st \<and> ad_entries st' = ad_entries st
      \<and> (length d = length deleted \<longrightarrow> ad_rows st' = ad_rows st)"
proof (induction "is" arbitrary: k deleted st)
  case (Cons i "is")
  obtain err rows where e: "rule_Delete no_fault i (ad_rows st) = (err, rows)" by (rule prod.exhaust)
  let ?st = "(forget_rule env i st)\<lparr>ad_rows := rows\<rparr>"
  have same: "ad_engine ?st = ad_engine st" "ad_sets ?st = ad_sets st" "ad_entries ?st = ad_entries st" by (simp_all add: forget_rule_def)
  have r: "err \<noteq> None \<Longrightarrow> rows = ad_rows st" by (rule Delete_calm(2) [OF e])
  show ?case
  proof (cases err)
    case None
    then have "delete_loop env calm (k + 1) is (deleted @ [i]) ?st = (d, st')" using Cons.prems e by (simp add: calm_def Let_def)
    from Cons.IH [OF this] show ?thesis using same by auto
  next
    case (Some x)
    then have "delete_loop env calm (k + 1) is deleted ?st = (d, st')" using Cons.prems e by (simp add: calm_def Let_def)
    from Cons.IH [OF this] show ?thesis using same r Some by auto
  qed
qed simp

section \<open>Reachable states\<close>

text \<open>The handlers, the answers of the DNS handler and the sweeps, in any order.\<close>

inductive admin_reach :: "'k admin_env \<Rightarrow> 'k admin \<Rightarrow> bool" for env where
  ad_start: "rules_reach (av_fresh env) (ad_rows st) \<Longrightarrow> ad_world st = (New_manager, k) \<Longrightarrow> ad_table st = NewTable ttl \<Longrightarrow>
    admin_reach env (reload_and_pin env calm 0 st)"
| ad_add: "admin_reach env st \<Longrightarrow> admin_reach env (snd (RulesAdd (env\<lparr>av_now := now\<rparr>) calm p a i en st))"
| ad_update: "admin_reach env st \<Longrightarrow> admin_reach env (snd (RulesUpdate (env\<lparr>av_now := now\<rparr>) calm j p a i en st))"
| ad_delete: "admin_reach env st \<Longrightarrow> admin_reach env (snd (RulesDelete (env\<lparr>av_now := now\<rparr>) calm j st))"
| ad_bulk: "admin_reach env st \<Longrightarrow> RulesBulkUpdate (env\<lparr>av_now := now\<rparr>) calm js a i st = (Inr touched, st') \<Longrightarrow> admin_reach env st'"
| ad_apply: "admin_reach env st \<Longrightarrow> GroupsApply (env\<lparr>av_now := now\<rparr>) calm ps a i en st = (Inr out, st') \<Longrightarrow> admin_reach env st'"
| ad_sync: "admin_reach env st \<Longrightarrow> syncGroup (env\<lparr>av_now := now\<rparr>) calm key ps a i st = (Inr out, st') \<Longrightarrow> admin_reach env st'"
| ad_unapply: "admin_reach env st \<Longrightarrow> admin_reach env (snd (GroupsDeleteRules (env\<lparr>av_now := now\<rparr>) calm ps st))"
| ad_enable: "admin_reach env st \<Longrightarrow> admin_reach env (snd (GroupsSetEnabled (env\<lparr>av_now := now\<rparr>) calm ps en st))"
| ad_refresh: "admin_reach env st \<Longrightarrow> admin_reach env (snd (reconcileDynamicGroupRules (env\<lparr>av_now := now\<rparr>) calm calm before nx st))"
| ad_pin: "admin_reach env st \<Longrightarrow> dc_Outcome (Decide (ad_engine st) name) = OutcomeRoute \<Longrightarrow>
    admin_reach env (st\<lparr>ad_world := snd (Install (av_run env) cancelled now host iface life (dc_RuleID (Decide (ad_engine st) name)) (ad_world st))\<rparr>)"
| ad_map: "admin_reach env st \<Longrightarrow> dc_Outcome (Decide (ad_engine st) name) = OutcomeRoute \<Longrightarrow>
    admin_reach env (st\<lparr>ad_table := Record now ip host pxs life (dc_RuleID (Decide (ad_engine st) name)) (ad_table st)\<rparr>)"
| ad_sweep: "admin_reach env st \<Longrightarrow>
    admin_reach env (st\<lparr>ad_world := snd (SweepRoutes (av_run env) (av_order env (fst (ad_world st))) now (ad_world st))\<rparr>)"


lemma inv_soft: "admin_inv st \<Longrightarrow> admin_soft st"
  by (simp add: admin_inv_def)

lemma inv_unchanged:
  assumes "admin_inv st" "admin_soft st'" "ad_rows st' = ad_rows st" "ad_engine st' = ad_engine st" "ad_sets st' = ad_sets st" "ad_entries st' = ad_entries st"
  shows "admin_inv st'"
  using assms by (simp add: admin_inv_def compiled_def cong: sum.case_cong)

lemma inv_same_rows: "admin_inv st \<Longrightarrow> rows = ad_rows st \<Longrightarrow> admin_inv (st\<lparr>ad_rows := rows\<rparr>)"
  by simp

lemma inv_forget:
  assumes "orders_ok (av_order env)" "admin_inv st"
  shows "admin_inv (forget_rule env i st)"
  by (rule inv_unchanged [OF assms(2) soft_forget [OF assms(1) inv_soft [OF assms(2)]]]) (simp_all add: forget_rule_def)

lemma inv_handlers:
  assumes "env_ok env" "admin_inv st"
  shows "admin_inv (snd (RulesAdd env calm p a i en st))" "admin_inv (snd (RulesUpdate env calm j p a i en st))"
    "admin_inv (snd (RulesDelete env calm j st))"
proof -
  have env: "fresh_ids (av_fresh env)" "orders_ok (av_order env)" using assms(1) by (simp_all add: env_ok_def)
  note s = inv_soft [OF assms(2)]
  show "admin_inv (snd (RulesAdd env calm p a i en st))"
  proof (cases "check_refs calm i st")
    case (Inr i')
    obtain res rows where r: "Add (av_fresh env) no_fault (av_now env) (new_rule p a i' en) (ad_rows st) = (res, rows)" by (rule prod.exhaust)
    show ?thesis using Inr r assms(2) Add_calm [OF env(1) r] inv_reload_and_pin [OF soft_add [OF env(1) s r], of env 4]
      by (cases res) (simp_all add: RulesAdd_def calm_def inv_same_rows)
  qed (simp add: RulesAdd_def assms(2))
  show "admin_inv (snd (RulesUpdate env calm j p a i en st))"
  proof (cases "check_refs calm i st")
    case (Inr i')
    obtain err rows where r: "rule_Update no_fault (av_now env) ((new_rule p a i' en)\<lparr>rl_ID := j\<rparr>) (ad_rows st) = (err, rows)" by (rule prod.exhaust)
    show ?thesis using Inr r assms(2) Update_calm(2) [OF r] inv_reload_and_pin [OF soft_forget [OF env(2) soft_update [OF s r]], of env 4 j]
      by (cases err) (simp_all add: RulesUpdate_def calm_def inv_same_rows)
  qed (simp add: RulesUpdate_def assms(2))
  obtain err rows where r: "rule_Delete no_fault j (ad_rows st) = (err, rows)" by (rule prod.exhaust)
  show "admin_inv (snd (RulesDelete env calm j st))"
    using r Delete_calm(2) [OF r] inv_forget [OF env(2) assms(2), of j] inv_reload [OF soft_delete [OF env(2) s r]]
    by (cases err) (simp_all add: RulesDelete_def Let_def calm_def inv_same_rows)
qed

lemma inv_group_handlers:
  assumes "env_ok env" "admin_inv st"
  shows "RulesBulkUpdate env calm js a i st = (Inr touched, st1) \<Longrightarrow> admin_inv st1"
    "GroupsApply env calm ps a i en st = (Inr out, st2) \<Longrightarrow> admin_inv st2"
    "syncGroup env calm key ps a i st = (Inr out, st3) \<Longrightarrow> admin_inv st3"
    "admin_inv (snd (GroupsDeleteRules env calm ps st))" "admin_inv (snd (GroupsSetEnabled env calm ps en st))"
proof -
  have env: "fresh_ids (av_fresh env)" "orders_ok (av_order env)" using assms(1) by (simp_all add: env_ok_def)
  note s = inv_soft [OF assms(2)]
  have u: "rules_uniq (ad_rows st)" using s by (simp add: admin_soft_def table_ok_def)
  show "admin_inv st1" if "RulesBulkUpdate env calm js a i st = (Inr touched, st1)"
    using that by (auto simp: RulesBulkUpdate_def Let_def split: if_splits sum.splits prod.splits intro: inv_reload_and_pin [OF soft_bulk [OF env(2) s]])
  show "admin_inv st2" if h: "GroupsApply env calm ps a i en st = (Inr out, st2)"
  proof (cases ps)
    case (Inr pats)
    show ?thesis
    proof (cases pats)
      case (Cons p0 rest)
      obtain res rows where r: "Add (av_fresh env) no_fault (av_now env) (new_rule p0 a i en) (ad_rows st) = (res, rows)" by (rule prod.exhaust)
      show ?thesis using h Inr Cons r
        by (auto simp: GroupsApply_def Let_def calm_at split: option.splits sum.splits prod.splits
            intro: inv_reload_and_pin [OF soft_patterns [OF env(1) soft_add [OF env(1) s r]]])
    qed (use h Inr assms(2) in \<open>simp add: GroupsApply_def\<close>)
  qed (use h in \<open>simp add: GroupsApply_def\<close>)
  show "admin_inv st3" if h: "syncGroup env calm key ps a i st = (Inr out, st3)"
  proof -
    have none: "admin_inv t" if "add_patterns env calm 5 mk missing no_result st = (Inr o1, t)" "ga_Created o1 = []" for mk missing o1 t
      using patterns_rows [OF env(1) u that(1)] that(2) assms(2) by (auto simp: no_result_def)
    show ?thesis using h assms(2)
      by (auto simp: syncGroup_def Let_def split: sum.splits prod.splits option.splits if_splits
          intro: none inv_reload_and_pin [OF soft_patterns [OF env(1) s]])
  qed
  show "admin_inv (snd (GroupsDeleteRules env calm ps st))"
    using assms(2) by (auto simp: GroupsDeleteRules_def calm_at split: sum.splits prod.splits intro: inv_reload [OF soft_delete_loop [OF env(2) s]])
  show "admin_inv (snd (GroupsSetEnabled env calm ps en st))"
    using assms(2) by (auto simp: GroupsSetEnabled_def calm_at split: sum.splits prod.splits intro: inv_reload [OF soft_enable_loop [OF env(2) s]])
qed

lemma inv_refresh:
  assumes "env_ok env" "admin_inv st"
  shows "admin_inv (snd (reconcileDynamicGroupRules env calm calm before nx st))"
proof (cases "feed_members before nx (sort_key rl_Pattern (ad_rows st))")
  case Nil
  then show ?thesis using assms(2) by (simp add: reconcileDynamicGroupRules_def rule_List_def calm_def no_fault_def)
next
  case (Cons tpl rest)
  have env: "fresh_ids (av_fresh env)" "orders_ok (av_order env)" using assms(1) by (simp_all add: env_ok_def)
  let ?have = "normalizeGroupPattern ` rl_Pattern ` set (tpl # rest)"
  obtain n st1 where a: "add_prefixes env calm 5 tpl ?have nx 0 st = (n, st1)" by (rule prod.exhaust)
  let ?gone = "map rl_ID (filter (\<lambda>r. normalizeGroupPattern (rl_Pattern r) \<notin> set nx) (tpl # rest))"
  obtain d st2 where b: "delete_loop env calm 0 ?gone [] st1 = (d, st2)" by (rule prod.exhaust)
  note s1 = soft_prefixes [OF env(1) inv_soft [OF assms(2)] a]
  note s2 = soft_delete_loop [OF env(2) s1 b]
  have "admin_inv st2" if "n = 0" "d = []"
    using prefixes_count [OF env(1) a] delete_loop_count [OF b] inv_unchanged [OF assms(2) s2] that by simp
  moreover have "snd (reconcileDynamicGroupRules env calm calm before nx st) = (if 0 < n \<or> d \<noteq> [] then reload_and_pin env calm 0 st2 else st2)"
    unfolding reconcileDynamicGroupRules_def rule_List_def Let_def using Cons a b by (simp add: calm_def no_fault_def)
  ultimately show ?thesis using inv_reload_and_pin [OF s2] by auto
qed

lemma inv_decides:
  assumes "admin_inv st" "Expansions no_fault (ad_sets st) (ad_entries st) = Inr m"
  shows "Decide (ad_engine st) name = decision_of (map_option (rewrite_iface m) (MostSpecific (ad_rows st) name))"
proof -
  let ?l = "sort_key rl_Pattern (ad_rows st)"
  have ok: "rules_ok (ad_rows st)" using assms(1) by (simp add: admin_inv_def admin_soft_def)
  have r: "Reload (Inr ?l :: unit + rule list) (Some (Inr m)) (ad_engine st) = (None, ad_engine st)"
    using assms by (simp add: Reload_def admin_inv_def compiled_def)
  have "rule_List no_fault (ad_rows st) = Inr ?l" by (simp add: rule_List_def no_fault_def)
  from stored_decides [OF ok this r] show ?thesis by blast
qed

lemma inv_decided_row:
  assumes "admin_inv st" "dc_Outcome (Decide (ad_engine st) name) = OutcomeRoute"
  shows "dc_RuleID (Decide (ad_engine st) name) \<in> row_ids st"
proof -
  obtain m where m: "Expansions no_fault (ad_sets st) (ad_entries st) = Inr m" by (rule expansions_calm)
  show ?thesis
  proof (cases "MostSpecific (ad_rows st) name")
    case None
    then show ?thesis using inv_decides [OF assms(1) m, of name] assms(2) by (simp add: decision_of_def no_match_def)
  next
    case (Some r)
    then have "r \<in> set (ad_rows st)" using by_name.loop_best by (auto simp: MostSpecific_def)
    then show ?thesis using inv_decides [OF assms(1) m, of name] assms(2) Some
      by (auto simp: decision_of_def no_match_def row_ids_def split: if_splits)
  qed
qed

lemma inv_world:
  assumes "admin_inv st" "owned (row_ids st) (st\<lparr>ad_world := w\<rparr>)"
  shows "admin_inv (st\<lparr>ad_world := w\<rparr>)"
  by (rule inv_unchanged [OF assms(1)]) (use assms in \<open>simp_all add: admin_inv_def admin_soft_def row_ids_def\<close>)

lemma admin_reach_inv:
  assumes "env_ok env" "admin_reach env st"
  shows "admin_inv st"
  using assms(2)
proof induction
  case (ad_start st k ttl)
  have "admin_soft st" using rules_reach_ok [OF ad_start(1)] assms(1) ad_start(2,3) NewTable_inv [of ttl]
    by (simp add: admin_soft_def owned_def env_ok_def New_manager_def NewTable_def)
  then show ?case by (rule inv_reload_and_pin)
next
  case (ad_pin st name cancelled now host iface life)
  let ?i = "dc_RuleID (Decide (ad_engine st) name)"
  obtain err w where w: "Install (av_run env) cancelled now host iface life ?i (ad_world st) = (err, w)" by (rule prod.exhaust)
  have "owned (row_ids st) st" using inv_soft [OF ad_pin.IH] by (simp add: admin_soft_def)
  then have "owned (row_ids st) (st\<lparr>ad_world := w\<rparr>)"
    by (rule owned_install [OF _ inv_decided_row [OF ad_pin.IH ad_pin(2)]]) (use Install_tracked [OF w] in \<open>auto split: if_splits\<close>)
  then show ?case using inv_world [OF ad_pin.IH] w by simp
next
  case (ad_map st name now ip host pxs life)
  let ?t = "Record now ip host pxs life (dc_RuleID (Decide (ad_engine st) name)) (ad_table st)"
  have o: "owned (row_ids st) st" "rules_ok (ad_rows st)" using inv_soft [OF ad_map.IH] by (simp_all add: admin_soft_def)
  have "e \<in> ran (tb_byIP (ad_table st)) \<or> en_RuleID e = dc_RuleID (Decide (ad_engine st) name)" if "e \<in> ran (tb_byIP ?t)" for e
    using that by (auto simp: Record_def ran_def Let_def split: option.splits if_splits)
  then have "\<forall>e\<in>ran (tb_byIP ?t). en_RuleID e \<in> row_ids st"
    using o(1) inv_decided_row [OF ad_map.IH ad_map(2)] unfolding owned_def by metis
  then have "owned (row_ids st) (st\<lparr>ad_table := ?t\<rparr>)" using o(1) Record_inv [of "ad_table st"] by (simp add: owned_def)
  then show ?case by (intro inv_unchanged [OF ad_map.IH]) (use o(2) in \<open>simp_all add: admin_soft_def row_ids_def\<close>)
next
  case (ad_sweep st now)
  have o: "owned (row_ids st) st" using inv_soft [OF ad_sweep.IH] by (simp add: admin_soft_def)
  let ?w = "snd (SweepRoutes (av_run env) (av_order env (fst (ad_world st))) now (ad_world st))"
  have "enumerates (av_order env (fst (ad_world st))) (mg_routes (fst (ad_world st)))" using assms(1) o by (simp add: env_ok_def orders_ok_def owned_def)
  note r = routes_Sweep_exact [OF this, of "av_run env" now]
  have "dom (mg_routes (fst ?w)) \<subseteq> dom (mg_routes (fst (ad_world st)))" "ran (mg_routes (fst ?w)) \<subseteq> ran (mg_routes (fst (ad_world st)))"
    by (auto simp: r ran_def split: option.splits if_splits)
  then have "owned (row_ids st) (st\<lparr>ad_world := ?w\<rparr>)" using o finite_subset by (auto simp: owned_def)
  then show ?case by (rule inv_world [OF ad_sweep.IH])
next
  case (ad_bulk st now js a i touched st')
  show ?case by (rule inv_group_handlers(1) [OF _ ad_bulk.IH ad_bulk(2)]) (use assms(1) in \<open>simp add: env_ok_def\<close>)
next
  case (ad_apply st now ps a i en out st')
  show ?case by (rule inv_group_handlers(2) [OF _ ad_apply.IH ad_apply(2)]) (use assms(1) in \<open>simp add: env_ok_def\<close>)
next
  case (ad_sync st now key ps a i out st')
  show ?case by (rule inv_group_handlers(3) [OF _ ad_sync.IH ad_sync(2)]) (use assms(1) in \<open>simp add: env_ok_def\<close>)
qed (use assms(1) in \<open>simp_all add: env_ok_def inv_handlers inv_group_handlers(4,5) inv_refresh\<close>)

section \<open>Properties\<close>


definition demo_env :: "(string list \<rightharpoonup> string) admin_env" where
  "demo_env = \<lparr>av_fresh = next_rowid, av_now = 5, av_run = table_run False False, av_order = (\<lambda>m. an_order (m, ())), av_tun = ''utun9''\<rparr>"

definition demo_admin :: "(string list \<rightharpoonup> string) admin" where
  "demo_admin = reload_and_pin demo_env calm 0 \<lparr>ad_rows = demo_rows, ad_sets = [], ad_entries = [],
     ad_proxies = new_store [], ad_engine = New_engine, ad_world = (New_manager, Map.empty), ad_table = NewTable 60\<rparr>"

lemma demo_env_ok: "fresh_ids (av_fresh demo_env)" "orders_ok (av_order demo_env)"
  using fresh_next_rowid an_order by (auto simp: demo_env_def orders_ok_def)

lemma demo_admin_reach: "admin_reach demo_env demo_admin"
  unfolding demo_admin_def by (rule ad_start) (use demo_rows_reach in \<open>simp_all add: demo_env_def\<close>)

lemma reload_and_pin_fields [simp]:
  "ad_rows (reload_and_pin env db k st) = ad_rows st" "ad_sets (reload_and_pin env db k st) = ad_sets st"
  "ad_entries (reload_and_pin env db k st) = ad_entries st" "ad_table (reload_and_pin env db k st) = ad_table st"
  by (simp_all add: reload_and_pin_def reconcileIPRoutes_def engine_reload_def split: sum.split prod.split)

lemma demo_admin_fields [simp]: "ad_rows demo_admin = demo_rows" "ad_sets demo_admin = []" "ad_entries demo_admin = []"
  by (simp_all add: demo_admin_def)


text \<open>
  C39: synchronising an applied group closes its gaps and only adds. When it succeeds without a
  failing statement, the rules are the old ones followed by those it reports as created, no
  pattern of the group is missing any more, and every name a name pattern of the group matches
  is matched by some stored rule.
\<close>
theorem sync_closes_gaps:
  assumes "fresh_ids (av_fresh env)" "orders_ok (av_order env)" "admin_reach env st"
    and "syncGroup env calm key (Inr pats) act iface st = (Inr out, st')"
    and "\<exists>r\<in>set (ad_rows st). ruleBelongsToGroup (rl_Pattern r) pats"
    and "\<forall>p\<in>set pats. normalize p = p" "\<forall>r\<in>set (ad_rows st). normalize (rl_Pattern r) = rl_Pattern r"
  shows "ad_rows st' = ad_rows st @ ga_Created out \<and> missingGroupPatterns pats (ad_rows st') = []
    \<and> (\<forall>p\<in>set pats. \<forall>name. \<not> IsIPRule p \<and> MatchKey p name \<longrightarrow> (\<exists>r\<in>set (ad_rows st'). MatchKey (rl_Pattern r) name))"
proof -
  have ok: "rules_ok (ad_rows st)" "rules_uniq (ad_rows st)" using admin_reach_inv [of env st] assms(1-3)
    by (simp_all add: env_ok_def admin_inv_def admin_soft_def table_ok_def)
  let ?l = "sort_key rl_Pattern (ad_rows st)" and ?miss = "missingGroupPatterns pats (ad_rows st)"
  have m: "missingGroupPatterns pats ?l = ?miss" "groupPatternApplied p ?l = groupPatternApplied p (ad_rows st)" for p
    by (simp_all add: missingGroupPatterns_def groupPatternApplied_def list_ex_iff)
  have miss: "?miss = filter (\<lambda>p. \<not> groupPatternApplied p (ad_rows st)) pats" using assms(5) by (auto simp: missingGroupPatterns_def list_ex_iff)
  obtain xs where xs: "ad_rows st' = ad_rows st @ xs" "ga_Created out = xs" "\<forall>p\<in>set ?miss. p \<in> rl_Pattern ` set (ad_rows st @ xs)"
  proof (cases "?miss = []")
    case True
    then show thesis using assms(4) that [of "[]"] by (auto simp: syncGroup_def rule_List_def no_fault_def m no_result_def)
  next
    case False
    then obtain mk st1 where a: "add_patterns env calm 5 mk ?miss no_result st = (Inr out, st1)" "ad_rows st' = ad_rows st1" "\<And>p. rl_Pattern (mk p) = p"
      using assms(4) by (auto simp: syncGroup_def rule_List_def no_fault_def m Let_def new_rule_def split: option.splits prod.splits sum.splits if_splits)
    from patterns_rows [OF assms(1) ok(2) a(1)] obtain xs where
      "ga_Created out = xs" "ad_rows st1 = ad_rows st @ xs" "\<forall>p\<in>set ?miss. normalize p \<in> rl_Pattern ` set (ad_rows st @ xs)"
      by (auto simp: no_result_def a(3))
    then show thesis using that a(2) assms(6) miss by auto
  qed
  have ok': "rules_ok (ad_rows st')" using inv_group_handlers(3) [OF _ admin_reach_inv [OF _ assms(3)] assms(4)] assms(1,2)
    by (simp add: env_ok_def admin_inv_def admin_soft_def)
  have self: "ruleCoveredByGroupPattern p p" if pin: "p \<in> set pats" and stored: "p \<in> rl_Pattern ` set (ad_rows st')" for p
  proof -
    obtain q where "Validate q = None" "p = normalize q" using ok' stored by (auto simp: table_ok_def stored_rule_def)
    then have "p \<noteq> []" by (auto simp: Validate_def Let_def)
    then show ?thesis using pin assms(6) normal_pattern by (simp add: ruleCoveredByGroupPattern_def)
  qed
  have cov: "groupPatternApplied p (ad_rows st) \<or> p \<in> rl_Pattern ` set (ad_rows st')" if "p \<in> set pats" for p
    using that xs(1,3) miss by auto
  have "groupPatternApplied p (ad_rows st')" if p: "p \<in> set pats" for p
    using cov [OF p] self [OF p] by (auto simp: groupPatternApplied_def list_ex_iff xs(1))
  then have "missingGroupPatterns pats (ad_rows st') = []" by (simp add: missingGroupPatterns_def)
  moreover have "\<exists>r\<in>set (ad_rows st'). MatchKey (rl_Pattern r) name" if p: "p \<in> set pats" and n: "\<not> IsIPRule p" "MatchKey p name" for p name
    using cov [OF p] cover_sound [OF _ _ n(1) _ n(2)] assms(6,7) p n(2) by (auto simp: groupPatternApplied_def list_ex_iff xs(1))
  ultimately show ?thesis using xs(1,2) by blast
qed

theorem sync_closes_gaps_witness:
  "\<exists>out st'. syncGroup demo_env calm ''custom:x'' (Inr [''*.example.com'', ''cdn.example.net'']) [] [] demo_admin = (Inr out, st')
    \<and> missingGroupPatterns [''*.example.com'', ''cdn.example.net''] (ad_rows st') = []
    \<and> (\<exists>r\<in>set (ad_rows st'). MatchKey (rl_Pattern r) ''cdn.example.net'')"
proof -
  let ?pats = "[''*.example.com'', ''cdn.example.net'']"
  define row where "row = \<lparr>rl_ID = 2, rl_Pattern = ''cdn.example.net'', rl_Action = ''block'', rl_Interface = [], rl_Enabled = False, rl_CreatedAt = 5, rl_UpdatedAt = 5\<rparr>"
  have l: "rule_List no_fault demo_rows = Inr demo_rows" by (simp add: rule_List_def no_fault_def demo_rows_eq)
  have m: "missingGroupPatterns ?pats demo_rows = [''cdn.example.net'']" "groupRuleShape ?pats demo_rows = Some (''block'', [], False)"
    unfolding demo_rows_eq by code_simp+
  have a: "Add (av_fresh demo_env) no_fault (av_now demo_env) (new_rule ''cdn.example.net'' ''block'' [] False) demo_rows = (Inr row, demo_rows @ [row])"
    unfolding row_def demo_rows_eq demo_env_def admin_env.simps by code_simp
  obtain out st' where s: "syncGroup demo_env calm ''custom:x'' (Inr ?pats) [] [] demo_admin = (Inr out, st')"
    by (simp add: syncGroup_def l m a)
  have b: "\<exists>r\<in>set (ad_rows demo_admin). ruleBelongsToGroup (rl_Pattern r) ?pats" unfolding demo_admin_fields demo_rows_eq by code_simp
  have n: "\<forall>p\<in>set ?pats. normalize p = p" "\<forall>r\<in>set (ad_rows demo_admin). normalize (rl_Pattern r) = rl_Pattern r"
    unfolding demo_admin_fields demo_rows_eq by code_simp+
  have k: "\<not> IsIPRule ''cdn.example.net''" "MatchKey ''cdn.example.net'' ''cdn.example.net''" by code_simp+
  note t = sync_closes_gaps [OF demo_env_ok demo_admin_reach s b n]
  then have "\<exists>r\<in>set (ad_rows st'). MatchKey (rl_Pattern r) ''cdn.example.net''" using k by auto
  then show ?thesis using s t by blast
qed


text \<open>A codec for the witness: every character is preceded by a mark, every pattern followed by a semicolon.\<close>

fun dec_patterns :: "string \<Rightarrow> string \<Rightarrow> string list" where
  "dec_patterns cur [] = []"
| "dec_patterns cur [t] = (if t = CHR '';'' then [rev cur] else [])"
| "dec_patterns cur (t # c # r) = (if t = CHR '';'' then rev cur # dec_patterns [] (c # r) else dec_patterns (c # cur) r)"

definition enc_patterns :: "string list \<Rightarrow> string" where
  "enc_patterns ps = concat (map (\<lambda>p. concat (map (\<lambda>c. [CHR ''c'', c]) p) @ '';'') ps)"

lemma dec_enc_one: "dec_patterns cur (concat (map (\<lambda>c. [CHR ''c'', c]) p) @ CHR '';'' # r) = (rev cur @ p) # dec_patterns [] r"
proof (induction p arbitrary: cur)
  case Nil
  then show ?case by (cases r) simp_all
qed simp

lemma dec_enc: "dec_patterns [] (enc_patterns ps) = ps"
proof (induction ps)
  case (Cons p ps)
  then show ?case using dec_enc_one [of "[]" p "enc_patterns ps"] by (simp add: enc_patterns_def)
qed (simp add: enc_patterns_def)

definition demo_codec :: cache_codec where
  "demo_codec = \<lparr>cc_Marshal = (\<lambda>c. CHR ''#'' # enc_patterns (dg_Patterns c)),
     cc_Unmarshal = (\<lambda>raw. Some (no_cache\<lparr>dg_Patterns := dec_patterns [] (drop 1 raw)\<rparr>))\<rparr>"

definition demo_group :: Group where
  "demo_group = \<lparr>gr_Key = ''g'', gr_DisplayName = ''G'', gr_Patterns = [''8.8.8.0/24''],
     gr_Dynamic = Some \<lparr>dy_URL = ''u'', dy_ExcludeURL = [], dy_Format = FormatGoogleIPRanges, dy_Exclude = [], dy_IPv4Only = True, dy_Interval = 0\<rparr>\<rparr>"

definition demo_settings :: settings where
  "demo_settings = saveDynamicGroupCache demo_codec no_fault ''g'' (no_cache\<lparr>dg_Patterns := [''8.8.4.0/24'', ''8.8.8.0/24'']\<rparr>) Map.empty"


text \<open>Enabling the rules of a group installs no route, although disabling them removed theirs.\<close>

lemma enabling_pins_nothing: "ad_world (snd (GroupsSetEnabled env db ps True st)) = ad_world st"
proof -
  have "ad_world (snd (enable_loop env db k pats True rs touched st)) = ad_world st" for k pats rs touched st
    by (induction rs arbitrary: k touched st) (auto simp: Let_def split: prod.splits option.splits)
  then have "enable_loop env db k pats True rs touched st = (t, st1) \<Longrightarrow> ad_world st1 = ad_world st" for k pats rs touched t st1
    by (metis snd_conv)
  then show ?thesis by (auto simp: GroupsSetEnabled_def engine_reload_def split: sum.splits prod.splits)
qed

text \<open>The first pattern of an applied group is reported as skipped, also when it was created.\<close>

lemma apply_reports_first_skipped:
  assumes "GroupsApply env db (Inr (p0 # rest)) act iface enabled st = (Inr out, st')"
  shows "p0 \<in> set (ga_Skipped out)"
proof -
  have "set (ga_Skipped o0) \<subseteq> set (ga_Skipped o1)" if "add_patterns env db k mk ps o0 t = (Inr o1, t')" for k mk ps o0 t o1 t'
    using that by (induction ps arbitrary: k o0 t) (fastforce split: prod.splits sum.splits if_splits)+
  then show ?thesis using assms by (fastforce simp: GroupsApply_def Let_def new_rule_def split: prod.splits sum.splits option.splits)
qed

text \<open>A handler that fails after it stored rules leaves the engine without them.\<close>

lemma failed_apply_not_reloaded: "GroupsApply env db ps act iface enabled st = (Inl e, st') \<Longrightarrow> ad_engine st' = ad_engine st"
proof -
  have "ad_engine t' = ad_engine t" if "add_patterns env db k mk qs o0 t = (r, t')" for k mk qs o0 t r t'
    using that by (induction qs arbitrary: k o0 t) (fastforce split: prod.splits sum.splits if_splits)+
  then show "GroupsApply env db ps act iface enabled st = (Inl e, st') \<Longrightarrow> ad_engine st' = ad_engine st"
    by (fastforce simp: GroupsApply_def Let_def split: prod.splits sum.splits option.splits list.splits)
qed

text \<open>An address rule bound to a set that no longer expands loses the route it had: the reference is taken for the name of
  an interface, the old route is deleted and the add is refused, so the kernel sends the addresses the default way.\<close>

lemma dangling_set_unpins:
  assumes "route_cmd (av_run env) ktab" "delete_reliable (av_run env)"
    and "rl_Action r = ActionRoute" "rl_Enabled r" "IsIPRule (rl_Pattern r)" "IsSetInterface (rl_Interface r)"
    and "parseDest (rl_Pattern r) = Inr d" "mg_routes (fst w) (static_dest d) = Some e" "rt_iface e \<noteq> rl_Interface r"
    and refused: "\<And>k. \<exists>out k'. av_run env route_bin (add_args (dest_args (To4 (fst d) \<noteq> None) (snd d \<noteq> None) (static_dest d)) (rl_Interface r)) k
        = ((out, True), k') \<and> \<not> looksLikeAlreadyExists out"
  shows "ktab (snd (pin_rule env r w)) (entry_dest (static_dest d) e) = None"
proof -
  obtain m k where w: "w = (m, k)" by (rule prod.exhaust)
  obtain ip n where d: "d = (ip, n)" by (rule prod.exhaust)
  have i: "rule_egress (av_tun env) (rl_Interface r) = rl_Interface r" "rl_Interface r \<noteq> []"
    using assms(6) by (auto simp: rule_egress_def IsSetInterface_def IsProxyInterface_def IsXrayInterface_def SetPrefix_def
        proxy_InterfacePrefix_def xray_InterfacePrefix_def HasPrefix_iff)
  obtain err k1 where k1: "removeOne (av_run env) (static_dest d) (rt_isV4 e) (rt_isNet e) k = (err, k1)" by (rule prod.exhaust)
  have gone: "ktab k1 (entry_dest (static_dest d) e) = None" using removeOne_spec [OF assms(1,2) k1] by (simp add: entry_dest_def)
  obtain out k2 where k2: "av_run env route_bin (add_args (dest_args (To4 ip \<noteq> None) (n \<noteq> None) (static_dest d)) (rl_Interface r)) k1 = ((out, True), k2)"
    "\<not> looksLikeAlreadyExists out" using refused [of k1] d by auto
  have "ktab k2 = ktab k1" using assms(1) k2(1) unfolding route_cmd_def by metis
  moreover have "snd (pin_rule env r w) = k2" using assms(3-5,7-9) i k1 k2 by (simp add: pin_rule_def InstallStatic_def w d Let_def)
  ultimately show ?thesis using gone by simp
qed

end
