(* ===== verification/Socks5.thy ===== *)
theory Socks5
  imports Proxy_Store Go_Net
begin

text \<open>
  The client side of the upstream proxies: the SOCKS5 handshake, UDP association and datagram
  framing of \<open>core/proxy/udp.go\<close>, the HTTP CONNECT dialer of \<open>dialer.go\<close> and the byte accounting of
  \<open>forwarder.go\<close>. A connection is the bytes the peer will send, the bytes written so far and a
  function that says which write fails; sockets, name resolution and deadlines are arguments.
\<close>

unbundle bit_operations_syntax

type_synonym byte = "8 word"

section \<open>Bytes\<close>

fun be_bytes :: "nat \<Rightarrow> nat \<Rightarrow> byte list" where
  "be_bytes 0 v = []"
| "be_bytes (Suc k) v = be_bytes k (v div 256) @ [of_nat v]"

definition be_val :: "byte list \<Rightarrow> nat" where
  "be_val bs = foldl (\<lambda>v b. v * 256 + unat b) 0 bs"

definition str_bytes :: "string \<Rightarrow> byte list" where
  "str_bytes s = map (\<lambda>c. of_nat (ord c)) s"

definition bytes_str :: "byte list \<Rightarrow> string" where
  "bytes_str bs = map (\<lambda>b. char_of (unat b)) bs"

section \<open>Wire format\<close>

definition socks5Version :: byte where "socks5Version = 0x05"
definition socks5NoAuth :: byte where "socks5NoAuth = 0x00"
definition socks5UserPass :: byte where "socks5UserPass = 0x02"
definition socks5NoAccept :: byte where "socks5NoAccept = 0xFF"
definition socks5AuthVer :: byte where "socks5AuthVer = 0x01"
definition socks5CmdAssoc :: byte where "socks5CmdAssoc = 0x03"
definition socks5RepOK :: byte where "socks5RepOK = 0x00"
definition socks5ATYPv4 :: byte where "socks5ATYPv4 = 0x01"
definition socks5ATYPdomn :: byte where "socks5ATYPdomn = 0x03"
definition socks5ATYPv6 :: byte where "socks5ATYPv6 = 0x04"
definition socks5UDPHdrMin :: nat where "socks5UDPHdrMin = 4 + 4 + 2"

lemmas socks_defs = socks5Version_def socks5NoAuth_def socks5UserPass_def socks5NoAccept_def socks5AuthVer_def
  socks5CmdAssoc_def socks5RepOK_def socks5ATYPv4_def socks5ATYPdomn_def socks5ATYPv6_def socks5UDPHdrMin_def

datatype socks_error =
    NotSOCKS5 string | DialProxy string | Greeting string | MethodReply | BadVersion byte | Rejected | UnexpectedMethod byte
  | AuthTooLong | AuthSend string | AuthReply | AuthFailed
  | AssociateRequest string | ReplyHeader | BadReplyVersion byte | AssociateRejected byte | ReplyTruncated | ResolveRelay string
  | BadReplyATYP byte | DialRelay string
  | EmptyHost | HostTooLong nat | RelayIO string
  | ShortDatagram nat | Fragmented byte | TruncatedDomain | BadATYP byte | HeaderOverrun

definition port_bytes :: "int \<Rightarrow> byte list" where
  "port_bytes port = be_bytes 2 (nat (port mod 65536))"

definition appendSOCKSAddr :: "byte list \<Rightarrow> ip option \<Rightarrow> string \<Rightarrow> int \<Rightarrow> byte list" where
  "appendSOCKSAddr buf ip host port =
     (if host \<noteq> [] then buf @ [socks5ATYPdomn, of_nat (length host)] @ str_bytes host
      else case ip of
        Some (IPv4 w) \<Rightarrow> buf @ [socks5ATYPv4] @ be_bytes 4 (unat w)
      | Some (IPv6 w) \<Rightarrow> buf @ [socks5ATYPv6] @ be_bytes 16 (unat w)
      | None \<Rightarrow> buf @ [socks5ATYPv6]) @ port_bytes port"

definition stripSOCKSUDPHeader :: "byte list \<Rightarrow> socks_error + byte list" where
  "stripSOCKSUDPHeader d =
     (if length d < socks5UDPHdrMin then Inl (ShortDatagram (length d))
      else if d ! 2 \<noteq> 0 then Inl (Fragmented (d ! 2))
      else
        (case (if d ! 3 = socks5ATYPv4 then Inr (4 + 4)
               else if d ! 3 = socks5ATYPv6 then Inr (4 + 16)
               else if d ! 3 = socks5ATYPdomn then
                 (if length d < 4 + 1 then Inl TruncatedDomain else Inr (4 + 1 + unat (d ! 4)))
               else Inl (BadATYP (d ! 3))) of
           Inl e \<Rightarrow> Inl e
         | Inr off \<Rightarrow> if length d < off + 2 then Inl HeaderOverrun else Inr (drop (off + 2) d)))"

text \<open>The datagram \<open>WriteTo\<close> sends; \<open>relay\<close> says whether the socket took it.\<close>

definition udp_datagram :: "byte list \<Rightarrow> string \<Rightarrow> int \<Rightarrow> byte list" where
  "udp_datagram payload host port =
     (case ParseIP host of
        Some ip \<Rightarrow> appendSOCKSAddr [0, 0, 0] (Some ip) [] port
      | None \<Rightarrow> appendSOCKSAddr [0, 0, 0] None host port) @ payload"

definition WriteTo :: "(byte list \<Rightarrow> string option) \<Rightarrow> byte list \<Rightarrow> string \<Rightarrow> int \<Rightarrow> socks_error option \<times> byte list list" where
  "WriteTo relay payload host port =
     (if host = [] then (Some EmptyHost, [])
      else if 255 < length host then (Some (HostTooLong (length host)), [])
      else case relay (udp_datagram payload host port) of
        Some e \<Rightarrow> (Some (RelayIO e), [])
      | None \<Rightarrow> (None, [udp_datagram payload host port]))"

definition session_Read :: "string + byte list \<Rightarrow> nat \<Rightarrow> socks_error + byte list" where
  "session_Read got cap =
     (case got of
        Inl e \<Rightarrow> Inl (RelayIO e)
      | Inr d \<Rightarrow> (case stripSOCKSUDPHeader d of Inl e \<Rightarrow> Inl e | Inr payload \<Rightarrow> Inr (take cap payload)))"

section \<open>Handshake\<close>

record conn =
  cn_in :: "byte list"
  cn_out :: "byte list"
  cn_writes :: nat
  cn_fault :: "nat \<Rightarrow> string option"
  cn_closed :: bool

definition conn_Write :: "byte list \<Rightarrow> conn \<Rightarrow> string option \<times> conn" where
  "conn_Write bs c =
     (case cn_fault c (cn_writes c) of
        Some e \<Rightarrow> (Some e, c\<lparr>cn_writes := Suc (cn_writes c)\<rparr>)
      | None \<Rightarrow> (None, c\<lparr>cn_writes := Suc (cn_writes c), cn_out := cn_out c @ bs\<rparr>))"

definition ReadFull :: "nat \<Rightarrow> conn \<Rightarrow> byte list option \<times> conn" where
  "ReadFull n c =
     (if length (cn_in c) < n then (None, c\<lparr>cn_in := []\<rparr>)
      else (Some (take n (cn_in c)), c\<lparr>cn_in := drop n (cn_in c)\<rparr>))"

definition socks5UserPassAuth :: "Proxy \<Rightarrow> conn \<Rightarrow> socks_error option \<times> conn" where
  "socks5UserPassAuth p c =
     (if 255 < length (px_Username p) \<or> 255 < length (px_Password p) then (Some AuthTooLong, c)
      else
        (case conn_Write ([socks5AuthVer, of_nat (length (px_Username p))] @ str_bytes (px_Username p) @
                          [of_nat (length (px_Password p))] @ str_bytes (px_Password p)) c of
           (Some e, c1) \<Rightarrow> (Some (AuthSend e), c1)
         | (None, c1) \<Rightarrow>
             (case ReadFull 2 c1 of
                (None, c2) \<Rightarrow> (Some AuthReply, c2)
              | (Some resp, c2) \<Rightarrow> if resp ! 1 \<noteq> 0 then (Some AuthFailed, c2) else (None, c2))))"

definition greeting :: "Proxy \<Rightarrow> byte list" where
  "greeting p =
     (if px_Username p \<noteq> [] \<or> px_Password p \<noteq> [] then [socks5Version, 0x02, socks5NoAuth, socks5UserPass]
      else [socks5Version, 0x01, socks5NoAuth])"

definition socks5Negotiate :: "Proxy \<Rightarrow> conn \<Rightarrow> socks_error option \<times> conn" where
  "socks5Negotiate p c =
     (case conn_Write (greeting p) c of
        (Some e, c1) \<Rightarrow> (Some (Greeting e), c1)
      | (None, c1) \<Rightarrow>
          (case ReadFull 2 c1 of
             (None, c2) \<Rightarrow> (Some MethodReply, c2)
           | (Some resp, c2) \<Rightarrow>
               if resp ! 0 \<noteq> socks5Version then (Some (BadVersion (resp ! 0)), c2)
               else if resp ! 1 = socks5NoAuth then (None, c2)
               else if resp ! 1 = socks5UserPass then socks5UserPassAuth p c2
               else if resp ! 1 = socks5NoAccept then (Some Rejected, c2)
               else (Some (UnexpectedMethod (resp ! 1)), c2)))"

definition IsUnspecified :: "ip \<Rightarrow> bool" where
  "IsUnspecified ip \<longleftrightarrow> ip = IPv4 0 \<or> ip = IPv6 0"

text \<open>The address of a reply, read by its type.\<close>

definition read_addr :: "(string \<Rightarrow> string + ip) \<Rightarrow> byte \<Rightarrow> conn \<Rightarrow> (socks_error + ip) \<times> conn" where
  "read_addr resolve atyp c =
     (if atyp = socks5ATYPv4 then
        (case ReadFull 4 c of (None, c1) \<Rightarrow> (Inl ReplyTruncated, c1) | (Some b, c1) \<Rightarrow> (Inr (IPv4 (of_nat (be_val b))), c1))
      else if atyp = socks5ATYPv6 then
        (case ReadFull 16 c of (None, c1) \<Rightarrow> (Inl ReplyTruncated, c1) | (Some b, c1) \<Rightarrow> (Inr (ip_of16 (of_nat (be_val b))), c1))
      else if atyp = socks5ATYPdomn then
        (case ReadFull 1 c of
           (None, c1) \<Rightarrow> (Inl ReplyTruncated, c1)
         | (Some l, c1) \<Rightarrow>
             (case ReadFull (unat (l ! 0)) c1 of
                (None, c2) \<Rightarrow> (Inl ReplyTruncated, c2)
              | (Some b, c2) \<Rightarrow> (case resolve (bytes_str b) of Inl e \<Rightarrow> (Inl (ResolveRelay e), c2) | Inr ip \<Rightarrow> (Inr ip, c2))))
      else (Inl (BadReplyATYP atyp), c))"

definition readSOCKSReply :: "(string \<Rightarrow> string + ip) \<Rightarrow> ip option \<Rightarrow> conn \<Rightarrow> (socks_error + ip \<times> int) \<times> conn" where
  "readSOCKSReply resolve remote c =
     (case ReadFull 4 c of
        (None, c1) \<Rightarrow> (Inl ReplyHeader, c1)
      | (Some head, c1) \<Rightarrow>
          if head ! 0 \<noteq> socks5Version then (Inl (BadReplyVersion (head ! 0)), c1)
          else if head ! 1 \<noteq> socks5RepOK then (Inl (AssociateRejected (head ! 1)), c1)
          else
            (case read_addr resolve (head ! 3) c1 of
               (Inl e, c2) \<Rightarrow> (Inl e, c2)
             | (Inr ip, c2) \<Rightarrow>
                 (case ReadFull 2 c2 of
                    (None, c3) \<Rightarrow> (Inl ReplyTruncated, c3)
                  | (Some pb, c3) \<Rightarrow>
                      (Inr (if IsUnspecified ip then (case remote of Some r \<Rightarrow> r | None \<Rightarrow> ip) else ip, int (be_val pb)), c3))))"

definition ctrl_Close :: "conn \<Rightarrow> conn" where "ctrl_Close c = c\<lparr>cn_closed := True\<rparr>"

text \<open>
  The result of dialing the proxy and of opening the relay socket are arguments; the session is the
  control connection and the address of the relay.
\<close>

definition DialUDPAssociate :: "(string \<Rightarrow> string + ip) \<Rightarrow> ip option \<Rightarrow> (ip \<times> int \<Rightarrow> string option) \<Rightarrow> string + conn \<Rightarrow> Proxy \<Rightarrow>
    (socks_error + ip \<times> int) \<times> conn option" where
  "DialUDPAssociate resolve remote dialUDP dialed p =
     (if px_Protocol p \<noteq> ProtocolSOCKS5 then (Inl (NotSOCKS5 (px_Protocol p)), None)
      else case dialed of
        Inl e \<Rightarrow> (Inl (DialProxy e), None)
      | Inr ctrl \<Rightarrow>
          (case socks5Negotiate p ctrl of
             (Some e, c1) \<Rightarrow> (Inl e, Some (ctrl_Close c1))
           | (None, c1) \<Rightarrow>
               (case conn_Write (appendSOCKSAddr [socks5Version, socks5CmdAssoc, 0x00] (Some (IPv4 0)) [] 0) c1 of
                  (Some e, c2) \<Rightarrow> (Inl (AssociateRequest e), Some (ctrl_Close c2))
                | (None, c2) \<Rightarrow>
                    (case readSOCKSReply resolve remote c2 of
                       (Inl e, c3) \<Rightarrow> (Inl e, Some (ctrl_Close c3))
                     | (Inr addr, c3) \<Rightarrow>
                         (case dialUDP addr of
                            Some e \<Rightarrow> (Inl (DialRelay e), Some (ctrl_Close c3))
                          | None \<Rightarrow> (Inr addr, Some c3))))))"

section \<open>HTTP CONNECT\<close>

definition JoinHostPort :: "string \<Rightarrow> string \<Rightarrow> string" where
  "JoinHostPort host port = (if CHR '':'' \<in> set host then ''['' @ host @ '']:'' @ port else host @ '':'' @ port)"

definition pickTarget :: "string \<Rightarrow> ip \<Rightarrow> int \<Rightarrow> string" where
  "pickTarget hostname ip port =
     (if hostname \<noteq> [] then JoinHostPort hostname (Itoa port) else JoinHostPort (ip_String ip) (Itoa port))"

definition is_crlf :: "char \<Rightarrow> bool" where "is_crlf c \<longleftrightarrow> c = CHR 0x0D \<or> c = CHR 0x0A"

definition trimCRLF :: "string \<Rightarrow> string" where "trimCRLF s = rev (dropWhile is_crlf (rev s))"

text \<open>Base64 with the standard alphabet and padding.\<close>

definition b64_alphabet :: string where
  "b64_alphabet = ''ABCDEFGHIJKLMNOPQRSTUVWXYZabcdefghijklmnopqrstuvwxyz0123456789+/''"

fun base64 :: "byte list \<Rightarrow> string" where
  "base64 [] = []"
| "base64 [a] = (let v = unat a * 16 in [b64_alphabet ! (v div 64), b64_alphabet ! (v mod 64)] @ ''=='')"
| "base64 [a, b] = (let v = (unat a * 256 + unat b) * 4 in
     [b64_alphabet ! (v div 4096), b64_alphabet ! (v div 64 mod 64), b64_alphabet ! (v mod 64)] @ ''='')"
| "base64 (a # b # c # rest) = (let v = (unat a * 256 + unat b) * 256 + unat c in
     [b64_alphabet ! (v div 262144), b64_alphabet ! (v div 4096 mod 64), b64_alphabet ! (v div 64 mod 64), b64_alphabet ! (v mod 64)]
     @ base64 rest)"

definition crlf :: string where "crlf = [CHR 0x0D, CHR 0x0A]"

definition connect_request :: "Proxy \<Rightarrow> string \<Rightarrow> string" where
  "connect_request p target =
     ''CONNECT '' @ target @ '' HTTP/1.1'' @ crlf @ ''Host: '' @ target @ crlf @
     (if px_Username p \<noteq> [] \<or> px_Password p \<noteq> []
      then ''Proxy-Authorization: Basic '' @ base64 (str_bytes (px_Username p @ '':'' @ px_Password p)) @ crlf else []) @ crlf"

text \<open>\<open>bufio.Reader.ReadString\<close> with a newline as delimiter: the line with it, and the unread rest.\<close>

fun read_line :: "byte list \<Rightarrow> (string \<times> byte list) option" where
  "read_line [] = None"
| "read_line (b # bs) =
     (if b = 10 then Some ([CHR 0x0A], bs)
      else map_option (\<lambda>(l, r). (char_of (unat b) # l, r)) (read_line bs))"

lemma read_line_shorter: "read_line bs = Some (l, r) \<Longrightarrow> length r < length bs"
  by (induction bs arbitrary: l r) (auto split: if_splits)

function drain_headers :: "byte list \<Rightarrow> byte list option" where
  "drain_headers bs =
     (case read_line bs of
        None \<Rightarrow> None
      | Some (line, rest) \<Rightarrow> if line = crlf \<or> line = [CHR 0x0A] then Some rest else drain_headers rest)"
  by auto
termination
  by (relation "measure length") (auto dest: read_line_shorter)

declare drain_headers.simps [simp del]

datatype http_error = HttpDial string | HttpSend string | HttpStatus | HttpRefused string | HttpDrain

definition http_Dial :: "Proxy \<Rightarrow> string + conn \<Rightarrow> string \<Rightarrow> ip \<Rightarrow> int \<Rightarrow> (http_error + unit) \<times> conn option" where
  "http_Dial p dialed hostname ip port =
     (case dialed of
        Inl e \<Rightarrow> (Inl (HttpDial e), None)
      | Inr c \<Rightarrow>
          (case conn_Write (str_bytes (connect_request p (pickTarget hostname ip port))) c of
             (Some e, c1) \<Rightarrow> (Inl (HttpSend e), Some (ctrl_Close c1))
           | (None, c1) \<Rightarrow>
               (case read_line (cn_in c1) of
                  None \<Rightarrow> (Inl HttpStatus, Some (ctrl_Close c1))
                | Some (status, rest) \<Rightarrow>
                    if length status < 12 \<or> take 3 (drop 9 status) \<noteq> ''200'' then
                      (Inl (HttpRefused (trimCRLF status)), Some (ctrl_Close (c1\<lparr>cn_in := rest\<rparr>)))
                    else (case drain_headers rest of
                            None \<Rightarrow> (Inl HttpDrain, Some (ctrl_Close (c1\<lparr>cn_in := []\<rparr>)))
                          | Some body \<Rightarrow> (Inr (), Some (c1\<lparr>cn_in := body\<rparr>))))))"

datatype proxy_dialer = SocksDialer Proxy | HttpDialer Proxy

definition NewDialer :: "Proxy \<Rightarrow> string + proxy_dialer" where
  "NewDialer p =
     (if px_Protocol p = ProtocolSOCKS5 then Inr (SocksDialer p)
      else if px_Protocol p = ProtocolHTTP then Inr (HttpDialer p)
      else Inl (px_Protocol p))"

section \<open>Splicing\<close>

text \<open>
  \<open>idleCopy\<close> on the results of its reads: the number of bytes, the error, and whether the write of
  these bytes fails. None when the reads given do not end the loop.
\<close>

datatype read_error = EOF | ReadErr string

fun idleCopy :: "(nat \<times> read_error option \<times> string option) list \<Rightarrow> int \<Rightarrow> (int \<times> string option) option" where
  "idleCopy [] copied = None"
| "idleCopy ((n, rerr, werr) # evs) copied =
     (if 0 < n \<and> werr \<noteq> None then Some (copied, werr)
      else
        (let copied' = (if 0 < n then copied + int n else copied) in
         case rerr of
           Some EOF \<Rightarrow> Some (copied', None)
         | Some (ReadErr e) \<Rightarrow> Some (copied', Some e)
         | None \<Rightarrow> idleCopy evs copied'))"

text \<open>
  \<open>SpliceObserved\<close> as a machine over what the two copying goroutines and the ticker do. Direction
  true is from a to b. A direction's counter is also the total its goroutine returns.
\<close>

datatype splice_event = Copied bool nat | Tick | Ended bool "string option" duration

record splice =
  sx_aToB :: int
  sx_bToA :: int
  sx_lastA :: int
  sx_lastB :: int
  sx_flushed :: "(int \<times> int) list"
  sx_done :: "(bool \<times> string option \<times> duration) list"

definition splice_start :: splice where
  "splice_start = \<lparr>sx_aToB = 0, sx_bToA = 0, sx_lastA = 0, sx_lastB = 0, sx_flushed = [], sx_done = []\<rparr>"

definition flush_delta :: "splice \<Rightarrow> splice" where
  "flush_delta s =
     (let dA = sx_aToB s - sx_lastA s; dB = sx_bToA s - sx_lastB s in
      s\<lparr>sx_lastA := sx_aToB s, sx_lastB := sx_bToA s,
        sx_flushed := (if dA \<noteq> 0 \<or> dB \<noteq> 0 then sx_flushed s @ [(dA, dB)] else sx_flushed s)\<rparr>)"

inductive splice_step :: "bool \<Rightarrow> splice \<Rightarrow> splice_event \<Rightarrow> splice \<Rightarrow> bool" for flushing where
  step_copied: "dir \<notin> fst ` set (sx_done s) \<Longrightarrow>
    splice_step flushing s (Copied dir n)
      (if dir then s\<lparr>sx_aToB := sx_aToB s + int n\<rparr> else s\<lparr>sx_bToA := sx_bToA s + int n\<rparr>)"
| step_tick: "flushing \<Longrightarrow> splice_step flushing s Tick (flush_delta s)"
| step_ended: "dir \<notin> fst ` set (sx_done s) \<Longrightarrow>
    splice_step flushing s (Ended dir err t) (s\<lparr>sx_done := sx_done s @ [(dir, err, t)]\<rparr>)"

inductive splice_run :: "bool \<Rightarrow> splice \<Rightarrow> splice_event list \<Rightarrow> splice \<Rightarrow> bool" for flushing where
  run_nil: "splice_run flushing s [] s"
| run_cons: "splice_step flushing s e s1 \<Longrightarrow> splice_run flushing s1 es s2 \<Longrightarrow> splice_run flushing s (e # es) s2"

record SpliceResult =
  sr_AtoB :: int
  sr_BtoA :: int
  sr_Err :: "string option"
  sr_AFirst :: bool
  sr_FirstEnd :: duration

definition splice_finish :: "bool \<Rightarrow> splice \<Rightarrow> SpliceResult \<times> (int \<times> int) list" where
  "splice_finish flushing s =
     (\<lparr>sr_AtoB = sx_aToB s, sr_BtoA = sx_bToA s,
       sr_Err = (case filter (\<lambda>(_, e, _). e \<noteq> None) (sx_done s) of [] \<Rightarrow> None | (_, e, _) # _ \<Rightarrow> e),
       sr_AFirst = fst (hd (sx_done s)), sr_FirstEnd = snd (snd (hd (sx_done s)))\<rparr>,
      sx_flushed (if flushing then flush_delta s else s))"

section \<open>Bytes: lemmas\<close>

lemma length_be_bytes [simp]: "length (be_bytes k v) = k"
  by (induction k v rule: be_bytes.induct) auto

lemma be_val_snoc: "be_val (bs @ [b]) = be_val bs * 256 + unat b"
  by (simp add: be_val_def)

lemma be_val_bytes: "be_val (be_bytes k v) = v mod 256 ^ k"
proof (induction k v rule: be_bytes.induct)
  case (2 k v)
  have "unat (of_nat v :: byte) = v mod 256" by (simp add: unat_of_nat)
  moreover have "v mod (256 * 256 ^ k) = 256 * (v div 256 mod 256 ^ k) + v mod 256"
    by (simp add: mod_mult2_eq)
  ultimately show ?case using 2 by (simp add: be_val_snoc)
qed (simp add: be_val_def)

lemma bytes_str_str [simp]: "bytes_str (str_bytes s) = s"
proof -
  have "char_of (unat (of_nat (ord c) :: byte)) = c" for c
    using ord_bound [of c] by (simp add: ord_def unat_of_nat)
  then show ?thesis by (simp add: bytes_str_def str_bytes_def map_idI)
qed

lemma length_str_bytes [simp]: "length (str_bytes s) = length s"
  by (simp add: str_bytes_def)

lemma unat_length_byte: "n \<le> 255 \<Longrightarrow> unat (of_nat n :: byte) = n"
  by (simp add: unat_of_nat)

lemma unat_word32: "(of_nat (be_val (be_bytes 4 (unat (w::32 word)))) :: 32 word) = w"
proof -
  have "unat w < 2 ^ 32" using unsigned_less [of w] by simp
  then show ?thesis by (simp add: be_val_bytes)
qed

lemma unat_word128: "(of_nat (be_val (be_bytes 16 (unat (w::128 word)))) :: 128 word) = w"
proof -
  have "unat w < 2 ^ 128" using unsigned_less [of w] by simp
  then show ?thesis by (simp add: be_val_bytes)
qed

section \<open>Datagrams\<close>

text \<open>The destination field as RFC 1928 reads it: address or name, port, and what follows.\<close>

datatype dest = DestIP ip | DestHost string

definition decode_addr :: "byte list \<Rightarrow> (dest \<times> nat \<times> byte list) option" where
  "decode_addr bs =
     (case bs of
        [] \<Rightarrow> None
      | t # r \<Rightarrow>
          if t = socks5ATYPv4 then
            (if length r < 6 then None else Some (DestIP (IPv4 (of_nat (be_val (take 4 r)))), be_val (take 2 (drop 4 r)), drop 6 r))
          else if t = socks5ATYPv6 then
            (if length r < 18 then None else Some (DestIP (ip_of16 (of_nat (be_val (take 16 r)))), be_val (take 2 (drop 16 r)), drop 18 r))
          else if t = socks5ATYPdomn then
            (case r of
               [] \<Rightarrow> None
             | l # r' \<Rightarrow> if length r' < unat l + 2 then None
                 else Some (DestHost (bytes_str (take (unat l) r')), be_val (take 2 (drop (unat l) r')), drop (unat l + 2) r'))
          else None)"

definition canonical_ip :: "ip \<Rightarrow> bool" where
  "canonical_ip ip \<longleftrightarrow> (case ip of IPv4 _ \<Rightarrow> True | IPv6 w \<Rightarrow> \<not> v4_mapped w)"

lemma canonical_raw: "canonical_ip (ip_of_raw z)"
  by (cases z) (simp_all add: canonical_ip_def ip_of16_def)

lemma ParseIP_canonical: "ParseIP s = Some ip \<Longrightarrow> canonical_ip ip"
  by (auto simp: ParseIP_def canonical_raw)

lemma port_bytes_val [simp]: "length (port_bytes p) = 2" "be_val (port_bytes p) = nat (p mod 65536)"
proof -
  have "nat (p mod 65536) < 65536" by (simp add: nat_less_iff)
  then show "be_val (port_bytes p) = nat (p mod 65536)" by (simp add: port_bytes_def be_val_bytes)
qed (simp add: port_bytes_def)

text \<open>What follows the type byte, by the kind of destination.\<close>

lemma appendSOCKSAddr_forms:
  "host \<noteq> [] \<Longrightarrow> appendSOCKSAddr buf ip host port = buf @ [socks5ATYPdomn, of_nat (length host)] @ str_bytes host @ port_bytes port"
  "appendSOCKSAddr buf (Some (IPv4 w)) [] port = buf @ [socks5ATYPv4] @ be_bytes 4 (unat w) @ port_bytes port"
  "appendSOCKSAddr buf (Some (IPv6 v)) [] port = buf @ [socks5ATYPv6] @ be_bytes 16 (unat v) @ port_bytes port"
  by (simp_all add: appendSOCKSAddr_def)

lemma decode_append_ip:
  "canonical_ip ip \<Longrightarrow> decode_addr (appendSOCKSAddr [] (Some ip) [] port @ rest) = Some (DestIP ip, nat (port mod 65536), rest)"
  by (cases ip) (simp_all add: appendSOCKSAddr_forms decode_addr_def socks_defs canonical_ip_def ip_of16_def unat_word32 unat_word128)

lemma decode_append_host:
  "host \<noteq> [] \<Longrightarrow> length host \<le> 255 \<Longrightarrow>
    decode_addr (appendSOCKSAddr [] ip host port @ rest) = Some (DestHost host, nat (port mod 65536), rest)"
  by (simp add: appendSOCKSAddr_forms decode_addr_def socks_defs unat_length_byte)

lemma appendSOCKSAddr_buf: "appendSOCKSAddr buf ip host port = buf @ appendSOCKSAddr [] ip host port"
  by (simp add: appendSOCKSAddr_def split: option.split ip.split)

lemma strip_append_ip:
  "canonical_ip ip \<Longrightarrow> stripSOCKSUDPHeader (appendSOCKSAddr [0, 0, 0] (Some ip) [] port @ payload) = Inr payload"
  by (cases ip) (simp_all add: appendSOCKSAddr_forms stripSOCKSUDPHeader_def socks_defs)

lemma drop_header: "length h = n \<Longrightarrow> drop n (h @ xs) = xs"
  by simp

lemma strip_append_host:
  assumes "host \<noteq> []" "length host \<le> 255"
  shows "stripSOCKSUDPHeader (appendSOCKSAddr [0, 0, 0] ip host port @ payload) =
    (if length host + length payload \<le> 2 then Inl (ShortDatagram (length host + length payload + 7)) else Inr payload)"
proof -
  let ?hdr = "[0, 0, 0, socks5ATYPdomn, of_nat (length host)] @ str_bytes host @ port_bytes port"
  have d: "appendSOCKSAddr [0, 0, 0] ip host port @ payload = ?hdr @ payload" using assms(1) by (simp add: appendSOCKSAddr_forms)
  have n: "(?hdr @ payload) ! 2 = 0" "(?hdr @ payload) ! 3 = socks5ATYPdomn" "unat ((?hdr @ payload) ! 4) = length host"
    using unat_length_byte [OF assms(2)] by simp_all
  have len: "length ?hdr = 7 + length host" by simp
  then have l: "length (?hdr @ payload) = 7 + length host + length payload" by simp
  have dr: "drop (7 + length host) (?hdr @ payload) = payload" by (rule drop_header [OF len])
  show ?thesis unfolding d stripSOCKSUDPHeader_def n l using dr by (auto simp: socks_defs)
qed

section \<open>The handshake, step by step\<close>

definition healthy :: "conn \<Rightarrow> bool" where "healthy c \<longleftrightarrow> cn_fault c = (\<lambda>_. None)"

lemma conn_Write_healthy:
  "healthy c \<Longrightarrow> conn_Write bs c = (None, c\<lparr>cn_writes := Suc (cn_writes c), cn_out := cn_out c @ bs\<rparr>)"
  by (simp add: conn_Write_def healthy_def)

lemma ReadFull_append: "cn_in c = bs @ rest \<Longrightarrow> length bs = n \<Longrightarrow> ReadFull n c = (Some bs, c\<lparr>cn_in := rest\<rparr>)"
  by (simp add: ReadFull_def)

lemma read_addr_append:
  assumes "canonical_ip ip" "appendSOCKSAddr [] (Some ip) [] port = t # bs" "cn_in c = bs @ rest"
  shows "read_addr resolve t c = (Inr ip, c\<lparr>cn_in := port_bytes port @ rest\<rparr>)"
proof (cases ip)
  case (IPv4 w)
  then have "t = socks5ATYPv4" "cn_in c = be_bytes 4 (unat w) @ port_bytes port @ rest"
    using assms(2,3) by (auto simp: appendSOCKSAddr_forms)
  then show ?thesis using IPv4 ReadFull_append [of c "be_bytes 4 (unat w)"] by (simp add: read_addr_def socks_defs unat_word32)
next
  case (IPv6 w)
  then have "t = socks5ATYPv6" "cn_in c = be_bytes 16 (unat w) @ port_bytes port @ rest"
    using assms(2,3) by (auto simp: appendSOCKSAddr_forms)
  then show ?thesis using IPv6 assms(1) ReadFull_append [of c "be_bytes 16 (unat w)"] by (simp add: read_addr_def socks_defs unat_word128 canonical_ip_def ip_of16_def)
qed

lemma readSOCKSReply_append:
  assumes "canonical_ip ip" "cn_in c = [socks5Version, socks5RepOK, rsv] @ appendSOCKSAddr [] (Some ip) [] port @ rest"
  shows "readSOCKSReply resolve remote c =
    (Inr (if IsUnspecified ip then (case remote of Some r \<Rightarrow> r | None \<Rightarrow> ip) else ip, port mod 65536), c\<lparr>cn_in := rest\<rparr>)"
proof -
  obtain t bs where t: "appendSOCKSAddr [] (Some ip) [] port = t # bs"
    by (cases ip) (simp_all add: appendSOCKSAddr_forms)
  have "ReadFull 4 c = (Some [socks5Version, socks5RepOK, rsv, t], c\<lparr>cn_in := bs @ rest\<rparr>)"
    using ReadFull_append [of c "[socks5Version, socks5RepOK, rsv, t]"] assms(2) t by simp
  moreover have "read_addr resolve t (c\<lparr>cn_in := bs @ rest\<rparr>) = (Inr ip, c\<lparr>cn_in := port_bytes port @ rest\<rparr>)"
    using read_addr_append [OF assms(1) t, of "c\<lparr>cn_in := bs @ rest\<rparr>" rest] by simp
  moreover have "ReadFull 2 (c\<lparr>cn_in := port_bytes port @ rest\<rparr>) = (Some (port_bytes port), c\<lparr>cn_in := rest\<rparr>)"
    using ReadFull_append [of "c\<lparr>cn_in := port_bytes port @ rest\<rparr>" "port_bytes port" rest 2] by simp
  ultimately show ?thesis by (simp add: readSOCKSReply_def)
qed

definition auth_bytes :: "Proxy \<Rightarrow> byte list" where
  "auth_bytes p = [socks5AuthVer, of_nat (length (px_Username p))] @ str_bytes (px_Username p) @
     [of_nat (length (px_Password p))] @ str_bytes (px_Password p)"

lemma negotiate_accepts:
  assumes "healthy c" "length (px_Username p) \<le> 255" "length (px_Password p) \<le> 255"
    "cn_in c = (if auth then [socks5Version, socks5UserPass, ver, 0] else [socks5Version, socks5NoAuth]) @ rest"
  shows "socks5Negotiate p c = (None, c\<lparr>cn_in := rest, cn_writes := cn_writes c + (if auth then 2 else 1),
    cn_out := cn_out c @ greeting p @ (if auth then auth_bytes p else [])\<rparr>)"
proof (cases auth)
  case False
  let ?c1 = "c\<lparr>cn_writes := Suc (cn_writes c), cn_out := cn_out c @ greeting p\<rparr>"
  have "ReadFull 2 ?c1 = (Some [socks5Version, socks5NoAuth], ?c1\<lparr>cn_in := rest\<rparr>)" 
    using ReadFull_append [of ?c1 "[socks5Version, socks5NoAuth]" rest 2] assms(4) False by simp
  then show ?thesis using False assms(1) by (simp add: socks5Negotiate_def conn_Write_healthy)
next
  case True
  let ?c1 = "c\<lparr>cn_writes := Suc (cn_writes c), cn_out := cn_out c @ greeting p\<rparr>"
  let ?c2 = "?c1\<lparr>cn_in := [ver, 0] @ rest\<rparr>"
  let ?c3 = "?c2\<lparr>cn_writes := Suc (Suc (cn_writes c)), cn_out := cn_out c @ greeting p @ auth_bytes p\<rparr>"
  have "ReadFull 2 ?c1 = (Some [socks5Version, socks5UserPass], ?c2)" 
    using ReadFull_append [of ?c1 "[socks5Version, socks5UserPass]" "[ver, 0] @ rest" 2] assms(4) True by simp
  moreover have "conn_Write (auth_bytes p) ?c2 = (None, ?c3)"
    using conn_Write_healthy [of ?c2] assms(1) by (simp add: healthy_def)
  moreover have "ReadFull 2 ?c3 = (Some [ver, 0], ?c3\<lparr>cn_in := rest\<rparr>)"
    using ReadFull_append [of ?c3 "[ver, 0]" rest 2] by simp
  ultimately show ?thesis using True assms(1-3)
    by (simp add: socks5Negotiate_def socks5UserPassAuth_def conn_Write_healthy socks_defs auth_bytes_def)
qed

lemma closed_steps:
  shows "cn_closed (snd (conn_Write bs c)) = cn_closed c" "cn_closed (snd (ReadFull n c)) = cn_closed c"
  by (simp_all add: conn_Write_def ReadFull_def split: option.split)

lemma closed_negotiate: "cn_closed (snd (socks5Negotiate p c)) = cn_closed c"
proof -
  have "cn_closed (snd (socks5UserPassAuth p c)) = cn_closed c" for c
    by (auto simp: socks5UserPassAuth_def conn_Write_def ReadFull_def split: option.splits)
  then show ?thesis by (auto simp: socks5Negotiate_def conn_Write_def ReadFull_def split: option.splits)
qed

lemma closed_reply: "cn_closed (snd (readSOCKSReply resolve remote c)) = cn_closed c"
proof -
  have a: "cn_closed (snd (read_addr resolve t c)) = cn_closed c" for t c
    by (auto simp: read_addr_def ReadFull_def Let_def split: option.splits sum.splits)
  show ?thesis
  proof (cases "length (cn_in c) < 4")
    case False
    obtain r c2 where r: "read_addr resolve (take 4 (cn_in c) ! 3) (c\<lparr>cn_in := drop 4 (cn_in c)\<rparr>) = (r, c2)" by fastforce
    have "cn_closed c2 = cn_closed c" using a [of "take 4 (cn_in c) ! 3" "c\<lparr>cn_in := drop 4 (cn_in c)\<rparr>"] r by simp
    then show ?thesis using False r
      by (auto simp: readSOCKSReply_def ReadFull_def split: sum.splits)
  qed (simp add: readSOCKSReply_def ReadFull_def)
qed

section \<open>Properties\<close>

text \<open>C28: A datagram written for a destination carries exactly that destination (the address when the host is
  a literal, the name otherwise), the port modulo 65536 and the payload, and stripping its header
  gives the payload back. The one exception: \<open>stripSOCKSUDPHeader\<close> refuses as short a datagram
  whose name and payload have at most two bytes together.\<close>
theorem socks_udp_roundtrip:
  assumes "WriteTo relay payload host port = (None, sent)"
  shows "\<exists>d. sent = [d] \<and> take 3 d = [0, 0, 0]
    \<and> decode_addr (drop 3 d) = Some (case ParseIP host of Some ip \<Rightarrow> DestIP ip | None \<Rightarrow> DestHost host, nat (port mod 65536), payload)
    \<and> stripSOCKSUDPHeader d =
        (if ParseIP host = None \<and> length host + length payload \<le> 2 then Inl (ShortDatagram (length d)) else Inr payload)"
proof -
  have h: "host \<noteq> []" "length host \<le> 255" "sent = [udp_datagram payload host port]"
    using assms by (auto simp: WriteTo_def split: if_splits option.splits)
  let ?ip = "ParseIP host"
  let ?h = "if ?ip = None then host else []"
  have d: "udp_datagram payload host port = [0, 0, 0] @ appendSOCKSAddr [] ?ip ?h port @ payload"
    by (simp add: udp_datagram_def appendSOCKSAddr_buf [of "[0, 0, 0]"] split: option.split)
  show ?thesis
  proof (cases ?ip)
    case None
    then show ?thesis using d h decode_append_host [OF h(1,2)] strip_append_host [OF h(1,2), of None port payload]
      by (simp add: appendSOCKSAddr_buf [of "[0, 0, 0]"] appendSOCKSAddr_forms(1) [OF h(1)])
  next
    case (Some ip)
    then show ?thesis using d h decode_append_ip [OF ParseIP_canonical] strip_append_ip [OF ParseIP_canonical, of host ip port payload]
      by (simp add: appendSOCKSAddr_buf [of "[0, 0, 0]"])
  qed
qed

theorem socks_udp_roundtrip_witness:
  "\<exists>d. WriteTo (\<lambda>_. None) [1, 2, 3] ''dns.example'' 53 = (None, [d]) \<and> stripSOCKSUDPHeader d = Inr [1, 2, 3]
    \<and> decode_addr (drop 3 d) = Some (DestHost ''dns.example'', 53, [1, 2, 3])"
proof -
  have w: "WriteTo (\<lambda>_. None) [1, 2, 3] ''dns.example'' 53 = (None, [udp_datagram [1, 2, 3] ''dns.example'' 53])"
    by (simp add: WriteTo_def)
  have "ParseIP ''dns.example'' = None" by code_simp
  then show ?thesis using socks_udp_roundtrip [OF w] w by simp
qed

text \<open>Opening a UDP association. Against a peer that selects a method, accepts the credentials if it asked
  for them and replies with an address, the handshake succeeds: the session's relay is that address
  (the peer's own one for an unspecified address), the bytes written are the greeting, the
  credentials when asked and the request, and exactly the bytes of the replies are consumed. In every
  failing run the control connection, if it was opened, is closed, and in a successful one it is not.\<close>
lemma udp_associate:
  assumes "px_Protocol p = ProtocolSOCKS5" "length (px_Username p) \<le> 255" "length (px_Password p) \<le> 255"
    "healthy ctrl" "\<not> cn_closed ctrl" "canonical_ip ip" "0 \<le> port" "port < 65536"
    "cn_in ctrl = (if auth then [socks5Version, socks5UserPass, ver, 0] else [socks5Version, socks5NoAuth])
       @ [socks5Version, socks5RepOK, rsv] @ appendSOCKSAddr [] (Some ip) [] port @ rest"
    "relay = (if IsUnspecified ip then (case remote of Some r \<Rightarrow> r | None \<Rightarrow> ip) else ip, port)"
    "DialUDPAssociate resolve remote dialUDP dialed q = (res, oc)" "\<And>c. dialed = Inr c \<Longrightarrow> \<not> cn_closed c"
  shows "(dialUDP relay = None \<longrightarrow> (\<exists>c. DialUDPAssociate resolve remote dialUDP (Inr ctrl) p = (Inr relay, Some c)
        \<and> cn_in c = rest \<and> \<not> cn_closed c
        \<and> cn_out c = cn_out ctrl @ greeting p @ (if auth then auth_bytes p else []) @ [5, 3, 0, 1, 0, 0, 0, 0, 0, 0]))
    \<and> (\<forall>c. oc = Some c \<longrightarrow> cn_closed c = (\<exists>e. res = Inl e))"
proof
  let ?c1 = "ctrl\<lparr>cn_in := [socks5Version, socks5RepOK, rsv] @ appendSOCKSAddr [] (Some ip) [] port @ rest,
    cn_writes := cn_writes ctrl + (if auth then 2 else 1), cn_out := cn_out ctrl @ greeting p @ (if auth then auth_bytes p else [])\<rparr>"
  have n: "socks5Negotiate p ctrl = (None, ?c1)" by (rule negotiate_accepts [OF assms(4,2,3,9)])
  have r: "appendSOCKSAddr [socks5Version, socks5CmdAssoc, 0x00] (Some (IPv4 0)) [] 0 = [5, 3, 0, 1, 0, 0, 0, 0, 0, 0]"
    by code_simp
  define c2 where "c2 = snd (conn_Write [5, 3, 0, 1, 0, 0, 0, 0, 0, 0] ?c1)"
  have c2: "conn_Write [5, 3, 0, 1, 0, 0, 0, 0, 0, 0] ?c1 = (None, c2)"
      "cn_in c2 = [socks5Version, socks5RepOK, rsv] @ appendSOCKSAddr [] (Some ip) [] port @ rest" "\<not> cn_closed c2"
      "cn_out c2 = cn_out ctrl @ greeting p @ (if auth then auth_bytes p else []) @ [5, 3, 0, 1, 0, 0, 0, 0, 0, 0]"
    using conn_Write_healthy [of ?c1 "[5, 3, 0, 1, 0, 0, 0, 0, 0, 0]"] assms(4,5) by (simp_all add: healthy_def c2_def)
  have "readSOCKSReply resolve remote c2 = (Inr relay, c2\<lparr>cn_in := rest\<rparr>)"
    using readSOCKSReply_append [OF assms(6) c2(2), of resolve remote] assms(7,8,10) by simp
  then show "dialUDP relay = None \<longrightarrow> (\<exists>c. DialUDPAssociate resolve remote dialUDP (Inr ctrl) p = (Inr relay, Some c)
        \<and> cn_in c = rest \<and> \<not> cn_closed c
        \<and> cn_out c = cn_out ctrl @ greeting p @ (if auth then auth_bytes p else []) @ [5, 3, 0, 1, 0, 0, 0, 0, 0, 0])"
    using n c2 r assms(1) by (simp add: DialUDPAssociate_def)
  show "\<forall>c. oc = Some c \<longrightarrow> cn_closed c = (\<exists>e. res = Inl e)"
  proof (intro allI impI)
    fix c assume oc: "oc = Some c"
    then obtain c0 where c0: "dialed = Inr c0" "\<not> cn_closed c0"
      using assms(11,12) by (cases dialed) (auto simp: DialUDPAssociate_def split: if_splits)
    have "\<not> cn_closed c'" if "socks5Negotiate q c0 = (a, c1)" "conn_Write bs c1 = (b, c2)" "readSOCKSReply resolve remote c2 = (d, c')"
      for a b d bs c1 c2 c'
      using closed_negotiate [of q c0] closed_steps(1) [of bs c1] closed_reply [of resolve remote c2] that c0(2) by simp
    then show "cn_closed c = (\<exists>e. res = Inl e)" using assms(11) c0(1) oc
      by (auto simp: DialUDPAssociate_def ctrl_Close_def split: if_splits prod.splits option.splits sum.splits)
  qed
qed

definition demo_ctrl :: conn where
  "demo_ctrl = \<lparr>cn_in = [socks5Version, socks5NoAuth, socks5Version, socks5RepOK, 0] @ appendSOCKSAddr [] (Some (IPv4 0)) [] 1080 @ [9],
     cn_out = [], cn_writes = 0, cn_fault = (\<lambda>_. None), cn_closed = False\<rparr>"

lemma udp_associate_witness:
  "\<exists>c. DialUDPAssociate (\<lambda>_. Inl []) (Some (IPv4 16909060)) (\<lambda>_. None) (Inr demo_ctrl) demo_proxy = (Inr (IPv4 16909060, 1080), Some c)
    \<and> cn_in c = [9] \<and> cn_out c = [5, 1, 0] @ [5, 3, 0, 1, 0, 0, 0, 0, 0, 0]"
proof -
  have h: "px_Protocol demo_proxy = ProtocolSOCKS5" "length (px_Username demo_proxy) \<le> 255" "length (px_Password demo_proxy) \<le> 255"
      "healthy demo_ctrl" "\<not> cn_closed demo_ctrl" "canonical_ip (IPv4 0)" "0 \<le> (1080::int)" "(1080::int) < 65536"
      "cn_in demo_ctrl = (if False then [socks5Version, socks5UserPass, 0, 0] else [socks5Version, socks5NoAuth])
         @ [socks5Version, socks5RepOK, 0] @ appendSOCKSAddr [] (Some (IPv4 0)) [] 1080 @ [9]"
    by (simp_all add: demo_proxy_def demo_ctrl_def healthy_def canonical_ip_def ProtocolSOCKS5_def)
  have r: "(IPv4 16909060, 1080) = (if IsUnspecified (IPv4 0) then (case Some (IPv4 16909060) of Some r \<Rightarrow> r | None \<Rightarrow> IPv4 0) else IPv4 0, 1080::int)"
    by (simp add: IsUnspecified_def)
  have d: "DialUDPAssociate (\<lambda>_. Inl []) (Some (IPv4 16909060)) (\<lambda>_. None) (Inl []) demo_proxy = (Inl (DialProxy []), None)"
    by (simp add: DialUDPAssociate_def demo_proxy_def ProtocolSOCKS5_def)
  have g: "greeting demo_proxy = [5, 1, 0]" "cn_out demo_ctrl = []" by (simp_all add: greeting_def demo_proxy_def socks_defs demo_ctrl_def)
  show ?thesis using udp_associate [OF h r d] g by auto
qed

text \<open>A response as a conforming HTTP proxy sends it.\<close>

definition http_lines :: "string list \<Rightarrow> byte list" where
  "http_lines ls = concat (map (\<lambda>l. str_bytes (l @ crlf)) ls)"

lemma of_nat_ord_eq: "(of_nat (ord c) :: byte) = 10 \<longleftrightarrow> c = CHR 0x0A"
proof
  assume "(of_nat (ord c) :: byte) = 10"
  then have "unat (of_nat (ord c) :: byte) = 10" by simp
  then have "ord c = 10" using ord_bound [of c] by (simp add: unat_of_nat)
  then have "ord c = ord CHR 0x0A" by (simp add: ord_def)
  then show "c = CHR 0x0A" unfolding ord_def of_char_eq_iff .
qed (simp add: ord_def)

lemma read_line_str:
  "CHR 0x0A \<notin> set l \<Longrightarrow> read_line (str_bytes (l @ crlf) @ rest) = Some (l @ crlf, rest)"
proof (induction l)
  case (Cons c l)
  have "char_of (unat (of_nat (ord c) :: byte)) = c" using ord_bound [of c] by (simp add: ord_def unat_of_nat)
  moreover have "(of_nat (ord c) :: byte) \<noteq> 10" using of_nat_ord_eq [of c] Cons(2) by auto
  ultimately show ?case using Cons by (simp add: str_bytes_def)
qed (simp add: str_bytes_def crlf_def ord_def, code_simp)

lemma drain_lines:
  "(\<forall>l\<in>set ls. l \<noteq> [] \<and> CHR 0x0A \<notin> set l) \<Longrightarrow> drain_headers (http_lines ls @ str_bytes crlf @ rest) = Some rest"
proof (induction ls)
  case Nil
  show ?case using read_line_str [of "[]" rest] by (simp add: drain_headers.simps http_lines_def)
next
  case (Cons l ls)
  have "read_line (str_bytes (l @ crlf) @ http_lines ls @ str_bytes crlf @ rest) = Some (l @ crlf, http_lines ls @ str_bytes crlf @ rest)"
    by (rule read_line_str) (use Cons(2) in simp)
  moreover have "l @ crlf \<noteq> crlf \<and> l @ crlf \<noteq> [CHR 0x0A]" using Cons(2) by (cases l) (auto simp: crlf_def)
  moreover have "http_lines (l # ls) @ str_bytes crlf @ rest = str_bytes (l @ crlf) @ http_lines ls @ str_bytes crlf @ rest"
    by (simp add: http_lines_def)
  ultimately show ?case using Cons by (simp only:) (subst drain_headers.simps, simp)
qed

text \<open>The HTTP CONNECT dialer. A response with status code 200, any headers and a blank line opens the tunnel,
  and the connection then yields exactly the bytes after the blank line, none lost to the header
  reader; a response with another code is an error, and every error of an opened connection closes it.\<close>
lemma http_tunnel:
  assumes "healthy c" "\<not> cn_closed c" "CHR 0x0A \<notin> set status" "10 < length status"
    "\<forall>l\<in>set headers. l \<noteq> [] \<and> CHR 0x0A \<notin> set l"
    "cn_in c = http_lines (status # headers) @ str_bytes crlf @ body"
    "http_Dial q dialed h i pt = (res, oc)" "\<And>c. dialed = Inr c \<Longrightarrow> \<not> cn_closed c"
  shows "(\<exists>c' r. http_Dial p (Inr c) host ip port = (r, Some c')
       \<and> cn_out c' = cn_out c @ str_bytes (connect_request p (pickTarget host ip port))
       \<and> (if take 3 (drop 9 (status @ crlf)) = ''200'' then r = Inr () \<and> cn_in c' = body \<and> \<not> cn_closed c'
          else r = Inl (HttpRefused (trimCRLF (status @ crlf))) \<and> cn_closed c'))
    \<and> (\<forall>c'. oc = Some c' \<longrightarrow> cn_closed c' = (\<exists>e. res = Inl e))"
proof
  have l: "read_line (cn_in c) = Some (status @ crlf, http_lines headers @ str_bytes crlf @ body)"
    using read_line_str [OF assms(3)] assms(6) by (simp add: http_lines_def)
  have n: "\<not> length (status @ crlf) < 12" using assms(4) by (simp add: crlf_def)
  show "\<exists>c' r. http_Dial p (Inr c) host ip port = (r, Some c')
       \<and> cn_out c' = cn_out c @ str_bytes (connect_request p (pickTarget host ip port))
       \<and> (if take 3 (drop 9 (status @ crlf)) = ''200'' then r = Inr () \<and> cn_in c' = body \<and> \<not> cn_closed c'
          else r = Inl (HttpRefused (trimCRLF (status @ crlf))) \<and> cn_closed c')"
    using l n assms(1,2) drain_lines [OF assms(5)] by (simp add: http_Dial_def conn_Write_healthy ctrl_Close_def del: length_append)
  show "\<forall>c'. oc = Some c' \<longrightarrow> cn_closed c' = (\<exists>e. res = Inl e)"
  proof (intro allI impI)
    fix c' assume oc: "oc = Some c'"
    then obtain c0 where c0: "dialed = Inr c0" "\<not> cn_closed c0"
      using assms(7,8) by (cases dialed) (auto simp: http_Dial_def)
    have "\<not> cn_closed c1" if "conn_Write bs c0 = (a, c1)" for a bs c1 using closed_steps(1) [of bs c0] that c0(2) by simp
    then show "cn_closed c' = (\<exists>e. res = Inl e)" using assms(7) c0(1) oc
      by (auto simp: http_Dial_def ctrl_Close_def split: prod.splits option.splits if_splits)
  qed
qed

lemma http_tunnel_witness:
  "\<exists>c'. http_Dial demo_proxy (Inr (demo_ctrl\<lparr>cn_in := http_lines [''HTTP/1.1 200 OK'', ''Via: x''] @ str_bytes crlf @ [22, 3]\<rparr>)) ''a.com'' (IPv4 0) 443
      = (Inr (), Some c') \<and> cn_in c' = [22, 3] \<and> \<not> cn_closed c'"
proof -
  let ?c = "demo_ctrl\<lparr>cn_in := http_lines [''HTTP/1.1 200 OK'', ''Via: x''] @ str_bytes crlf @ [22, 3]\<rparr>"
  have c: "healthy ?c" "\<not> cn_closed ?c" by (simp_all add: healthy_def demo_ctrl_def)
  have l: "CHR 0x0A \<notin> set ''HTTP/1.1 200 OK''" "10 < length ''HTTP/1.1 200 OK''" "\<forall>l\<in>set [''Via: x'']. l \<noteq> [] \<and> CHR 0x0A \<notin> set l"
      "take 3 (drop 9 (''HTTP/1.1 200 OK'' @ crlf)) = ''200''"
      "cn_in ?c = http_lines (''HTTP/1.1 200 OK'' # [''Via: x'']) @ str_bytes crlf @ [22, 3]"
    by simp_all
  have d: "http_Dial demo_proxy (Inl []) [] (IPv4 0) 0 = (Inl (HttpDial []), None)" by (simp add: http_Dial_def)
  have "\<exists>c' r. http_Dial demo_proxy (Inr ?c) ''a.com'' (IPv4 0) 443 = (r, Some c')
      \<and> (if take 3 (drop 9 (''HTTP/1.1 200 OK'' @ crlf)) = ''200'' then r = Inr () \<and> cn_in c' = [22, 3] \<and> \<not> cn_closed c'
          else r = Inl (HttpRefused (trimCRLF (''HTTP/1.1 200 OK'' @ crlf))) \<and> cn_closed c')"
    using http_tunnel [OF c l(1-3,5) d, where p = demo_proxy and host = "''a.com''" and ip = "IPv4 0" and port = 443] by blast
  then show ?thesis using l(4) by (simp only: refl if_True) blast
qed

section \<open>Accounting\<close>

text \<open>What a direction does to the machine, and what its goroutine does on its reads.\<close>

fun dir_trace :: "bool \<Rightarrow> splice_event list \<Rightarrow> (nat + string option) list" where
  "dir_trace d [] = []"
| "dir_trace d (Copied dir n # es) = (if dir = d then Inl n # dir_trace d es else dir_trace d es)"
| "dir_trace d (Tick # es) = dir_trace d es"
| "dir_trace d (Ended dir err t # es) = (if dir = d then Inr err # dir_trace d es else dir_trace d es)"

fun copy_trace :: "(nat \<times> read_error option \<times> string option) list \<Rightarrow> (nat + string option) list" where
  "copy_trace [] = []"
| "copy_trace ((n, rerr, werr) # evs) =
     (if 0 < n \<and> werr \<noteq> None then [Inr werr]
      else (if 0 < n then [Inl n] else []) @
        (case rerr of Some EOF \<Rightarrow> [Inr None] | Some (ReadErr e) \<Rightarrow> [Inr (Some e)] | None \<Rightarrow> copy_trace evs))"

definition trace_bytes :: "(nat + string option) list \<Rightarrow> int" where
  "trace_bytes tr = (\<Sum>x\<leftarrow>tr. case x of Inl n \<Rightarrow> int n | Inr _ \<Rightarrow> 0)"

definition trace_ends :: "(nat + string option) list \<Rightarrow> string option list" where
  "trace_ends tr = concat (map (\<lambda>x. case x of Inl _ \<Rightarrow> [] | Inr e \<Rightarrow> [e]) tr)"

lemmas trace_defs = trace_bytes_def trace_ends_def

lemma idleCopy_trace:
  "idleCopy evs n0 = Some (n, e) \<Longrightarrow> n = n0 + trace_bytes (copy_trace evs) \<and> trace_ends (copy_trace evs) = [e]"
  by (induction evs n0 rule: idleCopy.induct) (auto simp: trace_defs Let_def split: if_splits option.splits read_error.splits)

definition splice_inv :: "splice \<Rightarrow> bool" where
  "splice_inv s \<longleftrightarrow> sum_list (map fst (sx_flushed s)) = sx_lastA s \<and> sum_list (map snd (sx_flushed s)) = sx_lastB s
     \<and> sx_lastA s \<le> sx_aToB s \<and> sx_lastB s \<le> sx_bToA s
     \<and> (\<forall>(a, b)\<in>set (sx_flushed s). 0 \<le> a \<and> 0 \<le> b \<and> (a, b) \<noteq> (0, 0))"

lemma flush_delta_inv: "splice_inv s \<Longrightarrow> splice_inv (flush_delta s)"
  by (auto simp: splice_inv_def flush_delta_def Let_def)

lemma splice_run_inv:
  "splice_run flushing s es s' \<Longrightarrow> splice_inv s \<Longrightarrow> splice_inv s' \<and> (\<not> flushing \<longrightarrow> sx_flushed s' = sx_flushed s)
    \<and> sx_aToB s' = sx_aToB s + trace_bytes (dir_trace True es) \<and> sx_bToA s' = sx_bToA s + trace_bytes (dir_trace False es)"
proof (induction rule: splice_run.induct)
  case (run_cons s e s1 es s2)
  from run_cons(1) show ?case
  proof cases
    case (step_copied dir n)
    then have "splice_inv s1" using run_cons(4) by (auto simp: splice_inv_def)
    then show ?thesis using run_cons(3) step_copied by (auto simp: trace_bytes_def)
  next
    case step_tick
    then have "splice_inv s1" using flush_delta_inv run_cons(4) by simp
    then show ?thesis using run_cons(3) step_tick by (auto simp: flush_delta_def Let_def)
  next
    case (step_ended dir err t)
    then have "splice_inv s1" using run_cons(4) by (simp add: splice_inv_def)
    then show ?thesis using run_cons(3) step_ended by (auto simp: trace_bytes_def)
  qed
qed (simp add: trace_bytes_def)

lemma splice_run_done:
  "splice_run flushing s es s' \<Longrightarrow>
    map (fst \<circ> snd) (filter (\<lambda>x. fst x = d) (sx_done s')) = map (fst \<circ> snd) (filter (\<lambda>x. fst x = d) (sx_done s)) @ trace_ends (dir_trace d es)"
proof (induction rule: splice_run.induct)
  case (run_cons s e s1 es s2)
  from run_cons(1) show ?case
    by cases (use run_cons(3) in \<open>auto simp: trace_ends_def flush_delta_def Let_def split: if_splits\<close>)
qed (simp add: trace_ends_def)

text \<open>C29: The live byte accounting of a splice is exact. However the copies of both directions, the ticks of the
  flusher and the two ends interleave, the deltas reported are positive and add up to the totals
  returned, which are what each direction copied; without a flush callback nothing is reported; and
  the splice ends without error exactly when both directions did.\<close>
theorem splice_accounting:
  assumes "splice_run flushing splice_start es s" "splice_finish flushing s = (res, flushed)"
    "idleCopy readsA 0 = Some (nA, eA)" "dir_trace True es = copy_trace readsA"
    "idleCopy readsB 0 = Some (nB, eB)" "dir_trace False es = copy_trace readsB"
  shows "sr_AtoB res = nA \<and> sr_BtoA res = nB \<and> (sr_Err res = None \<longleftrightarrow> eA = None \<and> eB = None)
    \<and> (if flushing then sum_list (map fst flushed) = nA \<and> sum_list (map snd flushed) = nB
         \<and> (\<forall>(a, b)\<in>set flushed. 0 \<le> a \<and> 0 \<le> b \<and> (a, b) \<noteq> (0, 0))
       else flushed = [])"
proof -
  have start: "splice_inv splice_start" by (simp add: splice_inv_def splice_start_def)
  note run = splice_run_inv [OF assms(1) start]
  have tot: "sx_aToB s = nA" "sx_bToA s = nB"
    using run idleCopy_trace [OF assms(3)] idleCopy_trace [OF assms(5)] assms(4,6) by (simp_all add: splice_start_def)
  have ends: "map (fst \<circ> snd) (filter (\<lambda>x. fst x = True) (sx_done s)) = [eA]"
    "map (fst \<circ> snd) (filter (\<lambda>x. fst x = False) (sx_done s)) = [eB]"
    using splice_run_done [OF assms(1), of True] splice_run_done [OF assms(1), of False]
      idleCopy_trace [OF assms(3)] idleCopy_trace [OF assms(5)] assms(4,6) by (simp_all add: splice_start_def)
  have "(fst \<circ> snd) ` set (sx_done s) = {eA, eB}"
  proof -
    have "set (sx_done s) = set (filter (\<lambda>x. fst x = True) (sx_done s)) \<union> set (filter (\<lambda>x. fst x = False) (sx_done s))" by auto
    from arg_cong [OF this, of "image (fst \<circ> snd)"]
    have "(fst \<circ> snd) ` set (sx_done s) = set (map (fst \<circ> snd) (filter (\<lambda>x. fst x = True) (sx_done s)))
        \<union> set (map (fst \<circ> snd) (filter (\<lambda>x. fst x = False) (sx_done s)))" by (simp only: image_Un list.set_map)
    then show ?thesis unfolding ends by auto
  qed
  then have "(\<forall>x\<in>set (sx_done s). fst (snd x) = None) \<longleftrightarrow> eA = None \<and> eB = None" by (auto simp: set_eq_iff image_iff)
  moreover have "sr_Err res = None \<longleftrightarrow> (\<forall>x\<in>set (sx_done s). fst (snd x) = None)"
  proof -
    have e: "sr_Err res = (case filter (\<lambda>(_, e, _). e \<noteq> None) (sx_done s) of [] \<Rightarrow> None | (_, e, _) # _ \<Rightarrow> e)"
      using assms(2) by (auto simp: splice_finish_def)
    show ?thesis
    proof (cases "filter (\<lambda>(_, e, _). e \<noteq> None) (sx_done s)")
      case Nil
      then show ?thesis using e by (fastforce simp: filter_empty_conv)
    next
      case (Cons x xs)
      then have x: "x \<in> set (sx_done s)" "fst (snd x) \<noteq> None" by (auto simp: filter_eq_Cons_iff split: prod.splits)
      then have "sr_Err res \<noteq> None" using e Cons by (auto split: prod.splits)
      moreover have "\<not> (\<forall>x\<in>set (sx_done s). fst (snd x) = None)" using x by metis
      ultimately show ?thesis by (simp only: simp_thms)
    qed
  qed
  moreover have "splice_inv (flush_delta s)" using flush_delta_inv run by blast
  moreover have "sx_lastA (flush_delta s) = sx_aToB s" "sx_lastB (flush_delta s) = sx_bToA s" by (simp_all add: flush_delta_def Let_def)
  moreover have "sr_AtoB res = nA" "sr_BtoA res = nB" "flushed = sx_flushed (if flushing then flush_delta s else s)"
    using assms(2) tot by (auto simp: splice_finish_def)
  ultimately show ?thesis using run tot by (auto simp: splice_inv_def splice_start_def)
qed

theorem splice_accounting_witness:
  "\<exists>s res flushed. splice_run True splice_start [Copied True 5, Tick, Copied False 7, Ended True None 3, Ended False None 9] s
    \<and> splice_finish True s = (res, flushed) \<and> sr_AtoB res = 5 \<and> sum_list (map snd flushed) = 7"
proof -
  let ?es = "[Copied True 5, Tick, Copied False 7, Ended True None 3, Ended False None 9]"
  have "\<exists>s. splice_run True splice_start ?es s"
    by (rule exI, rule run_cons, rule step_copied, simp add: splice_start_def, rule run_cons, rule step_tick, simp,
        rule run_cons, rule step_copied, simp add: splice_start_def flush_delta_def Let_def,
        rule run_cons, rule step_ended, simp add: splice_start_def flush_delta_def Let_def,
        rule run_cons, rule step_ended, simp add: splice_start_def flush_delta_def Let_def, rule run_nil)
  then obtain s where r: "splice_run True splice_start ?es s" by blast
  obtain res flushed where f: "splice_finish True s = (res, flushed)" by fastforce
  have a: "idleCopy [(5, Some EOF, None)] 0 = Some (5, None)" "dir_trace True ?es = copy_trace [(5, Some EOF, None)]"
    "idleCopy [(7, Some EOF, None)] 0 = Some (7, None)" "dir_trace False ?es = copy_trace [(7, Some EOF, None)]" by simp_all
  show ?thesis using splice_accounting [OF r f a] r f by auto
qed

end
