(* ===== verification/Spec2Isabelle.thy ===== *)
theory Spec2Isabelle
  imports Upstream Dialer_Graph Lease_Store Forwarder Node_Pool Traffic Pool_Strategy Live_Conns Rule_Admin Socks5
begin

text \<open>
  em-wall, a DNS-level firewall and router for macOS: a daemon answers the DNS queries of
  the machine, decides each name by the user's rules (block, allow, route through an
  interface, a proxy or an xray outbound), pins the answered addresses to an interface with
  host routes, and carries the connections of proxied names through a user-space TCP stack
  to an upstream proxy. This library models the parts of \<open>src/core\<close> and \<open>src/daemon\<close> that
  decide where traffic goes, and proves what makes them correct.

  How the parts interact. A query enters \<open>handle\<close> (\<open>core/dnsproxy/dnsproxy.go\<close>); the engine
  (\<open>core/decision\<close>) looks the name up in the compiled rule index (\<open>core/rules\<close>); a routed
  name is resolved through the upstreams or gets an address of the fake-IP pool
  (\<open>core/dnsproxy/fakeip.go\<close>, persisted by \<open>core/rules/fakeip.go\<close>); its addresses are pinned by
  the route manager (\<open>core/routing\<close>) and, for proxy and xray rules, mapped to their hostname
  and proxies in the address table (\<open>core/proxy/table.go\<close>). When the client connects, the
  forwarder of the daemon (\<open>daemon/proxytun.go\<close>) picks a member of the binding by the
  memories of \<open>daemon/\<close> (sticky bindings, per-site avoidance, health, exit and route keys).

  \<^item> \<open>Go_Prelude\<close>: bytes, the parts of packages strings, strconv, time and fmt the code uses.
    Strings are byte strings; \<open>ToLower\<close> and \<open>TrimSpace\<close> act on ASCII, which is what names,
    patterns and interface fields are made of. Times are nanoseconds from Go's zero time.
  \<^item> \<open>Go_Net\<close>: addresses, networks, \<open>ParseIP\<close>, \<open>ParseCIDR\<close> and printing, of package net.
  \<^item> \<open>Rules\<close> (\<open>core/rules/rules.go\<close>, \<open>errors.go\<close>): patterns, validation, matching,
    specificity; the reference scans return the best match, by longest prefix for addresses.
  \<^item> \<open>Rule_Index\<close> (\<open>core/rules/index.go\<close>): the compiled index; both lookups are equivalent to
    the reference scans.
  \<^item> \<open>Decision\<close> (\<open>core/decision/decision.go\<close>): reload and decide.
  \<^item> \<open>Sql_Table\<close>: statements over a table held as a list of rows, and the locale of a table with
    unique keys. \<open>Rule_Store\<close> (\<open>store.go\<close>, \<open>customgroups.go\<close>, \<open>logbatch.go\<close> of \<open>core/rules\<close>): the
    methods of the store, each with an argument that says which of its statements fails. Tables
    keep their invariant whatever fails; what \<open>Add\<close> reports; stored rules and the engine composed;
    renames; batched logging is equivalent to single entries. \<open>Traffic\<close> (\<open>store.go\<close>): the usage
    table; rolling it up loses nothing.
  \<^item> \<open>Proxy_Store\<close> (\<open>core/proxy/store.go\<close>): the table of proxies with its cache by name under every
    interleaving of writes and reloads. \<open>Xray_Store\<close> (\<open>core/xray/store.go\<close>, \<open>set_store.go\<close>,
    \<open>fragment.go\<close>): entries and outbound sets; composed with the rule store, the engine and the
    DNS handler, rules bound to a set follow its enabled members or fail closed. The tables are
    interpretations of the locale of \<open>Sql_Table\<close>.
  \<^item> \<open>Xray_Config\<close> (\<open>config.go\<close>, \<open>fragment.go\<close> of \<open>core/xray\<close>): \<open>Generate\<close>, the configuration of the
    xray process, over JSON values. Which outbound a connection to each inbound takes, and that a
    generated configuration has unique tags and no dangling reference.
  \<^item> \<open>Fake_IP\<close> (\<open>core/dnsproxy/fakeip.go\<close>) and \<open>Lease_Store\<close> (\<open>core/rules/fakeip.go\<close>,
    \<open>daemon/fakeip_store.go\<close>): the pool with its two maps of shared lease objects and the
    write-behind queue, over a store interface that is a locale interpreted on the SQL table.
    Addresses are never shared and stay inside the block in every reachable state, also when
    database calls fail; the flush order is irrelevant; a restart keeps addresses.
  \<^item> \<open>Proxy_Table\<close> (\<open>core/proxy/table.go\<close>) and \<open>Routing\<close>, \<open>Route_Parsers\<close>
    (\<open>core/routing/routing.go\<close>): the address table, the route manager over a parameter that
    runs the route command, and the parsers of netstat and scutil output. Both tables
    own entries by rule, which is one locale with two interpretations.
  \<^item> \<open>Interfaces\<close> and \<open>Dialer_Graph\<close> (\<open>core/proxy/proxy.go\<close>, \<open>core/xray/xray.go\<close>, \<open>set.go\<close>,
    \<open>dialer.go\<close>, \<open>dialer_bulk.go\<close>, \<open>ports.go\<close>, \<open>observatory.go\<close>, \<open>mux.go\<close>, \<open>strategy.go\<close>): names,
    interface fields, dialer references and sets with their round trips, ports, the cycle
    check of dialers, slots and outbound tags, multiplexing.
  \<^item> \<open>Dns_Proxy\<close> and \<open>Upstream\<close> (\<open>core/dnsproxy/dnsproxy.go\<close>): the handler as one step on the
    composed state of engine, pool, routes and table, and the ranking of upstream replies.
    The handler answers every query exactly once, fails closed (no unpinned address is
    delivered for a routed name), and keeps the pool consistent.
  \<^item> \<open>Health\<close> (\<open>daemon/tcp_health.go\<close>, \<open>udp_health.go\<close>): the memory of dead destinations and
    its brake on connection storms; the penalty ladders are one locale with two
    interpretations.
  \<^item> \<open>Selection\<close> (\<open>daemon/proxysticky.go\<close>, \<open>siteavoid.go\<close>, \<open>uplink_witness.go\<close>, \<open>exitkeys.go\<close>,
    \<open>routekeys.go\<close>, \<open>logsample.go\<close>, \<open>dialgate.go\<close>, and \<open>diverseOrder\<close> of \<open>proxytun.go\<close>): the
    memories behind the choice of a member, when a binding moves, when a member is avoided for
    a site, the bound of the dial gate, and the launch order of a race.
  \<^item> \<open>Latency\<close> (\<open>core/netprobe/latency.go\<close>): the latency tracker; when its circuit breaker opens
    and closes in every reachable state, and the order of the ranking with its hysteresis.
  \<^item> \<open>Forwarder\<close> (\<open>daemon/proxytun.go\<close>, \<open>routeOf\<close> of \<open>routekeys.go\<close>): the composition of these: the
    order in which members are tried, serial rounds, the hedged race as a machine over its
    events, the retry loop, the blame of failed members and the handler of a TCP connection.
    The retry loop relies on rounds through a locale interpreted on both kinds of round.
  \<^item> \<open>Socks5\<close> (\<open>udp.go\<close>, \<open>dialer.go\<close>, \<open>forwarder.go\<close> of \<open>core/proxy\<close>): the SOCKS5 handshake and datagram
    framing over the bytes a peer sends, the HTTP CONNECT dialer, and the byte accounting of a
    splice under every interleaving of its two directions and the flusher.
  \<^item> \<open>Node_Pool\<close> (\<open>daemon/xray_nodepark.go\<close>, \<open>xray_shortlist.go\<close>): which members of a dialer slot
    are parked, never without a live sibling and never for more than an hour, and which are on
    the shortlist of the balancer, which is full, unbeaten by the margins and stable.
  \<^item> \<open>Path_Probe\<close> (\<open>daemon/xray_pathprobe.go\<close>): the prober that marks members broken: its verdicts against
    their specification in every reachable state, a round never condemns all it tested, and its tests
    log in with users the generated configuration routes. \<open>Pool_Timeline\<close> (\<open>xray_timeline.go\<close>): the
    recorded health of pools, what its statistics count, and where its roles agree with the
    configuration. \<open>Pool_Strategy\<close> (\<open>xray_strategy.go\<close>): the strategy of a pool, the pick of an agile
    pool, and the automatic classifier against its rule.
  \<^item> \<open>Live_Apply\<close> (\<open>daemon/xray_live.go\<close>, \<open>changedPathEntries\<close> of \<open>stalepath.go\<close>): a changed configuration
    as a plan of API calls on the running process: the calls converge to the wanted configuration,
    and no prefix of them touches an entry that the plan does not report as changed. \<open>Live_Conns\<close>
    (the rest of \<open>stalepath.go\<close>): the registry of open connections as a state machine in which
    unregistering is two steps; its counter is exact and a sweep closes exactly the stalled
    connections of changed paths.
  \<^item> \<open>Group_Match\<close> (\<open>match.go\<close>, \<open>dynamic.go\<close> of \<open>core/groups\<close>, the pattern tests of \<open>groups_runtime.go\<close>,
    \<open>groups_sync.go\<close> and the cache of \<open>dynamic_groups.go\<close> in \<open>daemon\<close>): groups of patterns, when a rule
    covers a pattern (which is inclusion of what they match), feeds of address ranges. \<open>Rule_Admin\<close>
    (the handlers for rules and groups of \<open>handlers.go\<close>, \<open>groups_sync.go\<close>, \<open>dynamic_groups.go\<close>): the
    handlers on the composed state of tables, engine, routes and address table. The engine follows
    the tables and nothing outlives its rule; synchronising a group closes its gaps; a failed refresh
    changes nothing. Lemmas record where a handler falls short of what it says.

  Conventions. State is explicit: a record per struct, an operation returns the new record.
  Errors are values. A Go map is a map, and where the order of its enumeration could matter
  the enumeration is an argument constrained to list the map. Mutexes are not modelled: each
  operation runs under the lock of its struct and is one step; reachable states are
  inductive predicates over these steps. Every loop is a total function, so no fuel is used.
  Collaborators outside the repository (the DNS library, the route command, the database
  engine, the clock) are parameters or named hypotheses.

  Not modelled, and why: the other handlers and the wiring of the daemon (\<open>handlers.go\<close>,
  \<open>main.go\<close>, the xray supervisor) and the IPC protocol, which move data between the parts;
  the netstack, which is I/O; geo data
  (\<open>core/geo\<close>) and the entries and icons of the group registry (\<open>core/groups\<close>), tables and file
  formats; the floating-point costs of members (parameters of the ranking and of the shortlist); the UDP
  relay of the forwarder; the share-link parsers
  (\<open>core/xray\<close>), the supervisor of xray, the system DNS settings and the portable archive, which are mostly
  text formats and calls of system tools; the application shell in \<open>app/\<close> and the command line in \<open>cli/\<close>.
\<close>

end
